(* ===== verification/Transitions.thy ===== *)
theory Transitions
  imports Main
begin

text \<open>
  Systems of threads as transition systems: the states that are reached from the initial ones,
  and the interface of an invariant.
\<close>

inductive reaches :: "('s \<Rightarrow> bool) \<Rightarrow> ('s \<Rightarrow> 's \<Rightarrow> bool) \<Rightarrow> 's \<Rightarrow> bool" for init step where
  reaches_init: "init s \<Longrightarrow> reaches init step s"
| reaches_step: "reaches init step s \<Longrightarrow> step s s' \<Longrightarrow> reaches init step s'"

lemma reaches_mono:
  assumes "reaches init step s" and "\<And>s. init s \<Longrightarrow> init' s" and "\<And>s s'. step s s' \<Longrightarrow> step' s s'"
  shows "reaches init' step' s"
  using assms(1) by induction (blast intro: reaches.intros assms(2,3))+

lemma reaches_front:
  assumes "reaches (\<lambda>x. x = s1) step s2" and "step s s1"
  shows "reaches (\<lambda>x. x = s) step s2"
  using assms(1)
proof induction
  case (reaches_init x)
  then show ?case using reaches_step[OF reaches.reaches_init[of "\<lambda>x. x = s" s step]] assms(2) by simp
qed (rule reaches_step)

text \<open>A predicate that holds initially and is kept by every step holds in every state reached.\<close>

locale step_invariant =
  fixes init :: "'s \<Rightarrow> bool"
    and step :: "'s \<Rightarrow> 's \<Rightarrow> bool"
    and inv :: "'s \<Rightarrow> bool"
  assumes inv_init: "init s \<Longrightarrow> inv s"
    and inv_step: "step s s' \<Longrightarrow> inv s \<Longrightarrow> inv s'"
begin

lemma reaches_inv: "reaches init step s \<Longrightarrow> inv s"
  by (induction rule: reaches.induct) (auto intro: inv_init inv_step)

text \<open>A run from any state that satisfies it keeps it.\<close>

lemma reaches_from_inv: "reaches (\<lambda>x. x = s) step s' \<Longrightarrow> inv s \<Longrightarrow> inv s'"
  by (induction rule: reaches.induct) (auto intro: inv_step)

end

end
