(* ===== verification/Selib_Prelude.thy ===== *)
theory Selib_Prelude
  imports Transitions "HOL-Library.Word" "HOL-Library.Multiset"
begin

text \<open>
  What every component of the library shares: the names of the machine types, the faults a C++
  program can run into where the language gives it no meaning, results that carry such a
  fault, guarded reads and writes of an array, C strings, and chains of nodes in a store.

  A result is \<open>Ok x\<close> when the code runs through and \<open>Fault f\<close> when it reaches
  undefined behaviour: a null pointer is followed, an array is left, an object is used after
  it was deleted, an integer is divided by zero. Code that may spin forever is wrapped in one
  more \<open>option\<close>, \<open>None\<close> meaning that it does not return.
\<close>

unbundle bit_operations_syntax

section \<open>Machine types\<close>

type_synonym u8 = "8 word"
type_synonym u32 = "32 word"
type_synonym u64 = "64 word"

section \<open>Faults and results\<close>

datatype fault =
    Null_Deref
  | Out_Of_Bounds
  | Div_By_Zero
  | Use_After_Free
  | Stack_Underflow
  | Uninitialised
  | Int_Overflow

type_synonym 'a result = "fault + 'a"

abbreviation Ok :: "'a \<Rightarrow> 'a result" where
  "Ok \<equiv> Inr"

abbreviation Fault :: "fault \<Rightarrow> 'a result" where
  "Fault \<equiv> Inl"

text \<open>Run \<open>m\<close>; a fault stops the code, a value is handed on.\<close>

definition andthen :: "'a result \<Rightarrow> ('a \<Rightarrow> 'b result) \<Rightarrow> 'b result" where
  "andthen m f = (case m of Inl e \<Rightarrow> Inl e | Inr x \<Rightarrow> f x)"

lemma andthen_simps [simp]:
  "andthen (Inl e) f = Inl e"
  "andthen (Inr x) f = f x"
  by (simp_all add: andthen_def)

lemma andthen_eq_Ok [simp]:
  "andthen m f = Inr y \<longleftrightarrow> (\<exists>x. m = Inr x \<and> f x = Inr y)"
  by (cases m) auto

section \<open>Arrays\<close>

definition rd :: "'a list \<Rightarrow> nat \<Rightarrow> 'a result" where
  "rd xs i = (if i < length xs then Ok (xs ! i) else Fault Out_Of_Bounds)"

definition wr :: "'a list \<Rightarrow> nat \<Rightarrow> 'a \<Rightarrow> 'a list result" where
  "wr xs i v = (if i < length xs then Ok (xs[i := v]) else Fault Out_Of_Bounds)"

lemma rd_ok [simp]: "i < length xs \<Longrightarrow> rd xs i = Ok (xs ! i)"
  by (simp add: rd_def)

lemma wr_ok [simp]: "i < length xs \<Longrightarrow> wr xs i v = Ok (xs[i := v])"
  by (simp add: wr_def)

lemma rd_out [simp]: "\<not> i < length xs \<Longrightarrow> rd xs i = Fault Out_Of_Bounds"
  by (simp add: rd_def)

lemma wr_out [simp]: "\<not> i < length xs \<Longrightarrow> wr xs i v = Fault Out_Of_Bounds"
  by (simp add: wr_def)

text \<open>The same for an index of type \<^verbatim>\<open>int\<close>.\<close>

definition rdi :: "'a list \<Rightarrow> int \<Rightarrow> 'a result" where
  "rdi xs i = (if 0 \<le> i then rd xs (nat i) else Fault Out_Of_Bounds)"

definition wri :: "'a list \<Rightarrow> int \<Rightarrow> 'a \<Rightarrow> 'a list result" where
  "wri xs i v = (if 0 \<le> i then wr xs (nat i) v else Fault Out_Of_Bounds)"

section \<open>Searching a list\<close>

lemma find_append: "find P (xs @ ys) = (case find P xs of None \<Rightarrow> find P ys | Some x \<Rightarrow> Some x)"
  by (induction xs) auto

lemma distinct_map_snoc:
  assumes "\<forall>x\<in>set xs. g x = f x" and "distinct (map f xs)" and "g a \<notin> f ` set xs"
  shows "distinct (map g (xs @ [a]))"
proof -
  have "map g (xs @ [a]) = map f xs @ [g a]" using assms(1) by simp
  moreover have "distinct (map f xs @ [g a])" using assms(2,3) by simp
  ultimately show ?thesis by (simp only:)
qed

lemma find_Some_mem: "find P xs = Some x \<Longrightarrow> x \<in> set xs \<and> P x"
  by (auto simp: find_Some_iff)

section \<open>Facts on machine words\<close>

named_theorems word_facts

lemma unat_lt_of_less [word_facts]: "(a :: 'n::len word) < b \<Longrightarrow> unat a < unat b"
  by (simp add: word_less_nat_alt)

lemma bit_push_one [word_facts]:
  "n < LENGTH('n) \<Longrightarrow> bit (push_bit n 1 :: 'n::len word) i \<longleftrightarrow> i = n"
  by (auto simp: bit_simps)

section \<open>Code that may not return\<close>

text \<open>Run \<open>m\<close>, then \<open>f\<close> on its value, unless \<open>m\<close> faults or does not return.\<close>

definition runs :: "'a result option \<Rightarrow> ('a \<Rightarrow> 'b result option) \<Rightarrow> 'b result option" where
  "runs m f =
     (case m of None \<Rightarrow> None | Some (Inl e) \<Rightarrow> Some (Inl e) | Some (Inr x) \<Rightarrow> f x)"

lemma runs_simps [simp]:
  "runs None f = None"
  "runs (Some (Inl e)) f = Some (Inl e)"
  "runs (Some (Inr x)) f = f x"
  by (simp_all add: runs_def)

lemma runs_mono [partial_function_mono]:
  fixes B :: "('c \<Rightarrow> 'd option) \<Rightarrow> 'a result option"
    and C :: "'a \<Rightarrow> ('c \<Rightarrow> 'd option) \<Rightarrow> 'b result option"
  assumes "mono_option B" and "\<And>y. mono_option (\<lambda>f. C y f)"
  shows "mono_option (\<lambda>f. runs (B f) (\<lambda>y. C y f))"
proof -
  have eq: "runs m g = Option.bind m (\<lambda>r. case r of Inl e \<Rightarrow> Some (Inl e) | Inr x \<Rightarrow> g x)"
    for m :: "'a result option" and g :: "'a \<Rightarrow> 'b result option"
    by (cases m) (auto simp: runs_def)
  have "mono_option (\<lambda>f. Option.bind (B f) (\<lambda>r. case r of Inl e \<Rightarrow> Some (Inl e) | Inr x \<Rightarrow> C x f))"
  proof (rule bind_mono[OF assms(1)])
    show "mono_option (\<lambda>f. case r of Inl e \<Rightarrow> Some (Inl e) | Inr x \<Rightarrow> C x f)" for r
      using assms(2) by (cases r) (auto intro: option.const_mono)
  qed
  then show ?thesis by (simp only: eq)
qed

section \<open>Nodes in a store\<close>

text \<open>
  A pointer is \<open>None\<close> for null or \<open>Some a\<close>. The field that links a node to the next is
  read by a function \<open>nx\<close> that is undefined (\<open>None\<close>) at an address that holds no live
  node. \<open>path nx p as q\<close>: following the links from \<open>p\<close> runs through the nodes
  \<open>as\<close> and arrives at \<open>q\<close>.
\<close>

type_synonym ptr = "nat option"

fun path :: "(nat \<Rightarrow> ptr option) \<Rightarrow> ptr \<Rightarrow> nat list \<Rightarrow> ptr \<Rightarrow> bool" where
  "path nx p [] q \<longleftrightarrow> p = q"
| "path nx p (a # as) q \<longleftrightarrow> p = Some a \<and> (\<exists>r. nx a = Some r \<and> path nx r as q)"

abbreviation chain :: "(nat \<Rightarrow> ptr option) \<Rightarrow> ptr \<Rightarrow> nat list \<Rightarrow> bool" where
  "chain nx p as \<equiv> path nx p as None"

lemma path_append [simp]:
  "path nx p (as @ bs) q \<longleftrightarrow> (\<exists>r. path nx p as r \<and> path nx r bs q)"
  by (induction as arbitrary: p) auto

lemma path_upd [simp]: "a \<notin> set as \<Longrightarrow> path (nx(a := x)) p as q = path nx p as q"
  by (induction as arbitrary: p) auto

lemma path_cong: "(\<And>a. a \<in> set as \<Longrightarrow> nx a = nx' a) \<Longrightarrow> path nx p as q = path nx' p as q"
  by (induction as arbitrary: p) auto

lemma chain_None [simp]: "chain nx None as \<longleftrightarrow> as = []"
  by (cases as) auto

lemma chain_Some: "chain nx (Some a) as \<longleftrightarrow> (\<exists>r bs. as = a # bs \<and> nx a = Some r \<and> chain nx r bs)"
  by (cases as) auto

lemma path_live: "path nx p as q \<Longrightarrow> a \<in> set as \<Longrightarrow> nx a \<noteq> None"
  by (induction as arbitrary: p) auto

lemma chain_unique: "chain nx p as \<Longrightarrow> chain nx p bs \<Longrightarrow> as = bs"
proof (induction as arbitrary: p bs)
  case (Cons a as)
  then show ?case by (cases bs) auto
qed simp

lemma chain_tail: "chain nx p (as @ a # bs) \<Longrightarrow> chain nx (Some a) (a # bs)"
  by auto

lemma chain_distinct: "chain nx p as \<Longrightarrow> distinct as"
proof (induction as arbitrary: p)
  case (Cons a as)
  have "a \<notin> set as"
  proof
    assume "a \<in> set as"
    then obtain ys zs where as: "as = ys @ a # zs" by (auto simp: in_set_conv_decomp)
    then have "chain nx (Some a) (a # zs)" using Cons.prems by auto
    moreover have "chain nx (Some a) (a # as)" using Cons.prems by simp
    ultimately have "a # zs = a # as" by (rule chain_unique)
    then show False using as by simp
  qed
  moreover have "distinct as" using Cons by auto
  ultimately show ?case by simp
qed simp

text \<open>Appending a fresh last node, and unlinking a node behind another.\<close>

lemma chain_snoc:
  assumes "chain nx p (as @ [b])" and "a \<notin> set (as @ [b])"
  shows "chain ((nx(a \<mapsto> None))(b \<mapsto> Some a)) p (as @ [b, a])"
  using assms chain_distinct[OF assms(1)] by auto

lemma chain_unlink:
  assumes "chain nx p (as @ b # a # cs)" and "nx a = Some q"
  shows "chain ((nx(a := x))(b \<mapsto> q)) p (as @ b # cs)"
  using assms chain_distinct[OF assms(1)] by auto

lemma chain_unlink_head:
  assumes "chain nx (Some a) (a # cs)" and "nx a = Some q"
  shows "chain (nx(a := x)) q cs"
  using assms chain_distinct[OF assms(1)] by auto

text \<open>Reading and writing the link of a node; a node that is not live has none.\<close>

definition link_rd :: "(nat \<rightharpoonup> ptr) \<Rightarrow> nat \<Rightarrow> ptr result" where
  "link_rd nx a = (case nx a of None \<Rightarrow> Fault Use_After_Free | Some r \<Rightarrow> Ok r)"

definition link_wr :: "(nat \<rightharpoonup> ptr) \<Rightarrow> nat \<Rightarrow> ptr \<Rightarrow> (nat \<rightharpoonup> ptr) result" where
  "link_wr nx a r = (if nx a = None then Fault Use_After_Free else Ok (nx(a \<mapsto> r)))"

lemma link_rd_ok [simp]: "nx a = Some r \<Longrightarrow> link_rd nx a = Ok r"
  by (simp add: link_rd_def)

lemma link_wr_ok [simp]: "nx a = Some r' \<Longrightarrow> link_wr nx a r = Ok (nx(a \<mapsto> r))"
  by (simp add: link_wr_def)

end
