(* ===== verification/Bit_Array.thy ===== *)
theory Bit_Array
  imports Selib_Prelude
begin

text \<open>
  \<^verbatim>\<open>util/bit_array.h\<close>: class \<^verbatim>\<open>BitArray\<close>, an array of bits packed into bytes, the first
  position of a byte being its most significant bit. The record holds the class's fields;
  \<open>bits_buf\<close> is \<open>None\<close> for the null pointer. An allocation with
  \<^verbatim>\<open>new (std::nothrow)\<close> succeeds or not as the argument \<open>mem\<close> says.
\<close>

record bit_array =
  bits_buf :: "u8 list option"
  pow_of_two :: u32
  offset_mask :: u32
  align_len :: u32
  buf_len :: u32

section \<open>Operations\<close>

text \<open>The loop of \<^verbatim>\<open>create\<close> that counts how often \<^verbatim>\<open>bits_len\<close> can be halved.\<close>

function pow_loop :: "u32 \<Rightarrow> u32 \<Rightarrow> u32" where
  "pow_loop pow bits_len =
     (if bits_len > 0 then pow_loop (pow + 1) (drop_bit 1 bits_len) else pow)"
  by pat_completeness auto
termination
proof (relation "measure (\<lambda>(pow, bits_len). unat bits_len)")
  fix pow bits_len :: u32
  assume "bits_len > 0"
  then have "0 < unat bits_len"
    by (simp add: word_less_nat_alt)
  then have "unat (drop_bit 1 bits_len) < unat bits_len"
    by (simp add: drop_bit_Suc unat_div)
  then show "((pow + 1, drop_bit 1 bits_len), (pow, bits_len))
      \<in> measure (\<lambda>(pow, bits_len). unat bits_len)"
    by simp
qed simp

declare pow_loop.simps [simp del]

definition ba_create :: "bit_array \<Rightarrow> bool \<Rightarrow> u32 \<Rightarrow> bit_array \<times> bool" where
  "ba_create ba mem len =
     (let num = unat len div 8 + 1;
          ba = ba\<lparr>buf_len := len\<rparr>
      in if \<not> mem then (ba\<lparr>bits_buf := None\<rparr>, False)
         else (ba\<lparr>bits_buf := Some (replicate num 0),
                  offset_mask := 8 - 1,
                  align_len := 8 - 1,
                  pow_of_two := pow_loop 0 (drop_bit 1 8)\<rparr>, True))"

definition get_position :: "bit_array \<Rightarrow> u32 \<Rightarrow> u32 \<times> u32" where
  "get_position ba pos =
     (drop_bit (unat (pow_of_two ba)) pos, pos AND offset_mask ba)"

text \<open>
  \<^verbatim>\<open>get_raw_bit\<close> returns the address of the byte, here its index in the buffer, and writes
  the offset; it returns the null pointer, here \<open>None\<close>, past the end.
\<close>

definition get_raw_bit :: "bit_array \<Rightarrow> u32 \<Rightarrow> (nat \<times> u32) option" where
  "get_raw_bit ba pos =
     (if pos \<ge> buf_len ba then None
      else let (idx, os) = get_position ba pos in Some (unat idx, os))"

definition buf_rd :: "bit_array \<Rightarrow> nat \<Rightarrow> u8 result" where
  "buf_rd ba i = (case bits_buf ba of None \<Rightarrow> Fault Null_Deref | Some bs \<Rightarrow> rd bs i)"

definition buf_wr :: "bit_array \<Rightarrow> nat \<Rightarrow> u8 \<Rightarrow> bit_array result" where
  "buf_wr ba i v =
     (case bits_buf ba of None \<Rightarrow> Fault Null_Deref
      | Some bs \<Rightarrow> andthen (wr bs i v) (\<lambda>bs'. Ok (ba\<lparr>bits_buf := Some bs'\<rparr>)))"

text \<open>
  \<^verbatim>\<open>test_bit\<close> returns the bit and, through its two pointer arguments, the byte's address and
  the offset; past the end it returns false and writes neither (\<open>None\<close>).
\<close>

definition test_bit :: "bit_array \<Rightarrow> u32 \<Rightarrow> (bool \<times> (nat \<times> u32) option) result" where
  "test_bit ba pos =
     (if pos \<ge> buf_len ba then Ok (False, None)
      else case get_raw_bit ba pos of
        None \<Rightarrow> Fault Null_Deref
      | Some (tp, os) \<Rightarrow>
          andthen (buf_rd ba tp) (\<lambda>t.
            let t = drop_bit (unat (align_len ba - os)) t;
                t = t AND 1
            in Ok (t = 1, Some (tp, os))))"

definition ba_set_bit :: "bit_array \<Rightarrow> u32 \<Rightarrow> (bit_array \<times> bool) result" where
  "ba_set_bit ba pos =
     (if pos \<ge> buf_len ba then Ok (ba, False)
      else let (idx, offset) = get_position ba pos;
               mask = push_bit (unat (align_len ba - offset)) (1 :: u8)
           in andthen (buf_rd ba (unat idx)) (\<lambda>b.
              andthen (buf_wr ba (unat idx) (b OR mask)) (\<lambda>ba'. Ok (ba', True))))"

definition ba_clear_bit :: "bit_array \<Rightarrow> u32 \<Rightarrow> (bit_array \<times> bool) result" where
  "ba_clear_bit ba pos =
     (if pos \<ge> buf_len ba then Ok (ba, False)
      else let (idx, offset) = get_position ba pos;
               mask = NOT (push_bit (unat (align_len ba - offset)) (1 :: u8))
           in andthen (buf_rd ba (unat idx)) (\<lambda>b.
              andthen (buf_wr ba (unat idx) (b AND mask)) (\<lambda>ba'. Ok (ba', True))))"

text \<open>\<^verbatim>\<open>dump\<close>, with the numbers it prints of each byte.\<close>

fun dump_loop :: "bit_array \<Rightarrow> nat list \<Rightarrow> (nat \<times> u8) list result" where
  "dump_loop ba [] = Ok []"
| "dump_loop ba (i # is) =
     andthen (buf_rd ba i) (\<lambda>b. andthen (dump_loop ba is) (\<lambda>printed. Ok ((i, b) # printed)))"

definition ba_dump :: "bit_array \<Rightarrow> (nat \<times> u8) list result" where
  "ba_dump ba = (let num = unat (buf_len ba) div 8 + 1 in dump_loop ba [0..<num])"

section \<open>Invariant and abstraction\<close>

definition ba_ok :: "bit_array \<Rightarrow> bool" where
  "ba_ok ba \<longleftrightarrow> pow_of_two ba = 3 \<and> offset_mask ba = 7 \<and> align_len ba = 7 \<and>
     (case bits_buf ba of None \<Rightarrow> False | Some bs \<Rightarrow> length bs = unat (buf_len ba) div 8 + 1)"

text \<open>The bit a position stands for: bit \<open>7 - p mod 8\<close> of byte \<open>p div 8\<close>.\<close>

definition byte_bit :: "u8 list \<Rightarrow> nat \<Rightarrow> bool" where
  "byte_bit bs p = bit (bs ! (p div 8)) (7 - p mod 8)"

definition bits_of :: "bit_array \<Rightarrow> nat \<Rightarrow> bool" where
  "bits_of ba p = (case bits_buf ba of None \<Rightarrow> False | Some bs \<Rightarrow> byte_bit bs p)"

lemma ba_okE:
  assumes "ba_ok ba"
  obtains bs where "bits_buf ba = Some bs" "length bs = unat (buf_len ba) div 8 + 1"
    "pow_of_two ba = 3" "offset_mask ba = 7" "align_len ba = 7"
  using assms by (auto simp: ba_ok_def split: option.splits)

text \<open>\<^verbatim>\<open>dump\<close> prints the bytes of the buffer, all of them and no more.\<close>

lemma dump_loop_ok:
  "bits_buf ba = Some bs \<Longrightarrow> \<forall>i\<in>set is. i < length bs \<Longrightarrow> dump_loop ba is = Ok (map (\<lambda>i. (i, bs ! i)) is)"
  by (induction "is") (auto simp: buf_rd_def)

lemma ba_dump_all:
  assumes "ba_ok ba"
  shows "\<exists>bs. bits_buf ba = Some bs \<and> ba_dump ba = Ok (enumerate 0 bs)"
proof -
  obtain bs where bs: "bits_buf ba = Some bs" "length bs = unat (buf_len ba) div 8 + 1"
    using assms by (rule ba_okE)
  then have "ba_dump ba = Ok (map (\<lambda>i. (i, bs ! i)) [0..<length bs])"
    unfolding ba_dump_def Let_def bs(2)[symmetric] by (intro dump_loop_ok) auto
  moreover have "map (\<lambda>i. (i, bs ! i)) [0..<length bs] = enumerate 0 bs"
    by (rule nth_equalityI) (simp_all add: nth_enumerate_eq)
  ultimately show ?thesis using bs(1) by auto
qed

lemma and_7_mod_8: "unat (pos AND 7 :: u32) = unat pos mod 8"
proof -
  have "(7 :: u32) = mask 3" by (simp add: mask_eq_exp_minus_1)
  then have "pos AND 7 = take_bit 3 pos" by (simp add: take_bit_eq_mask)
  then show ?thesis by (simp add: take_bit_eq_mod unat_mod)
qed

lemma seven_minus_and: "unat (7 - (pos AND 7) :: u32) = 7 - unat pos mod 8"
proof -
  have "(pos AND 7) \<le> 7" by (rule word_and_le1)
  then show ?thesis by (simp add: unat_sub and_7_mod_8)
qed

lemma get_position_ok:
  assumes "ba_ok ba"
  shows "unat (fst (get_position ba pos)) = unat pos div 8"
    and "unat (align_len ba - snd (get_position ba pos)) = 7 - unat pos mod 8"
  using assms
  by (auto elim!: ba_okE simp: get_position_def drop_bit_eq_div unat_div
        seven_minus_and)

lemma pow_loop_create: "pow_loop 0 4 = 3"
  by code_simp

section \<open>What the operations do\<close>

lemma ba_create_ok [simp]: "ba_ok (fst (ba_create ba True len))"
  by (simp add: ba_create_def ba_ok_def pow_loop_create Let_def)

lemma ba_create_clear:
  assumes "p < unat len"
  shows "\<not> bits_of (fst (ba_create ba True len)) p"
proof -
  have "p div 8 < unat len div 8 + 1" using assms by (simp add: div_le_mono less_Suc_eq_le)
  then show ?thesis by (simp add: ba_create_def bits_of_def byte_bit_def Let_def del: replicate_Suc)
qed

lemma drop_and_1_eq: "(drop_bit n (t :: u8) AND 1 = 1) = bit t n"
  by (simp add: and_one_eq bit_iff_odd_drop_bit odd_iff_mod_2_eq_one)

lemma pos_byte: "p < n \<Longrightarrow> p div 8 < n div 8 + (1 :: nat)"
  by (simp add: div_le_mono less_Suc_eq_le)

lemma test_bit_ok:
  assumes "ba_ok ba" and "pos < buf_len ba"
  shows "test_bit ba pos = Ok (bits_of ba (unat pos), Some (unat pos div 8, pos AND 7))"
proof -
  obtain bs where bs: "bits_buf ba = Some bs" "length bs = unat (buf_len ba) div 8 + 1"
    "pow_of_two ba = 3" "offset_mask ba = 7" "align_len ba = 7"
    using assms(1) by (rule ba_okE)
  have "unat pos div 8 < length bs"
    using assms(2) bs(2) pos_byte[OF unat_lt_of_less] by simp
  moreover have "get_position ba pos = (fst (get_position ba pos), pos AND 7)"
    using bs by (simp add: get_position_def)
  ultimately show ?thesis
    using assms bs get_position_ok[OF assms(1), of pos]
    by (auto simp: test_bit_def get_raw_bit_def buf_rd_def bits_of_def byte_bit_def
        drop_and_1_eq Let_def not_le split: prod.splits)
qed

lemma test_bit_beyond: "pos \<ge> buf_len ba \<Longrightarrow> test_bit ba pos = Ok (False, None)"
  by (simp add: test_bit_def)

lemma pos_split_eq:
  "p div 8 = q div 8 \<Longrightarrow> 7 - p mod 8 = 7 - q mod (8 :: nat) \<Longrightarrow> p = q"
proof -
  assume a: "p div 8 = q div 8" "7 - p mod 8 = 7 - q mod 8"
  moreover have "p mod 8 < 8" "q mod 8 < 8" by auto
  ultimately have "p mod 8 = q mod 8" by linarith
  with a show "p = q" by (metis div_mult_mod_eq)
qed

text \<open>Setting or clearing one bit of one byte changes the bit of that position only.\<close>

lemma byte_bit_set:
  assumes "p div 8 < length bs"
  shows "byte_bit (bs[p div 8 := bs ! (p div 8) OR push_bit (7 - p mod 8) 1]) q
     = (q = p \<or> byte_bit bs q)"
  using assms pos_split_eq[of q p]
  by (auto simp: byte_bit_def bit_simps nth_list_update)

lemma byte_bit_clear:
  assumes "p div 8 < length bs"
  shows "byte_bit (bs[p div 8 := bs ! (p div 8) AND NOT (push_bit (7 - p mod 8) 1)]) q
     = (q \<noteq> p \<and> byte_bit bs q)"
  using assms pos_split_eq[of q p]
  by (auto simp: byte_bit_def bit_simps nth_list_update)

lemma ba_set_bit_ok:
  assumes "ba_ok ba" and "pos < buf_len ba"
  obtains ba' where "ba_set_bit ba pos = Ok (ba', True)" "ba_ok ba'" "buf_len ba' = buf_len ba"
    "bits_of ba' = (bits_of ba)(unat pos := True)"
proof -
  obtain bs where bs: "bits_buf ba = Some bs" "length bs = unat (buf_len ba) div 8 + 1"
    "pow_of_two ba = 3" "offset_mask ba = 7" "align_len ba = 7"
    using assms(1) by (rule ba_okE)
  have l: "unat pos div 8 < length bs"
    using assms(2) bs(2) pos_byte[OF unat_lt_of_less] by simp
  let ?ba = "ba\<lparr>bits_buf := Some (bs[unat pos div 8 :=
      bs ! (unat pos div 8) OR push_bit (7 - unat pos mod 8) 1])\<rparr>"
  have "ba_set_bit ba pos = Ok (?ba, True)"
    using assms l bs get_position_ok[OF assms(1), of pos]
    by (auto simp: ba_set_bit_def buf_rd_def buf_wr_def Let_def not_le split: prod.splits)
  moreover have "ba_ok ?ba" using bs by (simp add: ba_ok_def)
  moreover have "bits_of ?ba = (bits_of ba)(unat pos := True)"
    using bs byte_bit_set[OF l] by (auto simp: bits_of_def fun_eq_iff)
  ultimately show ?thesis using that by simp
qed

lemma ba_clear_bit_ok:
  assumes "ba_ok ba" and "pos < buf_len ba"
  obtains ba' where "ba_clear_bit ba pos = Ok (ba', True)" "ba_ok ba'" "buf_len ba' = buf_len ba"
    "bits_of ba' = (bits_of ba)(unat pos := False)"
proof -
  obtain bs where bs: "bits_buf ba = Some bs" "length bs = unat (buf_len ba) div 8 + 1"
    "pow_of_two ba = 3" "offset_mask ba = 7" "align_len ba = 7"
    using assms(1) by (rule ba_okE)
  have l: "unat pos div 8 < length bs"
    using assms(2) bs(2) pos_byte[OF unat_lt_of_less] by simp
  let ?ba = "ba\<lparr>bits_buf := Some (bs[unat pos div 8 :=
      bs ! (unat pos div 8) AND NOT (push_bit (7 - unat pos mod 8) 1)])\<rparr>"
  have "ba_clear_bit ba pos = Ok (?ba, True)"
    using assms l bs get_position_ok[OF assms(1), of pos]
    by (auto simp: ba_clear_bit_def buf_rd_def buf_wr_def Let_def not_le split: prod.splits)
  moreover have "ba_ok ?ba" using bs by (simp add: ba_ok_def)
  moreover have "bits_of ?ba = (bits_of ba)(unat pos := False)"
    using bs byte_bit_clear[OF l] by (auto simp: bits_of_def fun_eq_iff)
  ultimately show ?thesis using that by simp
qed

section \<open>The interface: a store of bits\<close>

text \<open>
  A store of bits has a length and a bit for every position below it; writing a position
  changes that bit alone, writing past the end is refused and changes nothing.
\<close>

fun run_puts :: "(bool \<Rightarrow> 's \<Rightarrow> u32 \<Rightarrow> ('s \<times> bool) result) \<Rightarrow> 's \<Rightarrow> (bool \<times> u32) list \<Rightarrow> 's result"
where
  "run_puts put s [] = Ok s"
| "run_puts put s ((b, p) # ops) = andthen (put b s p) (\<lambda>(s', _). run_puts put s' ops)"

fun bits_after :: "u32 \<Rightarrow> (bool \<times> u32) list \<Rightarrow> (nat \<Rightarrow> bool) \<Rightarrow> (nat \<Rightarrow> bool)" where
  "bits_after len [] f = f"
| "bits_after len ((b, p) # ops) f =
     bits_after len ops (if p < len then f(unat p := b) else f)"

locale bit_store =
  fixes inv :: "'s \<Rightarrow> bool"
    and len :: "'s \<Rightarrow> u32"
    and abs :: "'s \<Rightarrow> nat \<Rightarrow> bool"
    and test :: "'s \<Rightarrow> u32 \<Rightarrow> bool result"
    and put :: "bool \<Rightarrow> 's \<Rightarrow> u32 \<Rightarrow> ('s \<times> bool) result"
  assumes test_in: "inv s \<Longrightarrow> p < len s \<Longrightarrow> test s p = Ok (abs s (unat p))"
    and put_in: "inv s \<Longrightarrow> p < len s \<Longrightarrow>
      \<exists>s'. put b s p = Ok (s', True) \<and> inv s' \<and> len s' = len s \<and> abs s' = (abs s)(unat p := b)"
    and put_out: "inv s \<Longrightarrow> \<not> p < len s \<Longrightarrow> put b s p = Ok (s, False)"
begin

lemma run_puts_abs:
  "inv s \<Longrightarrow> \<exists>s'. run_puts put s ops = Ok s' \<and> inv s' \<and> len s' = len s \<and>
     abs s' = bits_after (len s) ops (abs s)"
proof (induction ops arbitrary: s)
  case Nil
  then show ?case by simp
next
  case (Cons op ops)
  obtain b p where op: "op = (b, p)" by (cases op)
  show ?case
  proof (cases "p < len s")
    case True
    then obtain s' where "put b s p = Ok (s', True)" "inv s'" "len s' = len s"
      "abs s' = (abs s)(unat p := b)"
      using put_in Cons.prems by blast
    with True op show ?thesis using Cons.IH[of s'] by (auto simp: fun_upd_def)
  next
    case False
    with op show ?thesis using Cons.IH[OF Cons.prems] put_out[OF Cons.prems] by auto
  qed
qed

lemma test_after_run:
  assumes "inv s" and "run_puts put s ops = Ok s'" and "p < len s"
  shows "test s' p = Ok (bits_after (len s) ops (abs s) (unat p))"
  using run_puts_abs[OF assms(1), of ops] assms(2,3) test_in by auto

end

definition ba_test :: "bit_array \<Rightarrow> u32 \<Rightarrow> bool result" where
  "ba_test ba pos = andthen (test_bit ba pos) (\<lambda>(ret, _). Ok ret)"

definition ba_put :: "bool \<Rightarrow> bit_array \<Rightarrow> u32 \<Rightarrow> (bit_array \<times> bool) result" where
  "ba_put b ba pos = (if b then ba_set_bit ba pos else ba_clear_bit ba pos)"

interpretation ba: bit_store ba_ok buf_len bits_of ba_test ba_put
proof
  fix ba pos
  assume "ba_ok ba" "pos < buf_len ba"
  then show "ba_test ba pos = Ok (bits_of ba (unat pos))"
    by (simp add: ba_test_def test_bit_ok)
next
  fix ba pos b
  assume a: "ba_ok ba" "pos < buf_len ba"
  show "\<exists>ba'. ba_put b ba pos = Ok (ba', True) \<and> ba_ok ba' \<and> buf_len ba' = buf_len ba \<and>
      bits_of ba' = (bits_of ba)(unat pos := b)"
  proof (cases b)
    case True
    obtain ba' where "ba_set_bit ba pos = Ok (ba', True)" "ba_ok ba'" "buf_len ba' = buf_len ba"
      "bits_of ba' = (bits_of ba)(unat pos := True)" using a by (rule ba_set_bit_ok)
    with True show ?thesis by (simp add: ba_put_def fun_upd_def)
  next
    case False
    obtain ba' where "ba_clear_bit ba pos = Ok (ba', True)" "ba_ok ba'" "buf_len ba' = buf_len ba"
      "bits_of ba' = (bits_of ba)(unat pos := False)" using a by (rule ba_clear_bit_ok)
    with False show ?thesis by (simp add: ba_put_def fun_upd_def)
  qed
next
  fix ba pos b
  assume "ba_ok ba" "\<not> pos < buf_len ba"
  then show "ba_put b ba pos = Ok (ba, False)"
    by (simp add: ba_put_def ba_set_bit_def ba_clear_bit_def not_less)
qed

lemma bits_after_cong:
  "(\<And>i. i < unat len \<Longrightarrow> f i = g i) \<Longrightarrow> i < unat len \<Longrightarrow>
     bits_after len ops f i = bits_after len ops g i"
proof (induction len ops f arbitrary: g rule: bits_after.induct)
  case (2 len b p ops f)
  show ?case
    unfolding bits_after.simps by (rule "2.IH") (use "2.prems" in auto)
qed simp

text \<open>
  C17. A bit array of any length, created and then written by any sequence of
  \<^verbatim>\<open>set_bit\<close> and \<^verbatim>\<open>clear_bit\<close> calls (positions past the end included), never leaves its
  buffer, and \<^verbatim>\<open>test_bit\<close> answers at every position with the last bit written there,
  false where none was.
\<close>

theorem bit_array_refines_bits:
  assumes "pos < len"
  shows "\<exists>ba'. run_puts ba_put (fst (ba_create ba True len)) ops = Ok ba' \<and>
     test_bit ba' pos =
       Ok (bits_after len ops (\<lambda>_. False) (unat pos), Some (unat pos div 8, pos AND 7))"
proof -
  let ?ba = "fst (ba_create ba True len)"
  have len: "buf_len ?ba = len" by (simp add: ba_create_def Let_def)
  obtain ba' where run: "run_puts ba_put ?ba ops = Ok ba'" and ok: "ba_ok ba'"
    and len': "buf_len ba' = len" and bits: "bits_of ba' = bits_after len ops (bits_of ?ba)"
    using ba.run_puts_abs[OF ba_create_ok, of ba len ops] by (auto simp: len)
  have "bits_of ba' (unat pos) = bits_after len ops (\<lambda>_. False) (unat pos)"
    unfolding bits by (rule bits_after_cong)
      (use assms in \<open>simp_all add: ba_create_clear unat_lt_of_less\<close>)
  then show ?thesis using run test_bit_ok[OF ok] assms len' by simp
qed

theorem bit_array_refines_bits_witness:
  "\<exists>ba'. run_puts ba_put (fst (ba_create \<lparr>bits_buf = None, pow_of_two = 0, offset_mask = 0,
       align_len = 0, buf_len = 0\<rparr> True 20)) [(True, 9), (True, 10), (False, 9), (True, 99)] = Ok ba' \<and>
     test_bit ba' 10 = Ok (True, Some (1, 2))"
  using bit_array_refines_bits[of 10 20 _ "[(True, 9), (True, 10), (False, 9), (True, 99)]"]
  by simp

end
