(* ===== verification/Array_Lock.thy ===== *)
theory Array_Lock
  imports Bit_Array
begin

text \<open>
  \<^verbatim>\<open>util/array_lock.h\<close>: \<^verbatim>\<open>ArrayLock\<close>, one spin lock per bit of a bit array. Its only field
  is the bit array, so its state is a \<open>bit_array\<close>. First the functions as one thread
  runs them alone, then threads interleaving at every access to the shared bytes.
\<close>

section \<open>The functions, run by one thread\<close>

definition al_create :: "bit_array \<Rightarrow> bool \<Rightarrow> u32 \<Rightarrow> bit_array \<times> bool" where
  "al_create ba mem len = ba_create ba mem len"

definition al_set_bit :: "u8 \<Rightarrow> u32 \<Rightarrow> u8" where
  "al_set_bit lock offset = lock OR push_bit (unat (7 - offset)) 1"

definition al_clear_bit :: "u8 \<Rightarrow> u32 \<Rightarrow> u8" where
  "al_clear_bit lock offset = lock AND NOT (push_bit (unat (7 - offset)) 1)"

text \<open>The pair \<open>(old, expected)\<close> that \<^verbatim>\<open>try_op\<close> prepares from the byte it read.\<close>

definition cas_values :: "bool \<Rightarrow> u8 \<Rightarrow> u32 \<Rightarrow> u8 \<times> u8" where
  "cas_values to_set old offset =
     (let expected = old
      in if to_set then (al_clear_bit old offset, al_set_bit expected offset)
         else (old, al_clear_bit expected offset))"

text \<open>\<^verbatim>\<open>__sync_bool_compare_and_swap\<close> on one byte of the buffer.\<close>

definition cas_byte :: "bit_array \<Rightarrow> nat \<Rightarrow> u8 \<Rightarrow> u8 \<Rightarrow> (bit_array \<times> bool) result" where
  "cas_byte ba i old new =
     andthen (buf_rd ba i) (\<lambda>cur.
       if cur = old then andthen (buf_wr ba i new) (\<lambda>ba'. Ok (ba', True)) else Ok (ba, False))"

definition try_op :: "bit_array \<Rightarrow> u32 \<Rightarrow> bool \<Rightarrow> (bit_array \<times> bool) result" where
  "try_op ba pos to_set =
     andthen (test_bit ba pos) (\<lambda>(ret, out).
       if ret = to_set then Ok (ba, False)
       else case out of
         None \<Rightarrow> Fault Null_Deref
       | Some (lock, offset) \<Rightarrow>
           andthen (buf_rd ba lock) (\<lambda>old.
             let (old, expected) = cas_values to_set old offset
             in cas_byte ba lock old expected))"

text \<open>
  \<^verbatim>\<open>lock\<close> spins while the bit is to_set. \<open>None\<close> means that the loop does not end.
\<close>

partial_function (option) al_lock :: "bit_array \<Rightarrow> u32 \<Rightarrow> bit_array result option" where
  "al_lock ba pos =
     (case test_bit ba pos of
        Inl e \<Rightarrow> Some (Inl e)
      | Inr (locked, out) \<Rightarrow>
          if locked then al_lock ba pos
          else (case try_op ba pos True of
                  Inl e \<Rightarrow> Some (Inl e)
                | Inr (ba', done) \<Rightarrow> if done then Some (Inr ba') else al_lock ba' pos))"

declare al_lock.simps [code]

partial_function (option) al_unlock :: "bit_array \<Rightarrow> u32 \<Rightarrow> (bit_array \<times> bool) result option" where
  "al_unlock ba pos =
     (case test_bit ba pos of
        Inl e \<Rightarrow> Some (Inl e)
      | Inr (locked, out) \<Rightarrow>
          if \<not> locked then Some (Inr (ba, False))
          else (case try_op ba pos False of
                  Inl e \<Rightarrow> Some (Inl e)
                | Inr (ba', done) \<Rightarrow>
                    if done then Some (Inr (ba', True)) else al_unlock ba' pos))"

declare al_unlock.simps [code]

section \<open>One compare-and-swap\<close>

lemma offset_bit: "unat (7 - (pos AND 7) :: u32) = 7 - unat pos mod 8"
  by (rule seven_minus_and)

lemma ba_buf:
  assumes "ba_ok ba" and "pos < buf_len ba"
  obtains bs where "bits_buf ba = Some bs" "unat pos div 8 < length bs"
    "buf_rd ba (unat pos div 8) = Ok (bs ! (unat pos div 8))"
    "bits_of ba = byte_bit bs"
proof -
  obtain bs where bs: "bits_buf ba = Some bs" "length bs = unat (buf_len ba) div 8 + 1"
    using assms(1) by (rule ba_okE)
  have "unat pos div 8 < length bs"
    using assms(2) bs(2) pos_byte[OF unat_lt_of_less] by simp
  with bs show ?thesis using that by (simp add: buf_rd_def bits_of_def fun_eq_iff)
qed

text \<open>
  Whatever byte was read, the compare-and-swap can only succeed on the very byte that has the
  bit of \<open>pos\<close> in the state \<^verbatim>\<open>try_op\<close> started from, and then it changes that bit alone.
\<close>

lemma cas_values_set:
  "cas_values True old (pos AND 7) =
     (old AND NOT (push_bit (7 - unat pos mod 8) 1),
      (old AND NOT (push_bit (7 - unat pos mod 8) 1)) OR push_bit (7 - unat pos mod 8) 1)"
  by (auto simp: cas_values_def al_clear_bit_def al_set_bit_def Let_def offset_bit
      intro!: bit_eqI simp del: push_bit_of_1 simp: bit_simps)

lemma and_not_push_bit:
  assumes "\<not> bit (b :: u8) k"
  shows "b AND NOT (push_bit k 1) = b"
proof (rule bit_eqI)
  fix n
  show "bit (b AND NOT (push_bit k 1)) n = bit b n"
    using assms by (cases "n = k")
      (auto simp: bit_simps simp del: push_bit_of_1 dest: bit_imp_le_length)
qed

lemma cas_byte_ok:
  assumes "ba_ok ba" and "pos < buf_len ba"
    and "cas_values to_set byte (pos AND 7) = (old, new)"
    and "to_set \<or> bit byte (7 - unat pos mod 8)"
  shows "cas_byte ba (unat pos div 8) old new = Ok (ba, False) \<or>
    (\<exists>ba'. cas_byte ba (unat pos div 8) old new = Ok (ba', True) \<and> ba_ok ba' \<and>
       buf_len ba' = buf_len ba \<and> bits_of ba (unat pos) = (\<not> to_set) \<and>
       bits_of ba' = (bits_of ba)(unat pos := to_set))"
proof -
  obtain bs where bs: "bits_buf ba = Some bs" "unat pos div 8 < length bs"
    "buf_rd ba (unat pos div 8) = Ok (bs ! (unat pos div 8))" "bits_of ba = byte_bit bs"
    using assms(1,2) by (rule ba_buf)
  let ?i = "unat pos div 8"
  let ?m = "push_bit (7 - unat pos mod 8) 1 :: u8"
  let ?ba' = "ba\<lparr>bits_buf := Some (bs[?i := new])\<rparr>"
  have k: "7 - unat pos mod 8 < 8" by simp
  show ?thesis
  proof (cases "bs ! ?i = old")
    case False
    then show ?thesis using bs by (simp add: cas_byte_def)
  next
    case True
    have cas: "cas_byte ba ?i old new = Ok (?ba', True)"
      using True bs by (simp add: cas_byte_def buf_wr_def)
    have ok: "ba_ok ?ba'" using assms(1) bs(1) by (auto simp: ba_ok_def)
    have "bit (bs ! ?i) (7 - unat pos mod 8) = (\<not> to_set) \<and>
        new = (if to_set then bs ! ?i OR ?m else bs ! ?i AND NOT ?m)"
    proof (cases to_set)
      case t: True
      then have "old = byte AND NOT ?m" "new = old OR ?m"
        using assms(3) by (auto simp: cas_values_set)
      then show ?thesis using t True k by (simp add: bit_simps)
    next
      case f: False
      then have "old = byte" "new = byte AND NOT ?m"
        using assms(3) by (auto simp: cas_values_def al_clear_bit_def Let_def offset_bit)
      then show ?thesis using f True assms(4) by simp
    qed
    then have "bits_of ba (unat pos) = (\<not> to_set)"
      "bits_of ?ba' = (bits_of ba)(unat pos := to_set)"
      using bs byte_bit_set[OF bs(2)] byte_bit_clear[OF bs(2)]
      by (auto simp: bits_of_def byte_bit_def fun_eq_iff)
    with cas ok show ?thesis by auto
  qed
qed

section \<open>The functions meet the lock's contract\<close>

text \<open>With no other thread in between, the compare-and-swap succeeds.\<close>

lemma cas_alone:
  assumes "ba_ok ba" and "pos < buf_len ba" and "bits_of ba (unat pos) = (\<not> to_set)"
    and "buf_rd ba (unat pos div 8) = Ok byte"
    and v: "cas_values to_set byte (pos AND 7) = (old, new)"
  obtains ba' where "cas_byte ba (unat pos div 8) old new = Ok (ba', True)" "ba_ok ba'"
    "buf_len ba' = buf_len ba" "bits_of ba' = (bits_of ba)(unat pos := to_set)"
proof -
  obtain bs where bs: "bits_buf ba = Some bs" "unat pos div 8 < length bs"
    "byte = bs ! (unat pos div 8)" "bits_of ba = byte_bit bs"
    using ba_buf[OF assms(1,2)] assms(4) by auto
  have bit: "bit byte (7 - unat pos mod 8) = (\<not> to_set)"
    using assms(3) bs(3,4) by (simp add: byte_bit_def)
  have "old = byte"
  proof (cases to_set)
    case True
    then have "old = byte AND NOT (push_bit (7 - unat pos mod 8) 1)"
      using v by (simp add: cas_values_set)
    also have "\<dots> = byte" using True bit by (simp add: and_not_push_bit del: push_bit_of_1)
    finally show ?thesis .
  next
    case False
    then show ?thesis using v by (simp add: cas_values_def Let_def)
  qed
  then have "cas_byte ba (unat pos div 8) old new \<noteq> Ok (ba, False)"
    using bs assms(4) by (auto simp: cas_byte_def buf_wr_def)
  moreover have "to_set \<or> bit byte (7 - unat pos mod 8)" using bit by simp
  ultimately show ?thesis using cas_byte_ok[OF assms(1,2) v] that by blast
qed

lemma try_op_alone:
  assumes "ba_ok ba" and "pos < buf_len ba" and "bits_of ba (unat pos) = (\<not> to_set)"
  obtains ba' where "try_op ba pos to_set = Ok (ba', True)" "ba_ok ba'"
    "buf_len ba' = buf_len ba" "bits_of ba' = (bits_of ba)(unat pos := to_set)"
proof -
  obtain byte where rd: "buf_rd ba (unat pos div 8) = Ok byte"
    using ba_buf[OF assms(1,2)] by metis
  obtain old new where v: "cas_values to_set byte (pos AND 7) = (old, new)" by fastforce
  obtain ba' where cas: "cas_byte ba (unat pos div 8) old new = Ok (ba', True)" "ba_ok ba'"
    "buf_len ba' = buf_len ba" "bits_of ba' = (bits_of ba)(unat pos := to_set)"
    using assms rd v by (rule cas_alone)
  have "try_op ba pos to_set = Ok (ba', True)"
    using test_bit_ok[OF assms(1,2)] assms(3) rd v cas(1) by (simp add: try_op_def)
  with cas show ?thesis using that by blast
qed

lemma al_lock_free:
  assumes "ba_ok ba" and "pos < buf_len ba" and "\<not> bits_of ba (unat pos)"
  shows "\<exists>ba'. al_lock ba pos = Some (Ok ba') \<and> ba_ok ba' \<and> buf_len ba' = buf_len ba \<and>
     bits_of ba' = (bits_of ba)(unat pos := True)"
proof -
  obtain ba' where "try_op ba pos True = Ok (ba', True)" "ba_ok ba'"
    "buf_len ba' = buf_len ba" "bits_of ba' = (bits_of ba)(unat pos := True)"
    using try_op_alone[of ba pos True] assms by auto
  then show ?thesis
    using test_bit_ok[OF assms(1,2)] assms(3) by (simp add: al_lock.simps[of ba])
qed

lemma al_lock_held:
  assumes "ba_ok ba" and "pos < buf_len ba" and "bits_of ba (unat pos)"
  shows "al_lock ba pos = None"
proof (rule ccontr)
  assume "al_lock ba pos \<noteq> None"
  then obtain r where "al_lock ba pos = Some r" by blast
  then have "\<not> (ba_ok ba \<and> pos < buf_len ba \<and> bits_of ba (unat pos))"
  proof (rule al_lock.raw_induct[rotated])
    fix f ba pos r
    assume IH: "\<And>ba pos r. f ba pos = Some r \<Longrightarrow>
        \<not> (ba_ok ba \<and> pos < buf_len ba \<and> bits_of ba (unat pos))"
      and step: "(case test_bit ba pos of Inl e \<Rightarrow> Some (Fault e)
         | Inr (locked, out) \<Rightarrow>
             if locked then f ba pos
             else (case try_op ba pos True of Inl e \<Rightarrow> Some (Fault e)
                   | Inr (ba', done) \<Rightarrow> if done then Some (Ok ba') else f ba' pos)) = Some r"
    show "\<not> (ba_ok ba \<and> pos < buf_len ba \<and> bits_of ba (unat pos))"
    proof
      assume h: "ba_ok ba \<and> pos < buf_len ba \<and> bits_of ba (unat pos)"
      then have "f ba pos = Some r" using step test_bit_ok[of ba pos] by simp
      with IH h show False by blast
    qed
  qed
  with assms show False by blast
qed

lemma al_unlock_held:
  assumes "ba_ok ba" and "pos < buf_len ba" and "bits_of ba (unat pos)"
  shows "\<exists>ba'. al_unlock ba pos = Some (Ok (ba', True)) \<and> ba_ok ba' \<and>
     buf_len ba' = buf_len ba \<and> bits_of ba' = (bits_of ba)(unat pos := False)"
proof -
  obtain ba' where "try_op ba pos False = Ok (ba', True)" "ba_ok ba'"
    "buf_len ba' = buf_len ba" "bits_of ba' = (bits_of ba)(unat pos := False)"
    using try_op_alone[of ba pos False] assms by auto
  then show ?thesis
    using test_bit_ok[OF assms(1,2)] assms(3) by (simp add: al_unlock.simps[of ba])
qed

lemma al_unlock_free:
  assumes "ba_ok ba" and "pos < buf_len ba" and "\<not> bits_of ba (unat pos)"
  shows "al_unlock ba pos = Some (Ok (ba, False))"
  using test_bit_ok[OF assms(1,2)] assms(3) by (simp add: al_unlock.simps[of ba])

text \<open>Past the end \<^verbatim>\<open>test_bit\<close> leaves the byte's address null, and \<^verbatim>\<open>try_op\<close> follows it.\<close>

lemma al_lock_beyond: "pos \<ge> buf_len ba \<Longrightarrow> al_lock ba pos = Some (Fault Null_Deref)"
  by (simp add: al_lock.simps[of ba] test_bit_beyond try_op_def)

subsection \<open>The interface: locks in an array, taken for a block of code\<close>

text \<open>
  A block that takes a lock on entry and releases it on every way out, as the guard objects of
  the library do in their constructors and destructors.
\<close>

definition guarded ::
  "('l \<Rightarrow> u32 \<Rightarrow> 'l result option) \<Rightarrow> ('l \<Rightarrow> u32 \<Rightarrow> ('l \<times> bool) result option) \<Rightarrow>
   'l \<Rightarrow> u32 \<Rightarrow> 'r result option \<Rightarrow> ('l \<times> 'r) result option" where
  "guarded lock unlock l pos body =
     runs (lock l pos) (\<lambda>l1.
     runs body (\<lambda>r.
     runs (unlock l1 pos) (\<lambda>(l2, _). Some (Ok (l2, r)))))"

locale lock_array =
  fixes inv :: "'l \<Rightarrow> bool"
    and len :: "'l \<Rightarrow> u32"
    and held :: "'l \<Rightarrow> nat \<Rightarrow> bool"
    and lock :: "'l \<Rightarrow> u32 \<Rightarrow> 'l result option"
    and unlock :: "'l \<Rightarrow> u32 \<Rightarrow> ('l \<times> bool) result option"
  assumes lock_free: "inv l \<Longrightarrow> p < len l \<Longrightarrow> \<not> held l (unat p) \<Longrightarrow>
      \<exists>l'. lock l p = Some (Ok l') \<and> inv l' \<and> len l' = len l \<and>
        held l' = (held l)(unat p := True)"
    and lock_held: "inv l \<Longrightarrow> p < len l \<Longrightarrow> held l (unat p) \<Longrightarrow> lock l p = None"
    and unlock_held: "inv l \<Longrightarrow> p < len l \<Longrightarrow> held l (unat p) \<Longrightarrow>
      \<exists>l'. unlock l p = Some (Ok (l', True)) \<and> inv l' \<and> len l' = len l \<and>
        held l' = (held l)(unat p := False)"
begin

lemma guarded_free:
  assumes "inv l" and "p < len l" and "\<not> held l (unat p)"
  shows "\<exists>l'. guarded lock unlock l p (Some (Ok r)) = Some (Ok (l', r)) \<and> inv l' \<and>
     len l' = len l \<and> held l' = held l"
proof -
  obtain l1 where l1: "lock l p = Some (Ok l1)" "inv l1" "len l1 = len l"
    "held l1 = (held l)(unat p := True)"
    using lock_free[OF assms] by blast
  then obtain l2 where l2: "unlock l1 p = Some (Ok (l2, True))" "inv l2" "len l2 = len l1"
    "held l2 = (held l1)(unat p := False)"
    using unlock_held[of l1 p] assms(2) by auto
  have "held l2 = held l" using l1 l2 assms(3) by (auto simp: fun_eq_iff)
  with l1 l2 show ?thesis by (simp add: guarded_def)
qed

lemma guarded_held:
  assumes "inv l" and "p < len l" and "held l (unat p)"
  shows "guarded lock unlock l p body = None"
  using lock_held[OF assms] by (simp add: guarded_def)

lemma guarded_fault:
  assumes "inv l" and "p < len l" and "\<not> held l (unat p)"
  shows "guarded lock unlock l p (Some (Fault e)) = Some (Fault e)"
  using lock_free[OF assms] by (auto simp: guarded_def)

end

interpretation al: lock_array ba_ok buf_len bits_of al_lock al_unlock
  by unfold_locales (simp_all add: al_lock_free al_lock_held al_unlock_held)

section \<open>Threads interleaving\<close>

text \<open>
  A thread calls \<^verbatim>\<open>lock\<close>, is in its critical section when that returns, and then calls
  \<^verbatim>\<open>unlock\<close>. Between two steps of a thread, each one read of a shared byte or one
  compare-and-swap, any other thread may run. The program counters are the places of the code
  between those accesses, with the local variables that are still needed. A step names the
  thread that makes it.
\<close>

datatype al_pc =
    Outside
  | Spin u32                       \<comment> \<open>in \<^verbatim>\<open>lock\<close>, at the inner loop's \<^verbatim>\<open>test_bit\<close>\<close>
  | Un_Test u32                    \<comment> \<open>in \<^verbatim>\<open>unlock\<close>, at its \<^verbatim>\<open>test_bit\<close>\<close>
  | Try_Test bool u32              \<comment> \<open>in \<^verbatim>\<open>try_op\<close>, at its \<^verbatim>\<open>test_bit\<close>\<close>
  | Try_Read bool u32 nat u32      \<comment> \<open>about to read the byte into \<^verbatim>\<open>old\<close>\<close>
  | Try_Cas bool u32 nat u8 u8     \<comment> \<open>about to compare and swap\<close>
  | Critical u32                   \<comment> \<open>\<^verbatim>\<open>lock\<close> has returned\<close>
  | Unlock_Failed u32              \<comment> \<open>\<^verbatim>\<open>unlock\<close> has returned false\<close>
  | Crashed                        \<comment> \<open>a null pointer was followed\<close>

record al_sys =
  shared :: bit_array
  pcs :: "nat \<Rightarrow> al_pc"

abbreviation goto :: "al_sys \<Rightarrow> nat \<Rightarrow> al_pc \<Rightarrow> al_sys" where
  "goto s t c \<equiv> s\<lparr>pcs := (pcs s)(t := c)\<rparr>"

inductive al_step :: "nat \<Rightarrow> al_sys \<Rightarrow> al_sys \<Rightarrow> bool" where
  call_lock: "pcs s t = Outside \<Longrightarrow> al_step t s (goto s t (Spin pos))"
| spin: "pcs s t = Spin pos \<Longrightarrow> test_bit (shared s) pos = Ok (True, out) \<Longrightarrow> al_step t s s"
| spin_end: "pcs s t = Spin pos \<Longrightarrow> test_bit (shared s) pos = Ok (False, out) \<Longrightarrow>
    al_step t s (goto s t (Try_Test True pos))"
| call_unlock: "pcs s t = Critical pos \<Longrightarrow> al_step t s (goto s t (Un_Test pos))"
| un_free: "pcs s t = Un_Test pos \<Longrightarrow> test_bit (shared s) pos = Ok (False, out) \<Longrightarrow>
    al_step t s (goto s t (Unlock_Failed pos))"
| un_held: "pcs s t = Un_Test pos \<Longrightarrow> test_bit (shared s) pos = Ok (True, out) \<Longrightarrow>
    al_step t s (goto s t (Try_Test False pos))"
| try_same: "pcs s t = Try_Test to_set pos \<Longrightarrow> test_bit (shared s) pos = Ok (ret, out) \<Longrightarrow>
    ret = to_set \<Longrightarrow> al_step t s (goto s t (if to_set then Spin pos else Un_Test pos))"
| try_null: "pcs s t = Try_Test to_set pos \<Longrightarrow> test_bit (shared s) pos = Ok (ret, None) \<Longrightarrow>
    ret \<noteq> to_set \<Longrightarrow> al_step t s (goto s t Crashed)"
| try_addr: "pcs s t = Try_Test to_set pos \<Longrightarrow>
    test_bit (shared s) pos = Ok (ret, Some (i, offset)) \<Longrightarrow> ret \<noteq> to_set \<Longrightarrow>
    al_step t s (goto s t (Try_Read to_set pos i offset))"
| try_read: "pcs s t = Try_Read to_set pos i offset \<Longrightarrow> buf_rd (shared s) i = Ok byte \<Longrightarrow>
    cas_values to_set byte offset = (old, expected) \<Longrightarrow>
    al_step t s (goto s t (Try_Cas to_set pos i old expected))"
| cas_done: "pcs s t = Try_Cas to_set pos i old expected \<Longrightarrow>
    cas_byte (shared s) i old expected = Ok (ba', True) \<Longrightarrow>
    al_step t s ((goto s t (if to_set then Critical pos else Outside))\<lparr>shared := ba'\<rparr>)"
| cas_failed: "pcs s t = Try_Cas to_set pos i old expected \<Longrightarrow>
    cas_byte (shared s) i old expected = Ok (ba', False) \<Longrightarrow>
    al_step t s (goto s t (if to_set then Spin pos else Un_Test pos))"

definition al_init :: "u32 \<Rightarrow> al_sys" where
  "al_init len =
     \<lparr>shared = fst (al_create \<lparr>bits_buf = None, pow_of_two = 0, offset_mask = 0,
        align_len = 0, buf_len = 0\<rparr> True len), pcs = (\<lambda>_. Outside)\<rparr>"

abbreviation al_reach :: "u32 \<Rightarrow> al_sys \<Rightarrow> bool" where
  "al_reach len \<equiv> reaches (\<lambda>s. s = al_init len) (\<lambda>s s'. \<exists>t. al_step t s s')"

lemma al_reach_init: "al_reach len (al_init len)"
  by (rule reaches_init) (rule refl)

lemma al_reach_step: "al_reach len s \<Longrightarrow> al_step t s s' \<Longrightarrow> al_reach len s'"
  by (blast intro: reaches_step)

subsection \<open>The invariant\<close>

text \<open>The lock a thread has, from the moment \<^verbatim>\<open>lock\<close> takes it until \<^verbatim>\<open>unlock\<close> gives it back.\<close>

fun has_lock :: "al_pc \<Rightarrow> u32 option" where
  "has_lock (Critical pos) = Some pos"
| "has_lock (Un_Test pos) = Some pos"
| "has_lock (Unlock_Failed pos) = Some pos"
| "has_lock (Try_Test to_set pos) = (if to_set then None else Some pos)"
| "has_lock (Try_Read to_set pos i off) = (if to_set then None else Some pos)"
| "has_lock (Try_Cas to_set pos i old new) = (if to_set then None else Some pos)"
| "has_lock _ = None"

fun pc_ok :: "u32 \<Rightarrow> al_pc \<Rightarrow> bool" where
  "pc_ok len (Try_Read to_set pos i off) = (pos < len \<and> i = unat pos div 8 \<and> off = pos AND 7)"
| "pc_ok len (Try_Cas to_set pos i old new) = (pos < len \<and> i = unat pos div 8 \<and>
     (\<exists>byte. cas_values to_set byte (pos AND 7) = (old, new) \<and>
        (to_set \<or> bit byte (7 - unat pos mod 8))))"
| "pc_ok len (Critical pos) = (pos < len)"
| "pc_ok len (Un_Test pos) = (pos < len)"
| "pc_ok len (Try_Test to_set pos) = (to_set \<or> pos < len)"
| "pc_ok len (Unlock_Failed pos) = False"
| "pc_ok len _ = True"

definition al_inv :: "u32 \<Rightarrow> al_sys \<Rightarrow> bool" where
  "al_inv len s \<longleftrightarrow> ba_ok (shared s) \<and> buf_len (shared s) = len \<and>
     (\<forall>t. pc_ok len (pcs s t)) \<and>
     (\<forall>t t' pos. has_lock (pcs s t) = Some pos \<and> has_lock (pcs s t') = Some pos \<longrightarrow> t = t') \<and>
     (\<forall>pos. pos < len \<longrightarrow> bits_of (shared s) (unat pos) = (\<exists>t. has_lock (pcs s t) = Some pos))"

lemma al_invD:
  assumes "al_inv len s"
  shows "ba_ok (shared s)" and "buf_len (shared s) = len" and "pc_ok len (pcs s t)"
    and "has_lock (pcs s t) = Some pos \<Longrightarrow> has_lock (pcs s t') = Some pos \<Longrightarrow> t = t'"
    and "pos < len \<Longrightarrow> bits_of (shared s) (unat pos) = (\<exists>t. has_lock (pcs s t) = Some pos)"
  using assms by (auto simp: al_inv_def)

lemma al_inv_init: "al_inv len (al_init len)"
  by (auto simp: al_inv_def al_init_def al_create_def ba_create_clear unat_lt_of_less)
     (simp add: ba_create_def Let_def)

text \<open>A step that leaves the memory and the mover's lock alone keeps the invariant.\<close>

lemma al_inv_goto:
  assumes "al_inv len s" and "has_lock c = has_lock (pcs s t)" and "pc_ok len c"
  shows "al_inv len (goto s t c)"
proof -
  have "has_lock (pcs (goto s t c) t') = has_lock (pcs s t')" for t'
    using assms(2) by simp
  then show ?thesis using assms(1,3) unfolding al_inv_def by simp
qed

lemma test_bit_inv:
  assumes "al_inv len s" and "test_bit (shared s) pos = Ok (ret, out)"
  shows "pos < len \<Longrightarrow> ret = bits_of (shared s) (unat pos) \<and>
      out = Some (unat pos div 8, pos AND 7)"
    and "\<not> pos < len \<Longrightarrow> \<not> ret \<and> out = None"
  using assms test_bit_ok[of "shared s" pos] test_bit_beyond[of "shared s" pos]
  by (auto simp: al_inv_def not_less)

lemma has_lock_bit:
  assumes "al_inv len s" and "has_lock (pcs s t) = Some pos"
  shows "pos < len \<and> bits_of (shared s) (unat pos)"
proof -
  have "pos < len"
    using assms(2) al_invD(3)[OF assms(1), of t] by (cases "pcs s t") (auto split: if_splits)
  then show ?thesis using al_invD(5)[OF assms(1)] assms(2) by blast
qed

lemma al_step_cas:
  assumes inv: "al_inv len s" and pc: "pcs s t = Try_Cas to_set pos i old new"
    and cas: "cas_byte (shared s) i old new = Ok (ba', True)"
  shows "al_inv len ((goto s t (if to_set then Critical pos else Outside))\<lparr>shared := ba'\<rparr>)"
    (is "al_inv len ?s")
proof -
  obtain byte where v: "pos < len" "i = unat pos div 8"
    "cas_values to_set byte (pos AND 7) = (old, new)" "to_set \<or> bit byte (7 - unat pos mod 8)"
    using al_invD(3)[OF inv, of t] pc by auto
  have ba': "ba_ok ba'" "buf_len ba' = len" "bits_of (shared s) (unat pos) = (\<not> to_set)"
    "bits_of ba' = (bits_of (shared s))(unat pos := to_set)"
    using cas_byte_ok[OF al_invD(1)[OF inv] _ v(3,4)] v(1,2) al_invD(2)[OF inv] cas by auto
  have lock: "has_lock (pcs ?s t') =
      (if t' = t then if to_set then Some pos else None else has_lock (pcs s t'))" for t'
    by simp
  have other: "has_lock (pcs s t') \<noteq> Some pos" if "t' \<noteq> t" for t'
  proof (cases to_set)
    case True
    then show ?thesis using ba'(3) al_invD(5)[OF inv v(1)] by auto
  next
    case False
    then show ?thesis using al_invD(4)[OF inv, of t pos t'] pc that by auto
  qed
  have mine: "has_lock (pcs s t) = (if to_set then None else Some pos)" using pc by simp
  have bits: "bits_of ba' (unat p) = (\<exists>t'. has_lock (pcs ?s t') = Some p)" if "p < len" for p
  proof (cases "p = pos")
    case True
    then show ?thesis using ba'(4) other lock by auto
  next
    case False
    then have "bits_of ba' (unat p) = bits_of (shared s) (unat p)"
      using ba'(4) by (auto simp: word_unat_eq_iff)
    moreover have "has_lock (pcs ?s t') = Some p \<longleftrightarrow> has_lock (pcs s t') = Some p" for t'
      using lock mine False by auto
    ultimately show ?thesis using al_invD(5)[OF inv that] by simp
  qed
  have uniq: "t1 = t2" if "has_lock (pcs ?s t1) = Some p" "has_lock (pcs ?s t2) = Some p" for t1 t2 p
    using that lock other al_invD(4)[OF inv] by (auto split: if_splits)
  have "\<forall>t'. pc_ok len (pcs ?s t')" using al_invD(3)[OF inv] v(1) by auto
  moreover have "shared ?s = ba'" by simp
  ultimately show ?thesis
    unfolding al_inv_def using ba'(1,2) uniq bits by (simp only:) blast
qed

lemma al_step_inv: "al_step t s s' \<Longrightarrow> al_inv len s \<Longrightarrow> al_inv len s'"
proof (induction rule: al_step.induct)
  case (un_free s t pos out)
  then show ?case using has_lock_bit[of len s t pos] test_bit_inv(1)[of len s pos False out] by auto
next
  case (un_held s t pos out)
  then show ?case using al_invD(3)[of len s t] by (auto intro: al_inv_goto)
next
  case (try_same s t to_set pos ret out)
  then show ?case using al_invD(3)[of len s t] by (auto intro!: al_inv_goto)
next
  case (try_null s t to_set pos ret)
  then have "to_set" 
    using al_invD(3)[of len s t] test_bit_inv[of len s pos ret None] by (cases to_set) auto
  then show ?case using try_null by (intro al_inv_goto) auto
next
  case (try_addr s t to_set pos ret i offset)
  then show ?case
    using test_bit_inv[of len s pos ret "Some (i, offset)"] by (intro al_inv_goto) auto
next
  case (try_read s t to_set pos i offset byte old expected)
  have p: "pos < len" "i = unat pos div 8" "offset = pos AND 7"
    using try_read al_invD(3)[of len s t] by auto
  obtain bs where bs: "buf_rd (shared s) i = Ok (bs ! (unat pos div 8))"
    "bits_of (shared s) = byte_bit bs"
    using ba_buf[of "shared s" pos] p al_invD(1,2)[OF try_read(4)] by metis
  have "to_set \<or> bit byte (7 - unat pos mod 8)"
    using has_lock_bit[OF try_read(4), of t pos] try_read(1,2) bs
    by (cases to_set) (auto simp: byte_bit_def)
  then show ?case using try_read p by (intro al_inv_goto) auto
next
  case (cas_done s t to_set pos i old expected ba')
  then show ?case by (intro al_step_cas)
next
  case (cas_failed s t to_set pos i old expected ba')
  then show ?case using al_invD(3)[of len s t] by (auto intro!: al_inv_goto)
next
  case (call_unlock s t pos)
  then show ?case using al_invD(3)[of len s t] by (auto intro!: al_inv_goto)
qed (auto intro!: al_inv_goto)

interpretation als: step_invariant "\<lambda>s. s = al_init len" "\<lambda>s s'. \<exists>t. al_step t s s'" "al_inv len" for len
  by unfold_locales (auto intro: al_inv_init al_step_inv)

lemmas al_reach_inv = als.reaches_inv

subsection \<open>Where one thread is\<close>

text \<open>A thread inside \<^verbatim>\<open>lock(p)\<close> or just back from it; inside \<^verbatim>\<open>unlock(p)\<close>, about to call it or
  back from it.\<close>

fun locking :: "u32 \<Rightarrow> al_pc \<Rightarrow> bool" where
  "locking p (Spin q) = (q = p)"
| "locking p (Try_Test to_set q) = (to_set \<and> q = p)"
| "locking p (Try_Read to_set q i off) = (to_set \<and> q = p)"
| "locking p (Try_Cas to_set q i old new) = (to_set \<and> q = p)"
| "locking p (Critical q) = (q = p)"
| "locking p _ = False"

fun unlocking :: "u32 \<Rightarrow> al_pc \<Rightarrow> bool" where
  "unlocking p Outside = True"
| "unlocking p (Critical q) = (q = p)"
| "unlocking p (Un_Test q) = (q = p)"
| "unlocking p (Try_Test to_set q) = (\<not> to_set \<and> q = p)"
| "unlocking p (Try_Read to_set q i off) = (\<not> to_set \<and> q = p)"
| "unlocking p (Try_Cas to_set q i old new) = (\<not> to_set \<and> q = p)"
| "unlocking p _ = False"

lemma al_step_other: "al_step t s s' \<Longrightarrow> u \<noteq> t \<Longrightarrow> pcs s' u = pcs s u"
  by (induction rule: al_step.induct) auto

lemma al_step_locking:
  assumes "al_step t s s'" and "al_inv len s" and "p < len"
    and "locking p (pcs s t)" and "pcs s t \<noteq> Critical p"
  shows "locking p (pcs s' t)"
  using assms
proof (induction rule: al_step.induct)
  case (try_null s t to_set pos ret)
  then show ?case using test_bit_inv(1)[of len s pos ret None] by auto
qed auto

lemma al_step_unlocking:
  assumes "al_step t s s'" and "al_inv len s" and "p < len"
    and "unlocking p (pcs s t)" and "pcs s t \<noteq> Outside"
  shows "unlocking p (pcs s' t)"
  using assms
proof (induction rule: al_step.induct)
  case (un_free s t pos out)
  then show ?case using has_lock_bit[of len s t pos] test_bit_inv(1)[of len s pos False out] by auto
next
  case (try_null s t to_set pos ret)
  then show ?case using test_bit_inv(1)[of len s pos ret None] by auto
qed auto

subsection \<open>Mutual exclusion\<close>

text \<open>
  C5. However the threads interleave inside \<^verbatim>\<open>lock\<close>, \<^verbatim>\<open>unlock\<close> and \<^verbatim>\<open>try_op\<close>, at most one
  thread is in the critical section of a position, and the position's bit is set while it is:
  a compare-and-swap on a byte never takes or drops a neighbour's lock.
\<close>

theorem array_lock_mutual_exclusion:
  assumes "al_reach len s" and "pcs s t = Critical pos"
  shows "bits_of (shared s) (unat pos) \<and> (\<forall>t'. pcs s t' = Critical pos \<longrightarrow> t' = t)"
proof -
  note inv = al_reach_inv[OF assms(1)]
  have t: "has_lock (pcs s t) = Some pos" using assms(2) by simp
  show ?thesis
  proof (intro conjI allI impI)
    show "bits_of (shared s) (unat pos)" using has_lock_bit[OF inv t] by simp
  next
    fix t'
    assume "pcs s t' = Critical pos"
    then show "t' = t" using al_invD(4)[OF inv _ t, of t'] by simp
  qed
qed

text \<open>Left alone, a thread that calls \<^verbatim>\<open>lock\<close> on a free position gets it.\<close>

inductive al_locks :: "nat \<Rightarrow> al_sys \<Rightarrow> al_sys \<Rightarrow> bool" for t where
  al_locks_refl: "al_locks t s s"
| al_locks_step: "al_locks t s s' \<Longrightarrow> (\<And>p. pcs s' t \<noteq> Critical p) \<Longrightarrow> al_step t s' s'' \<Longrightarrow>
    al_locks t s s''"

lemma al_reach_locks: "al_locks t s s' \<Longrightarrow> al_reach len s \<Longrightarrow> al_reach len s'"
  by (induction rule: al_locks.induct) (auto intro: al_reach_step)

lemma al_solo_locks:
  assumes inv: "al_inv len s" and pc: "pcs s t = Spin pos"
    and pos: "pos < len" "\<not> bits_of (shared s) (unat pos)"
  shows "\<exists>ba'. al_locks t s \<lparr>shared = ba', pcs = (pcs s)(t := Critical pos)\<rparr>"
proof -
  have ba: "ba_ok (shared s)" "pos < buf_len (shared s)"
    using inv pos(1) by (auto simp: al_inv_def)
  obtain byte where rd: "buf_rd (shared s) (unat pos div 8) = Ok byte"
    using ba_buf[OF ba] by metis
  obtain old new where v: "cas_values True byte (pos AND 7) = (old, new)" by fastforce
  obtain ba' where cas: "cas_byte (shared s) (unat pos div 8) old new = Ok (ba', True)"
    using cas_alone[OF ba _ rd v] pos(2) by auto
  note test = test_bit_ok[OF ba]
  have "al_locks t s (goto s t (Try_Test True pos))"
    using al_locks_step[OF al_locks_refl _ spin_end[OF pc]] test pos(2) pc by simp
  then have "al_locks t s (goto s t (Try_Read True pos (unat pos div 8) (pos AND 7)))"
    using al_locks_step[OF _ _ try_addr[of "goto s t (Try_Test True pos)" t True pos]] test pos(2)
    by simp
  then have "al_locks t s (goto s t (Try_Cas True pos (unat pos div 8) old new))"
    using al_locks_step[OF _ _ try_read[of
          "goto s t (Try_Read True pos (unat pos div 8) (pos AND 7))" t]] rd v by simp
  then have "al_locks t s ((goto (goto s t (Try_Cas True pos (unat pos div 8) old new)) t
      (Critical pos))\<lparr>shared := ba'\<rparr>)"
    using al_locks_step[OF _ _ cas_done[of
          "goto s t (Try_Cas True pos (unat pos div 8) old new)" t]] cas by simp
  then show ?thesis by (cases s) auto
qed

lemma al_solo_lock:
  assumes reach: "al_reach len s" and pc: "pcs s t = Outside"
    and pos: "pos < len" "\<not> bits_of (shared s) (unat pos)"
  shows "\<exists>ba'. al_reach len \<lparr>shared = ba', pcs = (pcs s)(t := Critical pos)\<rparr>"
proof -
  have r: "al_reach len (goto s t (Spin pos))"
    using al_reach_step[OF reach call_lock[of s t pos]] pc by simp
  obtain ba' where "al_locks t (goto s t (Spin pos))
      \<lparr>shared = ba', pcs = (pcs (goto s t (Spin pos)))(t := Critical pos)\<rparr>"
    using al_solo_locks[OF al_reach_inv[OF r], of t pos] pos by auto
  from al_reach_locks[OF this r] show ?thesis by auto
qed

theorem array_lock_mutual_exclusion_witness:
  "\<exists>s. al_reach 10 s \<and> pcs s 0 = Critical 3 \<and> bits_of (shared s) 3 \<and>
     (\<forall>t'. pcs s t' = Critical 3 \<longrightarrow> t' = 0)"
proof -
  have "\<exists>ba'. al_reach 10 \<lparr>shared = ba', pcs = (pcs (al_init 10))(0 := Critical 3)\<rparr>"
    by (rule al_solo_lock[OF al_reach_init])
       (simp_all add: al_init_def al_create_def ba_create_clear)
  then obtain s where s: "al_reach 10 s" "pcs s 0 = Critical 3" by fastforce
  show ?thesis using s array_lock_mutual_exclusion[OF s] by auto
qed

text \<open>
  A thread that holds a lock always finds it held: \<^verbatim>\<open>unlock\<close> never reports that another
  thread released it, and every position whose bit is set has exactly one holder, so no lock
  is lost.
\<close>

theorem array_lock_holders:
  assumes "al_reach len s" and "pos < len"
  shows "pcs s t \<noteq> Unlock_Failed pos \<and>
     (bits_of (shared s) (unat pos) \<longleftrightarrow> (\<exists>!t. has_lock (pcs s t) = Some pos))"
proof -
  note inv = al_reach_inv[OF assms(1)]
  have "pcs s t \<noteq> Unlock_Failed pos" using al_invD(3)[OF inv, of t] by auto
  then show ?thesis using al_invD(5)[OF inv assms(2)] al_invD(4)[OF inv] by blast
qed

theorem array_lock_holders_witness:
  "\<exists>s. al_reach 10 s \<and> bits_of (shared s) 3 \<and> (\<exists>!t. has_lock (pcs s t) = Some 3)"
proof -
  have "\<exists>ba'. al_reach 10 \<lparr>shared = ba', pcs = (pcs (al_init 10))(0 := Critical 3)\<rparr>"
    by (rule al_solo_lock[OF al_reach_init])
       (simp_all add: al_init_def al_create_def ba_create_clear)
  then obtain s where s: "al_reach 10 s" "pcs s 0 = Critical 3" by fastforce
  have "bits_of (shared s) (unat (3 :: u32))"
    using has_lock_bit[OF al_reach_inv[OF s(1)], of 0 3] s(2) by simp
  then have "bits_of (shared s) 3" "\<exists>!t. has_lock (pcs s t) = Some 3"
    using array_lock_holders[OF s(1), of 3] by simp_all
  with s(1) show ?thesis by (intro exI[of _ s] conjI)
qed

end
