(* ===== verification/Chain_Hash.thy ===== *)
theory Chain_Hash
  imports Selib_Prelude
begin

text \<open>
  \<^verbatim>\<open>container/chain_hash.h\<close>: \<^verbatim>\<open>HashEntry\<close> and \<^verbatim>\<open>ChainHashMap\<close>, a hash table with one
  linked list per bucket. The entries live in a store: \<open>heap\<close> holds the entries that were
  allocated and not deleted, \<open>fresh\<close> the address the next \<^verbatim>\<open>new\<close> returns. The argument
  \<open>mem\<close> of an operation says whether its \<^verbatim>\<open>new (std::nothrow)\<close> succeeds. Following a
  pointer to an entry that is no longer in the store is the fault \<open>Use_After_Free\<close>. The
  loops that walk a list are defined whether or not they end (\<open>None\<close> when they do not).
\<close>

section \<open>State\<close>

record 'v entry =
  key :: u64
  val :: 'v
  nxt :: ptr

record 'v chash =
  heap :: "nat \<rightharpoonup> 'v entry"
  fresh :: nat
  table :: "ptr list option"
  bucket_num :: u32

definition deref :: "(nat \<rightharpoonup> 'v entry) \<Rightarrow> nat \<Rightarrow> 'v entry result" where
  "deref h a = (case h a of None \<Rightarrow> Fault Use_After_Free | Some e \<Rightarrow> Ok e)"

section \<open>Operations\<close>

definition ch_create :: "'v chash \<Rightarrow> bool \<Rightarrow> u32 \<Rightarrow> 'v chash \<times> int" where
  "ch_create m mem num =
     (let m = m\<lparr>bucket_num := num\<rparr>
      in if \<not> mem then (m\<lparr>table := None\<rparr>, -1)
         else (m\<lparr>table := Some (replicate (unat num) None)\<rparr>, 0))"

text \<open>\<^verbatim>\<open>int hash = (key % _bucket_num)\<close>: a 64-bit remainder, cut to a signed 32-bit integer.\<close>

definition hash_of :: "'v chash \<Rightarrow> u64 \<Rightarrow> int result" where
  "hash_of m k =
     (if bucket_num m = 0 then Fault Div_By_Zero
      else Ok (sint (ucast (k mod ucast (bucket_num m)) :: u32)))"

definition table_rd :: "'v chash \<Rightarrow> int \<Rightarrow> ptr result" where
  "table_rd m i =
     (case table m of None \<Rightarrow> Fault Null_Deref
      | Some t \<Rightarrow> if i < 0 then Fault Out_Of_Bounds else rd t (nat i))"

definition table_wr :: "'v chash \<Rightarrow> int \<Rightarrow> ptr \<Rightarrow> 'v chash result" where
  "table_wr m i p =
     (case table m of None \<Rightarrow> Fault Null_Deref
      | Some t \<Rightarrow> if i < 0 then Fault Out_Of_Bounds
          else andthen (wr t (nat i) p) (\<lambda>t'. Ok (m\<lparr>table := Some t'\<rparr>)))"

partial_function (option) find_loop :: "(nat \<rightharpoonup> 'v entry) \<Rightarrow> u64 \<Rightarrow> ptr \<Rightarrow> ptr result option" where
  "find_loop h k entry =
     (case entry of None \<Rightarrow> Some (Inr None)
      | Some a \<Rightarrow>
          (case h a of None \<Rightarrow> Some (Inl Use_After_Free)
           | Some e \<Rightarrow> if key e \<noteq> k then find_loop h k (nxt e) else Some (Inr (Some a))))"

declare find_loop.simps [code]

text \<open>\<^verbatim>\<open>find\<close> returns the address of the value, which is its entry's address here.\<close>

definition ch_find :: "'v chash \<Rightarrow> u64 \<Rightarrow> ptr result option" where
  "ch_find m k =
     runs (Some (hash_of m k)) (\<lambda>hash.
     runs (Some (table_rd m hash)) (\<lambda>entry.
       if entry = None then Some (Ok None) else find_loop (heap m) k entry))"

text \<open>The loop of \<^verbatim>\<open>insert\<close>: whether it met the key, and the entry it stopped at.\<close>

partial_function (option) insert_loop ::
  "(nat \<rightharpoonup> 'v entry) \<Rightarrow> u64 \<Rightarrow> ptr \<Rightarrow> (bool \<times> ptr) result option" where
  "insert_loop h k entry =
     (case entry of None \<Rightarrow> Some (Inr (False, None))
      | Some a \<Rightarrow>
          (case h a of None \<Rightarrow> Some (Inl Use_After_Free)
           | Some e \<Rightarrow>
               if key e = k then Some (Inr (True, Some a))
               else if nxt e = None then Some (Inr (False, Some a))
               else insert_loop h k (nxt e)))"

declare insert_loop.simps [code]

definition new_entry :: "'v chash \<Rightarrow> u64 \<Rightarrow> 'v \<Rightarrow> 'v chash \<times> nat" where
  "new_entry m k v =
     (m\<lparr>heap := (heap m)(fresh m \<mapsto> \<lparr>key = k, val = v, nxt = None\<rparr>), fresh := fresh m + 1\<rparr>,
      fresh m)"

definition set_next :: "'v chash \<Rightarrow> ptr \<Rightarrow> ptr \<Rightarrow> 'v chash result" where
  "set_next m p q =
     (case p of None \<Rightarrow> Fault Null_Deref
      | Some a \<Rightarrow> andthen (deref (heap m) a) (\<lambda>e.
          Ok (m\<lparr>heap := (heap m)(a \<mapsto> e\<lparr>nxt := q\<rparr>)\<rparr>)))"

definition set_value :: "'v chash \<Rightarrow> ptr \<Rightarrow> 'v \<Rightarrow> 'v chash result" where
  "set_value m p v =
     (case p of None \<Rightarrow> Fault Null_Deref
      | Some a \<Rightarrow> andthen (deref (heap m) a) (\<lambda>e.
          Ok (m\<lparr>heap := (heap m)(a \<mapsto> e\<lparr>val := v\<rparr>)\<rparr>)))"

definition ch_insert ::
  "'v chash \<Rightarrow> bool \<Rightarrow> u64 \<Rightarrow> 'v \<Rightarrow> bool \<Rightarrow> ('v chash \<times> bool) result option" where
  "ch_insert m mem k v overwritten =
     runs (Some (hash_of m k)) (\<lambda>hash.
     runs (Some (table_rd m hash)) (\<lambda>head.
       if head = None then
         (if \<not> mem then Some (Ok (m, False))
          else let (m1, a) = new_entry m k v
               in Some (andthen (table_wr m1 hash (Some a)) (\<lambda>m2. Ok (m2, True))))
       else
         runs (insert_loop (heap m) k head) (\<lambda>(met, entry).
           if met then
             (if overwritten then Some (andthen (set_value m entry v) (\<lambda>m1. Ok (m1, True)))
              else Some (Ok (m, True)))
           else if \<not> mem then Some (Ok (m, False))
           else let (m1, nt) = new_entry m k v
                in Some (andthen (set_next m1 entry (Some nt)) (\<lambda>m2. Ok (m2, True))))))"

text \<open>The loop of \<^verbatim>\<open>remove\<close>, from a non-null entry: the entry it stops at and the one before.\<close>

partial_function (option) remove_loop ::
  "(nat \<rightharpoonup> 'v entry) \<Rightarrow> u64 \<Rightarrow> ptr \<Rightarrow> nat \<Rightarrow> (ptr \<times> nat) result option" where
  "remove_loop h k prev a =
     (case h a of None \<Rightarrow> Some (Inl Use_After_Free)
      | Some e \<Rightarrow>
          (case nxt e of None \<Rightarrow> Some (Inr (prev, a))
           | Some b \<Rightarrow>
               if key e \<noteq> k then remove_loop h k (Some a) b else Some (Inr (prev, a))))"

declare remove_loop.simps [code]

definition free_entry :: "'v chash \<Rightarrow> nat \<Rightarrow> 'v chash result" where
  "free_entry m a =
     andthen (deref (heap m) a) (\<lambda>_. Ok (m\<lparr>heap := (heap m)(a := None)\<rparr>))"

definition ch_remove :: "'v chash \<Rightarrow> u64 \<Rightarrow> 'v chash result option" where
  "ch_remove m k =
     runs (Some (hash_of m k)) (\<lambda>hash.
     runs (Some (table_rd m hash)) (\<lambda>head.
       case head of None \<Rightarrow> Some (Ok m)
       | Some first \<Rightarrow>
           runs (remove_loop (heap m) k None first) (\<lambda>(prev, a).
           runs (Some (deref (heap m) a)) (\<lambda>e.
             if key e = k then
               runs (Some (free_entry m a)) (\<lambda>m1.
                 case prev of
                   None \<Rightarrow> Some (table_wr m1 hash (nxt e))
                 | Some b \<Rightarrow> Some (set_next m1 (Some b) (nxt e)))
             else Some (Ok m)))))"

partial_function (option) free_chain :: "(nat \<rightharpoonup> 'v entry) \<Rightarrow> ptr \<Rightarrow> (nat \<rightharpoonup> 'v entry) result option"
where
  "free_chain h entry =
     (case entry of None \<Rightarrow> Some (Inr h)
      | Some a \<Rightarrow>
          (case h a of None \<Rightarrow> Some (Inl Use_After_Free)
           | Some e \<Rightarrow> free_chain (h(a := None)) (nxt e)))"

declare free_chain.simps [code]

text \<open>\<^verbatim>\<open>destroy\<close> deletes the entries bucket by bucket; the table keeps its pointers.\<close>

fun destroy_loop :: "'v chash \<Rightarrow> nat list \<Rightarrow> 'v chash result option" where
  "destroy_loop m [] = Some (Ok m)"
| "destroy_loop m (i # is) =
     runs (Some (table_rd m (int i))) (\<lambda>entry.
     runs (free_chain (heap m) entry) (\<lambda>h. destroy_loop (m\<lparr>heap := h\<rparr>) is))"

definition ch_destroy :: "'v chash \<Rightarrow> 'v chash result option" where
  "ch_destroy m = destroy_loop m [0..<unat (bucket_num m)]"

fun null_loop :: "'v chash \<Rightarrow> nat list \<Rightarrow> 'v chash result" where
  "null_loop m [] = Ok m"
| "null_loop m (i # is) = andthen (table_wr m (int i) None) (\<lambda>m'. null_loop m' is)"

definition ch_clear :: "'v chash \<Rightarrow> 'v chash result option" where
  "ch_clear m = runs (ch_destroy m) (\<lambda>m'. Some (null_loop m' [0..<unat (bucket_num m')]))"

text \<open>The destructor: \<^verbatim>\<open>destroy\<close>, then the table itself is deleted.\<close>

definition ch_delete :: "'v chash \<Rightarrow> 'v chash result option" where
  "ch_delete m = runs (ch_destroy m) (\<lambda>m'. Some (Ok (m'\<lparr>table := None\<rparr>)))"

section \<open>Representation\<close>

text \<open>
  \<open>c i\<close> lists the entries of bucket \<open>i\<close> in the order of its linked list. Every entry of
  the store is in the bucket its key hashes to, and no key is twice in a bucket.
\<close>

definition links :: "(nat \<rightharpoonup> 'v entry) \<Rightarrow> nat \<Rightarrow> ptr option" where
  "links h a = map_option nxt (h a)"

definition bucket_of :: "'v chash \<Rightarrow> u64 \<Rightarrow> nat" where
  "bucket_of m k = unat k mod unat (bucket_num m)"

abbreviation key_at :: "(nat \<rightharpoonup> 'v entry) \<Rightarrow> nat \<Rightarrow> u64" where
  "key_at h a \<equiv> key (the (h a))"

abbreviation val_at :: "(nat \<rightharpoonup> 'v entry) \<Rightarrow> nat \<Rightarrow> 'v" where
  "val_at h a \<equiv> val (the (h a))"

definition ch_rep :: "'v chash \<Rightarrow> (nat \<Rightarrow> nat list) \<Rightarrow> bool" where
  "ch_rep m c \<longleftrightarrow>
     0 < unat (bucket_num m) \<and> unat (bucket_num m) < 2 ^ 31 \<and>
     (\<exists>t. table m = Some t \<and> length t = unat (bucket_num m) \<and>
        (\<forall>i<length t. chain (links (heap m)) (t ! i) (c i))) \<and>
     dom (heap m) = (\<Union>i<unat (bucket_num m). set (c i)) \<and>
     (\<forall>i<unat (bucket_num m). \<forall>a\<in>set (c i). bucket_of m (key_at (heap m) a) = i) \<and>
     (\<forall>i<unat (bucket_num m). distinct (map (key_at (heap m)) (c i))) \<and>
     (\<forall>a\<in>dom (heap m). a < fresh m)"

definition ch_map :: "'v chash \<Rightarrow> (nat \<Rightarrow> nat list) \<Rightarrow> u64 \<rightharpoonup> 'v" where
  "ch_map m c k =
     map_option (val_at (heap m)) (find (\<lambda>a. key_at (heap m) a = k) (c (bucket_of m k)))"

section \<open>The loops on a well-formed list\<close>

lemma links_Some [simp]: "links h a = Some r \<longleftrightarrow> (\<exists>e. h a = Some e \<and> nxt e = r)"
  by (auto simp: links_def)

lemma chain_links_live: "chain (links h) p as \<Longrightarrow> a \<in> set as \<Longrightarrow> \<exists>e. h a = Some e"
  using path_live[of "links h" p as None a] by (auto simp: links_def)

lemma find_loop_chain:
  "chain (links h) p as \<Longrightarrow> find_loop h k p = Some (Ok (find (\<lambda>a. key_at h a = k) as))"
proof (induction as arbitrary: p)
  case Nil
  then show ?case by (simp add: find_loop.simps)
next
  case (Cons a as)
  then obtain e where "p = Some a" "h a = Some e" "chain (links h) (nxt e) as"
    by auto
  with Cons.IH show ?case by (simp add: find_loop.simps)
qed

lemma insert_loop_chain:
  "chain (links h) p as \<Longrightarrow> as \<noteq> [] \<Longrightarrow>
     insert_loop h k p = Some (Ok (case find (\<lambda>a. key_at h a = k) as of
        None \<Rightarrow> (False, Some (last as)) | Some a \<Rightarrow> (True, Some a)))"
proof (induction as arbitrary: p)
  case Nil
  then show ?case by simp
next
  case (Cons a as)
  then obtain e where e: "p = Some a" "h a = Some e" "chain (links h) (nxt e) as"
    by auto
  show ?case
  proof (cases "as = []")
    case True
    with e show ?thesis by (simp add: insert_loop.simps)
  next
    case False
    then have "nxt e \<noteq> None" using e(3) by (cases as) auto
    with e False Cons.IH[OF e(3) False] show ?thesis
      by (auto simp: insert_loop.simps[of h k "Some a"] split: option.splits)
  qed
qed

lemma remove_loop_chain:
  "chain (links h) (Some a) as \<Longrightarrow>
     \<exists>ys b zs. as = ys @ b # zs \<and> (\<forall>y\<in>set ys. key_at h y \<noteq> k) \<and> (key_at h b = k \<or> zs = []) \<and>
       remove_loop h k prev a = Some (Ok (if ys = [] then prev else Some (last ys), b))"
proof (induction as arbitrary: a prev)
  case Nil
  then show ?case by simp
next
  case (Cons x as)
  then obtain e where e: "x = a" "h a = Some e" "chain (links h) (nxt e) as"
    by auto
  show ?case
  proof (cases "nxt e = None \<or> key e = k")
    case True
    then have "remove_loop h k prev a = Some (Ok (prev, a))"
      using e by (auto simp: remove_loop.simps[of h k prev a] split: option.splits)
    moreover have "as = [] \<or> key_at h a = k" using True e by auto
    ultimately show ?thesis
      using e by (intro exI[of _ "[]"] exI[of _ a] exI[of _ as]) auto
  next
    case False
    then obtain b where b: "nxt e = Some b" by auto
    with e obtain ys c zs where r: "as = ys @ c # zs" "\<forall>y\<in>set ys. key_at h y \<noteq> k"
      "key_at h c = k \<or> zs = []"
      "remove_loop h k (Some a) b = Some (Ok (if ys = [] then Some a else Some (last ys), c))"
      using Cons.IH[of b "Some a"] by auto
    have "remove_loop h k prev a = remove_loop h k (Some a) b"
      using e b False by (simp add: remove_loop.simps[of h k prev a])
    then show ?thesis
      using e r False by (intro exI[of _ "a # ys"] exI[of _ c] exI[of _ zs]) auto
  qed
qed

section \<open>Buckets\<close>

lemma bucket_of_lt: "0 < unat (bucket_num m) \<Longrightarrow> bucket_of m k < unat (bucket_num m)"
  by (simp add: bucket_of_def)

lemma hash_of_rep:
  assumes "0 < unat (bucket_num m)" and "unat (bucket_num m) < 2 ^ 31"
  shows "hash_of m k = Ok (int (bucket_of m k))"
proof -
  let ?n = "unat (bucket_num m)"
  let ?r = "ucast (k mod ucast (bucket_num m)) :: u32"
  have "?n < 2 ^ 64" using assms(2) by simp
  then have u: "unat (ucast (bucket_num m) :: u64) = ?n"
    by (simp add: unsigned_ucast_eq take_bit_nat_eq_self)
  have lt: "unat k mod ?n < 2 ^ 31"
    using assms by (meson less_trans mod_less_divisor)
  have "unat ?r = take_bit LENGTH(32) (unat (k mod ucast (bucket_num m)))"
    by (simp only: unsigned_ucast_eq)
  also have "unat (k mod ucast (bucket_num m)) = unat k mod ?n"
    by (simp only: unat_mod u)
  finally have r: "unat ?r = unat k mod ?n"
    using lt by (simp add: take_bit_nat_eq_self)
  have u2: "uint ?r = int (unat k mod ?n)" by (simp only: uint_nat r)
  have "sint ?r = int (unat k mod ?n)"
    unfolding sint_uint u2 using lt by (intro signed_take_bit_int_eq_self) auto
  moreover have "bucket_num m \<noteq> 0" using assms(1) by auto
  ultimately show ?thesis by (simp add: hash_of_def bucket_of_def)
qed

lemma ch_repD:
  assumes "ch_rep m c"
  shows "0 < unat (bucket_num m)" "unat (bucket_num m) < 2 ^ 31"
    "dom (heap m) = (\<Union>i<unat (bucket_num m). set (c i))"
    "\<And>i a. i < unat (bucket_num m) \<Longrightarrow> a \<in> set (c i) \<Longrightarrow> bucket_of m (key_at (heap m) a) = i"
    "\<And>i. i < unat (bucket_num m) \<Longrightarrow> distinct (map (key_at (heap m)) (c i))"
    "\<And>a e. heap m a = Some e \<Longrightarrow> a < fresh m"
  using assms by (auto simp: ch_rep_def)

text \<open>The bucket of a key: its index in the table, its list and the list's first entry.\<close>

lemma ch_rep_bucket:
  assumes "ch_rep m c"
  obtains t where "table m = Some t" "length t = unat (bucket_num m)"
    "bucket_of m k < length t" "hash_of m k = Ok (int (bucket_of m k))"
    "table_rd m (int (bucket_of m k)) = Ok (t ! bucket_of m k)"
    "\<forall>i<length t. chain (links (heap m)) (t ! i) (c i)"
proof -
  obtain t where t: "table m = Some t" "length t = unat (bucket_num m)"
    "\<forall>i<length t. chain (links (heap m)) (t ! i) (c i)"
    using assms by (auto simp: ch_rep_def)
  have lt: "bucket_of m k < length t" using bucket_of_lt[OF ch_repD(1)[OF assms]] t(2) by simp
  moreover have "table_rd m (int (bucket_of m k)) = Ok (t ! bucket_of m k)"
    using t(1) lt by (simp add: table_rd_def)
  ultimately show ?thesis using that[of t] t hash_of_rep[OF ch_repD(1,2)[OF assms]] by blast
qed

text \<open>An entry is in no bucket but its own.\<close>

lemma ch_rep_disjoint:
  assumes "ch_rep m c" and "i < unat (bucket_num m)" "j < unat (bucket_num m)" and "i \<noteq> j"
    and "a \<in> set (c i)"
  shows "a \<notin> set (c j)"
  using assms ch_repD(4)[OF assms(1)] by blast

lemma ch_map_entry:
  assumes "ch_rep m c" and "a \<in> set (c (bucket_of m k))" and "key_at (heap m) a = k"
  shows "find (\<lambda>a. key_at (heap m) a = k) (c (bucket_of m k)) = Some a"
proof -
  have b: "bucket_of m k < unat (bucket_num m)" by (rule bucket_of_lt[OF ch_repD(1)[OF assms(1)]])
  have "distinct (map (key_at (heap m)) (c (bucket_of m k)))" using ch_repD(5)[OF assms(1) b] .
  then have "inj_on (key_at (heap m)) (set (c (bucket_of m k)))" by (simp add: distinct_map)
  moreover obtain x where "find (\<lambda>a. key_at (heap m) a = k) (c (bucket_of m k)) = Some x"
    using assms(2,3) by (cases "find (\<lambda>a. key_at (heap m) a = k) (c (bucket_of m k))")
      (auto simp: find_None_iff)
  moreover from this have "x \<in> set (c (bucket_of m k))" "key_at (heap m) x = k"
    by (auto simp: find_Some_iff)
  ultimately show ?thesis using assms(2,3) by (auto dest: inj_onD)
qed

lemma find_entries_cong:
  "\<forall>x\<in>set xs. key_at h' x = key_at h x \<and> val_at h' x = val_at h x \<Longrightarrow>
     map_option (val_at h') (find (\<lambda>x. key_at h' x = k) xs)
     = map_option (val_at h) (find (\<lambda>x. key_at h x = k) xs)"
  by (induction xs) auto

section \<open>What the operations do\<close>

lemma ch_find_rep:
  assumes "ch_rep m c"
  shows "ch_find m k = Some (Ok (find (\<lambda>a. key_at (heap m) a = k) (c (bucket_of m k))))"
proof -
  obtain t where t: "bucket_of m k < length t" "hash_of m k = Ok (int (bucket_of m k))"
    "table_rd m (int (bucket_of m k)) = Ok (t ! bucket_of m k)"
    "\<forall>i<length t. chain (links (heap m)) (t ! i) (c i)"
    using ch_rep_bucket[OF assms, of k] by blast
  let ?b = "bucket_of m k"
  show ?thesis
    using t find_loop_chain[of "heap m" "t ! ?b" "c ?b" k] by (auto simp: ch_find_def)
qed

lemma ch_create_rep:
  assumes "0 < unat num" and "unat num < 2 ^ 31" and "heap m = Map.empty"
  shows "ch_rep (fst (ch_create m True num)) (\<lambda>_. [])"
  using assms by (auto simp: ch_rep_def ch_create_def Let_def)

text \<open>
  Every operation changes one bucket: a state that agrees outside bucket \<open>b\<close> and is well
  formed there is well formed.
\<close>

lemma ch_rep_upd:
  assumes rep: "ch_rep m c" and b: "b < unat (bucket_num m)"
    and num: "bucket_num m' = bucket_num m"
    and tab: "table m = Some t" "table m' = Some t'" "length t' = length t"
    and ptr: "\<forall>i<length t. i \<noteq> b \<longrightarrow> t' ! i = t ! i"
    and others: "\<And>i a. i < unat (bucket_num m) \<Longrightarrow> i \<noteq> b \<Longrightarrow> a \<in> set (c i) \<Longrightarrow>
      heap m' a = heap m a"
    and chain: "chain (links (heap m')) (t' ! b) xs"
    and dom: "dom (heap m') = (\<Union>i\<in>{..<unat (bucket_num m)} - {b}. set (c i)) \<union> set xs"
    and keys: "\<And>a. a \<in> set xs \<Longrightarrow> bucket_of m (key_at (heap m') a) = b"
      "distinct (map (key_at (heap m')) xs)"
    and fresh: "\<And>a. a \<in> dom (heap m') \<Longrightarrow> a < fresh m'"
  shows "ch_rep m' (c(b := xs))"
    and "bucket_of m k \<noteq> b \<Longrightarrow> ch_map m' (c(b := xs)) k = ch_map m c k"
proof -
  have bk: "bucket_of m' = bucket_of m" using num by (simp add: bucket_of_def fun_eq_iff)
  obtain t0 where t0: "table m = Some t0" "length t0 = unat (bucket_num m)"
    "\<forall>i<length t0. chain (links (heap m)) (t0 ! i) (c i)"
    using ch_rep_bucket[OF rep] by metis
  then have t: "length t = unat (bucket_num m)" "\<forall>i<length t. chain (links (heap m)) (t ! i) (c i)"
    using tab(1) by auto
  have "chain (links (heap m')) (t' ! i) ((c(b := xs)) i)" if "i < length t'" for i
  proof (cases "i = b")
    case False
    then have "chain (links (heap m')) (t ! i) (c i) = chain (links (heap m)) (t ! i) (c i)"
      using that tab(3) t(1) others by (intro path_cong) (simp add: links_def)
    then show ?thesis using that tab(3) t(2) ptr False by simp
  qed (use chain in simp)
  moreover have "dom (heap m') = (\<Union>i<unat (bucket_num m). set ((c(b := xs)) i))"
    using dom b by (auto split: if_splits)
  moreover have "bucket_of m (key_at (heap m') a) = i"
    if "i < unat (bucket_num m)" "a \<in> set ((c(b := xs)) i)" for i a
    using that keys(1) others ch_repD(4)[OF rep] by (cases "i = b") auto
  moreover have "distinct (map (key_at (heap m')) ((c(b := xs)) i))"
    if "i < unat (bucket_num m)" for i
  proof (cases "i = b")
    case False
    have "map (key_at (heap m')) (c i) = map (key_at (heap m)) (c i)"
      using others that False by simp
    then show ?thesis using ch_repD(5)[OF rep that] False by (metis fun_upd_other)
  qed (use keys(2) in simp)
  ultimately show "ch_rep m' (c(b := xs))"
    unfolding ch_rep_def num bk using ch_repD(1,2)[OF rep] tab t(1) fresh by simp
  show "ch_map m' (c(b := xs)) k = ch_map m c k" if ne: "bucket_of m k \<noteq> b"
  proof -
    have bk_lt: "bucket_of m k < unat (bucket_num m)" by (rule bucket_of_lt[OF ch_repD(1)[OF rep]])
    have "map_option (val_at (heap m')) (find (\<lambda>a. key_at (heap m') a = k) (c (bucket_of m k)))
        = map_option (val_at (heap m)) (find (\<lambda>a. key_at (heap m) a = k) (c (bucket_of m k)))"
      by (rule find_entries_cong) (use others[OF bk_lt ne] in simp)
    then show ?thesis using ne by (simp add: ch_map_def bk)
  qed
qed

lemma dom_split:
  assumes "ch_rep m c" and "b < unat (bucket_num m)"
  shows "dom (heap m) = (\<Union>i\<in>{..<unat (bucket_num m)} - {b}. set (c i)) \<union> set (c b)"
  using ch_repD(3)[OF assms(1)] assms(2) by auto

lemma find_none_key: "find (\<lambda>a. key_at h a = k) xs = None \<Longrightarrow> k \<notin> key_at h ` set xs"
  by (auto simp: find_None_iff)

lemma chain_heap_next:
  "chain (links h) p (as @ [l]) \<Longrightarrow> \<exists>e. h l = Some e \<and> nxt e = None"
  by auto

text \<open>
  A state that has one more entry \<open>a\<close>, at the end of its bucket's list, represents one more key.
\<close>

lemma ch_rep_add:
  assumes rep: "ch_rep m c" and none: "ch_map m c k = None"
    and num: "bucket_num m' = bucket_num m"
    and tab: "table m = Some t" "table m' = Some t'" "length t' = length t"
      "\<forall>i<length t. i \<noteq> bucket_of m k \<longrightarrow> t' ! i = t ! i"
    and chain: "chain (links (heap m')) (t' ! bucket_of m k) (c (bucket_of m k) @ [a])"
    and dom: "dom (heap m') = insert a (dom (heap m))" "\<And>x. x \<in> dom (heap m') \<Longrightarrow> x < fresh m'"
    and same: "\<And>x. x \<in> dom (heap m) \<Longrightarrow> x \<notin> set (c (bucket_of m k)) \<Longrightarrow> heap m' x = heap m x"
    and ent: "\<And>x. x \<in> dom (heap m) \<Longrightarrow> key_at (heap m') x = key_at (heap m) x \<and>
        val_at (heap m') x = val_at (heap m) x"
    and new: "key_at (heap m') a = k" "val_at (heap m') a = v"
  shows "ch_rep m' (c(bucket_of m k := c (bucket_of m k) @ [a])) \<and>
     ch_map m' (c(bucket_of m k := c (bucket_of m k) @ [a])) = (ch_map m c)(k \<mapsto> v)"
proof -
  let ?b = "bucket_of m k"
  let ?xs = "c ?b @ [a]"
  have b: "?b < unat (bucket_num m)" by (rule bucket_of_lt[OF ch_repD(1)[OF rep]])
  have d: "x \<in> dom (heap m)" if "i < unat (bucket_num m)" "x \<in> set (c i)" for i x
    using that ch_repD(3)[OF rep] by auto
  have others: "heap m' x = heap m x"
    if "i < unat (bucket_num m)" "i \<noteq> ?b" "x \<in> set (c i)" for i x
    using that d same ch_rep_disjoint[OF rep that(1) b that(2,3)] by blast
  have nf: "find (\<lambda>a. key_at (heap m) a = k) (c ?b) = None" using none by (simp add: ch_map_def)
  have bkeys: "bucket_of m (key_at (heap m') x) = ?b" if "x \<in> set ?xs" for x
    using that ent d[OF b] new(1) ch_repD(4)[OF rep b] by auto
  have dist: "distinct (map (key_at (heap m')) ?xs)"
    using ent d[OF b] new(1) find_none_key[OF nf] ch_repD(5)[OF rep b]
    by (intro distinct_map_snoc[where f = "key_at (heap m)"]) auto
  have dom': "dom (heap m') = (\<Union>i\<in>{..<unat (bucket_num m)} - {?b}. set (c i)) \<union> set ?xs"
    using dom(1) dom_split[OF rep b] by simp
  have R: "ch_rep m' (c(?b := ?xs))"
    by (rule ch_rep_upd(1)[OF rep b num tab]) (fact others chain dom' bkeys dist dom(2))+
  have frame: "ch_map m' (c(?b := ?xs)) k' = ch_map m c k'" if "bucket_of m k' \<noteq> ?b" for k'
    by (rule ch_rep_upd(2)[OF rep b num tab]) (fact others chain dom' bkeys dist dom(2) that)+
  have "ch_map m' (c(?b := ?xs)) k' = ((ch_map m c)(k \<mapsto> v)) k'" for k'
  proof (cases "bucket_of m k' = ?b")
    case True
    have "map_option (val_at (heap m')) (find (\<lambda>x. key_at (heap m') x = k') (c ?b))
        = map_option (val_at (heap m)) (find (\<lambda>x. key_at (heap m) x = k') (c ?b))"
      by (rule find_entries_cong) (use ent d[OF b] in blast)
    moreover have "bucket_of m' k' = ?b" using True num by (simp add: bucket_of_def)
    ultimately show ?thesis
      using True new nf by (auto simp: ch_map_def find_append split: option.splits)
  next
    case False
    then show ?thesis using frame by auto
  qed
  then show ?thesis using R by blast
qed

text \<open>Overwriting the value of an entry changes the map at its key.\<close>

lemma ch_rep_set:
  assumes rep: "ch_rep m c" and a: "a \<in> set (c (bucket_of m k))" "heap m a = Some e" "key e = k"
    and m': "m' = m\<lparr>heap := (heap m)(a \<mapsto> e\<lparr>val := v\<rparr>)\<rparr>"
  shows "ch_rep m' c" and "ch_map m' c = (ch_map m c)(k \<mapsto> v)"
proof -
  let ?b = "bucket_of m k"
  have f: "find (\<lambda>a. key_at (heap m) a = k) (c ?b) = Some a"
    using ch_map_entry[OF rep a(1)] a(2,3) by simp
  have key: "key_at (heap m') x = key_at (heap m) x" for x using a(2) m' by simp
  have lk: "links (heap m') = links (heap m)" using a(2) m' by (auto simp: links_def)
  have bk: "bucket_of m' = bucket_of m" using m' by (simp add: bucket_of_def fun_eq_iff)
  have D: "dom (heap m') = dom (heap m)" using a(2) m' by auto
  show "ch_rep m' c" using rep m' unfolding ch_rep_def lk key bk D by simp
  have M: "ch_map m' c k' = map_option (val_at (heap m'))
      (find (\<lambda>x. key_at (heap m) x = k') (c (bucket_of m k')))" for k'
    by (simp only: ch_map_def bk key)
  show "ch_map m' c = (ch_map m c)(k \<mapsto> v)"
  proof
    fix k'
    show "ch_map m' c k' = ((ch_map m c)(k \<mapsto> v)) k'"
    proof (cases "k' = k")
      case True
      then show ?thesis using f by (simp only: M option.map) (simp add: m')
    next
      case False
      have "map_option (val_at (heap m')) (find (\<lambda>x. key_at (heap m) x = k') (c (bucket_of m k')))
          = map_option (val_at (heap m)) (find (\<lambda>x. key_at (heap m) x = k') (c (bucket_of m k')))"
        using a(2,3) False m' by (intro option.map_cong0) (auto dest: find_Some_mem)
      then show ?thesis using False by (simp only: M) (simp add: ch_map_def)
    qed
  qed
qed

lemma ch_insert_empty:
  assumes rep: "ch_rep m c" and nil: "c (bucket_of m k) = []"
  shows "\<exists>m' c'. ch_insert m True k v ow = Some (Ok (m', True)) \<and> ch_rep m' c' \<and>
     ch_map m' c' = (ch_map m c)(k \<mapsto> v) \<and> bucket_num m' = bucket_num m"
proof -
  obtain t where t: "table m = Some t" "length t = unat (bucket_num m)"
    "bucket_of m k < length t" "hash_of m k = Ok (int (bucket_of m k))"
    "table_rd m (int (bucket_of m k)) = Ok (t ! bucket_of m k)"
    "\<forall>i<length t. chain (links (heap m)) (t ! i) (c i)"
    using ch_rep_bucket[OF rep, of k] by blast
  let ?b = "bucket_of m k" and ?a = "fresh m"
  let ?m' = "m\<lparr>heap := (heap m)(?a \<mapsto> \<lparr>key = k, val = v, nxt = None\<rparr>), fresh := ?a + 1,
      table := Some (t[?b := Some ?a])\<rparr>"
  have fr: "?a \<notin> dom (heap m)" using ch_repD(6)[OF rep] by auto
  have "t ! ?b = None" using t(3,6) nil by auto
  then have "ch_insert m True k v ow = Some (Ok (?m', True))"
    using t by (simp add: ch_insert_def new_entry_def table_wr_def)
  moreover have "ch_rep ?m' (c(?b := c ?b @ [?a])) \<and>
      ch_map ?m' (c(?b := c ?b @ [?a])) = (ch_map m c)(k \<mapsto> v)"
    using fr t(1-3) nil ch_repD(6)[OF rep]
    by (intro ch_rep_add[OF rep, where t = t and t' = "t[?b := Some ?a]"])
      (auto simp: ch_map_def less_Suc_eq)
  ultimately show ?thesis by fastforce
qed

lemma ch_insert_last:
  assumes rep: "ch_rep m c" and ne: "c (bucket_of m k) \<noteq> []" and none: "ch_map m c k = None"
  shows "\<exists>m' c'. ch_insert m True k v ow = Some (Ok (m', True)) \<and> ch_rep m' c' \<and>
     ch_map m' c' = (ch_map m c)(k \<mapsto> v) \<and> bucket_num m' = bucket_num m"
proof -
  obtain t where t: "table m = Some t" "length t = unat (bucket_num m)"
    "bucket_of m k < length t" "hash_of m k = Ok (int (bucket_of m k))"
    "table_rd m (int (bucket_of m k)) = Ok (t ! bucket_of m k)"
    "\<forall>i<length t. chain (links (heap m)) (t ! i) (c i)"
    using ch_rep_bucket[OF rep, of k] by blast
  let ?b = "bucket_of m k" and ?a = "fresh m"
  let ?h = "(heap m)(?a \<mapsto> \<lparr>key = k, val = v, nxt = None\<rparr>)"
  have ch: "chain (links (heap m)) (t ! ?b) (c ?b)" using t(3,6) by blast
  obtain as l where cb: "c ?b = as @ [l]" using ne by (metis rev_exhaust)
  then obtain e where e: "heap m l = Some e" "nxt e = None" using chain_heap_next ch by metis
  have fr: "?a \<notin> dom (heap m)" using ch_repD(6)[OF rep] by auto
  then have l: "l \<noteq> ?a" using e by auto
  let ?m' = "m\<lparr>heap := ?h(l \<mapsto> e\<lparr>nxt := Some ?a\<rparr>), fresh := ?a + 1\<rparr>"
  obtain p where "t ! ?b = Some p" using ch ne by (cases "t ! ?b") auto
  moreover have "insert_loop (heap m) k (t ! ?b) = Some (Ok (False, Some l))"
    using insert_loop_chain[OF ch ne, of k] none cb by (simp add: ch_map_def)
  ultimately have ins: "ch_insert m True k v ow = Some (Ok (?m', True))"
    using t e l by (simp add: ch_insert_def new_entry_def set_next_def deref_def)
  have "?a \<notin> set (c ?b)" using fr t(2,3) ch_repD(3)[OF rep] by auto
  moreover have "links (heap ?m') = ((links (heap m))(?a \<mapsto> None))(l \<mapsto> Some ?a)"
    by (auto simp: links_def)
  ultimately have "chain (links (heap ?m')) (t ! ?b) (c ?b @ [?a])"
    using chain_snoc[of "links (heap m)" "t ! ?b" as l ?a] ch cb by simp
  then have "ch_rep ?m' (c(?b := c ?b @ [?a])) \<and>
      ch_map ?m' (c(?b := c ?b @ [?a])) = (ch_map m c)(k \<mapsto> v)"
    using fr t(1) e l cb ch_repD(6)[OF rep]
    by (intro ch_rep_add[OF rep none, where t = t and t' = t]) (auto simp: less_Suc_eq)
  with ins show ?thesis by fastforce
qed

lemma ch_insert_new:
  assumes "ch_rep m c" and "ch_map m c k = None"
  shows "\<exists>m' c'. ch_insert m True k v ow = Some (Ok (m', True)) \<and> ch_rep m' c' \<and>
     ch_map m' c' = (ch_map m c)(k \<mapsto> v) \<and> bucket_num m' = bucket_num m"
  using ch_insert_empty[OF assms(1)] ch_insert_last[OF assms(1) _ assms(2)] by blast

text \<open>An insert that meets its key overwrites the value or leaves it, and never allocates.\<close>

lemma ch_insert_met:
  assumes rep: "ch_rep m c" and some: "ch_map m c k \<noteq> None"
  shows "\<exists>m'. ch_insert m mem k v ow = Some (Ok (m', True)) \<and> ch_rep m' c \<and>
     ch_map m' c = (if ow then (ch_map m c)(k \<mapsto> v) else ch_map m c) \<and>
     bucket_num m' = bucket_num m"
proof -
  obtain t where t: "table m = Some t" "length t = unat (bucket_num m)"
    "bucket_of m k < length t" "hash_of m k = Ok (int (bucket_of m k))"
    "table_rd m (int (bucket_of m k)) = Ok (t ! bucket_of m k)"
    "\<forall>i<length t. chain (links (heap m)) (t ! i) (c i)"
    using ch_rep_bucket[OF rep, of k] by blast
  let ?b = "bucket_of m k"
  have b: "?b < unat (bucket_num m)" using t(2,3) by simp
  have ch: "chain (links (heap m)) (t ! ?b) (c ?b)" using t(3,6) by blast
  obtain a where f: "find (\<lambda>a. key_at (heap m) a = k) (c ?b) = Some a"
    using some by (auto simp: ch_map_def)
  then have a: "a \<in> set (c ?b)" "key_at (heap m) a = k" by (auto dest: find_Some_mem)
  obtain e where e: "heap m a = Some e" using chain_links_live[OF ch a(1)] by blast
  have ne: "c ?b \<noteq> []" using a(1) by auto
  obtain p where "t ! ?b = Some p" using ch ne by (cases "t ! ?b") auto
  moreover have "insert_loop (heap m) k (t ! ?b) = Some (Ok (True, Some a))"
    using insert_loop_chain[OF ch ne, of k] f by simp
  ultimately have ins: "ch_insert m mem k v ow =
      Some (Ok (if ow then m\<lparr>heap := (heap m)(a \<mapsto> e\<lparr>val := v\<rparr>)\<rparr> else m, True))"
    using t(4,5) e by (simp add: ch_insert_def set_value_def deref_def)
  show ?thesis
  proof (cases ow)
    case True
    then show ?thesis using ins ch_rep_set[OF rep a(1) e _ refl, of v] a(2) e by simp
  qed (use ins rep in simp)
qed

lemma ch_insert_no_mem:
  assumes rep: "ch_rep m c" and none: "ch_map m c k = None"
  shows "ch_insert m False k v ow = Some (Ok (m, False))"
proof -
  obtain t where t: "bucket_of m k < length t" "hash_of m k = Ok (int (bucket_of m k))"
    "table_rd m (int (bucket_of m k)) = Ok (t ! bucket_of m k)"
    "\<forall>i<length t. chain (links (heap m)) (t ! i) (c i)"
    using ch_rep_bucket[OF rep, of k] by blast
  then have ch: "chain (links (heap m)) (t ! bucket_of m k) (c (bucket_of m k))" by blast
  show ?thesis
  proof (cases "c (bucket_of m k) = []")
    case False
    then show ?thesis using t insert_loop_chain[OF ch False, of k] none ch
      by (auto simp: ch_insert_def ch_map_def)
  qed (use t ch in \<open>simp add: ch_insert_def\<close>)
qed

text \<open>A state that has lost one entry of a bucket's list represents one key less.\<close>

lemma ch_rep_del:
  assumes rep: "ch_rep m c" and cb: "c (bucket_of m k) = ys @ a # zs" "key_at (heap m) a = k"
    and num: "bucket_num m' = bucket_num m"
    and tab: "table m = Some t" "table m' = Some t'" "length t' = length t"
      "\<forall>i<length t. i \<noteq> bucket_of m k \<longrightarrow> t' ! i = t ! i"
    and chain: "chain (links (heap m')) (t' ! bucket_of m k) (ys @ zs)"
    and dom: "dom (heap m') = dom (heap m) - {a}" "fresh m' = fresh m"
    and same: "\<And>x. x \<in> dom (heap m) \<Longrightarrow> x \<notin> set (c (bucket_of m k)) \<Longrightarrow> heap m' x = heap m x"
    and ent: "\<And>x. x \<in> dom (heap m') \<Longrightarrow> key_at (heap m') x = key_at (heap m) x \<and>
        val_at (heap m') x = val_at (heap m) x"
  shows "\<exists>c'. ch_rep m' c' \<and> ch_map m' c' = (ch_map m c)(k := None)"
proof -
  let ?b = "bucket_of m k" and ?xs = "ys @ zs"
  have b: "?b < unat (bucket_num m)" by (rule bucket_of_lt[OF ch_repD(1)[OF rep]])
  have d: "x \<in> dom (heap m)" if "i < unat (bucket_num m)" "x \<in> set (c i)" for i x
    using that ch_repD(3)[OF rep] by auto
  have dist0: "distinct (map (key_at (heap m)) (ys @ a # zs))"
    using ch_repD(5)[OF rep b] unfolding cb(1) .
  then have an: "a \<notin> set ?xs" "k \<notin> key_at (heap m) ` set ?xs" using cb(2) by auto
  have others: "heap m' x = heap m x"
    if "i < unat (bucket_num m)" "i \<noteq> ?b" "x \<in> set (c i)" for i x
    using that d same ch_rep_disjoint[OF rep that(1) b that(2,3)] by blast
  have xs: "key_at (heap m') x = key_at (heap m) x \<and> val_at (heap m') x = val_at (heap m) x"
    if "x \<in> set ?xs" for x
    using that ent dom(1) d[OF b, of x] an(1) cb(1) by auto
  have bkeys: "bucket_of m (key_at (heap m') x) = ?b" if "x \<in> set ?xs" for x
    using that xs ch_repD(4)[OF rep b, of x] cb(1) by auto
  have "map (key_at (heap m')) ?xs = map (key_at (heap m)) ?xs" using xs by simp
  moreover have "distinct (map (key_at (heap m)) ?xs)" using dist0 by auto
  ultimately have dist: "distinct (map (key_at (heap m')) ?xs)" by (simp only:)
  have "a \<notin> set (c i)" if "i < unat (bucket_num m)" "i \<noteq> ?b" for i
    using ch_rep_disjoint[OF rep b that(1)] that(2) cb(1) by auto
  then have dom': "dom (heap m') = (\<Union>i\<in>{..<unat (bucket_num m)} - {?b}. set (c i)) \<union> set ?xs"
    using dom(1) dom_split[OF rep b] cb(1) an(1) by auto
  have fr: "x \<in> dom (heap m') \<Longrightarrow> x < fresh m'" for x
    using dom ch_repD(6)[OF rep] by auto
  have R: "ch_rep m' (c(?b := ?xs))"
    by (rule ch_rep_upd(1)[OF rep b num tab]) (fact others chain dom' bkeys dist fr)+
  have frame: "ch_map m' (c(?b := ?xs)) k' = ch_map m c k'" if "bucket_of m k' \<noteq> ?b" for k'
    by (rule ch_rep_upd(2)[OF rep b num tab]) (fact others chain dom' bkeys dist fr that)+
  have "ch_map m' (c(?b := ?xs)) k' = ((ch_map m c)(k := None)) k'" for k'
  proof (cases "bucket_of m k' = ?b")
    case True
    have "map_option (val_at (heap m')) (find (\<lambda>x. key_at (heap m') x = k') ?xs)
        = map_option (val_at (heap m)) (find (\<lambda>x. key_at (heap m) x = k') ?xs)"
      by (rule find_entries_cong) (use xs in blast)
    moreover have "bucket_of m' k' = ?b" using True num by (simp add: bucket_of_def)
    moreover have "find (\<lambda>x. key_at (heap m) x = k) ?xs = None"
      using an(2) by (auto simp: find_None_iff)
    ultimately show ?thesis
      using True cb by (auto simp: ch_map_def find_append split: option.splits)
  qed (use frame in auto)
  then show ?thesis using R by blast
qed

lemma ch_remove_entry:
  assumes rep: "ch_rep m c" and t: "table m = Some t" "length t = unat (bucket_num m)"
    "bucket_of m k < length t" "hash_of m k = Ok (int (bucket_of m k))"
    "table_rd m (int (bucket_of m k)) = Ok (t ! bucket_of m k)"
    "\<forall>i<length t. chain (links (heap m)) (t ! i) (c i)"
    and first: "t ! bucket_of m k = Some first"
    and r: "c (bucket_of m k) = ys @ a # zs"
      "remove_loop (heap m) k None first = Some (Ok (if ys = [] then None else Some (last ys), a))"
    and e: "heap m a = Some e" "key e = k"
  shows "\<exists>m' c'. ch_remove m k = Some (Ok m') \<and> ch_rep m' c' \<and>
     ch_map m' c' = (ch_map m c)(k := None) \<and> bucket_num m' = bucket_num m"
proof -
  let ?b = "bucket_of m k"
  let ?h = "(heap m)(a := None)"
  have ch: "chain (links (heap m)) (t ! ?b) (ys @ a # zs)" using t(3,6) r(1) by auto
  have lka: "links (heap m) a = Some (nxt e)" using e(1) by simp
  have key: "key_at (heap m) a = k" using e by simp
  show ?thesis
  proof (cases ys rule: rev_exhaust)
    case Nil
    let ?m' = "m\<lparr>heap := ?h, table := Some (t[?b := nxt e])\<rparr>"
    have rm: "ch_remove m k = Some (Ok ?m')"
      using t(1,3-5) first r(2) e Nil
      by (simp add: ch_remove_def deref_def free_entry_def table_wr_def)
    have lk: "links (heap ?m') = (links (heap m))(a := None)" by (auto simp: links_def)
    have "chain (links (heap ?m')) (nxt e) zs"
      unfolding lk using chain_unlink_head[of "links (heap m)" a zs "nxt e" None] ch lka Nil by auto
    then have "\<exists>c'. ch_rep ?m' c' \<and> ch_map ?m' c' = (ch_map m c)(k := None)"
      using t(1,3) r(1) Nil
      by (intro ch_rep_del[OF rep r(1) key, where t = t and t' = "t[?b := nxt e]"])
        (auto split: if_splits)
    with rm show ?thesis by fastforce
  next
    case (snoc as l)
    obtain f where f: "heap m l = Some f" using ch snoc by auto
    have la: "l \<noteq> a" using chain_distinct[OF ch] snoc by auto
    let ?m' = "m\<lparr>heap := ?h(l \<mapsto> f\<lparr>nxt := nxt e\<rparr>)\<rparr>"
    have rm: "ch_remove m k = Some (Ok ?m')"
      using t(1,3-5) first r(2) e snoc f la
      by (simp add: ch_remove_def deref_def free_entry_def set_next_def)
    have lk: "links (heap ?m') = (links (heap m))(a := None, l \<mapsto> nxt e)"
      by (auto simp: links_def)
    have "chain (links (heap ?m')) (t ! ?b) (as @ l # zs)"
      unfolding lk using chain_unlink[of "links (heap m)" "t ! ?b" as l a zs "nxt e" None] ch lka snoc by auto
    then have "\<exists>c'. ch_rep ?m' c' \<and> ch_map ?m' c' = (ch_map m c)(k := None)"
      using t(1) r(1) snoc f la
      by (intro ch_rep_del[OF rep r(1) key, where t = t and t' = t]) (auto split: if_splits)
    with rm show ?thesis by fastforce
  qed
qed

lemma ch_remove_rep:
  assumes rep: "ch_rep m c"
  shows "\<exists>m' c'. ch_remove m k = Some (Ok m') \<and> ch_rep m' c' \<and>
     ch_map m' c' = (ch_map m c)(k := None) \<and> bucket_num m' = bucket_num m"
proof -
  obtain t where t: "table m = Some t" "length t = unat (bucket_num m)"
    "bucket_of m k < length t" "hash_of m k = Ok (int (bucket_of m k))"
    "table_rd m (int (bucket_of m k)) = Ok (t ! bucket_of m k)"
    "\<forall>i<length t. chain (links (heap m)) (t ! i) (c i)"
    using ch_rep_bucket[OF rep, of k] by blast
  let ?b = "bucket_of m k"
  have ch: "chain (links (heap m)) (t ! ?b) (c ?b)" using t(3,6) by blast
  show ?thesis
  proof (cases "t ! ?b")
    case None
    then have "ch_map m c k = None" using ch by (simp add: ch_map_def)
    then show ?thesis using t(4,5) None rep by (auto simp: ch_remove_def fun_upd_idem)
  next
    case (Some first)
    then obtain ys a zs where r: "c ?b = ys @ a # zs" "\<forall>y\<in>set ys. key_at (heap m) y \<noteq> k"
      "key_at (heap m) a = k \<or> zs = []"
      "remove_loop (heap m) k None first = Some (Ok (if ys = [] then None else Some (last ys), a))"
      using remove_loop_chain[of "heap m" first "c ?b" k None] ch by auto
    obtain e where e: "heap m a = Some e" using chain_links_live[OF ch, of a] r(1) by auto
    show ?thesis
    proof (cases "key e = k")
      case False
      then have "find (\<lambda>x. key_at (heap m) x = k) (c ?b) = None"
        using r(1-3) e by (auto simp: find_None_iff)
      then have "ch_map m c k = None" by (simp add: ch_map_def)
      moreover have "ch_remove m k = Some (Ok m)"
        using t(4,5) Some r(4) e False by (simp add: ch_remove_def deref_def)
      ultimately show ?thesis using rep by (auto simp: fun_upd_idem)
    next
      case True
      then show ?thesis using ch_remove_entry[OF rep t Some r(1,4) e] by simp
    qed
  qed
qed

section \<open>Deleting every entry\<close>

lemma free_chain_chain:
  "chain (links h) p as \<Longrightarrow> free_chain h p = Some (Ok (h |` (- set as)))"
proof (induction as arbitrary: p h)
  case Nil
  then show ?case by (simp add: free_chain.simps)
next
  case (Cons a as)
  then obtain e where e: "p = Some a" "h a = Some e" "chain (links h) (nxt e) as" by auto
  have "a \<notin> set as" using chain_distinct[OF Cons.prems] by simp
  moreover have "links (h(a := None)) = (links h)(a := None)" by (auto simp: links_def)
  ultimately have "chain (links (h(a := None))) (nxt e) as" using e(3) by simp
  then have "free_chain (h(a := None)) (nxt e) = Some (Ok ((h(a := None)) |` (- set as)))"
    by (rule Cons.IH)
  moreover have "free_chain h p = free_chain (h(a := None)) (nxt e)"
    using e by (simp add: free_chain.simps[of h "Some a"])
  moreover have "(h(a := None)) |` (- set as) = h |` (- set (a # as))"
    by (auto simp: restrict_map_def)
  ultimately show ?case by simp
qed

lemma chain_restrict:
  "chain (links h) p as \<Longrightarrow> set as \<subseteq> S \<Longrightarrow> chain (links (h |` S)) p as"
  by (subst path_cong[of as _ "links h"]) (auto simp: links_def)

lemma destroy_loop_rep:
  assumes "table m = Some t" and "distinct is" and "\<forall>i\<in>set is. i < length t"
    and "\<forall>i\<in>set is. chain (links (heap m)) (t ! i) (c i)"
    and "\<forall>i\<in>set is. \<forall>j\<in>set is. i \<noteq> j \<longrightarrow> set (c i) \<inter> set (c j) = {}"
  shows "destroy_loop m is = Some (Ok (m\<lparr>heap := heap m |` (- (\<Union>i\<in>set is. set (c i)))\<rparr>))"
  using assms
proof (induction "is" arbitrary: m)
  case Nil
  then show ?case by simp
next
  case (Cons i "is")
  let ?m = "m\<lparr>heap := heap m |` (- set (c i))\<rparr>"
  have ch: "chain (links (heap m)) (t ! i) (c i)" using Cons.prems(4) by simp
  have "chain (links (heap ?m)) (t ! j) (c j)" if "j \<in> set is" for j
    using that Cons.prems(2,4,5) by (auto intro!: chain_restrict)
  then have "destroy_loop ?m is = Some (Ok (?m\<lparr>heap := heap ?m |` (- (\<Union>i\<in>set is. set (c i)))\<rparr>))"
    using Cons.prems by (intro Cons.IH) auto
  moreover have "destroy_loop m (i # is) = destroy_loop ?m is"
    using Cons.prems(1,3) free_chain_chain[OF ch] by (simp add: table_rd_def)
  moreover have "heap ?m |` (- (\<Union>i\<in>set is. set (c i)))
      = heap m |` (- (\<Union>i\<in>set (i # is). set (c i)))"
    by (auto simp: restrict_map_def)
  ultimately show ?case by simp
qed

lemma ch_destroy_rep:
  assumes rep: "ch_rep m c"
  shows "ch_destroy m = Some (Ok (m\<lparr>heap := Map.empty\<rparr>))"
proof -
  obtain t where t: "table m = Some t" "length t = unat (bucket_num m)"
    "\<forall>i<length t. chain (links (heap m)) (t ! i) (c i)"
    using ch_rep_bucket[OF rep] by metis
  have "set (c i) \<inter> set (c j) = {}"
    if "i < unat (bucket_num m)" "j < unat (bucket_num m)" "i \<noteq> j" for i j
    using ch_rep_disjoint[OF rep that] by blast
  then have "ch_destroy m = Some (Ok (m\<lparr>heap := heap m |` (- dom (heap m))\<rparr>))"
    unfolding ch_destroy_def
    by (subst destroy_loop_rep[OF t(1)]) (use t ch_repD(3)[OF rep] in \<open>auto simp: lessThan_atLeast0\<close>)
  moreover have "heap m |` (- dom (heap m)) = Map.empty" by (auto simp: restrict_map_def)
  ultimately show ?thesis by simp
qed

lemma null_loop_table:
  "table m = Some t \<Longrightarrow> \<forall>i\<in>set is. i < length t \<Longrightarrow>
     \<exists>t'. null_loop m is = Ok (m\<lparr>table := Some t'\<rparr>) \<and> length t' = length t \<and>
       (\<forall>i<length t. t' ! i = (if i \<in> set is then None else t ! i))"
proof (induction "is" arbitrary: m t)
  case Nil
  then show ?case by (intro exI[of _ t]) simp
next
  case (Cons i "is")
  let ?t = "t[i := None]"
  let ?m = "m\<lparr>table := Some ?t\<rparr>"
  obtain t' where t': "null_loop ?m is = Ok (?m\<lparr>table := Some t'\<rparr>)" "length t' = length ?t"
    "\<forall>j<length ?t. t' ! j = (if j \<in> set is then None else ?t ! j)"
    using Cons.IH[of ?m ?t] Cons.prems(2) by auto
  have "null_loop m (i # is) = Ok (m\<lparr>table := Some t'\<rparr>)"
    using t'(1) Cons.prems by (simp add: table_wr_def)
  moreover have "t' ! j = (if j \<in> set (i # is) then None else t ! j)" if "j < length t" for j
    using t'(3) that by (simp add: nth_list_update)
  ultimately show ?case using t'(2) by (intro exI[of _ t']) simp
qed

lemma ch_clear_rep:
  assumes rep: "ch_rep m c"
  shows "\<exists>m'. ch_clear m = Some (Ok m') \<and> ch_rep m' (\<lambda>_. []) \<and> heap m' = Map.empty \<and>
     bucket_num m' = bucket_num m"
proof -
  let ?m = "m\<lparr>heap := Map.empty\<rparr>"
  obtain t where "table m = Some t" and len: "length t = unat (bucket_num m)"
    using ch_rep_bucket[OF rep] by metis
  then have t: "table ?m = Some t" "length t = unat (bucket_num m)" by simp_all
  then obtain t' where t': "null_loop ?m [0..<unat (bucket_num m)] = Ok (?m\<lparr>table := Some t'\<rparr>)"
    "length t' = length t" "\<forall>i<length t. t' ! i = None"
    using null_loop_table[OF t(1), of "[0..<unat (bucket_num m)]"] by auto
  then have "ch_clear m = Some (Ok (?m\<lparr>table := Some t'\<rparr>))"
    using ch_destroy_rep[OF rep] by (simp add: ch_clear_def)
  moreover have "ch_rep (?m\<lparr>table := Some t'\<rparr>) (\<lambda>_. [])"
    using ch_repD(1,2)[OF rep] t' t(2) by (simp add: ch_rep_def)
  ultimately show ?thesis by simp
qed

section \<open>The interface: a store of keys and values\<close>

text \<open>\<^verbatim>\<open>find\<close> followed by the caller's read through the pointer it returns.\<close>

definition ch_get :: "'v chash \<Rightarrow> u64 \<Rightarrow> 'v option result option" where
  "ch_get m k = runs (ch_find m k) (\<lambda>p.
     Some (case p of None \<Rightarrow> Ok None | Some a \<Rightarrow> andthen (deref (heap m) a) (\<lambda>e. Ok (Some (val e)))))"

datatype 'v kv_op =
    Put bool u64 'v bool   \<comment> \<open>does memory last, key, value, overwrite\<close>
  | Del u64
  | Wipe

fun kv_after :: "'v kv_op \<Rightarrow> (u64 \<rightharpoonup> 'v) \<Rightarrow> (u64 \<rightharpoonup> 'v)" where
  "kv_after (Put mem k v ow) f =
     (if f k = None then if mem then f(k \<mapsto> v) else f else if ow then f(k \<mapsto> v) else f)"
| "kv_after (Del k) f = f(k := None)"
| "kv_after Wipe f = Map.empty"

fun kv_run ::
  "('s \<Rightarrow> bool \<Rightarrow> u64 \<Rightarrow> 'v \<Rightarrow> bool \<Rightarrow> ('s \<times> bool) result option) \<Rightarrow>
   ('s \<Rightarrow> u64 \<Rightarrow> 's result option) \<Rightarrow> ('s \<Rightarrow> 's result option) \<Rightarrow>
   's \<Rightarrow> 'v kv_op list \<Rightarrow> 's result option" where
  "kv_run put del wipe s [] = Some (Ok s)"
| "kv_run put del wipe s (Put mem k v ow # ops) =
     runs (put s mem k v ow) (\<lambda>(s', _). kv_run put del wipe s' ops)"
| "kv_run put del wipe s (Del k # ops) = runs (del s k) (\<lambda>s'. kv_run put del wipe s' ops)"
| "kv_run put del wipe s (Wipe # ops) = runs (wipe s) (\<lambda>s'. kv_run put del wipe s' ops)"

locale kv_base =
  fixes rel :: "'s \<Rightarrow> (u64 \<rightharpoonup> 'v) \<Rightarrow> bool"
    and get :: "'s \<Rightarrow> u64 \<Rightarrow> 'v option result option"
    and put :: "'s \<Rightarrow> bool \<Rightarrow> u64 \<Rightarrow> 'v \<Rightarrow> bool \<Rightarrow> ('s \<times> bool) result option"
  assumes get_ok: "rel s f \<Longrightarrow> get s k = Some (Ok (f k))"
    and put_ok: "rel s f \<Longrightarrow>
      \<exists>s'. put s mem k v ow = Some (Ok (s', mem \<or> f k \<noteq> None)) \<and>
        rel s' (kv_after (Put mem k v ow) f)"
begin

lemma put_get:
  assumes "rel s f"
  shows "\<exists>s'. put s True k v True = Some (Ok (s', True)) \<and> get s' k = Some (Ok (Some v))"
  using put_ok[OF assms, of True k v True] get_ok by (auto split: if_splits)

end

locale kv_store = kv_base rel get put
  for rel :: "'s \<Rightarrow> (u64 \<rightharpoonup> 'v) \<Rightarrow> bool"
    and get :: "'s \<Rightarrow> u64 \<Rightarrow> 'v option result option"
    and put :: "'s \<Rightarrow> bool \<Rightarrow> u64 \<Rightarrow> 'v \<Rightarrow> bool \<Rightarrow> ('s \<times> bool) result option" +
  fixes del :: "'s \<Rightarrow> u64 \<Rightarrow> 's result option"
    and wipe :: "'s \<Rightarrow> 's result option"
  assumes del_ok: "rel s f \<Longrightarrow> \<exists>s'. del s k = Some (Ok s') \<and> rel s' (f(k := None))"
    and wipe_ok: "rel s f \<Longrightarrow> \<exists>s'. wipe s = Some (Ok s') \<and> rel s' Map.empty"
begin

lemma run_ok:
  "rel s f \<Longrightarrow> \<exists>s'. kv_run put del wipe s ops = Some (Ok s') \<and> rel s' (fold kv_after ops f)"
proof (induction ops arbitrary: s f)
  case Nil
  then show ?case by simp
next
  case (Cons op ops)
  have "\<exists>s'. kv_run put del wipe s (op # ops) = kv_run put del wipe s' ops \<and>
      rel s' (kv_after op f)"
  proof (cases op)
    case (Put mem k v ow)
    then show ?thesis using put_ok[OF Cons.prems, of mem k v ow] by auto
  next
    case (Del k)
    then show ?thesis using del_ok[OF Cons.prems, of k] by auto
  next
    case Wipe
    then show ?thesis using wipe_ok[OF Cons.prems] by auto
  qed
  then show ?case using Cons.IH by fastforce
qed

lemma get_after_run:
  "rel s f \<Longrightarrow> \<exists>s'. kv_run put del wipe s ops = Some (Ok s') \<and>
     get s' k = Some (Ok (fold kv_after ops f k))"
  using run_ok get_ok by blast

end

definition ch_rel :: "u32 \<Rightarrow> 'v chash \<Rightarrow> (u64 \<rightharpoonup> 'v) \<Rightarrow> bool" where
  "ch_rel n m f \<longleftrightarrow> bucket_num m = n \<and> (\<exists>c. ch_rep m c \<and> ch_map m c = f)"

lemma ch_relI: "ch_rep m c \<Longrightarrow> bucket_num m = n \<Longrightarrow> ch_map m c = f \<Longrightarrow> ch_rel n m f"
  by (auto simp: ch_rel_def)

lemma ch_get_rep:
  assumes "ch_rep m c"
  shows "ch_get m k = Some (Ok (ch_map m c k))"
proof (cases "find (\<lambda>a. key_at (heap m) a = k) (c (bucket_of m k))")
  case None
  then show ?thesis using ch_find_rep[OF assms, of k] by (simp add: ch_get_def ch_map_def)
next
  case (Some a)
  have "a \<in> dom (heap m)"
    using find_Some_mem[OF Some] ch_repD(3)[OF assms] bucket_of_lt[OF ch_repD(1)[OF assms], of k]
    by blast
  then show ?thesis using Some ch_find_rep[OF assms, of k]
    by (auto simp: ch_get_def ch_map_def deref_def)
qed

lemma ch_insert_rel:
  assumes "ch_rel n m f"
  shows "\<exists>m'. ch_insert m mem k v ow = Some (Ok (m', mem \<or> f k \<noteq> None)) \<and>
     ch_rel n m' (kv_after (Put mem k v ow) f)"
proof -
  obtain c where c: "ch_rep m c" "ch_map m c = f" "bucket_num m = n"
    using assms by (auto simp: ch_rel_def)
  show ?thesis
  proof (cases "f k")
    case None
    show ?thesis
    proof (cases mem)
      case True
      then show ?thesis using ch_insert_new[OF c(1), of k v ow] c None
        by (fastforce simp: ch_rel_def)
    next
      case False
      then show ?thesis using ch_insert_no_mem[OF c(1), of k v ow] c None
        by (auto simp: ch_rel_def)
    qed
  next
    case (Some v')
    then show ?thesis using ch_insert_met[OF c(1), of k mem v ow] c by (auto simp: ch_rel_def)
  qed
qed

interpretation ch: kv_store "ch_rel n" ch_get ch_insert ch_remove ch_clear for n
proof
  fix m :: "'v chash" and f k
  assume "ch_rel n m f"
  then show "ch_get m k = Some (Ok (f k))" by (auto simp: ch_rel_def ch_get_rep)
next
  fix m :: "'v chash" and f k
  assume "ch_rel n m f"
  then show "\<exists>m'. ch_remove m k = Some (Ok m') \<and> ch_rel n m' (f(k := None))"
    using ch_remove_rep by (fastforce simp: ch_rel_def)
next
  fix m :: "'v chash" and f
  assume "ch_rel n m f"
  then show "\<exists>m'. ch_clear m = Some (Ok m') \<and> ch_rel n m' Map.empty"
    using ch_clear_rep by (fastforce simp: ch_rel_def ch_map_def)
qed (rule ch_insert_rel)

section \<open>The properties\<close>

text \<open>A constructed map before \<^verbatim>\<open>create\<close>: no entry is allocated.\<close>

definition ch_empty :: "'v chash" where
  "ch_empty = \<lparr>heap = Map.empty, fresh = 0, table = None, bucket_num = 0\<rparr>"

lemma ch_create_rel:
  assumes "0 < unat num" and "unat num < 2 ^ 31"
  shows "ch_rel num (fst (ch_create (ch_empty :: 'v chash) True num)) Map.empty"
proof (rule ch_relI)
  show "ch_rep (fst (ch_create ch_empty True num)) (\<lambda>_. [])"
    by (rule ch_create_rep) (use assms in \<open>simp_all add: ch_empty_def\<close>)
qed (simp_all add: ch_create_def ch_map_def Let_def fun_eq_iff)

text \<open>
  C6. A chain hash with any number of buckets an \<^verbatim>\<open>int\<close> can count, after any sequence of
  \<^verbatim>\<open>insert\<close> (with and without overwriting, with and without memory), \<^verbatim>\<open>remove\<close> and
  \<^verbatim>\<open>clear\<close> calls, has run without a fault or an endless list walk, and \<^verbatim>\<open>find\<close> returns for
  every key what a finite map subjected to the same calls holds.
\<close>

theorem chain_hash_refines_map:
  fixes ops :: "'v kv_op list"
  assumes "0 < unat num" and "unat num < 2 ^ 31"
  shows "\<exists>m. kv_run ch_insert ch_remove ch_clear (fst (ch_create ch_empty True num)) ops = Some (Ok m) \<and>
     (\<forall>k. ch_get m k = Some (Ok (fold kv_after ops Map.empty k)))"
  using ch.run_ok[OF ch_create_rel[OF assms], of ops] ch.get_ok by blast

theorem chain_hash_refines_map_witness:
  "\<exists>m. kv_run ch_insert ch_remove ch_clear (fst (ch_create ch_empty True 2))
       [Put True 1 (10 :: nat) True, Put True 3 30 True, Put True 1 11 False, Del 3] = Some (Ok m) \<and>
     ch_get m 1 = Some (Ok (Some 10)) \<and> ch_get m 3 = Some (Ok None)"
  using chain_hash_refines_map[of 2 "[Put True 1 10 True, Put True 3 30 True, Put True 1 11 False, Del 3]"]
  by force

text \<open>
  C26. No entry is leaked and none is deleted twice: after any such sequence the destructor
  runs without a fault and leaves no entry allocated.
\<close>

theorem chain_hash_destructor_frees_all:
  fixes ops :: "'v kv_op list"
  assumes "0 < unat num" and "unat num < 2 ^ 31"
  shows "\<exists>m m'. kv_run ch_insert ch_remove ch_clear (fst (ch_create ch_empty True num)) ops = Some (Ok m) \<and>
     ch_delete m = Some (Ok m') \<and> heap m' = Map.empty"
proof -
  obtain m c where "kv_run ch_insert ch_remove ch_clear (fst (ch_create ch_empty True num)) ops
      = Some (Ok m)" "ch_rep m c"
    using ch.run_ok[OF ch_create_rel[OF assms], of ops] by (auto simp: ch_rel_def)
  then show ?thesis using ch_destroy_rep[of m c] by (simp add: ch_delete_def)
qed

theorem chain_hash_destructor_frees_all_witness:
  "\<exists>m m'. kv_run ch_insert ch_remove ch_clear (fst (ch_create ch_empty True 2))
       [Put True 1 (10 :: nat) True, Put True 3 30 True] = Some (Ok m) \<and>
     ch_delete m = Some (Ok m') \<and> heap m' = Map.empty"
  using chain_hash_destructor_frees_all[of 2 "[Put True 1 10 True, Put True 3 30 True]"] by simp

lemma destroy_loop_dangling:
  assumes "table m = Some t" and "heap m = Map.empty" and "\<forall>i\<in>set is. i < length t"
    and "\<exists>i\<in>set is. t ! i \<noteq> None"
  shows "destroy_loop m is = Some (Fault Use_After_Free)"
  using assms
proof (induction "is")
  case (Cons i "is")
  show ?case
  proof (cases "t ! i")
    case None
    then have "destroy_loop m (i # is) = destroy_loop (m\<lparr>heap := Map.empty\<rparr>) is"
      using Cons.prems by (simp add: table_rd_def free_chain.simps)
    also have "m\<lparr>heap := Map.empty\<rparr> = m" using Cons.prems(2) by (cases m) simp
    finally show ?thesis using Cons.IH Cons.prems None by auto
  next
    case (Some a)
    then show ?thesis using Cons.prems by (simp add: table_rd_def free_chain.simps)
  qed
qed simp

text \<open>
  \<^verbatim>\<open>destroy\<close> is public, yet it leaves the table's pointers dangling: on a map that
  holds any entry, a call to it makes the destructor, which calls it again, follow a pointer
  to a deleted entry.
\<close>

theorem chain_hash_destroy_then_destructor_faults:
  assumes "ch_rep m c" and "heap m \<noteq> Map.empty"
  shows "runs (ch_destroy m) ch_delete = Some (Fault Use_After_Free)"
proof -
  obtain t where t: "table m = Some t" "length t = unat (bucket_num m)"
    "\<forall>i<length t. chain (links (heap m)) (t ! i) (c i)"
    using ch_rep_bucket[OF assms(1)] by metis
  have "dom (heap m) \<noteq> {}" using assms(2) by simp
  then obtain i where i: "i < length t" "c i \<noteq> []"
    using ch_repD(3)[OF assms(1)] t(2) by auto
  then have "t ! i \<noteq> None" using t(3) by (cases "t ! i") auto
  then have "ch_destroy (m\<lparr>heap := Map.empty\<rparr>) = Some (Fault Use_After_Free)"
    unfolding ch_destroy_def using t(1,2) i(1) by (intro destroy_loop_dangling[where t = t]) auto
  then show ?thesis using ch_destroy_rep[OF assms(1)] by (simp add: ch_delete_def)
qed

theorem chain_hash_destroy_then_destructor_faults_witness:
  "\<exists>m. ch_insert (fst (ch_create ch_empty True 2)) True 7 (70 :: nat) True = Some (Ok (m, True)) \<and>
     runs (ch_destroy m) ch_delete = Some (Fault Use_After_Free)"
proof -
  let ?m0 = "fst (ch_create (ch_empty :: nat chash) True 2)"
  have "ch_rel 2 ?m0 Map.empty" by (rule ch_create_rel) simp_all
  then obtain c where c: "ch_rep ?m0 c" "ch_map ?m0 c = Map.empty" by (auto simp: ch_rel_def)
  then obtain m c' where m: "ch_insert ?m0 True 7 70 True = Some (Ok (m, True))" "ch_rep m c'"
    "ch_map m c' = [7 \<mapsto> 70]"
    using ch_insert_new[OF c(1), of 7 70 True] by auto
  have "heap m \<noteq> Map.empty"
  proof
    assume "heap m = Map.empty"
    then have "c' (bucket_of m 7) = []"
      using ch_repD(3)[OF m(2)] bucket_of_lt[OF ch_repD(1)[OF m(2)], of 7] by auto
    then have "ch_map m c' 7 = None" by (simp add: ch_map_def)
    then show False using m(3) by simp
  qed
  then show ?thesis
    using m(1) chain_hash_destroy_then_destructor_faults[OF m(2)] by blast
qed

end
