(* ===== verification/PChain_Map.thy ===== *)
theory PChain_Map
  imports Array_Lock Chain_Hash
begin

text \<open>
  \<^verbatim>\<open>container/pchain_map.h\<close>: \<^verbatim>\<open>PChainMap\<close>, the chain hash with one bit lock per bucket,
  taken by a guard object around every access. A call that spins on a held lock does not
  return (\<open>None\<close>); mutual exclusion between threads is the array lock's property.
\<close>

section \<open>Operations\<close>

record 'v pmap =
  pm_dict :: "'v chash"
  pm_locks :: bit_array
  pm_num :: u32

definition pm_create :: "'v pmap \<Rightarrow> bool \<Rightarrow> bool \<Rightarrow> u32 \<Rightarrow> 'v pmap \<times> int" where
  "pm_create m mem_lock mem_dict num =
     (let (locks, _) = al_create (pm_locks m) mem_lock num;
          (dict, ret) = ch_create (pm_dict m) mem_dict num
      in (m\<lparr>pm_num := num, pm_locks := locks, pm_dict := dict\<rparr>, ret))"

text \<open>\<^verbatim>\<open>uint32_t bucket_pos = key_sign % _bucket_num\<close>\<close>

definition bucket_pos :: "'v pmap \<Rightarrow> u64 \<Rightarrow> u32 result" where
  "bucket_pos m key_sign =
     (if pm_num m = 0 then Fault Div_By_Zero else Ok (ucast (key_sign mod ucast (pm_num m))))"

definition pm_insert :: "'v pmap \<Rightarrow> bool \<Rightarrow> u64 \<Rightarrow> 'v option \<Rightarrow> ('v pmap \<times> bool) result option" where
  "pm_insert m mem key_sign p_data =
     runs (Some (bucket_pos m key_sign)) (\<lambda>pos.
     runs (guarded al_lock al_unlock (pm_locks m) pos
             (case p_data of None \<Rightarrow> Some (Fault Null_Deref)
              | Some v \<Rightarrow> ch_insert (pm_dict m) mem key_sign v True))
       (\<lambda>(locks, (dict, ret)). Some (Ok (m\<lparr>pm_locks := locks, pm_dict := dict\<rparr>, ret))))"

text \<open>
  \<^verbatim>\<open>_find\<close> copies the value into \<^verbatim>\<open>*res\<close> and returns \<^verbatim>\<open>res\<close>; here \<open>Some v\<close> is that
  pointer with the copy behind it, \<open>None\<close> the null pointer. \<^verbatim>\<open>find\<close> refuses a null
  \<^verbatim>\<open>res\<close>.
\<close>

definition pm_find_copy :: "'v pmap \<Rightarrow> u64 \<Rightarrow> ('v pmap \<times> 'v option) result option" where
  "pm_find_copy m key_sign =
     runs (Some (bucket_pos m key_sign)) (\<lambda>pos.
     runs (guarded al_lock al_unlock (pm_locks m) pos (ch_get (pm_dict m) key_sign))
       (\<lambda>(locks, ret). Some (Ok (m\<lparr>pm_locks := locks\<rparr>, ret))))"

definition pm_find :: "'v pmap \<Rightarrow> u64 \<Rightarrow> bool \<Rightarrow> ('v pmap \<times> 'v option) result option" where
  "pm_find m key_sign has_res = (if \<not> has_res then Some (Ok (m, None)) else pm_find_copy m key_sign)"

section \<open>A store behind an array of locks\<close>

locale locked_store =
  lock: lock_array inv len held lock unlock + store: kv_base rel get put
  for inv :: "'l \<Rightarrow> bool" and len :: "'l \<Rightarrow> u32" and held :: "'l \<Rightarrow> nat \<Rightarrow> bool"
    and lock :: "'l \<Rightarrow> u32 \<Rightarrow> 'l result option"
    and unlock :: "'l \<Rightarrow> u32 \<Rightarrow> ('l \<times> bool) result option"
    and rel :: "'s \<Rightarrow> (u64 \<rightharpoonup> 'v) \<Rightarrow> bool"
    and get :: "'s \<Rightarrow> u64 \<Rightarrow> 'v option result option"
    and put :: "'s \<Rightarrow> bool \<Rightarrow> u64 \<Rightarrow> 'v \<Rightarrow> bool \<Rightarrow> ('s \<times> bool) result option"
begin

lemma locked_get:
  assumes "inv l" "p < len l" "\<not> held l (unat p)" "rel s f"
  shows "\<exists>l'. guarded lock unlock l p (get s k) = Some (Ok (l', f k)) \<and>
     inv l' \<and> len l' = len l \<and> held l' = held l"
  using lock.guarded_free[OF assms(1-3)] store.get_ok[OF assms(4)] by simp

lemma locked_put:
  assumes "inv l" "p < len l" "\<not> held l (unat p)" "rel s f"
  shows "\<exists>l' s'. guarded lock unlock l p (put s mem k v ow) =
       Some (Ok (l', (s', mem \<or> f k \<noteq> None))) \<and>
     inv l' \<and> len l' = len l \<and> held l' = held l \<and> rel s' (kv_after (Put mem k v ow) f)"
proof -
  obtain s' where s': "put s mem k v ow = Some (Ok (s', mem \<or> f k \<noteq> None))"
    "rel s' (kv_after (Put mem k v ow) f)"
    using store.put_ok[OF assms(4)] by blast
  then show ?thesis
    using lock.guarded_free[OF assms(1-3), of "(s', mem \<or> f k \<noteq> None)"] by auto
qed

end

interpretation pm: locked_store ba_ok buf_len bits_of al_lock al_unlock
    "ch_rel n" ch_get ch_insert for n
  by unfold_locales

section \<open>What the operations do\<close>

definition pm_rel :: "'v pmap \<Rightarrow> (u64 \<rightharpoonup> 'v) \<Rightarrow> bool" where
  "pm_rel m f \<longleftrightarrow> 0 < unat (pm_num m) \<and> unat (pm_num m) < 2 ^ 31 \<and>
     ba_ok (pm_locks m) \<and> buf_len (pm_locks m) = pm_num m \<and>
     (\<forall>p<unat (pm_num m). \<not> bits_of (pm_locks m) p) \<and> ch_rel (pm_num m) (pm_dict m) f"

lemma bucket_pos_ok:
  assumes "0 < unat (pm_num m)" and "unat (pm_num m) < 2 ^ 31"
  shows "\<exists>pos. bucket_pos m k = Ok pos \<and> pos < pm_num m \<and>
     unat pos = unat k mod unat (pm_num m)"
proof -
  let ?n = "unat (pm_num m)"
  have "?n < 2 ^ 64" using assms(2) by simp
  then have u: "unat (ucast (pm_num m) :: u64) = ?n"
    by (simp add: unsigned_ucast_eq take_bit_nat_eq_self)
  have lt: "unat k mod ?n < ?n" using assms(1) by simp
  have "unat (ucast (k mod ucast (pm_num m)) :: u32)
      = take_bit LENGTH(32) (unat (k mod ucast (pm_num m)))"
    by (simp only: unsigned_ucast_eq)
  also have "unat (k mod ucast (pm_num m)) = unat k mod ?n" by (simp only: unat_mod u)
  finally have "unat (ucast (k mod ucast (pm_num m)) :: u32) = unat k mod ?n"
    using lt assms(2) by (simp add: take_bit_nat_eq_self)
  moreover have "pm_num m \<noteq> 0" using assms(1) by auto
  ultimately show ?thesis using lt by (simp add: bucket_pos_def word_less_nat_alt)
qed

lemma pm_relE:
  assumes "pm_rel m f"
  obtains pos where "bucket_pos m k = Ok pos" "ba_ok (pm_locks m)" "pos < buf_len (pm_locks m)"
    "\<not> bits_of (pm_locks m) (unat pos)" "ch_rel (pm_num m) (pm_dict m) f"
  using assms bucket_pos_ok[of m k] by (auto simp: pm_rel_def word_less_nat_alt)

lemma pm_insert_rel:
  assumes "pm_rel m f"
  shows "\<exists>m'. pm_insert m mem k (Some v) = Some (Ok (m', mem \<or> f k \<noteq> None)) \<and>
     pm_rel m' (kv_after (Put mem k v True) f)"
proof -
  obtain pos where p: "bucket_pos m k = Ok pos" "ba_ok (pm_locks m)"
    "pos < buf_len (pm_locks m)" "\<not> bits_of (pm_locks m) (unat pos)"
    "ch_rel (pm_num m) (pm_dict m) f"
    using assms by (rule pm_relE)
  obtain l d where r: "guarded al_lock al_unlock (pm_locks m) pos
      (ch_insert (pm_dict m) mem k v True) = Some (Ok (l, (d, mem \<or> f k \<noteq> None)))"
    "ba_ok l" "buf_len l = buf_len (pm_locks m)" "bits_of l = bits_of (pm_locks m)"
    "ch_rel (pm_num m) d (kv_after (Put mem k v True) f)"
    using pm.locked_put[OF p(2-5), of mem k v True] by blast
  then show ?thesis using p(1) assms by (auto simp: pm_insert_def pm_rel_def simp del: kv_after.simps)
qed

lemma pm_find_rel:
  assumes "pm_rel m f"
  shows "\<exists>m'. pm_find m k True = Some (Ok (m', f k)) \<and> pm_rel m' f"
proof -
  obtain pos where p: "bucket_pos m k = Ok pos" "ba_ok (pm_locks m)"
    "pos < buf_len (pm_locks m)" "\<not> bits_of (pm_locks m) (unat pos)"
    "ch_rel (pm_num m) (pm_dict m) f"
    using assms by (rule pm_relE)
  show ?thesis
    using pm.locked_get[OF p(2-5), of k] p(1) assms
    by (auto simp: pm_find_def pm_find_copy_def pm_rel_def)
qed


section \<open>The property\<close>

text \<open>A sequence of \<^verbatim>\<open>insert\<close> calls: does memory last, the key, the value.\<close>

fun pm_inserts :: "'v pmap \<Rightarrow> (bool \<times> u64 \<times> 'v) list \<Rightarrow> 'v pmap result option" where
  "pm_inserts m [] = Some (Ok m)"
| "pm_inserts m ((mem, k, v) # ops) =
     runs (pm_insert m mem k (Some v)) (\<lambda>(m', _). pm_inserts m' ops)"

fun inserted :: "(bool \<times> u64 \<times> 'v) list \<Rightarrow> (u64 \<rightharpoonup> 'v) \<Rightarrow> (u64 \<rightharpoonup> 'v)" where
  "inserted [] f = f"
| "inserted ((mem, k, v) # ops) f =
     inserted ops (if mem \<or> f k \<noteq> None then f(k \<mapsto> v) else f)"

lemma pm_inserts_rel:
  "pm_rel m f \<Longrightarrow> \<exists>m'. pm_inserts m ops = Some (Ok m') \<and> pm_rel m' (inserted ops f)"
proof (induction ops arbitrary: m f)
  case (Cons op ops)
  obtain mem k v where op: "op = (mem, k, v)" by (cases op) auto
  obtain m' where m': "pm_insert m mem k (Some v) = Some (Ok (m', mem \<or> f k \<noteq> None))"
    "pm_rel m' (kv_after (Put mem k v True) f)"
    using pm_insert_rel[OF Cons.prems, of mem k v] by blast
  have "kv_after (Put mem k v True) f = (if mem \<or> f k \<noteq> None then f(k \<mapsto> v) else f)" by auto
  then show ?case using Cons.IH[OF m'(2)] m'(1) op by simp
qed simp

text \<open>A constructed map before \<^verbatim>\<open>create\<close>; the lock array holds any values.\<close>

definition pm_empty :: "bit_array \<Rightarrow> 'v pmap" where
  "pm_empty l = \<lparr>pm_dict = ch_empty, pm_locks = l, pm_num = 0\<rparr>"

lemma pm_create_rel:
  assumes "0 < unat num" and "unat num < 2 ^ 31"
  shows "pm_rel (fst (pm_create (pm_empty l :: 'v pmap) True True num)) Map.empty"
proof -
  have c: "fst (pm_create (pm_empty l :: 'v pmap) True True num) =
      \<lparr>pm_dict = fst (ch_create ch_empty True num), pm_locks = fst (ba_create l True num),
       pm_num = num\<rparr>"
    by (simp add: pm_create_def pm_empty_def al_create_def split: prod.split)
  have "buf_len (fst (ba_create l True num)) = num" by (simp add: ba_create_def Let_def)
  then show ?thesis
    unfolding c pm_rel_def using assms ba_create_clear ch_create_rel[OF assms, where 'v = 'v] by simp
qed

text \<open>
  C16. The locked map is a map: after \<^verbatim>\<open>create\<close> and any sequence of \<^verbatim>\<open>insert\<close> calls (some
  of them out of memory) no call has spun or faulted, \<^verbatim>\<open>find\<close> copies out the value last
  inserted for the key and answers null for a key never inserted, and every bucket lock is
  free again.
\<close>

theorem pchain_map_refines_map:
  fixes ops :: "(bool \<times> u64 \<times> 'v) list"
  assumes "0 < unat num" and "unat num < 2 ^ 31"
  shows "\<exists>m. pm_inserts (fst (pm_create (pm_empty l) True True num)) ops = Some (Ok m) \<and>
     (\<forall>k. \<exists>m'. pm_find m k True = Some (Ok (m', inserted ops Map.empty k)) \<and>
        (\<forall>p<unat num. \<not> bits_of (pm_locks m') p))"
proof -
  let ?m = "fst (pm_create (pm_empty l :: 'v pmap) True True num)"
  have inv: "pm_num m = num" if "pm_inserts ?m ops = Some (Ok m)" for m
  proof -
    have "pm_insert m mem k v = Some (Ok (m', r)) \<Longrightarrow> pm_num m' = pm_num m"
      for m m' :: "'v pmap" and mem k v r
      by (auto simp: pm_insert_def runs_def split: option.splits sum.splits)
    then have "pm_inserts m ops = Some (Ok m') \<Longrightarrow> pm_num m' = pm_num m" for m m' :: "'v pmap"
      by (induction m ops rule: pm_inserts.induct)
        (auto simp: runs_def split: option.splits sum.splits)
    then show ?thesis using that by (fastforce simp: pm_create_def split: prod.splits)
  qed
  obtain m where m: "pm_inserts ?m ops = Some (Ok m)" "pm_rel m (inserted ops Map.empty)"
    using pm_inserts_rel[OF pm_create_rel[OF assms, where 'v = 'v and l = l]] by blast
  have "\<exists>m'. pm_find m k True = Some (Ok (m', inserted ops Map.empty k)) \<and>
        (\<forall>p<unat num. \<not> bits_of (pm_locks m') p)" for k
  proof -
    obtain m' where m': "pm_find m k True = Some (Ok (m', inserted ops Map.empty k))"
      "pm_rel m' (inserted ops Map.empty)"
      using pm_find_rel[OF m(2)] by blast
    have "pm_num m' = pm_num m"
      using m'(1) by (auto simp: pm_find_def pm_find_copy_def runs_def
          split: option.splits sum.splits)
    then show ?thesis using m' inv[OF m(1)] by (auto simp: pm_rel_def)
  qed
  then show ?thesis using m(1) by blast
qed

theorem pchain_map_refines_map_witness:
  "\<exists>m m'. pm_inserts (fst (pm_create (pm_empty (fst (al_create \<lparr>bits_buf = None, pow_of_two = 0,
       offset_mask = 0, align_len = 0, buf_len = 0\<rparr> True 1))) True True 2))
       [(True, 5, 1 :: nat), (False, 7, 2), (True, 9, 3), (True, 5, 4)] = Some (Ok m) \<and>
     pm_find m 5 True = Some (Ok (m', Some 4)) \<and> \<not> bits_of (pm_locks m') 1"
proof -
  let ?ops = "[(True, 5, 1 :: nat), (False, 7, 2), (True, 9, 3), (True, 5, 4)]"
  let ?l = "fst (al_create \<lparr>bits_buf = None, pow_of_two = 0, offset_mask = 0, align_len = 0,
       buf_len = 0\<rparr> True 1)"
  obtain m where "pm_inserts (fst (pm_create (pm_empty ?l) True True 2)) ?ops = Some (Ok m)"
    and "\<forall>k. \<exists>m'. pm_find m k True = Some (Ok (m', inserted ?ops Map.empty k)) \<and>
      (\<forall>p<unat (2 :: u32). \<not> bits_of (pm_locks m') p)"
    using pchain_map_refines_map[of 2 ?l ?ops] by force
  moreover have "inserted ?ops Map.empty 5 = Some 4" and "1 < unat (2 :: u32)" by simp_all
  ultimately show ?thesis by metis
qed

end
