(* ===== verification/Linearize.thy ===== *)
theory Linearize
  imports Transitions
begin

text \<open>
  What it means that threads may use an object of the library as if every call took effect at
  one moment. A run shows the calls, the moments at which they take effect and their returns;
  the specification is a sequential object, given by a function \<open>eff\<close>: the state after a call
  that gives an answer, or none when the object cannot give it. A run is explained by the object
  when every call takes effect once, between its call and its return, with the answer that it
  returns.
\<close>

section \<open>The sequential object and its users\<close>

datatype ('c, 'a) event =
    Called nat 'c
  | Effect nat 'a
  | Returned nat 'a

datatype ('c, 'a) status = Ready | Pending 'c | Answered 'a

type_synonym ('s, 'c, 'a) spec = "'s \<times> (nat \<Rightarrow> ('c, 'a) status)"

fun spec_step ::
  "('s \<Rightarrow> 'c \<Rightarrow> 'a \<Rightarrow> 's option) \<Rightarrow> ('s, 'c, 'a) spec \<Rightarrow> ('c, 'a) event \<Rightarrow> ('s, 'c, 'a) spec option" where
  "spec_step eff (f, st) (Called t c) =
     (case st t of Ready \<Rightarrow> Some (f, st(t := Pending c)) | _ \<Rightarrow> None)"
| "spec_step eff (f, st) (Effect t r) =
     (case st t of
        Pending c \<Rightarrow> map_option (\<lambda>f'. (f', st(t := Answered r))) (eff f c r)
      | _ \<Rightarrow> None)"
| "spec_step eff (f, st) (Returned t r) =
     (case st t of Answered r' \<Rightarrow> if r = r' then Some (f, st(t := Ready)) else None | _ \<Rightarrow> None)"

fun spec_run ::
  "('s \<Rightarrow> 'c \<Rightarrow> 'a \<Rightarrow> 's option) \<Rightarrow> ('s, 'c, 'a) spec \<Rightarrow> ('c, 'a) event list \<Rightarrow> ('s, 'c, 'a) spec option" where
  "spec_run eff q [] = Some q"
| "spec_run eff q (e # es) = Option.bind (spec_step eff q e) (\<lambda>q'. spec_run eff q' es)"

lemma spec_run_append [simp]:
  "spec_run eff q (es @ fs) = Option.bind (spec_run eff q es) (\<lambda>q'. spec_run eff q' fs)"
  by (induction es arbitrary: q) (auto split: Option.bind_splits)

text \<open>A step of a thread that may be the moment its call takes effect.\<close>

fun effect_of :: "nat \<Rightarrow> 'a option \<Rightarrow> ('c, 'a) event list" where
  "effect_of t None = []"
| "effect_of t (Some r) = [Effect t r]"

fun takes ::
  "('s \<Rightarrow> 'c \<Rightarrow> 'a \<Rightarrow> 's option) \<Rightarrow> 's \<Rightarrow> ('c, 'a) status \<Rightarrow> 'a option \<Rightarrow> 's \<Rightarrow> ('c, 'a) status \<Rightarrow> bool"
where
  "takes eff f st None f' st' \<longleftrightarrow> f' = f \<and> st' = st"
| "takes eff f st (Some r) f' st' \<longleftrightarrow>
     (\<exists>c. st = Pending c \<and> eff f c r = Some f') \<and> st' = Answered r"

lemma takes_run:
  "takes eff f (st t) r f' st' \<Longrightarrow> spec_run eff (f, st) (effect_of t r) = Some (f', st(t := st'))"
  by (cases r) auto

text \<open>
  The order of one thread's own events: it calls, the call takes effect, it returns with the
  answer of the effect, and it calls again.
\<close>

fun own_events :: "nat \<Rightarrow> ('c, 'a) event list \<Rightarrow> ('c, 'a) event list" where
  "own_events t [] = []"
| "own_events t (e # es) =
     (if (case e of Called u c \<Rightarrow> u | Effect u r \<Rightarrow> u | Returned u r \<Rightarrow> u) = t
      then e # own_events t es else own_events t es)"

fun in_turn :: "('c, 'a) status \<Rightarrow> ('c, 'a) event list \<Rightarrow> bool" where
  "in_turn Ready (Called t c # es) = in_turn (Pending c) es"
| "in_turn (Pending c) (Effect t r # es) = in_turn (Answered r) es"
| "in_turn (Answered r) (Returned t r' # es) = (r = r' \<and> in_turn Ready es)"
| "in_turn st [] = True"
| "in_turn st _ = False"

lemma spec_run_in_turn:
  "spec_run eff (f, st) es = Some q \<Longrightarrow> in_turn (st t) (own_events t es)"
proof (induction es arbitrary: f st)
  case (Cons e es)
  then obtain f' st' where q: "spec_step eff (f, st) e = Some (f', st')"
    "spec_run eff (f', st') es = Some q"
    by (auto split: Option.bind_splits)
  note IH = Cons.IH[OF q(2)]
  show ?case
    using q(1) IH by (cases e) (auto split: status.splits if_splits)
qed simp

text \<open>The effects of a run, in order, drive the sequential object from state to state.\<close>

fun effects_of :: "(nat \<Rightarrow> 'c option) \<Rightarrow> ('c, 'a) event list \<Rightarrow> ('c \<times> 'a) list" where
  "effects_of p [] = []"
| "effects_of p (Called t c # es) = effects_of (p(t \<mapsto> c)) es"
| "effects_of p (Effect t r # es) =
     (case p t of None \<Rightarrow> effects_of p es | Some c \<Rightarrow> (c, r) # effects_of p es)"
| "effects_of p (Returned t r # es) = effects_of p es"

fun object_run :: "('s \<Rightarrow> 'c \<Rightarrow> 'a \<Rightarrow> 's option) \<Rightarrow> 's \<Rightarrow> ('c \<times> 'a) list \<Rightarrow> 's option" where
  "object_run eff f [] = Some f"
| "object_run eff f ((c, r) # cs) = Option.bind (eff f c r) (\<lambda>f'. object_run eff f' cs)"

lemma spec_run_effects:
  assumes "spec_run eff (f, st) es = Some (f', st')"
    and "\<And>t c. st t = Pending c \<Longrightarrow> p t = Some c"
  shows "object_run eff f (effects_of p es) = Some f'"
  using assms
proof (induction es arbitrary: f st p)
  case (Cons e es)
  show ?case
  proof (cases e)
    case (Called t c)
    then have "spec_run eff (f, st(t := Pending c)) es = Some (f', st')"
      using Cons.prems(1) by (auto split: status.splits)
    then have "object_run eff f (effects_of (p(t \<mapsto> c)) es) = Some f'"
      by (rule Cons.IH) (use Cons.prems(2) in \<open>auto split: if_splits\<close>)
    then show ?thesis using Called by simp
  next
    case (Effect t r)
    then obtain c f1 where c: "st t = Pending c" "eff f c r = Some f1"
      "spec_run eff (f1, st(t := Answered r)) es = Some (f', st')"
      using Cons.prems(1) by (auto split: status.splits Option.bind_splits)
    have "object_run eff f1 (effects_of p es) = Some f'"
      by (rule Cons.IH[OF c(3)]) (use Cons.prems(2) in \<open>auto split: if_splits\<close>)
    then show ?thesis using c(1,2) Cons.prems(2) Effect by simp
  next
    case (Returned t r)
    then have "spec_run eff (f, st(t := Ready)) es = Some (f', st')"
      using Cons.prems(1) by (auto split: status.splits if_splits)
    then have "object_run eff f (effects_of p es) = Some f'"
      by (rule Cons.IH) (use Cons.prems(2) in \<open>auto split: if_splits\<close>)
    then show ?thesis using Returned by simp
  qed
qed simp

section \<open>Runs of an implementation\<close>

inductive runs_to ::
  "('st \<Rightarrow> ('c, 'a) event list \<Rightarrow> 'st \<Rightarrow> bool) \<Rightarrow> 'st \<Rightarrow> ('c, 'a) event list \<Rightarrow> 'st \<Rightarrow> bool"
  for step s0 where
  runs_to_init: "runs_to step s0 [] s0"
| runs_to_step: "runs_to step s0 tr s \<Longrightarrow> step s es s' \<Longrightarrow> runs_to step s0 (tr @ es) s'"

text \<open>
  The interface to an implementation: \<open>good s q\<close> relates its state to the sequential object and
  its users, and every step is explained by what the object does. Then so is every run.
\<close>

locale stepwise_explained =
  fixes step :: "'st \<Rightarrow> ('c, 'a) event list \<Rightarrow> 'st \<Rightarrow> bool"
    and good :: "'st \<Rightarrow> ('s, 'c, 'a) spec \<Rightarrow> bool"
    and eff :: "'s \<Rightarrow> 'c \<Rightarrow> 'a \<Rightarrow> 's option"
  assumes good_step: "step s es s' \<Longrightarrow> good s q \<Longrightarrow> \<exists>q'. spec_run eff q es = Some q' \<and> good s' q'"
begin

lemma run_good:
  assumes "runs_to step s0 tr s" and "good s0 q0"
  shows "\<exists>q. spec_run eff q0 tr = Some q \<and> good s q"
  using assms(1)
proof (induction rule: runs_to.induct)
  case (runs_to_step tr s es s')
  then show ?case using good_step by fastforce
qed (use assms(2) in simp)

text \<open>Good states stay good whatever the threads do.\<close>

lemma good_kept: "(\<exists>es. step s es s') \<Longrightarrow> (\<exists>q. good s q) \<Longrightarrow> (\<exists>q. good s' q)"
  using good_step by blast

text \<open>What a thread sees: its calls, effects and returns in turn, and the object's own answers.\<close>

lemma run_seen:
  assumes "runs_to step s0 tr s" and "good s0 (f0, \<lambda>_. Ready)"
  shows "in_turn Ready (own_events t tr)" and "\<exists>f. object_run eff f0 (effects_of (\<lambda>_. None) tr) = Some f"
proof -
  obtain f st where q: "spec_run eff (f0, \<lambda>_. Ready) tr = Some (f, st)"
    using run_good[OF assms] by auto
  show "in_turn Ready (own_events t tr)" using spec_run_in_turn[OF q, of t] .
  show "\<exists>f. object_run eff f0 (effects_of (\<lambda>_. None) tr) = Some f"
    using spec_run_effects[OF q] by blast
qed

end

sublocale stepwise_explained \<subseteq> good: step_invariant
  "\<lambda>s. \<exists>q. good s q" "\<lambda>s s'. \<exists>es. step s es s'" "\<lambda>s. \<exists>q. good s q"
  by unfold_locales (assumption, rule good_kept)

text \<open>
  In addition: no good state is one of failure, and in a good state in which all users are ready
  the implementation contains what the object contains.
\<close>

locale linearizable = stepwise_explained step good eff
  for step :: "'st \<Rightarrow> ('c, 'a) event list \<Rightarrow> 'st \<Rightarrow> bool"
    and good :: "'st \<Rightarrow> ('s, 'c, 'a) spec \<Rightarrow> bool"
    and eff :: "'s \<Rightarrow> 'c \<Rightarrow> 'a \<Rightarrow> 's option" +
  fixes failed :: "'st \<Rightarrow> bool"
    and quiet :: "'st \<Rightarrow> bool"
    and contains :: "'st \<Rightarrow> 's \<Rightarrow> bool"
  assumes not_failed: "good s q \<Longrightarrow> \<not> failed s"
    and at_rest: "good s (f, st) \<Longrightarrow> quiet s \<Longrightarrow> contains s f"
begin

lemma run_linearizable:
  assumes "runs_to step s0 tr s" and "good s0 (f0, \<lambda>_. Ready)"
  shows "\<exists>f st. spec_run eff (f0, \<lambda>_. Ready) tr = Some (f, st) \<and> \<not> failed s \<and>
     (quiet s \<longrightarrow> contains s f)"
  using run_good[OF assms] not_failed at_rest by fastforce

end

end
