(* ===== verification/PChain_Concurrent.thy ===== *)
theory PChain_Concurrent
  imports PChain_Map Linearize
begin

text \<open>
  \<^verbatim>\<open>container/pchain_map.h\<close> used by many threads at once. Every thread calls
  \<^verbatim>\<open>PChainMap::insert\<close> and \<^verbatim>\<open>PChainMap::find\<close>; its code is cut at every access to
  memory that another thread may touch: the lock bits (the steps of \<open>al_step\<close>), the bucket
  table and the entries of the chain hash. Between two such accesses any other thread may run.
  The theory shows that the map is linearizable: whatever the interleaving, the calls take
  effect one at a time on a plain map, each between its call and its return, and each returns
  what that map gives.
\<close>

section \<open>Calls and answers\<close>

datatype 'v map_call = Find_Call u64 | Insert_Call u64 'v

datatype 'v answer = Found "'v option" | Inserted bool

fun call_key :: "'v map_call \<Rightarrow> u64" where
  "call_key (Find_Call k) = k"
| "call_key (Insert_Call k v) = k"

section \<open>The code inside the lock, one memory access at a time\<close>

text \<open>
  Where a thread is in \<^verbatim>\<open>ChainHashMap::find\<close> and in the copy of the value that follows it in
  \<^verbatim>\<open>PChainMap::_find\<close>.
\<close>

datatype find_pc =
    F_Test                 \<comment> \<open>\<^verbatim>\<open>table[hash] == NULL\<close>\<close>
  | F_Head                 \<comment> \<open>\<^verbatim>\<open>entry = table[hash]\<close>\<close>
  | F_Key nat              \<comment> \<open>\<^verbatim>\<open>entry->getKey() != key\<close>\<close>
  | F_Next nat             \<comment> \<open>\<^verbatim>\<open>entry = entry->getNext()\<close>\<close>
  | F_Copy nat             \<comment> \<open>\<^verbatim>\<open>*res = *rt\<close>\<close>

text \<open>Where a thread is in \<^verbatim>\<open>ChainHashMap::insert\<close>, and the place the new entry goes to.\<close>

datatype target = In_Table | Behind ptr

datatype insert_pc =
    I_Test                 \<comment> \<open>\<^verbatim>\<open>table[hash] == NULL\<close>\<close>
  | I_Head                 \<comment> \<open>\<^verbatim>\<open>entry = table[hash]\<close>\<close>
  | I_Key nat              \<comment> \<open>\<^verbatim>\<open>entry->getKey() == key\<close>\<close>
  | I_Set nat              \<comment> \<open>\<^verbatim>\<open>entry->setValue(value)\<close>\<close>
  | I_Last nat             \<comment> \<open>\<^verbatim>\<open>NULL == entry->getNext()\<close>\<close>
  | I_Next nat             \<comment> \<open>\<^verbatim>\<open>entry = entry->getNext()\<close>\<close>
  | I_New target            \<comment> \<open>\<^verbatim>\<open>new (std::nothrow) LinkedHashEntry(key, value)\<close>\<close>
  | I_Link target ptr       \<comment> \<open>\<^verbatim>\<open>table[hash] = ...\<close> or \<^verbatim>\<open>entry->setNext(nt)\<close>\<close>
  | I_Check                \<comment> \<open>\<^verbatim>\<open>NULL == table[hash]\<close> after the allocation\<close>

text \<open>What comes next: another place in the code, or the return of an answer.\<close>

datatype ('p, 'v) after = Go 'p | Return "'v answer"

text \<open>
  A step gives the table and entries after it, what comes next, and the answer when the call
  takes its effect at this very step.
\<close>

type_synonym ('p, 'v) move = "'v chash \<times> ('p, 'v) after \<times> 'v answer option"

definition at_slot :: "'v chash \<Rightarrow> u64 \<Rightarrow> ptr result" where
  "at_slot m k = andthen (hash_of m k) (table_rd m)"

fun find_move :: "'v chash \<Rightarrow> u64 \<Rightarrow> find_pc \<Rightarrow> (find_pc, 'v) move result" where
  "find_move m k F_Test =
     andthen (at_slot m k) (\<lambda>p.
       Ok (if p = None then (m, Return (Found None), Some (Found None)) else (m, Go F_Head, None)))"
| "find_move m k F_Head =
     andthen (at_slot m k) (\<lambda>p.
       Ok (case p of None \<Rightarrow> (m, Return (Found None), Some (Found None))
           | Some a \<Rightarrow> (m, Go (F_Key a), None)))"
| "find_move m k (F_Key a) =
     andthen (deref (heap m) a) (\<lambda>e.
       Ok (m, Go (if key e \<noteq> k then F_Next a else F_Copy a), None))"
| "find_move m k (F_Next a) =
     andthen (deref (heap m) a) (\<lambda>e.
       Ok (case nxt e of None \<Rightarrow> (m, Return (Found None), Some (Found None))
           | Some b \<Rightarrow> (m, Go (F_Key b), None)))"
| "find_move m k (F_Copy a) =
     andthen (deref (heap m) a) (\<lambda>e.
       Ok (m, Return (Found (Some (val e))), Some (Found (Some (val e)))))"

fun insert_move ::
  "'v chash \<Rightarrow> bool \<Rightarrow> u64 \<Rightarrow> 'v \<Rightarrow> insert_pc \<Rightarrow> (insert_pc, 'v) move result" where
  "insert_move m mem k v I_Test =
     andthen (at_slot m k) (\<lambda>p. Ok (m, Go (if p = None then I_New In_Table else I_Head), None))"
| "insert_move m mem k v I_Head =
     andthen (at_slot m k) (\<lambda>p.
       Ok (m, Go (case p of None \<Rightarrow> I_New (Behind None) | Some a \<Rightarrow> I_Key a), None))"
| "insert_move m mem k v (I_Key a) =
     andthen (deref (heap m) a) (\<lambda>e. Ok (m, Go (if key e = k then I_Set a else I_Last a), None))"
| "insert_move m mem k v (I_Set a) =
     andthen (set_value m (Some a) v) (\<lambda>m'.
       Ok (m', Return (Inserted True), Some (Inserted True)))"
| "insert_move m mem k v (I_Last a) =
     andthen (deref (heap m) a) (\<lambda>e.
       Ok (m, Go (if nxt e = None then I_New (Behind (Some a)) else I_Next a), None))"
| "insert_move m mem k v (I_Next a) =
     andthen (deref (heap m) a) (\<lambda>e.
       Ok (m, Go (case nxt e of None \<Rightarrow> I_New (Behind None) | Some b \<Rightarrow> I_Key b), None))"
| "insert_move m mem k v (I_New w) =
     (if mem then let (m', nt) = new_entry m k v in Ok (m', Go (I_Link w (Some nt)), None)
      else case w of
        In_Table \<Rightarrow> Ok (m, Go (I_Link In_Table None), None)
      | Behind p \<Rightarrow> Ok (m, Return (Inserted False), Some (Inserted False)))"
| "insert_move m mem k v (I_Link In_Table p) =
     andthen (hash_of m k) (\<lambda>hash.
     andthen (table_wr m hash p) (\<lambda>m'. Ok (m', Go I_Check, Some (Inserted (p \<noteq> None)))))"
| "insert_move m mem k v (I_Link (Behind q) p) =
     andthen (set_next m q p) (\<lambda>m'. Ok (m', Return (Inserted True), Some (Inserted True)))"
| "insert_move m mem k v I_Check =
     andthen (at_slot m k) (\<lambda>p. Ok (m, Return (Inserted (p \<noteq> None)), None))"

section \<open>Threads\<close>

text \<open>What a thread is doing; \<open>Dead\<close> after a fault.\<close>

datatype 'v act =
    Idle
  | Locking "'v map_call"              \<comment> \<open>in the guard's constructor\<close>
  | Finding u64 find_pc
  | Inserting u64 'v insert_pc
  | Unlocking "'v map_call" "'v answer"  \<comment> \<open>in the guard's destructor\<close>
  | Dead fault

record 'v cmap =
  cm_locks :: al_sys
  cm_dict :: "'v chash"
  cm_num :: u32
  acts :: "nat \<Rightarrow> 'v act"

abbreviation become :: "'v cmap \<Rightarrow> nat \<Rightarrow> 'v act \<Rightarrow> 'v cmap" where
  "become s t a \<equiv> s\<lparr>acts := (acts s)(t := a)\<rparr>"

definition pm_of :: "'v cmap \<Rightarrow> 'v pmap" where
  "pm_of s = \<lparr>pm_dict = cm_dict s, pm_locks = shared (cm_locks s), pm_num = cm_num s\<rparr>"

text \<open>The code of a thread in its critical section; nothing elsewhere.\<close>

fun after_act :: "('p \<Rightarrow> 'v act) \<Rightarrow> 'v map_call \<Rightarrow> ('p, 'v) after \<Rightarrow> 'v act" where
  "after_act f c (Go p) = f p"
| "after_act f c (Return r) = Unlocking c r"

fun act_move :: "'v chash \<Rightarrow> bool \<Rightarrow> 'v act \<Rightarrow> ('v chash \<times> 'v act \<times> 'v answer option) result option"
where
  "act_move m mem (Finding k p) =
     Some (andthen (find_move m k p) (\<lambda>(m', nx, r).
       Ok (m', after_act (Finding k) (Find_Call k) nx, r)))"
| "act_move m mem (Inserting k v p) =
     Some (andthen (insert_move m mem k v p) (\<lambda>(m', nx, r).
       Ok (m', after_act (Inserting k v) (Insert_Call k v) nx, r)))"
| "act_move m mem _ = None"

fun begin_act :: "'v map_call \<Rightarrow> 'v act" where
  "begin_act (Find_Call k) = Finding k F_Test"
| "begin_act (Insert_Call k v) = Inserting k v I_Test"

inductive cm_step :: "'v cmap \<Rightarrow> ('v map_call, 'v answer) event list \<Rightarrow> 'v cmap \<Rightarrow> bool" where
  cm_call: "acts s t = Idle \<Longrightarrow> bucket_pos (pm_of s) (call_key c) = Ok pos \<Longrightarrow>
    cm_step s [Called t c]
      ((become s t (Locking c))\<lparr>cm_locks := goto (cm_locks s) t (Spin pos)\<rparr>)"
| cm_call_fault: "acts s t = Idle \<Longrightarrow> bucket_pos (pm_of s) (call_key c) = Fault f \<Longrightarrow>
    cm_step s [Called t c] (become s t (Dead f))"
| cm_lock: "acts s t = Locking c \<Longrightarrow> (\<And>pos. pcs (cm_locks s) t \<noteq> Critical pos) \<Longrightarrow>
    al_step t (cm_locks s) l \<Longrightarrow> cm_step s [] (s\<lparr>cm_locks := l\<rparr>)"
| cm_locked: "acts s t = Locking c \<Longrightarrow> pcs (cm_locks s) t = Critical pos \<Longrightarrow>
    cm_step s [] (become s t (begin_act c))"
| cm_move: "act_move (cm_dict s) mem (acts s t) = Some (Ok (m, a, r)) \<Longrightarrow>
    cm_step s (effect_of t r) ((become s t a)\<lparr>cm_dict := m\<rparr>)"
| cm_move_fault: "act_move (cm_dict s) mem (acts s t) = Some (Fault f) \<Longrightarrow>
    cm_step s [] (become s t (Dead f))"
| cm_unlock: "acts s t = Unlocking c r \<Longrightarrow> pcs (cm_locks s) t \<noteq> Outside \<Longrightarrow>
    al_step t (cm_locks s) l \<Longrightarrow> cm_step s [] (s\<lparr>cm_locks := l\<rparr>)"
| cm_return: "acts s t = Unlocking c r \<Longrightarrow>
    pcs (cm_locks s) t = Outside \<or> pcs (cm_locks s) t = Unlock_Failed pos \<Longrightarrow>
    cm_step s [Returned t r] (become s t Idle)"
| cm_crash: "pcs (cm_locks s) t = Crashed \<Longrightarrow> cm_step s [] (become s t (Dead Null_Deref))"

text \<open>A map that \<^verbatim>\<open>create\<close> made for \<open>num\<close> buckets, no call running yet.\<close>

definition cm_init :: "u32 \<Rightarrow> 'v cmap" where
  "cm_init num =
     \<lparr>cm_locks = al_init num, cm_dict = fst (ch_create ch_empty True num), cm_num = num,
      acts = (\<lambda>_. Idle)\<rparr>"

abbreviation cm_run :: "u32 \<Rightarrow> ('v map_call, 'v answer) event list \<Rightarrow> 'v cmap \<Rightarrow> bool" where
  "cm_run num \<equiv> runs_to cm_step (cm_init num)"

lemmas cm_run_init = runs_to_init[where step = cm_step]
lemmas cm_run_step = runs_to_step[where step = cm_step]

section \<open>The specification: an atomic map\<close>

text \<open>
  The sequential object of \<open>Linearize\<close>: a find answers what the map holds, an insert sets it. An
  insert without memory for a new entry answers false and changes nothing.
\<close>

fun map_effect :: "(u64 \<rightharpoonup> 'v) \<Rightarrow> 'v map_call \<Rightarrow> 'v answer \<Rightarrow> (u64 \<rightharpoonup> 'v) option" where
  "map_effect f (Find_Call k) (Found r) = (if r = f k then Some f else None)"
| "map_effect f (Insert_Call k v) (Inserted True) = Some (f(k \<mapsto> v))"
| "map_effect f (Insert_Call k v) (Inserted False) = (if f k = None then Some f else None)"
| "map_effect f _ _ = None"

section \<open>What holds at every moment\<close>

text \<open>
  The entries that a thread has allocated and not yet linked; all others are linked.
\<close>

fun unlinked :: "'v act \<Rightarrow> nat set" where
  "unlinked (Inserting k v (I_Link w (Some nt))) = {nt}"
| "unlinked _ = {}"

fun pending_ok :: "'v chash \<Rightarrow> 'v act \<Rightarrow> bool" where
  "pending_ok m (Inserting k v (I_Link w (Some nt))) \<longleftrightarrow>
     heap m nt = Some \<lparr>key = k, val = v, nxt = None\<rparr> \<and> nt < fresh m"
| "pending_ok m _ \<longleftrightarrow> True"

definition linked :: "'v chash \<Rightarrow> nat set \<Rightarrow> 'v chash" where
  "linked m P = m\<lparr>heap := (heap m) |` (- P)\<rparr>"

text \<open>
  What a thread inside the lock knows of the list \<open>xs\<close> of its bucket: it has reached an entry
  without meeting its key, it has met its key, or it has seen the whole list.
\<close>

definition reached :: "(nat \<Rightarrow> u64) \<Rightarrow> nat list \<Rightarrow> u64 \<Rightarrow> nat \<Rightarrow> bool" where
  "reached kf xs k a \<longleftrightarrow> (\<exists>ys zs. xs = ys @ a # zs \<and> k \<notin> kf ` set ys)"

definition met :: "(nat \<Rightarrow> u64) \<Rightarrow> nat list \<Rightarrow> u64 \<Rightarrow> nat \<Rightarrow> bool" where
  "met kf xs k a \<longleftrightarrow> a \<in> set xs \<and> kf a = k"

fun find_ok :: "(nat \<Rightarrow> u64) \<Rightarrow> nat list \<Rightarrow> u64 \<Rightarrow> find_pc \<Rightarrow> bool" where
  "find_ok kf xs k F_Test \<longleftrightarrow> True"
| "find_ok kf xs k F_Head \<longleftrightarrow> xs \<noteq> []"
| "find_ok kf xs k (F_Key a) \<longleftrightarrow> reached kf xs k a"
| "find_ok kf xs k (F_Next a) \<longleftrightarrow> reached kf xs k a \<and> kf a \<noteq> k"
| "find_ok kf xs k (F_Copy a) \<longleftrightarrow> met kf xs k a"

fun slot_ok :: "(nat \<Rightarrow> u64) \<Rightarrow> nat list \<Rightarrow> u64 \<Rightarrow> target \<Rightarrow> bool" where
  "slot_ok kf xs k In_Table \<longleftrightarrow> xs = []"
| "slot_ok kf xs k (Behind p) \<longleftrightarrow> xs \<noteq> [] \<and> p = Some (last xs) \<and> k \<notin> kf ` set xs"

fun insert_ok :: "(nat \<Rightarrow> u64) \<Rightarrow> nat list \<Rightarrow> u64 \<Rightarrow> insert_pc \<Rightarrow> bool" where
  "insert_ok kf xs k I_Test \<longleftrightarrow> True"
| "insert_ok kf xs k I_Head \<longleftrightarrow> xs \<noteq> []"
| "insert_ok kf xs k (I_Key a) \<longleftrightarrow> reached kf xs k a"
| "insert_ok kf xs k (I_Set a) \<longleftrightarrow> met kf xs k a"
| "insert_ok kf xs k (I_Last a) \<longleftrightarrow> reached kf xs k a \<and> kf a \<noteq> k"
| "insert_ok kf xs k (I_Next a) \<longleftrightarrow> reached kf xs k a \<and> kf a \<noteq> k \<and> last xs \<noteq> a"
| "insert_ok kf xs k (I_New w) \<longleftrightarrow> slot_ok kf xs k w"
| "insert_ok kf xs k (I_Link w p) \<longleftrightarrow> slot_ok kf xs k w \<and> (p = None \<longrightarrow> w = In_Table)"
| "insert_ok kf xs k I_Check \<longleftrightarrow> True"

text \<open>The thread's place and its status in the atomic map.\<close>

fun act_ok :: "(nat \<Rightarrow> u64) \<Rightarrow> nat list \<Rightarrow> 'v act \<Rightarrow> ('v map_call, 'v answer) status \<Rightarrow> bool" where
  "act_ok kf xs Idle st \<longleftrightarrow> st = Ready"
| "act_ok kf xs (Locking c) st \<longleftrightarrow> st = Pending c"
| "act_ok kf xs (Finding k p) st \<longleftrightarrow> find_ok kf xs k p \<and> st = Pending (Find_Call k)"
| "act_ok kf xs (Inserting k v p) st \<longleftrightarrow> insert_ok kf xs k p \<and>
     st = (if p = I_Check then Answered (Inserted (xs \<noteq> [])) else Pending (Insert_Call k v))"
| "act_ok kf xs (Unlocking c r) st \<longleftrightarrow> st = Answered r"
| "act_ok kf xs (Dead f) st \<longleftrightarrow> False"

fun act_key :: "'v act \<Rightarrow> u64" where
  "act_key (Locking c) = call_key c"
| "act_key (Finding k p) = k"
| "act_key (Inserting k v p) = k"
| "act_key (Unlocking c r) = call_key c"
| "act_key _ = 0"

fun inside :: "'v act \<Rightarrow> bool" where
  "inside (Finding k p) = True"
| "inside (Inserting k v p) = True"
| "inside _ = False"

fun leaving :: "'v act \<Rightarrow> bool" where
  "leaving (Unlocking c r) = True"
| "leaving _ = False"

text \<open>
  How many more moves a thread inside its lock has at most, \<open>xs\<close> being the list of its bucket.
\<close>

definition rest :: "nat list \<Rightarrow> nat \<Rightarrow> nat" where
  "rest xs a = length (dropWhile (\<lambda>x. x \<noteq> a) xs)"

fun rank :: "nat list \<Rightarrow> 'v act \<Rightarrow> nat" where
  "rank xs (Finding k p) =
     (case p of F_Test \<Rightarrow> 2 * length xs + 2 | F_Head \<Rightarrow> 2 * length xs + 1
      | F_Key a \<Rightarrow> 2 * rest xs a | F_Next a \<Rightarrow> 2 * rest xs a - 1 | F_Copy a \<Rightarrow> 1)"
| "rank xs (Inserting k v p) =
     (case p of I_Test \<Rightarrow> 3 * length xs + 5 | I_Head \<Rightarrow> 3 * length xs + 4
      | I_Key a \<Rightarrow> 3 * rest xs a + 3 | I_Set a \<Rightarrow> 1 | I_Last a \<Rightarrow> 3 * rest xs a + 2
      | I_Next a \<Rightarrow> 3 * rest xs a + 1 | I_New w \<Rightarrow> 3 | I_Link w q \<Rightarrow> 2 | I_Check \<Rightarrow> 1)"
| "rank xs _ = 0"

text \<open>The place of a thread in the lock of position \<open>p\<close>.\<close>

fun lock_ok :: "u32 \<Rightarrow> 'v act \<Rightarrow> al_pc \<Rightarrow> bool" where
  "lock_ok p Idle pc \<longleftrightarrow> pc = Outside"
| "lock_ok p (Locking c) pc \<longleftrightarrow> locking p pc"
| "lock_ok p (Unlocking c r) pc \<longleftrightarrow> unlocking p pc"
| "lock_ok p (Dead f) pc \<longleftrightarrow> False"
| "lock_ok p _ pc \<longleftrightarrow> pc = Critical p"

definition pos_of :: "u32 \<Rightarrow> u64 \<Rightarrow> u32" where
  "pos_of num k = ucast (k mod ucast num)"

definition pendings :: "(nat \<Rightarrow> 'v act) \<Rightarrow> nat set" where
  "pendings as = (\<Union>t. unlinked (as t))"

section \<open>One step inside the lock\<close>

lemma linked_fields [simp]:
  "table (linked m P) = table m" "bucket_num (linked m P) = bucket_num m"
  "fresh (linked m P) = fresh m" "heap (linked m P) = (heap m) |` (- P)"
  by (simp_all add: linked_def)

lemma bucket_of_linked [simp]: "bucket_of (linked m P) = bucket_of m"
  by (simp add: bucket_of_def fun_eq_iff)

lemma hash_of_linked [simp]: "hash_of (linked m P) k = hash_of m k"
  by (simp only: hash_of_def linked_fields)

lemma table_rd_linked [simp]: "table_rd (linked m P) i = table_rd m i"
  by (simp only: table_rd_def linked_fields)

lemma linked_slot:
  assumes "ch_rep (linked m P) c"
  obtains t where "table m = Some t" "length t = unat (bucket_num m)"
    "bucket_of m k < length t" "hash_of m k = Ok (int (bucket_of m k))"
    "at_slot m k = Ok (t ! bucket_of m k)"
    "chain (links ((heap m) |` (- P))) (t ! bucket_of m k) (c (bucket_of m k))"
proof -
  obtain t where t: "table m = Some t" "length t = unat (bucket_num m)"
    "bucket_of m k < length t" "hash_of m k = Ok (int (bucket_of m k))"
    "table_rd m (int (bucket_of m k)) = Ok (t ! bucket_of m k)"
    "\<forall>i<length t. chain (links ((heap m) |` (- P))) (t ! i) (c i)"
    using ch_rep_bucket[OF assms, of k] by auto
  then show ?thesis using that[of t] by (simp add: at_slot_def)
qed

text \<open>The head of the list, and the entry that follows another.\<close>

lemma chain_head: "chain nx p xs \<Longrightarrow> p = (case xs of [] \<Rightarrow> None | a # as \<Rightarrow> Some a)"
  by (cases xs) auto

lemma linked_entry:
  assumes "ch_rep (linked m P) c" and "c (bucket_of m k) = ys @ a # zs"
  shows "\<exists>e. heap m a = Some e \<and> a \<notin> P \<and>
     nxt e = (case zs of [] \<Rightarrow> None | b # bs \<Rightarrow> Some b)"
proof -
  obtain t where "chain (links ((heap m) |` (- P))) (t ! bucket_of m k) (c (bucket_of m k))"
    using linked_slot[OF assms(1), of k] by blast
  then obtain e where "((heap m) |` (- P)) a = Some e" "chain (links ((heap m) |` (- P))) (nxt e) zs"
    using assms(2) by auto
  then show ?thesis using chain_head by (fastforce simp: restrict_map_def split: if_splits)
qed

lemma linked_live:
  assumes "ch_rep (linked m P) c" and "a \<in> set (c (bucket_of m k))"
  shows "\<exists>e. heap m a = Some e \<and> a \<notin> P"
  using linked_entry[OF assms(1)] split_list[OF assms(2)] by blast

lemma linked_key:
  assumes "ch_rep (linked m P) c" and "a \<in> set (c (bucket_of m k))"
  shows "key_at ((heap m) |` (- P)) a = key_at (heap m) a"
    and "val_at ((heap m) |` (- P)) a = val_at (heap m) a"
  using linked_live[OF assms] by (auto simp: restrict_map_def)

lemma linked_absent:
  assumes "ch_rep (linked m P) c" and "k \<notin> key_at (heap m) ` set (c (bucket_of m k))"
  shows "ch_map (linked m P) c k = None"
proof -
  have "find (\<lambda>a. key_at ((heap m) |` (- P)) a = k) (c (bucket_of m k)) = None"
    using assms(2) linked_key(1)[OF assms(1), of _ k] by (auto simp: find_None_iff)
  then show ?thesis by (simp add: ch_map_def)
qed

lemma linked_met:
  assumes "ch_rep (linked m P) c" and "met (key_at (heap m)) (c (bucket_of m k)) k a"
  shows "ch_map (linked m P) c k = Some (val_at (heap m) a)"
proof -
  have a: "a \<in> set (c (bucket_of m k))" "key_at (heap m) a = k"
    using assms(2) by (auto simp: met_def)
  then have "find (\<lambda>a. key_at ((heap m) |` (- P)) a = k) (c (bucket_of m k)) = Some a"
    using ch_map_entry[OF assms(1), of a k] linked_key(1)[OF assms(1) a(1)] by simp
  then show ?thesis using linked_key(2)[OF assms(1) a(1)] by (simp add: ch_map_def)
qed

text \<open>
  A step of a thread that keeps to its bucket: the linked entries stay a well-formed table, the
  table's content changes as the atomic map does when the step is the call's effect, no entry
  of another bucket and no key changes, and the thread's own assertion holds again.
\<close>

definition good_move ::
  "'v chash \<Rightarrow> nat set \<Rightarrow> (nat \<Rightarrow> nat list) \<Rightarrow> 'v act \<Rightarrow> ('v map_call, 'v answer) status \<Rightarrow>
   ('v chash \<times> 'v act \<times> 'v answer option) result \<Rightarrow> bool" where
  "good_move m P c a st res \<longleftrightarrow>
     (\<exists>m' a' r P' c' st'. res = Ok (m', a', r) \<and> P' = P - unlinked a \<union> unlinked a' \<and>
        bucket_num m' = bucket_num m \<and> fresh m \<le> fresh m' \<and> ch_rep (linked m' P') c' \<and>
        takes map_effect (ch_map (linked m P) c) st r (ch_map (linked m' P') c') st' \<and>
        act_ok (key_at (heap m')) (c' (bucket_of m (act_key a))) a' st' \<and>
        pending_ok m' a' \<and> unlinked a' \<inter> (P - unlinked a) = {} \<and>
        act_key a' = act_key a \<and> (inside a' \<or> leaving a') \<and>
        rank (c' (bucket_of m (act_key a))) a' < rank (c (bucket_of m (act_key a))) a \<and>
        (\<forall>i. i \<noteq> bucket_of m (act_key a) \<longrightarrow> c' i = c i) \<and>
        (\<forall>x. x < fresh m \<and> x \<notin> set (c (bucket_of m (act_key a))) \<longrightarrow> heap m' x = heap m x))"

lemma pending_ok_none: "unlinked a = {} \<Longrightarrow> pending_ok m a"
  by (induction m a rule: pending_ok.induct) auto

lemma good_read:
  assumes "ch_rep (linked m P) c" and "takes map_effect (ch_map (linked m P) c) st r (ch_map (linked m P) c) st'"
    and "act_ok (key_at (heap m)) (c (bucket_of m (act_key a))) a' st'"
    and "unlinked a = {}" "unlinked a' = {}" and "act_key a' = act_key a" "inside a' \<or> leaving a'"
    and "rank (c (bucket_of m (act_key a))) a' < rank (c (bucket_of m (act_key a))) a"
  shows "good_move m P c a st (Ok (m, a', r))"
  unfolding good_move_def using assms pending_ok_none[of a' m]
  by (intro exI[of _ m] exI[of _ a'] exI[of _ r] exI[of _ P] exI[of _ c] exI[of _ st']) simp

text \<open>What a thread learns from the entry it has reached.\<close>

lemma reached_head: "xs \<noteq> [] \<Longrightarrow> reached kf xs k (hd xs)"
  by (cases xs) (auto simp: reached_def intro: exI[of _ "[]"])

lemma rest_head: "xs \<noteq> [] \<Longrightarrow> rest xs (hd xs) = length xs"
  by (cases xs) (simp_all add: rest_def)

lemma rest_split: "distinct (ys @ a # zs) \<Longrightarrow> rest (ys @ a # zs) a = Suc (length zs)"
  unfolding rest_def by (subst dropWhile_append2) auto

lemma reached_entry:
  assumes "ch_rep (linked m P) c" and "reached kf (c (bucket_of m k)) k a"
  obtains e where "heap m a = Some e" "a \<notin> P" "0 < rest (c (bucket_of m k)) a"
    "kf a = k \<Longrightarrow> met kf (c (bucket_of m k)) k a"
    "kf a \<noteq> k \<Longrightarrow> nxt e = None \<Longrightarrow>
       a = last (c (bucket_of m k)) \<and> k \<notin> kf ` set (c (bucket_of m k))"
    "\<And>b. kf a \<noteq> k \<Longrightarrow> nxt e = Some b \<Longrightarrow>
       a \<noteq> last (c (bucket_of m k)) \<and> reached kf (c (bucket_of m k)) k b \<and>
       rest (c (bucket_of m k)) b < rest (c (bucket_of m k)) a"
proof -
  let ?xs = "c (bucket_of m k)"
  obtain ys zs where xs: "?xs = ys @ a # zs" "k \<notin> kf ` set ys"
    using assms(2) by (auto simp: reached_def)
  obtain e where e: "heap m a = Some e" "a \<notin> P"
    "nxt e = (case zs of [] \<Rightarrow> None | b # bs \<Rightarrow> Some b)"
    using linked_entry[OF assms(1) xs(1)] by blast
  have dist: "distinct ?xs"
    using linked_slot[OF assms(1), of k] chain_distinct by metis
  show ?thesis
  proof (rule that[OF e(1,2)])
    show "0 < rest ?xs a" using rest_split dist xs(1) by simp
    show "met kf ?xs k a" if "kf a = k" using that xs by (simp add: met_def)
    show "a = last ?xs \<and> k \<notin> kf ` set ?xs" if "kf a \<noteq> k" "nxt e = None"
      using that xs e(3) by (auto split: list.splits)
    show "a \<noteq> last ?xs \<and> reached kf ?xs k b \<and> rest ?xs b < rest ?xs a" if "kf a \<noteq> k" "nxt e = Some b" for b
    proof -
      obtain bs where zs: "zs = b # bs" using \<open>nxt e = Some b\<close> e(3) by (auto split: list.splits)
      then have "a \<noteq> last ?xs" using xs dist by auto
      moreover have "reached kf ?xs k b"
        unfolding reached_def using xs zs \<open>kf a \<noteq> k\<close>
        by (intro exI[of _ "ys @ [a]"] exI[of _ bs]) simp
      moreover have "rest ?xs b < rest ?xs a"
        using rest_split[of "ys @ [a]" b bs] rest_split[of ys a zs] dist xs(1) zs by simp
      ultimately show ?thesis by simp
    qed
  qed
qed

lemma slot_read:
  assumes "ch_rep (linked m P) c"
  shows "at_slot m k =
    Ok (if c (bucket_of m k) = [] then None else Some (hd (c (bucket_of m k))))"
proof -
  obtain t where "at_slot m k = Ok (t ! bucket_of m k)"
    "chain (links ((heap m) |` (- P))) (t ! bucket_of m k) (c (bucket_of m k))"
    using linked_slot[OF assms, of k] by blast
  then show ?thesis using chain_head by (cases "c (bucket_of m k)") fastforce+
qed

lemma find_move_good:
  assumes rep: "ch_rep (linked m P) c"
    and ok: "act_ok (key_at (heap m)) (c (bucket_of m k)) (Finding k p) st"
    and mv: "act_move m mem (Finding k p) = Some res"
  shows "good_move m P c (Finding k p) st res"
proof -
  let ?xs = "c (bucket_of m k)" and ?kf = "key_at (heap m)"
  have st: "st = Pending (Find_Call k)" using ok by simp
  note read = good_read[OF rep]
  have none: "good_move m P c (Finding k p) st
      (Ok (m, Unlocking (Find_Call k) (Found None), Some (Found None)))"
    if "k \<notin> ?kf ` set ?xs" "0 < rank ?xs (Finding k p :: 'a act)"
    using linked_absent[OF rep that(1)] that(2) st by (intro read) auto
  show ?thesis
  proof (cases p)
    case F_Test
    then show ?thesis using mv none slot_read[OF rep, of k] st by (auto intro!: read)
  next
    case F_Head
    then show ?thesis using mv ok slot_read[OF rep, of k] st
      by (auto simp: rest_head intro!: read reached_head)
  next
    case (F_Key a)
    obtain e where e: "heap m a = Some e" "?kf a = k \<Longrightarrow> met ?kf ?xs k a" "0 < rest ?xs a"
      using reached_entry[OF rep, of ?kf k a] ok F_Key by auto
    then show ?thesis using F_Key mv ok st by (auto simp: deref_def intro!: read)
  next
    case (F_Next a)
    then have r: "reached ?kf ?xs k a" "?kf a \<noteq> k" using ok by auto
    obtain e where e: "heap m a = Some e"
      "nxt e = None \<Longrightarrow> k \<notin> ?kf ` set ?xs" "0 < rest ?xs a"
      "\<And>b. nxt e = Some b \<Longrightarrow> reached ?kf ?xs k b \<and> rest ?xs b < rest ?xs a"
      using reached_entry[OF rep r(1)] r(2) by metis
    then show ?thesis using F_Next mv st none
      by (cases "nxt e") (auto simp: deref_def intro!: read)
  next
    case (F_Copy a)
    then have met: "met ?kf ?xs k a" using ok by simp
    then obtain e where "heap m a = Some e" using linked_live[OF rep, of a k] by (auto simp: met_def)
    then show ?thesis using F_Copy mv st linked_met[OF rep met]
      by (auto simp: deref_def intro!: read)
  qed
qed

text \<open>The entry that insert has prepared becomes the last of its bucket's list.\<close>

lemma linked_add:
  assumes rep: "ch_rep (linked m P) c"
    and nt: "nt \<in> P" "heap m nt = Some \<lparr>key = k, val = v, nxt = None\<rparr>" "nt < fresh m"
    and none: "k \<notin> key_at (heap m) ` set (c (bucket_of m k))"
    and m': "bucket_num m' = bucket_num m" "fresh m' = fresh m"
    and tab: "table m = Some t" "table m' = Some t'" "length t' = length t"
      "\<forall>i<length t. i \<noteq> bucket_of m k \<longrightarrow> t' ! i = t ! i"
    and chain: "chain (links ((heap m') |` (- (P - {nt})))) (t' ! bucket_of m k)
       (c (bucket_of m k) @ [nt])"
    and same: "\<And>x. x \<notin> set (c (bucket_of m k)) \<Longrightarrow> heap m' x = heap m x"
    and mine: "\<And>x. x \<in> set (c (bucket_of m k)) \<Longrightarrow>
       \<exists>e n. heap m x = Some e \<and> heap m' x = Some (e\<lparr>nxt := n\<rparr>)"
  shows "ch_rep (linked m' (P - {nt})) (c(bucket_of m k := c (bucket_of m k) @ [nt])) \<and>
    ch_map (linked m' (P - {nt})) (c(bucket_of m k := c (bucket_of m k) @ [nt])) =
      (ch_map (linked m P) c)(k \<mapsto> v)"
proof -
  let ?xs = "c (bucket_of m k)"
  have live: "x \<notin> P" if "x \<in> set ?xs" for x using linked_live[OF rep that] by blast
  have ex: "heap m' x \<noteq> None \<longleftrightarrow> heap m x \<noteq> None" for x
    using same[of x] mine[of x] by (cases "x \<in> set ?xs") auto
  have dom: "dom (heap (linked m' (P - {nt}))) = insert nt (dom (heap (linked m P)))"
    using ex nt(2) by (auto simp: dom_def restrict_map_def split: if_splits)
  have kv: "key_at (heap m') x = key_at (heap m) x \<and> val_at (heap m') x = val_at (heap m) x" for x
    using same[of x] mine[of x] by (cases "x \<in> set ?xs") auto
  have nt': "heap m' nt = heap m nt" using same live nt(1) by blast
  show ?thesis
    unfolding bucket_of_linked[symmetric, of m P]
  proof (rule ch_rep_add[OF rep, where t = t and t' = t'], unfold bucket_of_linked linked_fields)
    show "ch_map (linked m P) c k = None" using linked_absent[OF rep none] .
    show "dom (heap m' |` (- (P - {nt}))) = insert nt (dom (heap m |` (- P)))"
      using dom by simp
    show "x < fresh m'" if "x \<in> dom (heap m' |` (- (P - {nt})))" for x
    proof -
      have "x \<in> insert nt (dom (heap (linked m P)))" using that unfolding dom[symmetric] by simp
      then show ?thesis using ch_repD(6)[OF rep, of x] nt(3) m'(2) by auto
    qed
    show "(heap m' |` (- (P - {nt}))) x = (heap m |` (- P)) x"
      if "x \<in> dom (heap m |` (- P))" "x \<notin> set ?xs" for x
      using that same by (auto simp: restrict_map_def split: if_splits)
    show "key_at (heap m' |` (- (P - {nt}))) x = key_at (heap m |` (- P)) x \<and>
        val_at (heap m' |` (- (P - {nt}))) x = val_at (heap m |` (- P)) x"
      if "x \<in> dom (heap m |` (- P))" for x
      using that kv[of x] by (auto simp: restrict_map_def split: if_splits)
    show "key_at (heap m' |` (- (P - {nt}))) nt = k" "val_at (heap m' |` (- (P - {nt}))) nt = v"
      using nt(2) nt' by (simp_all add: restrict_map_def)
  qed (use m'(1) tab chain in auto)
qed

text \<open>A new entry, not linked yet, does not show.\<close>

lemma linked_new:
  assumes "ch_rep (linked m P) c"
  shows "linked (fst (new_entry m k v)) (insert (fresh m) P) = (linked m P)\<lparr>fresh := fresh m + 1\<rparr>"
    and "ch_rep ((linked m P)\<lparr>fresh := fresh m + 1\<rparr>) c"
    and "ch_map ((linked m P)\<lparr>fresh := fresh m + 1\<rparr>) c = ch_map (linked m P) c"
proof -
  have "heap m (fresh m) = None \<or> fresh m \<in> P"
    using ch_repD(6)[OF assms, of "fresh m"] by (cases "fresh m \<in> P"; cases "heap m (fresh m)")
      (auto simp: restrict_map_def)
  then show "linked (fst (new_entry m k v)) (insert (fresh m) P)
      = (linked m P)\<lparr>fresh := fresh m + 1\<rparr>"
    by (auto simp: linked_def new_entry_def restrict_map_def fun_eq_iff)
  have b: "bucket_of (m'\<lparr>fresh := n\<rparr>) = bucket_of m'" for m' :: "'a chash" and n
    by (simp add: bucket_of_def fun_eq_iff)
  show "ch_rep ((linked m P)\<lparr>fresh := fresh m + 1\<rparr>) c"
    using assms by (auto simp: ch_rep_def b less_SucI)
  show "ch_map ((linked m P)\<lparr>fresh := fresh m + 1\<rparr>) c = ch_map (linked m P) c"
    by (simp add: ch_map_def b fun_eq_iff)
qed

text \<open>The moves of insert that only read, and those that write.\<close>

lemma insert_read_good:
  assumes rep: "ch_rep (linked m P) c"
    and ok: "act_ok (key_at (heap m)) (c (bucket_of m k)) (Inserting k v p) st"
    and mv: "act_move m mem (Inserting k v p) = Some res"
    and p: "p \<in> {I_Test, I_Head, I_Check} \<or> (\<exists>a. p \<in> {I_Key a, I_Last a, I_Next a})"
  shows "good_move m P c (Inserting k v p) st res"
proof -
  let ?xs = "c (bucket_of m k)" and ?kf = "key_at (heap m)"
  note read = good_read[OF rep]
  note place = slot_read[OF rep, of k]
  consider (test) "p = I_Test" | (hd) "p = I_Head" | (chk) "p = I_Check"
    | (entry) a where "p \<in> {I_Key a, I_Last a, I_Next a}"
    using p by blast
  then show ?thesis
  proof cases
    case test
    then show ?thesis using mv ok place by (cases "?xs = []") (auto intro!: read)
  next
    case hd
    then show ?thesis using mv ok place by (auto simp: rest_head intro!: read reached_head)
  next
    case chk
    then show ?thesis using mv ok place by (auto intro!: read)
  next
    case entry
    then have r: "reached ?kf ?xs k a" using ok by auto
    then have ne: "?xs \<noteq> []" by (auto simp: reached_def)
    obtain e where e: "heap m a = Some e" "?kf a = k \<Longrightarrow> met ?kf ?xs k a"
      "?kf a \<noteq> k \<Longrightarrow> nxt e = None \<Longrightarrow> a = last ?xs \<and> k \<notin> ?kf ` set ?xs"
      "\<And>b. ?kf a \<noteq> k \<Longrightarrow> nxt e = Some b \<Longrightarrow> a \<noteq> last ?xs \<and> reached ?kf ?xs k b \<and>
        rest ?xs b < rest ?xs a" and r0: "0 < rest ?xs a"
      using reached_entry[OF rep r] by metis
    consider (key) "p = I_Key a" | (lst) "p = I_Last a" | (nx) "p = I_Next a" using entry by blast
    then show ?thesis
    proof cases
      case key
      then show ?thesis using mv ok e(1,2)
        by (cases "key e = k") (auto simp: deref_def intro!: read)
    next
      case lst
      then have a: "?kf a \<noteq> k" using ok by simp
      show ?thesis
      proof (cases "nxt e")
        case None
        then show ?thesis using lst mv ok e(1) e(3)[OF a None] ne r0
          by (auto simp: deref_def intro!: read)
      next
        case (Some b)
        then show ?thesis using lst mv ok e(1) e(4)[OF a Some]
          by (auto simp: deref_def intro!: read)
      qed
    next
      case nx
      then have a: "?kf a \<noteq> k" "last ?xs \<noteq> a" using ok by simp_all
      then obtain b where "nxt e = Some b" using e(3) by (cases "nxt e") auto
      then show ?thesis using nx mv ok e(1) e(4)[OF a(1)] by (auto simp: deref_def intro!: read)
    qed
  qed
qed

lemma insert_set_good:
  assumes rep: "ch_rep (linked m P) c"
    and ok: "act_ok (key_at (heap m)) (c (bucket_of m k)) (Inserting k v (I_Set a)) st"
    and mv: "act_move m mem (Inserting k v (I_Set a)) = Some res"
  shows "good_move m P c (Inserting k v (I_Set a)) st res"
proof -
  have a: "a \<in> set (c (bucket_of m k))" "key_at (heap m) a = k" using ok by (auto simp: met_def)
  then obtain e where e: "heap m a = Some e" "a \<notin> P" using linked_live[OF rep] by blast
  let ?m' = "m\<lparr>heap := (heap m)(a \<mapsto> e\<lparr>val := v\<rparr>)\<rparr>"
  have m': "linked ?m' P = (linked m P)\<lparr>heap := (heap (linked m P))(a \<mapsto> e\<lparr>val := v\<rparr>)\<rparr>"
    using e(2) by (auto simp: linked_def restrict_map_def fun_eq_iff)
  have "heap (linked m P) a = Some e" using e by simp
  from ch_rep_set[OF rep _ this _ m', of k] a e(1)
  have R: "ch_rep (linked ?m' P) c" "ch_map (linked ?m' P) c = (ch_map (linked m P) c)(k \<mapsto> v)"
    by simp_all
  have res: "res = Ok (?m', Unlocking (Insert_Call k v) (Inserted True), Some (Inserted True))"
    using mv e(1) by (simp add: set_value_def deref_def)
  show ?thesis
    unfolding good_move_def res using R ok a(1)
    by (intro exI[of _ ?m'] exI[of _ "Unlocking (Insert_Call k v) (Inserted True)"]
        exI[of _ "Some (Inserted True)"] exI[of _ P] exI[of _ c] exI[of _ "Answered (Inserted True)"])
      auto
qed

lemma insert_new_good:
  assumes rep: "ch_rep (linked m P) c" and P: "\<forall>x\<in>P. x < fresh m"
    and ok: "act_ok (key_at (heap m)) (c (bucket_of m k)) (Inserting k v (I_New w)) st"
    and mv: "act_move m mem (Inserting k v (I_New w)) = Some res"
  shows "good_move m P c (Inserting k v (I_New w)) st res"
proof (cases mem)
  case True
  let ?m' = "fst (new_entry m k v)" and ?nt = "fresh m"
  have m': "heap ?m' = (heap m)(?nt \<mapsto> \<lparr>key = k, val = v, nxt = None\<rparr>)" "fresh ?m' = ?nt + 1"
    "bucket_num ?m' = bucket_num m"
    by (simp_all add: new_entry_def)
  have res: "res = Ok (?m', Inserting k v (I_Link w (Some ?nt)), None)"
    using mv True by (simp add: new_entry_def)
  have "key_at (heap ?m') x = key_at (heap m) x" if x: "x \<in> set (c (bucket_of m k))" for x
  proof -
    obtain e where "heap (linked m P) x = Some e"
      using linked_live[OF rep x] by (auto simp: restrict_map_def)
    then have "x < ?nt" using ch_repD(6)[OF rep] by simp
    then show ?thesis using m'(1) by simp
  qed
  then have "key_at (heap ?m') ` set (c (bucket_of m k)) = key_at (heap m) ` set (c (bucket_of m k))"
    by (intro image_cong) simp_all
  then have place: "slot_ok (key_at (heap ?m')) (c (bucket_of m k)) k w" using ok by (cases w) auto
  show ?thesis
    unfolding good_move_def res using linked_new(1)[OF rep, of k v] linked_new(2,3)[OF rep] ok place m' P
    by (intro exI[of _ ?m'] exI[of _ "Inserting k v (I_Link w (Some ?nt))"] exI[of _ None]
        exI[of _ "insert ?nt P"] exI[of _ c] exI[of _ st]) auto
next
  case False
  then show ?thesis
    using mv ok linked_absent[OF rep, of k] by (cases w) (auto intro!: good_read[OF rep])
qed

lemma insert_link_table_good:
  assumes rep: "ch_rep (linked m P) c"
    and ok: "act_ok (key_at (heap m)) (c (bucket_of m k)) (Inserting k v (I_Link In_Table p)) st"
    and pend: "unlinked (Inserting k v (I_Link In_Table p)) \<subseteq> P"
      "pending_ok m (Inserting k v (I_Link In_Table p))"
    and mv: "act_move m mem (Inserting k v (I_Link In_Table p)) = Some res"
  shows "good_move m P c (Inserting k v (I_Link In_Table p)) st res"
proof -
  let ?b = "bucket_of m k"
  obtain t where t: "table m = Some t" "length t = unat (bucket_num m)" "?b < length t"
    "hash_of m k = Ok (int ?b)" "chain (links ((heap m) |` (- P))) (t ! ?b) (c ?b)"
    using linked_slot[OF rep, of k] by metis
  have nil: "c ?b = []" using ok by simp
  then have "t ! ?b = None" using t(5) by simp
  let ?m' = "m\<lparr>table := Some (t[?b := p])\<rparr>"
  have res: "res = Ok (?m', Inserting k v I_Check, Some (Inserted (p \<noteq> None)))"
    using mv t by (simp add: table_wr_def)
  show ?thesis
  proof (cases p)
    case None
    then have "?m' = m" using \<open>t ! ?b = None\<close> t(1) by (metis chash.surjective chash.update_convs(3) list_update_id)
    then show ?thesis unfolding res using None ok nil linked_absent[OF rep, of k]
      by (auto intro!: good_read[OF rep])
  next
    case (Some nt)
    have nt: "nt \<in> P" "heap m nt = Some \<lparr>key = k, val = v, nxt = None\<rparr>" "nt < fresh m"
      using pend Some by auto
    let ?c' = "c(?b := c ?b @ [nt])"
    have R: "ch_rep (linked ?m' (P - {nt})) ?c' \<and>
        ch_map (linked ?m' (P - {nt})) ?c' = (ch_map (linked m P) c)(k \<mapsto> v)"
      using nil t(1,3) nt Some
      by (intro linked_add[OF rep nt, where t = t and t' = "t[?b := p]"]) (auto simp: links_def)
    show ?thesis
      unfolding good_move_def res using R ok Some nil
      by (intro exI[of _ ?m'] exI[of _ "Inserting k v I_Check"] exI[of _ "Some (Inserted (p \<noteq> None))"]
          exI[of _ "P - {nt}"] exI[of _ ?c'] exI[of _ "Answered (Inserted True)"]) auto
  qed
qed

lemma insert_link_behind_good:
  assumes rep: "ch_rep (linked m P) c"
    and ok: "act_ok (key_at (heap m)) (c (bucket_of m k)) (Inserting k v (I_Link (Behind q) p)) st"
    and pend: "unlinked (Inserting k v (I_Link (Behind q) p)) \<subseteq> P"
      "pending_ok m (Inserting k v (I_Link (Behind q) p))"
    and mv: "act_move m mem (Inserting k v (I_Link (Behind q) p)) = Some res"
  shows "good_move m P c (Inserting k v (I_Link (Behind q) p)) st res"
proof -
  let ?b = "bucket_of m k"
  obtain nt where p: "p = Some nt" using ok by (cases p) auto
  have nt: "nt \<in> P" "heap m nt = Some \<lparr>key = k, val = v, nxt = None\<rparr>" "nt < fresh m"
    using pend p by auto
  obtain as l where cb: "c ?b = as @ [l]" "q = Some l" and none: "k \<notin> key_at (heap m) ` set (c ?b)"
    using ok by (cases "c ?b" rule: rev_cases) auto
  obtain e where e: "heap m l = Some e" "l \<notin> P" "nxt e = None"
    using linked_entry[OF rep, of k as l "[]"] cb by auto
  let ?m' = "m\<lparr>heap := (heap m)(l \<mapsto> e\<lparr>nxt := p\<rparr>)\<rparr>"
  let ?c' = "c(?b := c ?b @ [nt])"
  obtain t where t: "table m = Some t" "chain (links ((heap m) |` (- P))) (t ! ?b) (c ?b)"
    using linked_slot[OF rep, of k] by metis
  have "nt \<notin> set (c ?b)" using linked_live[OF rep, of nt k] nt(1) by auto
  moreover have "links ((heap ?m') |` (- (P - {nt})))
      = ((links ((heap m) |` (- P)))(nt \<mapsto> None))(l \<mapsto> Some nt)"
    using e nt p by (auto simp: links_def restrict_map_def fun_eq_iff)
  ultimately have chain: "chain (links ((heap ?m') |` (- (P - {nt})))) (t ! ?b) (c ?b @ [nt])"
    using chain_snoc[of "links ((heap m) |` (- P))" "t ! ?b" as l nt] t(2) cb(1) by simp
  have mine: "\<exists>e n. heap m x = Some e \<and> heap ?m' x = Some (e\<lparr>nxt := n\<rparr>)" if "x \<in> set (c ?b)" for x
  proof (cases "x = l")
    case False
    obtain e' where "heap m x = Some e'" using linked_live[OF rep] \<open>x \<in> set (c ?b)\<close> by blast
    then show ?thesis using False by (intro exI[of _ e'] exI[of _ "nxt e'"]) simp
  qed (use e in auto)
  have R: "ch_rep (linked ?m' (P - {nt})) ?c' \<and>
      ch_map (linked ?m' (P - {nt})) ?c' = (ch_map (linked m P) c)(k \<mapsto> v)"
    using cb(1) t(1) chain
    by (intro linked_add[OF rep nt none, where t = t and t' = t] mine) auto
  have res: "res = Ok (?m', Unlocking (Insert_Call k v) (Inserted True), Some (Inserted True))"
    using mv e(1) cb(2) by (simp add: set_next_def deref_def)
  show ?thesis
    unfolding good_move_def res using R ok p cb(1)
    by (intro exI[of _ ?m'] exI[of _ "Unlocking (Insert_Call k v) (Inserted True)"]
        exI[of _ "Some (Inserted True)"] exI[of _ "P - {nt}"] exI[of _ ?c']
        exI[of _ "Answered (Inserted True)"]) auto
qed

lemma act_move_good:
  assumes rep: "ch_rep (linked m P) c" and P: "\<forall>x\<in>P. x < fresh m"
    and ok: "act_ok (key_at (heap m)) (c (bucket_of m (act_key a))) a st"
    and pend: "unlinked a \<subseteq> P" "pending_ok m a"
    and mv: "act_move m mem a = Some res"
  shows "good_move m P c a st res"
proof (cases a)
  case (Finding k p)
  then show ?thesis using find_move_good[OF rep] ok mv by simp
next
  case a: (Inserting k v p)
  show ?thesis
  proof (cases p)
    case (I_Link w q)
    then show ?thesis
      using insert_link_table_good[OF rep, of k v q st mem res]
        insert_link_behind_good[OF rep, of k v _ q st mem res] a assms(3-6) by (cases w) simp_all
  qed (use a insert_read_good[OF rep, of k v p st mem res] insert_set_good[OF rep, of k v _ st mem res]
        insert_new_good[OF rep P, of k v _ st mem res] assms(3-6) in simp_all)
qed (use mv in simp_all)

section \<open>The threads together\<close>

subsection \<open>The data\<close>

definition dict_inv ::
  "'v chash \<Rightarrow> (nat \<Rightarrow> 'v act) \<Rightarrow> (u64 \<rightharpoonup> 'v, 'v map_call, 'v answer) spec \<Rightarrow> (nat \<Rightarrow> nat list) \<Rightarrow> bool" where
  "dict_inv m as q c \<longleftrightarrow>
     ch_rep (linked m (pendings as)) c \<and> ch_map (linked m (pendings as)) c = fst q \<and>
     (\<forall>t. pending_ok m (as t)) \<and>
     (\<forall>t u. t \<noteq> u \<longrightarrow> unlinked (as t) \<inter> unlinked (as u) = {}) \<and>
     (\<forall>t. act_ok (key_at (heap m)) (c (bucket_of m (act_key (as t)))) (as t) (snd q t))"

lemma dict_invD:
  assumes "dict_inv m as q c"
  shows "ch_rep (linked m (pendings as)) c" "ch_map (linked m (pendings as)) c = fst q"
    "pending_ok m (as t)" "t \<noteq> u \<Longrightarrow> unlinked (as t) \<inter> unlinked (as u) = {}"
    "act_ok (key_at (heap m)) (c (bucket_of m (act_key (as t)))) (as t) (snd q t)"
  using assms unfolding dict_inv_def by blast+

lemma pendings_upd:
  assumes "\<And>u. u \<noteq> t \<Longrightarrow> unlinked (as t) \<inter> unlinked (as u) = {}"
  shows "pendings (as(t := a)) = pendings as - unlinked (as t) \<union> unlinked a"
  using assms by (fastforce simp: pendings_def split: if_splits)

lemma pending_in: "unlinked (as t) \<subseteq> pendings as"
  by (auto simp: pendings_def)

lemma pending_fresh: "pending_ok m a \<Longrightarrow> x \<in> unlinked a \<Longrightarrow> x < fresh m"
  by (induction m a rule: pending_ok.induct) auto

lemma pending_ok_frame:
  "pending_ok m a \<Longrightarrow> fresh m \<le> fresh m' \<Longrightarrow> \<forall>x\<in>unlinked a. heap m' x = heap m x \<Longrightarrow>
     pending_ok m' a"
  by (induction m a rule: pending_ok.induct) auto

text \<open>
  A thread outside its lock asserts nothing of the table; one inside speaks of the keys in its
  own bucket only.
\<close>

lemma act_ok_outside: "\<not> inside a \<Longrightarrow> act_ok kf xs a st = act_ok kf' xs' a st"
  by (cases a) simp_all

lemma reached_cong: "(\<And>x. x \<in> set xs \<Longrightarrow> kf x = kf' x) \<Longrightarrow> reached kf xs k a = reached kf' xs k a"
  unfolding reached_def by (intro ex_cong1 conj_cong refl) (auto simp: image_iff)

lemma reached_mem: "reached kf xs k a \<Longrightarrow> a \<in> set xs"
  by (auto simp: reached_def)

lemma act_ok_cong:
  assumes eq: "\<And>x. x \<in> set xs \<Longrightarrow> kf x = kf' x"
  shows "act_ok kf xs a st = act_ok kf' xs a st"
proof -
  note r = reached_cong[of xs kf kf', OF eq]
  have m: "met kf xs k x = met kf' xs k x" for k x using eq by (auto simp: met_def)
  have n: "(reached kf' xs k x \<and> kf x \<noteq> k) = (reached kf' xs k x \<and> kf' x \<noteq> k)" for k x
    using eq reached_mem by metis
  have i: "kf ` set xs = kf' ` set xs" using eq by (rule image_cong[OF refl])
  have f: "find_ok kf xs k p = find_ok kf' xs k p" for k p
    by (cases p) (simp_all add: r m n)
  have w: "slot_ok kf xs k v = slot_ok kf' xs k v" for k v by (cases v) (simp_all add: i)
  have "insert_ok kf xs k p = insert_ok kf' xs k p" for k p
    using n[of k] by (cases p) (auto simp: r m w)
  with f show ?thesis by (cases a) simp_all
qed

lemma dict_inv_become:
  assumes inv: "dict_inv m as (f, st) c" and "unlinked (as t) = {}" "unlinked a = {}"
    and "act_ok (key_at (heap m)) (c (bucket_of m (act_key a))) a st'"
  shows "dict_inv m (as(t := a)) (f, st(t := st')) c"
proof -
  have "pendings (as(t := a)) = pendings as"
    using assms(2,3) pendings_upd[of t as a] by simp
  then show ?thesis
    using inv assms(2-) pending_ok_none[OF assms(3)] unfolding dict_inv_def by simp
qed

lemma dict_inv_move:
  assumes inv: "dict_inv m as (f, st) c" and mv: "act_move m mem (as t) = Some res"
    and apart: "\<And>u. u \<noteq> t \<Longrightarrow> inside (as u) \<Longrightarrow>
       bucket_of m (act_key (as u)) \<noteq> bucket_of m (act_key (as t))"
  shows "\<exists>m' a r f' st' c'. res = Ok (m', a, r) \<and> bucket_num m' = bucket_num m \<and>
     dict_inv m' (as(t := a)) (f', st(t := st')) c' \<and> takes map_effect f (st t) r f' st' \<and>
     act_key a = act_key (as t) \<and> (inside a \<or> leaving a) \<and>
     rank (c' (bucket_of m (act_key (as t)))) a < rank (c (bucket_of m (act_key (as t)))) (as t) \<and>
     (\<forall>i. i \<noteq> bucket_of m (act_key (as t)) \<longrightarrow> c' i = c i)"
proof -
  let ?P = "pendings as" and ?b = "bucket_of m (act_key (as t))"
  note D = dict_invD[OF inv]
  have fresh: "\<forall>x\<in>?P. x < fresh m" using D(3) pending_fresh by (fastforce simp: pendings_def)
  have ok: "act_ok (key_at (heap m)) (c ?b) (as t) (st t)" using D(5)[of t] by simp
  obtain m' a r c' st' where g: "res = Ok (m', a, r)" "bucket_num m' = bucket_num m"
    "fresh m \<le> fresh m'" "ch_rep (linked m' (?P - unlinked (as t) \<union> unlinked a)) c'"
    "takes map_effect (ch_map (linked m ?P) c) (st t) r (ch_map (linked m' (?P - unlinked (as t) \<union> unlinked a)) c') st'"
    "act_ok (key_at (heap m')) (c' ?b) a st'" "pending_ok m' a"
    "unlinked a \<inter> (?P - unlinked (as t)) = {}" "act_key a = act_key (as t)" "inside a \<or> leaving a"
    "\<forall>i. i \<noteq> ?b \<longrightarrow> c' i = c i" "\<forall>x. x < fresh m \<and> x \<notin> set (c ?b) \<longrightarrow> heap m' x = heap m x"
    "rank (c' ?b) a < rank (c ?b) (as t)"
    using act_move_good[OF D(1) fresh ok pending_in D(3) mv] by (auto simp: good_move_def)
  have P': "pendings (as(t := a)) = ?P - unlinked (as t) \<union> unlinked a"
    using pendings_upd D(4) by blast
  have bk: "bucket_of m' = bucket_of m" using g(2) by (simp add: bucket_of_def fun_eq_iff)
  have lt: "bucket_of m k < unat (bucket_num m)" for k
    using bucket_of_lt[of m k] ch_repD(1)[OF D(1)] by simp
  have pend: "pending_ok m' (as u)" if "u \<noteq> t" for u
  proof (rule pending_ok_frame[OF D(3) g(3)], rule ballI)
    fix x
    assume x: "x \<in> unlinked (as u)"
    then have "x \<in> ?P" using pending_in by blast
    then have "x < fresh m" "x \<notin> set (c ?b)" using fresh linked_live[OF D(1)] by blast+
    then show "heap m' x = heap m x" using g(12) by blast
  qed
  have other: "act_ok (key_at (heap m')) (c' (bucket_of m' (act_key (as u)))) (as u) (st u)"
    if "u \<noteq> t" for u
  proof (cases "inside (as u)")
    case False
    show ?thesis
      using D(5)[of u] by (subst act_ok_outside[OF False, of _ _ _ "key_at (heap m)"
            "c (bucket_of m (act_key (as u)))"]) simp
  next
    case True
    let ?bu = "bucket_of m (act_key (as u))"
    have ne: "?bu \<noteq> ?b" using apart[OF that True] .
    have "key_at (heap m) x = key_at (heap m') x" if x: "x \<in> set (c ?bu)" for x
    proof -
      obtain e where e: "heap m x = Some e" "x \<notin> ?P" using linked_live[OF D(1) x] by blast
      then have "x < fresh m" using ch_repD(6)[OF D(1), of x e] by simp
      moreover have "x \<notin> set (c ?b)"
        using ch_rep_disjoint[OF D(1) _ _ ne x] lt by simp
      ultimately show ?thesis using g(12) by simp
    qed
    then have "act_ok (key_at (heap m)) (c ?bu) (as u) (st u)
        = act_ok (key_at (heap m')) (c ?bu) (as u) (st u)"
      by (rule act_ok_cong)
    then have "act_ok (key_at (heap m')) (c ?bu) (as u) (st u)" using D(5)[of u] by simp
    then show ?thesis using g(11) ne bk by simp
  qed
  have disj: "unlinked ((as(t := a)) u) \<inter> unlinked ((as(t := a)) v) = {}" if "u \<noteq> v" for u v
  proof -
    have "unlinked a \<inter> unlinked (as w) = {}" if "w \<noteq> t" for w
      using D(4)[of t w] g(8) pending_in[of as w] that by blast
    then show ?thesis using D(4)[OF that] that by (cases "u = t"; cases "v = t") auto
  qed
  have "dict_inv m' (as(t := a)) (ch_map (linked m' (?P - unlinked (as t) \<union> unlinked a)) c',
      st(t := st')) c'"
    unfolding dict_inv_def P' using g(4,6,7,9) bk pend other disj by simp
  then show ?thesis using g(1,2,5,9,10,11,13) D(2) by auto
qed

subsection \<open>Data and locks\<close>

definition cm_inv :: "u32 \<Rightarrow> 'v cmap \<Rightarrow> (u64 \<rightharpoonup> 'v, 'v map_call, 'v answer) spec \<Rightarrow> (nat \<Rightarrow> nat list) \<Rightarrow> bool" where
  "cm_inv num s q c \<longleftrightarrow>
     0 < unat num \<and> unat num < 2 ^ 31 \<and>
     al_inv num (cm_locks s) \<and> cm_num s = num \<and> bucket_num (cm_dict s) = num \<and>
     (\<forall>t. lock_ok (pos_of num (act_key (acts s t))) (acts s t) (pcs (cm_locks s) t)) \<and>
     dict_inv (cm_dict s) (acts s) q c"

lemma cm_invD:
  assumes "cm_inv num s q c"
  shows "al_inv num (cm_locks s)" "cm_num s = num" "bucket_num (cm_dict s) = num"
    "lock_ok (pos_of num (act_key (acts s t))) (acts s t) (pcs (cm_locks s) t)"
    "dict_inv (cm_dict s) (acts s) q c" "0 < unat num" "unat num < 2 ^ 31"
  using assms by (auto simp: cm_inv_def)

lemma pos_of_facts:
  assumes "0 < unat num" and "unat num < 2 ^ 31" and "cm_num s = num"
  shows "bucket_pos (pm_of s) k = Ok (pos_of num k)" "pos_of num k < num"
    "unat (pos_of num k) = unat k mod unat num"
proof -
  obtain pos where pos: "bucket_pos (pm_of s) k = Ok pos" "pos < num"
    "unat pos = unat k mod unat num"
    using bucket_pos_ok[of "pm_of s" k] assms by (auto simp: pm_of_def)
  moreover have "pos = pos_of num k"
    using pos(1) assms(3) by (auto simp: bucket_pos_def pos_of_def pm_of_def split: if_splits)
  ultimately show "bucket_pos (pm_of s) k = Ok (pos_of num k)" "pos_of num k < num"
    "unat (pos_of num k) = unat k mod unat num"
    by simp_all
qed

lemma inside_critical: "inside a \<Longrightarrow> lock_ok p a pc \<longleftrightarrow> pc = Critical p"
  by (cases a) simp_all

lemma leaving_lock: "leaving a \<Longrightarrow> lock_ok p a (Critical p)"
  by (cases a) simp_all

text \<open>Two threads inside the lock at once are in different buckets.\<close>

lemma inside_apart:
  assumes inv: "cm_inv num s q c" and "inside (acts s t)" "inside (acts s u)" and "u \<noteq> t"
  shows "bucket_of (cm_dict s) (act_key (acts s u)) \<noteq> bucket_of (cm_dict s) (act_key (acts s t))"
proof
  note I = cm_invD[OF inv]
  assume "bucket_of (cm_dict s) (act_key (acts s u)) = bucket_of (cm_dict s) (act_key (acts s t))"
  then have "unat (pos_of num (act_key (acts s u))) = unat (pos_of num (act_key (acts s t)))"
    using pos_of_facts(3)[OF I(6,7,2)] I(3) by (simp add: bucket_of_def)
  then have "pos_of num (act_key (acts s u)) = pos_of num (act_key (acts s t))"
    by (simp add: word_unat_eq_iff)
  moreover have "pcs (cm_locks s) v = Critical (pos_of num (act_key (acts s v)))"
    if "inside (acts s v)" for v
    using I(4)[of v] inside_critical[OF that] by simp
  ultimately show False
    using al_invD(4)[OF I(1), of u "pos_of num (act_key (acts s t))" t] assms(2-4) by simp
qed

text \<open>
  A thread's own step: the locks take a step of that thread or stay, and the data stay
  well formed.
\<close>

lemma cm_inv_upd:
  assumes inv: "cm_inv num s q c" and l: "al_inv num l" "\<And>u. u \<noteq> t \<Longrightarrow> pcs l u = pcs (cm_locks s) u"
    and s': "cm_locks s' = l" "cm_num s' = cm_num s" "bucket_num (cm_dict s') = bucket_num (cm_dict s)"
      "acts s' = (acts s)(t := a)"
    and lk: "lock_ok (pos_of num (act_key a)) a (pcs l t)"
    and d: "dict_inv (cm_dict s') ((acts s)(t := a)) q' c'"
  shows "cm_inv num s' q' c'"
proof -
  have "lock_ok (pos_of num (act_key (acts s' u))) (acts s' u) (pcs (cm_locks s') u)" for u
    using lk l(2)[of u] cm_invD(4)[OF inv, of u] s' by (cases "u = t") simp_all
  then show ?thesis using inv l(1) s' d unfolding cm_inv_def by auto
qed

text \<open>
  What a step does to a thread inside its lock: nothing, or the thread itself makes one of the
  moves it has left.
\<close>

definition advances :: "'v cmap \<Rightarrow> (nat \<Rightarrow> nat list) \<Rightarrow> 'v cmap \<Rightarrow> (nat \<Rightarrow> nat list) \<Rightarrow> nat \<Rightarrow> bool"
where
  "advances s c s' c' u \<longleftrightarrow>
     (let b = bucket_of (cm_dict s) (act_key (acts s u))
      in (acts s' u = acts s u \<and> c' b = c b) \<or>
         (act_key (acts s' u) = act_key (acts s u) \<and> rank (c' b) (acts s' u) < rank (c b) (acts s u)))"

lemma cm_step_move:
  assumes inv: "cm_inv num s (f, st) c" and mv: "act_move (cm_dict s) mem (acts s t) = Some res"
  shows "\<exists>m a r q' c'. res = Ok (m, a, r) \<and> spec_run map_effect (f, st) (effect_of t r) = Some q' \<and>
     cm_inv num ((become s t a)\<lparr>cm_dict := m\<rparr>) q' c' \<and>
     (\<forall>u. inside (acts s u) \<longrightarrow> advances s c ((become s t a)\<lparr>cm_dict := m\<rparr>) c' u)"
proof -
  note I = cm_invD[OF inv]
  have ins: "inside (acts s t)" using mv by (cases "acts s t") simp_all
  obtain m a r f' st' c' where g: "res = Ok (m, a, r)" "bucket_num m = bucket_num (cm_dict s)"
    "dict_inv m ((acts s)(t := a)) (f', st(t := st')) c'" "takes map_effect f (st t) r f' st'"
    "act_key a = act_key (acts s t)" "inside a \<or> leaving a"
    "rank (c' (bucket_of (cm_dict s) (act_key (acts s t)))) a
      < rank (c (bucket_of (cm_dict s) (act_key (acts s t)))) (acts s t)"
    "\<forall>i. i \<noteq> bucket_of (cm_dict s) (act_key (acts s t)) \<longrightarrow> c' i = c i"
    using dict_inv_move[OF I(5) mv] inside_apart[OF inv ins] by blast
  let ?s' = "(become s t a)\<lparr>cm_dict := m\<rparr>"
  have "lock_ok (pos_of num (act_key a)) a (pcs (cm_locks s) t)"
    using I(4)[of t] ins g(5,6) inside_critical leaving_lock by metis
  then have "cm_inv num ?s' (f', st(t := st')) c'"
    using g(2,3) by (intro cm_inv_upd[OF inv I(1), where t = t and a = a and c' = c']) simp_all
  moreover have "spec_run map_effect (f, st) (effect_of t r) = Some (f', st(t := st'))"
    using takes_run[of map_effect f st t r] g(4) by blast
  moreover have "advances s c ?s' c' u" if "inside (acts s u)" for u
    using g(5,7,8) inside_apart[OF inv ins that] by (cases "u = t") (simp_all add: advances_def)
  ultimately show ?thesis using g(1) by blast
qed

lemma dict_inv_act:
  assumes "cm_inv num s (f, st) c" and "unlinked (acts s t) = {}" "unlinked a = {}"
    and "\<And>kf xs. act_ok kf xs a st'"
  shows "dict_inv (cm_dict s) ((acts s)(t := a)) (f, st(t := st')) c"
  using dict_inv_become[of _ "acts s", OF cm_invD(5)[OF assms(1)] assms(2,3)] assms(4) by blast

lemma begin_act_facts:
  "act_key (begin_act c) = call_key c" "inside (begin_act c)" "unlinked (begin_act c) = {}"
  "act_ok kf xs (begin_act c) (Pending c)" "lock_ok p (begin_act c) (Critical p)"
  by (cases c; simp)+

text \<open>Steps of a thread that is not inside its lock leave the table and the others alone.\<close>

lemma cm_step_outside:
  assumes inv: "cm_inv num s (f, st) c" and t: "\<not> inside (acts s t)"
    and l: "al_inv num l" "\<And>u. u \<noteq> t \<Longrightarrow> pcs l u = pcs (cm_locks s) u"
    and s': "cm_locks s' = l" "cm_num s' = cm_num s" "cm_dict s' = cm_dict s"
      "acts s' = (acts s)(t := a)"
    and lk: "lock_ok (pos_of num (act_key a)) a (pcs l t)"
    and a: "unlinked (acts s t) = {}" "unlinked a = {}" "\<And>kf xs. act_ok kf xs a st'"
    and run: "spec_run map_effect (f, st) es = Some (f, st(t := st'))"
  shows "\<exists>q' c'. spec_run map_effect (f, st) es = Some q' \<and> cm_inv num s' q' c' \<and>
     (\<forall>u. inside (acts s u) \<longrightarrow> advances s c s' c' u)"
proof -
  have "cm_inv num s' (f, st(t := st')) c"
    using dict_inv_act[OF inv a] s'(3)
    by (intro cm_inv_upd[OF inv l s'(1,2) _ s'(4) lk]) simp_all
  moreover have "advances s c s' c u" if "inside (acts s u)" for u
    using that t s'(4) by (cases "u = t") (simp_all add: advances_def)
  ultimately show ?thesis using run by blast
qed

lemma outside_pending: "\<not> inside a \<Longrightarrow> unlinked a = {}"
  by (cases a) simp_all

lemma cm_step_inv:
  assumes "cm_step s es s'" and "cm_inv num s (f, st) c"
  shows "\<exists>q' c'. spec_run map_effect (f, st) es = Some q' \<and> cm_inv num s' q' c' \<and>
     (\<forall>u. inside (acts s u) \<longrightarrow> advances s c s' c' u)"
  using assms
proof (induction rule: cm_step.induct)
  case (cm_call s t cl pos)
  note inv = \<open>cm_inv num s (f, st) c\<close>
  note I = cm_invD[OF inv]
  have pos: "pos = pos_of num (call_key cl)" using pos_of_facts(1)[OF I(6,7,2)] cm_call(2) by simp
  have "st t = Ready" using dict_invD(5)[OF I(5), of t] cm_call(1) by simp
  moreover have pc: "pcs (cm_locks s) t = Outside" using I(4)[of t] cm_call(1) by simp
  ultimately show ?case
    using cm_call(1) pos al_step_inv[OF call_lock[OF pc] I(1)]
    by (intro cm_step_outside[OF inv, where t = t and a = "Locking cl" and st' = "Pending cl"
          and l = "goto (cm_locks s) t (Spin pos)"]) simp_all
next
  case (cm_call_fault s t cl f')
  then show ?case using pos_of_facts(1)[OF cm_invD(6,7,2)] by fastforce
next
  case (cm_lock s t cl l)
  note inv = \<open>cm_inv num s (f, st) c\<close>
  note I = cm_invD[OF inv]
  let ?p = "pos_of num (call_key cl)"
  have lk: "locking ?p (pcs (cm_locks s) t)" using I(4)[of t] cm_lock(1) by simp
  have "locking ?p (pcs l t)"
    using al_step_locking[OF cm_lock(3) I(1) pos_of_facts(2)[OF I(6,7,2)] lk] cm_lock(2) by simp
  moreover have "st t = Pending cl" using dict_invD(5)[OF I(5), of t] cm_lock(1) by simp
  ultimately show ?case
    using cm_lock(1) al_step_other[OF cm_lock(3)] al_step_inv[OF cm_lock(3) I(1)]
      fun_upd_triv[of "acts s" t] fun_upd_triv[of st t]
    by (intro cm_step_outside[OF inv, where t = t and a = "Locking cl" and st' = "Pending cl"
          and l = l]) simp_all
next
  case (cm_locked s t cl pos)
  note inv = \<open>cm_inv num s (f, st) c\<close>
  note I = cm_invD[OF inv]
  have "st t = Pending cl" using dict_invD(5)[OF I(5), of t] cm_locked(1) by simp
  moreover have "pcs (cm_locks s) t = Critical (pos_of num (call_key cl))"
    using I(4)[of t] cm_locked by simp
  ultimately show ?case
    using cm_locked(1) I(1) begin_act_facts(1)[of cl] begin_act_facts(3-5) fun_upd_triv[of st t]
    by (intro cm_step_outside[OF inv, where t = t and a = "begin_act cl" and st' = "Pending cl"
          and l = "cm_locks s"]) simp_all
next
  case (cm_move s mem t m a r)
  then show ?case using cm_step_move by fastforce
next
  case (cm_move_fault s mem t f')
  then show ?case using cm_step_move by fastforce
next
  case (cm_unlock s t cl r l)
  note inv = \<open>cm_inv num s (f, st) c\<close>
  note I = cm_invD[OF inv]
  let ?p = "pos_of num (call_key cl)"
  have lk: "unlocking ?p (pcs (cm_locks s) t)" using I(4)[of t] cm_unlock(1) by simp
  have "unlocking ?p (pcs l t)"
    using al_step_unlocking[OF cm_unlock(3) I(1) pos_of_facts(2)[OF I(6,7,2)] lk cm_unlock(2)] .
  moreover have "st t = Answered r" using dict_invD(5)[OF I(5), of t] cm_unlock(1) by simp
  ultimately show ?case
    using cm_unlock(1) al_step_other[OF cm_unlock(3)] al_step_inv[OF cm_unlock(3) I(1)]
      fun_upd_triv[of "acts s" t] fun_upd_triv[of st t]
    by (intro cm_step_outside[OF inv, where t = t and a = "Unlocking cl r" and st' = "Answered r"
          and l = l]) simp_all
next
  case (cm_return s t cl r pos)
  note inv = \<open>cm_inv num s (f, st) c\<close>
  note I = cm_invD[OF inv]
  have "st t = Answered r" using dict_invD(5)[OF I(5), of t] cm_return(1) by simp
  moreover have "pcs (cm_locks s) t = Outside" using I(4)[of t] cm_return by auto
  ultimately show ?case
    using cm_return(1) I(1) by (intro cm_step_outside[OF inv, where t = t and a = Idle and st' = Ready
          and l = "cm_locks s"]) simp_all
next
  case (cm_crash s t)
  then have "lock_ok (pos_of num (act_key (acts s t))) (acts s t) Crashed"
    using cm_invD(4)[of num s "(f, st)" c t] by simp
  then show ?case by (cases "acts s t") simp_all
qed

lemma pendings_none: "(\<And>t. unlinked (as t) = {}) \<Longrightarrow> pendings as = {}"
  by (simp add: pendings_def)

lemma linked_all: "linked m {} = m"
  by (cases m) (simp add: linked_def restrict_map_def)

lemma cm_inv_init:
  assumes "0 < unat num" and "unat num < 2 ^ 31"
  shows "cm_inv num (cm_init num) (Map.empty, \<lambda>_. Ready) (\<lambda>_. [])"
proof -
  have "ch_rep (fst (ch_create (ch_empty :: 'a chash) True num)) (\<lambda>_. [])"
    using assms by (intro ch_create_rep) (simp_all add: ch_empty_def)
  then have "dict_inv (cm_dict (cm_init num :: 'a cmap)) (\<lambda>_. Idle) (Map.empty, \<lambda>_. Ready) (\<lambda>_. [])"
    by (simp add: dict_inv_def cm_init_def pendings_none linked_all ch_map_def fun_eq_iff)
  then show ?thesis
    using assms al_inv_init[of num]
    by (auto simp: cm_inv_def cm_init_def ch_create_def Let_def) (simp add: al_init_def)
qed

text \<open>When every call has returned, the map is again what it is for a single thread.\<close>

lemma cm_inv_idle:
  assumes inv: "cm_inv num s (f, st) c" and idle: "\<And>t. acts s t = Idle"
  shows "pm_rel (pm_of s) f"
proof -
  note I = cm_invD[OF inv]
  have "pendings (acts s) = {}" using idle by (simp add: pendings_none)
  then have "ch_rel num (cm_dict s) f"
    using dict_invD(1,2)[OF I(5)] I(3,6,7) by (auto simp: ch_rel_def linked_all)
  moreover have "\<not> bits_of (shared (cm_locks s)) p" if "p < unat num" for p
  proof -
    have p: "p < 2 ^ 32" using that I(7) by simp
    have "pcs (cm_locks s) t = Outside" for t using I(4)[of t] idle by simp
    then have "\<not> bits_of (shared (cm_locks s)) (unat q)" if "q < num" for q
      using al_invD(5)[OF I(1) that] by simp
    moreover have "unat (of_nat p :: u32) = p"
      using that p by (simp add: unat_of_nat take_bit_nat_eq_self)
    ultimately show ?thesis using that by (metis word_less_nat_alt)
  qed
  ultimately show ?thesis
    using I(2,6,7) al_invD(1,2)[OF I(1)] by (simp add: pm_rel_def pm_of_def)
qed

section \<open>The map is linearizable\<close>

lemma cm_not_dead: "cm_inv num s q c \<Longrightarrow> acts s t \<noteq> Dead e"
  using cm_invD(4)[of num s q c t] by auto

interpretation cm: linearizable cm_step "\<lambda>s q. \<exists>c. cm_inv num s q c" map_effect
    "\<lambda>s. \<exists>t e. acts s t = Dead e" "\<lambda>s. \<forall>t. acts s t = Idle" "\<lambda>s f. pm_rel (pm_of s) f"
  for num :: u32
proof
  show "\<exists>q'. spec_run map_effect q es = Some q' \<and> (\<exists>c. cm_inv num s' q' c)"
    if "cm_step s es s'" "\<exists>c. cm_inv num s q c" for s es s' and q :: "(u64 \<rightharpoonup> 'a, 'a map_call, 'a answer) spec"
    using that cm_step_inv by (cases q) blast
  show "\<not> (\<exists>t e. acts s t = Dead e)"
    if "\<exists>c. cm_inv num s q c" for s and q :: "(u64 \<rightharpoonup> 'a, 'a map_call, 'a answer) spec"
    using that cm_not_dead by blast
  show "pm_rel (pm_of s) f"
    if "\<exists>c. cm_inv num s (f, st) c" "\<forall>t. acts s t = Idle" for s and f :: "u64 \<rightharpoonup> 'a" and st
    using that cm_inv_idle by blast
qed

lemma cm_run_inv:
  assumes "cm_run num tr s" and "0 < unat num" and "unat num < 2 ^ 31"
  shows "\<exists>q c. spec_run map_effect (Map.empty, \<lambda>_. Ready) tr = Some q \<and> cm_inv num s q c"
  using cm.run_good[OF assms(1)] cm_inv_init[OF assms(2,3)] by blast

text \<open>
  C2. Threads that insert and find concurrently, interleaved at every access to the bits, the
  table and the entries, behave as one atomic map: every call takes effect exactly once,
  between its call and its return, with the answer the plain map gives there; a find never
  follows a dead or half-linked entry and no thread faults. When all calls have returned the
  locks are free and the table holds that map's content.
\<close>

theorem pchain_map_linearizable:
  assumes "cm_run num tr s" and "0 < unat num" and "unat num < 2 ^ 31"
  shows "\<exists>f st. spec_run map_effect (Map.empty, \<lambda>_. Ready) tr = Some (f, st) \<and>
     (\<forall>t e. acts s t \<noteq> Dead e) \<and> ((\<forall>t. acts s t = Idle) \<longrightarrow> pm_rel (pm_of s) f)"
  using cm.run_linearizable[OF assms(1)] cm_inv_init[OF assms(2,3)] by blast

text \<open>Runs of one thread while the others stand still.\<close>

lemma cm_run_locks:
  "al_locks t l l' \<Longrightarrow> acts s t = Locking c \<Longrightarrow> cm_run num tr (s\<lparr>cm_locks := l\<rparr>) \<Longrightarrow>
     cm_run num tr (s\<lparr>cm_locks := l'\<rparr>)"
proof (induction rule: al_locks.induct)
  case (al_locks_step l l' l'')
  then have "cm_run num (tr @ []) ((s\<lparr>cm_locks := l'\<rparr>)\<lparr>cm_locks := l''\<rparr>)"
    by (intro cm_run_step[OF _ cm_lock[where t = t and c = c]]) simp_all
  then show ?case by simp
qed simp

lemma cm_run_enter:
  assumes run: "cm_run num tr s" and num: "0 < unat num" "unat num < 2 ^ 31"
    and idle: "acts s t = Idle"
    and free: "\<not> bits_of (shared (cm_locks s)) (unat (pos_of num (call_key c)))"
  shows "\<exists>l. cm_run num (tr @ [Called t c]) (become (s\<lparr>cm_locks := l\<rparr>) t (begin_act c))"
proof -
  let ?p = "pos_of num (call_key c)"
  let ?l = "goto (cm_locks s) t (Spin ?p)"
  let ?s1 = "(become s t (Locking c))\<lparr>cm_locks := ?l\<rparr>"
  obtain q d where inv: "cm_inv num s q d" using cm_run_inv[OF run num] by blast
  note I = cm_invD[OF inv]
  note pos = pos_of_facts[OF num I(2), of "call_key c"]
  have run1: "cm_run num (tr @ [Called t c]) ?s1"
    using cm_run_step[OF run cm_call[OF idle pos(1)]] .
  have "pcs (cm_locks s) t = Outside" using I(4)[of t] idle by simp
  then have inv1: "al_inv num ?l" using al_step_inv[OF call_lock I(1)] by blast
  obtain ba' where "al_locks t ?l \<lparr>shared = ba', pcs = (pcs ?l)(t := Critical ?p)\<rparr>"
    using al_solo_locks[OF inv1, of t ?p] pos(2) free by auto
  then have run2: "cm_run num (tr @ [Called t c])
      ((become s t (Locking c))\<lparr>cm_locks := \<lparr>shared = ba', pcs = (pcs ?l)(t := Critical ?p)\<rparr>\<rparr>)"
    by (rule cm_run_locks[where s = "become s t (Locking c)" and c = c]) (use run1 in simp_all)
  have "cm_run num ((tr @ [Called t c]) @ []) (become ((become s t (Locking c))\<lparr>cm_locks :=
      \<lparr>shared = ba', pcs = (pcs ?l)(t := Critical ?p)\<rparr>\<rparr>) t (begin_act c))"
    by (rule cm_run_step[OF run2 cm_locked[of _ t c ?p]]) simp_all
  then show ?thesis by (auto intro!: exI[of _ "\<lparr>shared = ba', pcs = (pcs ?l)(t := Critical ?p)\<rparr>"])
qed

text \<open>
  A first insert into a map of two buckets, alone inside its lock up to the write into the
  table: the run that the properties below are tried on.
\<close>

definition demo :: "al_sys \<Rightarrow> insert_pc \<Rightarrow> nat chash \<Rightarrow> nat cmap" where
  "demo l p d =
     \<lparr>cm_locks = l, cm_dict = d, cm_num = 2, acts = (\<lambda>t. if t = 0 then Inserting 7 70 p else Idle)\<rparr>"

definition demo_dict :: "(nat \<rightharpoonup> nat entry) \<Rightarrow> nat \<Rightarrow> ptr \<Rightarrow> nat chash" where
  "demo_dict h n p = \<lparr>heap = h, fresh = n, table = Some [None, p], bucket_num = 2\<rparr>"

abbreviation demo_heap :: "nat \<rightharpoonup> nat entry" where
  "demo_heap \<equiv> [0 \<mapsto> \<lparr>key = 7, val = 70, nxt = None\<rparr>]"

lemma demo_moves:
  "act_move (demo_dict Map.empty 0 None) True (Inserting 7 70 I_Test) =
     Some (Ok (demo_dict Map.empty 0 None, Inserting 7 70 (I_New In_Table), None))"
  "act_move (demo_dict Map.empty 0 None) True (Inserting 7 70 (I_New In_Table)) =
     Some (Ok (demo_dict demo_heap 1 None, Inserting 7 70 (I_Link In_Table (Some 0)), None))"
  "act_move (demo_dict demo_heap 1 None) True (Inserting 7 70 (I_Link In_Table (Some 0))) =
     Some (Ok (demo_dict demo_heap 1 (Some 0), Inserting 7 70 I_Check, Some (Inserted True)))"
proof -
  have h: "hash_of (demo_dict h n p) 7 = Ok 1" for h n p by (simp add: demo_dict_def hash_of_def)
  have "table_rd (demo_dict h n p) 1 = Ok p" for h n p by (simp add: demo_dict_def table_rd_def)
  with h show "act_move (demo_dict Map.empty 0 None) True (Inserting 7 70 I_Test) =
     Some (Ok (demo_dict Map.empty 0 None, Inserting 7 70 (I_New In_Table), None))"
    by (simp add: at_slot_def)
  show "act_move (demo_dict Map.empty 0 None) True (Inserting 7 70 (I_New In_Table)) =
     Some (Ok (demo_dict demo_heap 1 None, Inserting 7 70 (I_Link In_Table (Some 0)), None))"
    by (simp add: demo_dict_def new_entry_def)
  show "act_move (demo_dict demo_heap 1 None) True (Inserting 7 70 (I_Link In_Table (Some 0))) =
     Some (Ok (demo_dict demo_heap 1 (Some 0), Inserting 7 70 I_Check, Some (Inserted True)))"
    by (simp add: h) (simp add: demo_dict_def table_wr_def)
qed

lemma demo_fields: "acts (demo l p d) 0 = Inserting 7 70 p" "cm_dict (demo l p d) = d"
  by (simp_all add: demo_def)

lemma demo_steps:
  "cm_step (demo l I_Test (demo_dict Map.empty 0 None)) []
     (demo l (I_New In_Table) (demo_dict Map.empty 0 None))"
  "cm_step (demo l (I_New In_Table) (demo_dict Map.empty 0 None)) []
     (demo l (I_Link In_Table (Some 0)) (demo_dict demo_heap 1 None))"
  "cm_step (demo l (I_Link In_Table (Some 0)) (demo_dict demo_heap 1 None)) [Effect 0 (Inserted True)]
     (demo l I_Check (demo_dict demo_heap 1 (Some 0)))"
proof -
  have S: "cm_step (demo l p d) (effect_of 0 r) (demo l p' d')"
    if "act_move d True (Inserting 7 70 p) = Some (Ok (d', Inserting 7 70 p', r))" for p d r p' d'
  proof -
    have "(become (demo l p d) 0 (Inserting 7 70 p'))\<lparr>cm_dict := d'\<rparr> = demo l p' d'"
      by (auto simp: demo_def)
    then show ?thesis
      using cm_move[of "demo l p d" True 0 d' "Inserting 7 70 p'" r] that
      by (simp only: demo_fields)
  qed
  show "cm_step (demo l I_Test (demo_dict Map.empty 0 None)) []
     (demo l (I_New In_Table) (demo_dict Map.empty 0 None))"
    using S[OF demo_moves(1)] by simp
  show "cm_step (demo l (I_New In_Table) (demo_dict Map.empty 0 None)) []
     (demo l (I_Link In_Table (Some 0)) (demo_dict demo_heap 1 None))"
    using S[OF demo_moves(2)] by simp
  show "cm_step (demo l (I_Link In_Table (Some 0)) (demo_dict demo_heap 1 None))
     [Effect 0 (Inserted True)] (demo l I_Check (demo_dict demo_heap 1 (Some 0)))"
    using S[OF demo_moves(3)] by simp
qed

lemma demo_run:
  "\<exists>l. cm_run 2 [Called 0 (Insert_Call 7 70)] (demo l I_Test (demo_dict Map.empty 0 None))"
proof -
  let ?c = "Insert_Call 7 (70 :: nat)"
  let ?i = "cm_init 2 :: nat cmap"
  have "pos_of 2 (call_key ?c) = 1" by (simp add: pos_of_def)
  then have "\<not> bits_of (shared (cm_locks ?i)) (unat (pos_of 2 (call_key ?c)))"
    by (simp add: cm_init_def al_init_def al_create_def ba_create_clear)
  then obtain l where "cm_run 2 ([] @ [Called 0 ?c]) (become (?i\<lparr>cm_locks := l\<rparr>) 0 (begin_act ?c))"
    using cm_run_enter[OF cm_run_init, of 2 0 ?c] by (auto simp: cm_init_def)
  moreover have "fst (ch_create ch_empty True 2) = demo_dict Map.empty 0 None"
    by (simp add: demo_dict_def ch_create_def ch_empty_def Let_def) (simp add: eval_nat_numeral)
  then have "become (?i\<lparr>cm_locks := l\<rparr>) 0 (begin_act ?c)
      = demo l I_Test (demo_dict Map.empty 0 None)"
    by (auto simp: demo_def cm_init_def)
  ultimately show ?thesis by auto
qed

theorem pchain_map_linearizable_witness:
  "\<exists>s f st. cm_run 2 [Called 0 (Insert_Call 7 (70 :: nat)), Effect 0 (Inserted True)] s \<and>
     spec_run map_effect (Map.empty, \<lambda>_. Ready) [Called 0 (Insert_Call 7 (70 :: nat)), Effect 0 (Inserted True)]
       = Some (f, st) \<and> f 7 = Some 70 \<and> (\<forall>t e. acts s t \<noteq> Dead e)"
proof -
  let ?tr = "[Called 0 (Insert_Call 7 (70 :: nat)), Effect 0 (Inserted True)]"
  obtain l where "cm_run 2 [Called 0 (Insert_Call 7 70)] (demo l I_Test (demo_dict Map.empty 0 None))"
    using demo_run by blast
  from cm_run_step[OF cm_run_step[OF cm_run_step[OF this demo_steps(1)] demo_steps(2)] demo_steps(3)]
  have run: "cm_run 2 ?tr (demo l I_Check (demo_dict demo_heap 1 (Some 0)))" by simp
  then obtain f st where f: "spec_run map_effect (Map.empty, \<lambda>_. Ready) ?tr = Some (f, st)"
    "\<forall>t e. acts (demo l I_Check (demo_dict demo_heap 1 (Some 0))) t \<noteq> Dead e"
    using pchain_map_linearizable[OF run] by auto
  moreover from f(1) have "f 7 = Some 70" by auto
  ultimately show ?thesis using run by blast
qed

section \<open>No bucket stays locked\<close>

text \<open>
  \<open>cm_busy t s n s'\<close>: from \<open>s\<close> to \<open>s'\<close> thread \<open>t\<close> is inside its lock all the time and
  has changed its place there \<open>n\<close> times, while the other threads did whatever they do.
\<close>

inductive cm_busy :: "nat \<Rightarrow> 'v cmap \<Rightarrow> nat \<Rightarrow> 'v cmap \<Rightarrow> bool" for t s where
  cm_busy_here: "inside (acts s t) \<Longrightarrow> cm_busy t s 0 s"
| cm_busy_step: "cm_busy t s n s' \<Longrightarrow> cm_step s' es s'' \<Longrightarrow> inside (acts s'' t) \<Longrightarrow>
    cm_busy t s (if acts s'' t = acts s' t then n else Suc n) s''"

text \<open>The keys that are in the map and share the bucket of \<open>k\<close>.\<close>

definition bucket_keys :: "u32 \<Rightarrow> (u64 \<rightharpoonup> 'v) \<Rightarrow> u64 \<Rightarrow> u64 set" where
  "bucket_keys num f k = {k' \<in> dom f. pos_of num k' = pos_of num k}"

lemma ch_rep_find_key:
  assumes "ch_rep m c" and "bucket_of m k = b"
  shows "ch_map m c k \<noteq> None \<longleftrightarrow> k \<in> key_at (heap m) ` set (c b)"
  using assms(2) by (auto simp: ch_map_def find_None_iff)

lemma bucket_keys_length:
  assumes inv: "cm_inv num s (f, st) c"
  shows "length (c (bucket_of (cm_dict s) k)) = card (bucket_keys num f k)"
proof -
  note I = cm_invD[OF inv]
  note D = dict_invD[OF I(5)]
  let ?b = "bucket_of (cm_dict s) k"
  let ?kf = "key_at (heap (linked (cm_dict s) (pendings (acts s))))"
  have b: "?b < unat (bucket_num (cm_dict s))" using bucket_of_lt[of "cm_dict s" k] I(3,6) by simp
  have eq: "pos_of num k' = pos_of num k \<longleftrightarrow> bucket_of (cm_dict s) k' = ?b" for k'
    using pos_of_facts(3)[OF I(6,7,2)] I(3) by (simp add: word_unat_eq_iff bucket_of_def)
  have "k' \<in> bucket_keys num f k \<longleftrightarrow> k' \<in> ?kf ` set (c ?b)" for k'
  proof (cases "bucket_of (cm_dict s) k' = ?b")
    case True
    then show ?thesis
      using ch_rep_find_key[OF D(1), of k' ?b] D(2) eq[of k'] unfolding bucket_keys_def by auto
  next
    case False
    then show ?thesis
      using ch_repD(4)[OF D(1), of ?b] b eq[of k'] unfolding bucket_keys_def by auto
  qed
  then have "bucket_keys num f k = set (map ?kf (c ?b))" by auto
  moreover have "distinct (map ?kf (c ?b))" using ch_repD(5)[OF D(1), of ?b] b by simp
  ultimately show ?thesis using distinct_card[of "map ?kf (c ?b)"] by simp
qed

lemma rank_bound: "rank xs a \<le> 3 * length xs + 5"
proof -
  have r: "rest xs x \<le> length xs" for x unfolding rest_def by (rule length_dropWhile_le)
  show ?thesis
  proof (cases a)
    case (Finding k p)
    then show ?thesis
      using r[of "case p of F_Key x \<Rightarrow> x | F_Next x \<Rightarrow> x | _ \<Rightarrow> 0"] by (cases p) simp_all
  next
    case (Inserting k v p)
    then show ?thesis
      using r[of "case p of I_Key x \<Rightarrow> x | I_Last x \<Rightarrow> x | I_Next x \<Rightarrow> x | _ \<Rightarrow> 0"]
      by (cases p) simp_all
  qed simp_all
qed

lemma cm_busy_rank:
  assumes "cm_busy t s n s'" and "cm_inv num s (f, st) c"
  shows "\<exists>q' c'. cm_inv num s' q' c' \<and> inside (acts s' t) \<and> act_key (acts s' t) = act_key (acts s t) \<and>
     n + rank (c' (bucket_of (cm_dict s') (act_key (acts s t)))) (acts s' t)
       \<le> rank (c (bucket_of (cm_dict s) (act_key (acts s t)))) (acts s t)"
  using assms
proof (induction rule: cm_busy.induct)
  case cm_busy_here
  then show ?case by (intro exI[of _ "(f, st)"] exI[of _ c]) simp
next
  case (cm_busy_step n s' es s'')
  let ?k = "act_key (acts s t)"
  obtain q' c' where I: "cm_inv num s' q' c'" "inside (acts s' t)" "act_key (acts s' t) = ?k"
    "n + rank (c' (bucket_of (cm_dict s') ?k)) (acts s' t)
      \<le> rank (c (bucket_of (cm_dict s) ?k)) (acts s t)"
    using cm_busy_step by blast
  obtain f' st' where q': "q' = (f', st')" by (cases q')
  obtain q'' c'' where J: "cm_inv num s'' q'' c''" "advances s' c' s'' c'' t"
    using cm_step_inv[OF cm_busy_step(2) I(1)[unfolded q']] I(2) by blast
  have bk: "bucket_of (cm_dict s'') = bucket_of (cm_dict s')"
    using cm_invD(3)[OF I(1)] cm_invD(3)[OF J(1)] by (simp add: bucket_of_def fun_eq_iff)
  show ?case
    using J I(3,4) cm_busy_step(3) bk unfolding advances_def Let_def
    by (cases "acts s'' t = acts s' t") (fastforce intro: exI[of _ q''] exI[of _ c''])+
qed



end
