(* ===== verification/Lifo.thy ===== *)
theory Lifo
  imports Selib_Prelude
begin

text \<open>
  \<^verbatim>\<open>util/lifo.h\<close> and \<^verbatim>\<open>util/lifo.hpp\<close>: \<^verbatim>\<open>Lifo\<close>, a stack of caller-owned nodes whose head and
  version tag are swapped together by \<^verbatim>\<open>cmpxchg8b\<close> (i386) or \<^verbatim>\<open>cmpxchg16b\<close> (x86-64).
  The width of the tag is the type parameter \<open>'w\<close>. First the functions as one thread runs
  them, with the stack interface that the resource stack uses; then any number of threads
  interleaving at every load, store and compare-and-swap, with the proof that their
  operations take effect in one order in which the object is a stack.
\<close>

section \<open>The object and its one atomic instruction\<close>

record 'tag lifo =
  lf_head :: ptr
  lf_sync :: 'tag

definition lf_create :: "'w :: len word lifo" where
  "lf_create = \<lparr>lf_head = None, lf_sync = 0\<rparr>"

text \<open>
  \<open>cmpxchg l old new\<close>: the new content, whether the swap was made, and the registers
  \<^verbatim>\<open>rax:rdx\<close> after it, which a failed swap loads with the current content.
\<close>

definition cmpxchg ::
  "'w :: len word lifo \<Rightarrow> ptr \<times> 'w word \<Rightarrow> ptr \<times> 'w word \<Rightarrow> 'w word lifo \<times> bool \<times> ptr \<times> 'w word" where
  "cmpxchg l old new =
     (if (lf_head l, lf_sync l) = old then (\<lparr>lf_head = fst new, lf_sync = snd new\<rparr>, True, old)
      else (l, False, lf_head l, lf_sync l))"

section \<open>The functions, run by one thread\<close>

text \<open>
  The links of all nodes are in \<open>nx\<close>; a node stays readable as long as its owner has not
  deleted it. The loop of \<^verbatim>\<open>push\<close> from its label \<^verbatim>\<open>0:\<close> on, with the registers \<^verbatim>\<open>rax\<close> and
  \<^verbatim>\<open>rdx\<close>.
\<close>

partial_function (option) push_loop ::
  "'w :: len word lifo \<Rightarrow> (nat \<rightharpoonup> ptr) \<Rightarrow> nat \<Rightarrow> ptr \<Rightarrow> 'w word \<Rightarrow>
   ('w word lifo \<times> (nat \<rightharpoonup> ptr)) result option" where
  "push_loop l nx node rax rdx =
     (case link_wr nx node rax of
        Inl e \<Rightarrow> Some (Inl e)
      | Inr nx' \<Rightarrow>
          (case cmpxchg l (rax, rdx) (Some node, rdx + 1) of
             (l', swapped, rax', rdx') \<Rightarrow>
               if swapped then Some (Inr (l', nx')) else push_loop l' nx' node rax' rdx'))"

declare push_loop.simps [code]

definition lf_push ::
  "'w :: len word lifo \<Rightarrow> (nat \<rightharpoonup> ptr) \<Rightarrow> nat \<Rightarrow> ('w word lifo \<times> (nat \<rightharpoonup> ptr)) result option" where
  "lf_push l nx node = push_loop l nx node (lf_head l) (lf_sync l)"

definition lf_try_push ::
  "'w :: len word lifo \<Rightarrow> (nat \<rightharpoonup> ptr) \<Rightarrow> nat \<Rightarrow> ('w word lifo \<times> (nat \<rightharpoonup> ptr) \<times> u32) result" where
  "lf_try_push l nx node =
     andthen (link_wr nx node (lf_head l)) (\<lambda>nx'.
       case cmpxchg l (lf_head l, lf_sync l) (Some node, lf_sync l + 1) of
         (l', swapped, _) \<Rightarrow> Ok (l', nx', if swapped then 1 else 0))"

text \<open>
  The loop of \<^verbatim>\<open>pop\<close> once the registers are loaded. A missed swap jumps to \<^verbatim>\<open>0:\<close>, which on
  x86-64 stands before the loads (\<open>reload\<close>) and on i386 behind them.
\<close>

partial_function (option) pop_loop ::
  "bool \<Rightarrow> 'w :: len word lifo \<Rightarrow> (nat \<rightharpoonup> ptr) \<Rightarrow> ptr \<Rightarrow> 'w word \<Rightarrow> ('w word lifo \<times> ptr) result option" where
  "pop_loop reload l nx rax rdx =
     (case rax of
        None \<Rightarrow> Some (Inr (l, None))
      | Some a \<Rightarrow>
          (case link_rd nx a of
             Inl e \<Rightarrow> Some (Inl e)
           | Inr rbx \<Rightarrow>
               (case cmpxchg l (rax, rdx) (rbx, rdx + 1) of
                  (l', swapped, rax', rdx') \<Rightarrow>
                    if swapped then Some (Inr (l', rax'))
                    else if reload then pop_loop reload l' nx (lf_head l') (lf_sync l')
                    else pop_loop reload l' nx rax' rdx')))"

declare pop_loop.simps [code]

definition lf_pop :: "bool \<Rightarrow> 'w :: len word lifo \<Rightarrow> (nat \<rightharpoonup> ptr) \<Rightarrow> ('w word lifo \<times> ptr) result option" where
  "lf_pop reload l nx = pop_loop reload l nx (lf_head l) (lf_sync l)"

text \<open>
  \<^verbatim>\<open>tryPop\<close> on x86-64 makes one attempt. The flag \<^verbatim>\<open>success\<close> is the register \<^verbatim>\<open>edi\<close> at the
  end; the empty stack leaves by \<^verbatim>\<open>jz 1f\<close> with \<^verbatim>\<open>rdi\<close> still holding \<^verbatim>\<open>this\<close>.
\<close>

definition lf_try_pop ::
  "u64 \<Rightarrow> 'w :: len word lifo \<Rightarrow> (nat \<rightharpoonup> ptr) \<Rightarrow> ('w word lifo \<times> ptr \<times> u32) result" where
  "lf_try_pop this l nx =
     (case lf_head l of
        None \<Rightarrow> Ok (l, None, ucast this)
      | Some a \<Rightarrow>
          andthen (link_rd nx a) (\<lambda>rbx.
            case cmpxchg l (lf_head l, lf_sync l) (rbx, lf_sync l + 1) of
              (l', swapped, rax', _) \<Rightarrow> Ok (l', rax', if swapped then 1 else 0)))"

text \<open>
  \<^verbatim>\<open>tryPop\<close> on i386: \<^verbatim>\<open>edi\<close> is the register as the compiler left it, which the empty stack returns
  as \<^verbatim>\<open>success\<close>.
\<close>

definition lf_try_pop_i386 ::
  "u32 \<Rightarrow> 'w :: len word lifo \<Rightarrow> (nat \<rightharpoonup> ptr) \<Rightarrow> ('w word lifo \<times> ptr \<times> u32) result" where
  "lf_try_pop_i386 edi l nx =
     (let eax = lf_head l; edx = lf_sync l
      in case eax of
           None \<Rightarrow> Ok (l, None, edi)
         | Some a \<Rightarrow>
             andthen (link_rd nx a) (\<lambda>ebx.
               case cmpxchg l (eax, edx) (ebx, edx + 1) of
                 (l', zf, eax', _) \<Rightarrow> Ok (l', eax', if zf then 1 else 0)))"

lemma lf_try_pop_cores: "lf_try_pop this l nx = lf_try_pop_i386 (ucast this) l nx"
  by (simp add: lf_try_pop_def lf_try_pop_i386_def Let_def)

section \<open>The interface: a stack of nodes\<close>

text \<open>
  \<open>holds l nx xs\<close>: the object \<open>l\<close> has the nodes \<open>xs\<close>, last pushed first. A push
  changes no link but the pushed node's, so several stacks can share the nodes' memory.
\<close>

locale node_stack =
  fixes holds :: "'l \<Rightarrow> (nat \<rightharpoonup> ptr) \<Rightarrow> nat list \<Rightarrow> bool"
    and push :: "'l \<Rightarrow> (nat \<rightharpoonup> ptr) \<Rightarrow> nat \<Rightarrow> ('l \<times> (nat \<rightharpoonup> ptr)) result option"
    and pop :: "'l \<Rightarrow> (nat \<rightharpoonup> ptr) \<Rightarrow> ('l \<times> ptr) result option"
  assumes push_ok: "holds l nx xs \<Longrightarrow> nx n \<noteq> None \<Longrightarrow> n \<notin> set xs \<Longrightarrow>
      \<exists>l' r. push l nx n = Some (Ok (l', nx(n \<mapsto> r))) \<and> holds l' (nx(n \<mapsto> r)) (n # xs)"
    and pop_empty: "holds l nx [] \<Longrightarrow> pop l nx = Some (Ok (l, None))"
    and pop_ok: "holds l nx (n # xs) \<Longrightarrow> \<exists>l'. pop l nx = Some (Ok (l', Some n)) \<and> holds l' nx xs"
    and holds_live: "holds l nx xs \<Longrightarrow> a \<in> set xs \<Longrightarrow> nx a \<noteq> None"
    and holds_distinct: "holds l nx xs \<Longrightarrow> distinct xs"
    and holds_frame: "holds l nx xs \<Longrightarrow> a \<notin> set xs \<Longrightarrow> holds l (nx(a := r)) xs"
begin

lemma push_pop:
  assumes "holds l nx xs" "nx n \<noteq> None" "n \<notin> set xs"
  shows "\<exists>l' nx' l''. push l nx n = Some (Ok (l', nx')) \<and> pop l' nx' = Some (Ok (l'', Some n)) \<and>
     holds l'' nx' xs"
  using push_ok[OF assms] pop_ok by blast

text \<open>Two stacks over one memory: moving the top node from the first to the second.\<close>

lemma move_top:
  assumes "holds k nx (n # xs)" and "holds l nx ys" and "n \<notin> set ys"
  shows "\<exists>k' l' nx'. pop k nx = Some (Ok (k', Some n)) \<and> push l nx n = Some (Ok (l', nx')) \<and>
     holds k' nx' xs \<and> holds l' nx' (n # ys) \<and> dom nx' = dom nx"
proof -
  obtain k' where k': "pop k nx = Some (Ok (k', Some n))" "holds k' nx xs"
    using pop_ok[OF assms(1)] by blast
  have n: "nx n \<noteq> None" "n \<notin> set xs"
    using holds_live[OF assms(1)] holds_distinct[OF assms(1)] by auto
  obtain l' r where "push l nx n = Some (Ok (l', nx(n \<mapsto> r)))" "holds l' (nx(n \<mapsto> r)) (n # ys)"
    using push_ok[OF assms(2) n(1) assms(3)] by blast
  moreover have "dom (nx(n \<mapsto> r)) = dom nx" using n(1) by auto
  ultimately show ?thesis using k'(1) holds_frame[OF k'(2) n(2)] by blast
qed

end

definition lf_holds :: "'w :: len word lifo \<Rightarrow> (nat \<rightharpoonup> ptr) \<Rightarrow> nat list \<Rightarrow> bool" where
  "lf_holds l nx xs \<longleftrightarrow> chain nx (lf_head l) xs"

lemma lf_push_alone:
  assumes "nx n \<noteq> None"
  shows "lf_push l nx n =
    Some (Ok (\<lparr>lf_head = Some n, lf_sync = lf_sync l + 1\<rparr>, nx(n \<mapsto> lf_head l)))"
  using assms by (auto simp: lf_push_def push_loop.simps[of l nx n] cmpxchg_def)

lemma lf_pop_alone:
  "lf_pop reload l nx =
     (case lf_head l of None \<Rightarrow> Some (Ok (l, None))
      | Some a \<Rightarrow> (case nx a of None \<Rightarrow> Some (Fault Use_After_Free)
          | Some r \<Rightarrow> Some (Ok (\<lparr>lf_head = r, lf_sync = lf_sync l + 1\<rparr>, Some a))))"
  by (simp add: lf_pop_def pop_loop.simps[of reload l nx] cmpxchg_def link_rd_def
      split: option.splits)

interpretation lf: node_stack lf_holds lf_push "lf_pop reload" for reload
proof
  fix l :: "'a :: len word lifo" and nx xs n
  assume "lf_holds l nx xs" "nx n \<noteq> None" "n \<notin> set xs"
  then show "\<exists>l' r. lf_push l nx n = Some (Ok (l', nx(n \<mapsto> r))) \<and>
      lf_holds l' (nx(n \<mapsto> r)) (n # xs)"
    by (auto simp: lf_push_alone lf_holds_def)
next
  fix l :: "'a :: len word lifo" and nx n xs
  assume "lf_holds l nx (n # xs)"
  then show "\<exists>l'. lf_pop reload l nx = Some (Ok (l', Some n)) \<and> lf_holds l' nx xs"
    by (auto simp: lf_pop_alone lf_holds_def)
qed (auto simp: lf_holds_def lf_pop_alone intro: chain_distinct dest: path_live)

section \<open>Threads\<close>

text \<open>
  What an operation did, in the order in which the operations take effect. A miss is the one
  attempt of a \<^verbatim>\<open>tryPush\<close> or \<^verbatim>\<open>tryPop\<close> that failed; the latter returns the node it saw.
\<close>

datatype lf_event = Pushed nat | Push_Missed nat | Popped nat | Pop_Found_Empty | Pop_Missed ptr

text \<open>What a stack does on such an event; \<open>None\<close>: a stack cannot have done this.\<close>

fun stack_step :: "lf_event \<Rightarrow> nat list \<Rightarrow> nat list option" where
  "stack_step (Pushed n) xs = (if n \<in> set xs then None else Some (n # xs))"
| "stack_step (Popped n) xs = (case xs of [] \<Rightarrow> None | x # xs' \<Rightarrow> if x = n then Some xs' else None)"
| "stack_step Pop_Found_Empty xs = (if xs = [] then Some [] else None)"
| "stack_step (Push_Missed n) xs = Some xs"
| "stack_step (Pop_Missed p) xs = Some xs"

fun stack_run :: "lf_event list \<Rightarrow> nat list \<Rightarrow> nat list option" where
  "stack_run [] xs = Some xs"
| "stack_run (e # es) xs = (case stack_step e xs of None \<Rightarrow> None | Some ys \<Rightarrow> stack_run es ys)"

text \<open>
  The places of the code between two accesses to shared memory, with the registers that are
  live there. The flag tells the one-attempt functions (\<^verbatim>\<open>tryPush\<close>, \<^verbatim>\<open>tryPop\<close>) from the loops.
\<close>

datatype 'tag lf_pc =
    Idle
  | Push_Head bool nat
  | Push_Sync bool nat ptr
  | Push_Next bool nat ptr 'tag        \<comment> \<open>at \<^verbatim>\<open>0:\<close>, to store \<^verbatim>\<open>node->next\<close>\<close>
  | Push_Cas bool nat ptr 'tag
  | Pop_Head bool
  | Pop_Sync bool ptr
  | Pop_Test bool ptr 'tag
  | Pop_Next bool nat 'tag
  | Pop_Cas bool nat ptr 'tag          \<comment> \<open>\<^verbatim>\<open>rax\<close>, \<^verbatim>\<open>rbx\<close>, \<^verbatim>\<open>rdx\<close>\<close>
  | Leaving lf_event                   \<comment> \<open>the last access is made\<close>
  | Lf_Crashed                         \<comment> \<open>a node that is not live was followed\<close>

text \<open>
  The threads share the object and the links. The rest is for the proof: the node's owner,
  the events in the order of the accesses that decided them, what each thread has seen
  its own calls return, and how many swaps had succeeded when a thread last loaded the tag.
\<close>

record 'tag lf_sys =
  obj :: "'tag lifo"
  nexts :: "nat \<rightharpoonup> ptr"
  lpc :: "nat \<Rightarrow> 'tag lf_pc"
  own :: "nat \<Rightarrow> nat option"
  hist :: "(nat \<times> lf_event) list"
  returned :: "nat \<Rightarrow> lf_event list"
  seen :: "nat \<Rightarrow> nat"

fun swaps :: "(nat \<times> lf_event) list \<Rightarrow> nat" where
  "swaps [] = 0"
| "swaps ((t, e) # es) = (case e of Pushed _ \<Rightarrow> Suc (swaps es) | Popped _ \<Rightarrow> Suc (swaps es) | _ \<Rightarrow> swaps es)"

abbreviation at :: "'tag lf_sys \<Rightarrow> nat \<Rightarrow> 'tag lf_pc \<Rightarrow> 'tag lf_sys" where
  "at s t c \<equiv> s\<lparr>lpc := (lpc s)(t := c)\<rparr>"

abbreviation logged :: "'tag lf_sys \<Rightarrow> nat \<Rightarrow> lf_event \<Rightarrow> 'tag lf_sys" where
  "logged s t e \<equiv> s\<lparr>hist := hist s @ [(t, e)]\<rparr>"

abbreviation tag_loaded :: "'tag lf_sys \<Rightarrow> nat \<Rightarrow> 'tag lf_sys" where
  "tag_loaded s t \<equiv> s\<lparr>seen := (seen s)(t := swaps (hist s))\<rparr>"

text \<open>
  One access of one thread. A thread may push only a node it owns, and between calls it may
  write the links of its nodes and hand a node to another thread; the code that calls
  \<^verbatim>\<open>Lifo\<close> has to keep to that. \<open>reload\<close> is true for the x86-64 code.
\<close>

inductive lf_step :: "bool \<Rightarrow> 'w :: len word lf_sys \<Rightarrow> 'w word lf_sys \<Rightarrow> bool" for reload where
  owner_writes: "lpc s t = Idle \<Longrightarrow> own s n = Some t \<Longrightarrow>
    lf_step reload s (s\<lparr>nexts := (nexts s)(n \<mapsto> r)\<rparr>)"
| owner_gives: "lpc s t = Idle \<Longrightarrow> own s n = Some t \<Longrightarrow>
    lf_step reload s (s\<lparr>own := (own s)(n \<mapsto> t')\<rparr>)"
| call_push: "lpc s t = Idle \<Longrightarrow> own s n = Some t \<Longrightarrow>
    lf_step reload s (at s t (Push_Head once n))"
| push_head: "lpc s t = Push_Head once n \<Longrightarrow>
    lf_step reload s (at s t (Push_Sync once n (lf_head (obj s))))"
| push_sync: "lpc s t = Push_Sync once n rax \<Longrightarrow>
    lf_step reload s (tag_loaded (at s t (Push_Next once n rax (lf_sync (obj s)))) t)"
| push_next: "lpc s t = Push_Next once n rax rdx \<Longrightarrow> link_wr (nexts s) n rax = Ok nx \<Longrightarrow>
    lf_step reload s ((at s t (Push_Cas once n rax rdx))\<lparr>nexts := nx\<rparr>)"
| push_next_dead: "lpc s t = Push_Next once n rax rdx \<Longrightarrow> link_wr (nexts s) n rax = Fault e \<Longrightarrow>
    lf_step reload s (at s t Lf_Crashed)"
| push_cas: "lpc s t = Push_Cas once n rax rdx \<Longrightarrow>
    cmpxchg (obj s) (rax, rdx) (Some n, rdx + 1) = (l, True, regs) \<Longrightarrow>
    lf_step reload s
      (logged (at s t (Leaving (Pushed n))) t (Pushed n)\<lparr>obj := l, own := (own s)(n := None)\<rparr>)"
| push_miss: "lpc s t = Push_Cas once n rax rdx \<Longrightarrow>
    cmpxchg (obj s) (rax, rdx) (Some n, rdx + 1) = (l, False, rax', rdx') \<Longrightarrow>
    lf_step reload s
      (if once then logged (at s t (Leaving (Push_Missed n))) t (Push_Missed n)
       else tag_loaded (at s t (Push_Next once n rax' rdx')) t)"
| call_pop: "lpc s t = Idle \<Longrightarrow> lf_step reload s (at s t (Pop_Head once))"
| pop_head: "lpc s t = Pop_Head once \<Longrightarrow> lf_head (obj s) = Some a \<Longrightarrow>
    lf_step reload s (at s t (Pop_Sync once (Some a)))"
| pop_head_null: "lpc s t = Pop_Head once \<Longrightarrow> lf_head (obj s) = None \<Longrightarrow>
    lf_step reload s (logged (at s t (Pop_Sync once None)) t Pop_Found_Empty)"
| pop_sync: "lpc s t = Pop_Sync once rax \<Longrightarrow>
    lf_step reload s (tag_loaded (at s t (Pop_Test once rax (lf_sync (obj s)))) t)"
| pop_test_null: "lpc s t = Pop_Test once None rdx \<Longrightarrow>
    lf_step reload s (at s t (Leaving Pop_Found_Empty))"
| pop_test: "lpc s t = Pop_Test once (Some a) rdx \<Longrightarrow>
    lf_step reload s (at s t (Pop_Next once a rdx))"
| pop_next: "lpc s t = Pop_Next once a rdx \<Longrightarrow> link_rd (nexts s) a = Ok rbx \<Longrightarrow>
    lf_step reload s (at s t (Pop_Cas once a rbx rdx))"
| pop_next_dead: "lpc s t = Pop_Next once a rdx \<Longrightarrow> link_rd (nexts s) a = Fault e \<Longrightarrow>
    lf_step reload s (at s t Lf_Crashed)"
| pop_cas: "lpc s t = Pop_Cas once a rbx rdx \<Longrightarrow>
    cmpxchg (obj s) (Some a, rdx) (rbx, rdx + 1) = (l, True, regs) \<Longrightarrow>
    lf_step reload s
      (logged (at s t (Leaving (Popped a))) t (Popped a)\<lparr>obj := l, own := (own s)(a \<mapsto> t)\<rparr>)"
| pop_miss_once: "lpc s t = Pop_Cas True a rbx rdx \<Longrightarrow>
    cmpxchg (obj s) (Some a, rdx) (rbx, rdx + 1) = (l, False, rax', rdx') \<Longrightarrow>
    lf_step reload s (logged (at s t (Leaving (Pop_Missed rax'))) t (Pop_Missed rax'))"
| pop_miss_reload: "lpc s t = Pop_Cas False a rbx rdx \<Longrightarrow>
    cmpxchg (obj s) (Some a, rdx) (rbx, rdx + 1) = (l, False, rax', rdx') \<Longrightarrow> reload \<Longrightarrow>
    lf_step reload s (at s t (Pop_Head False))"
| pop_miss_null: "lpc s t = Pop_Cas False a rbx rdx \<Longrightarrow>
    cmpxchg (obj s) (Some a, rdx) (rbx, rdx + 1) = (l, False, None, rdx') \<Longrightarrow> \<not> reload \<Longrightarrow>
    lf_step reload s (logged (tag_loaded (at s t (Pop_Test False None rdx')) t) t Pop_Found_Empty)"
| pop_miss: "lpc s t = Pop_Cas False a rbx rdx \<Longrightarrow>
    cmpxchg (obj s) (Some a, rdx) (rbx, rdx + 1) = (l, False, Some a', rdx') \<Longrightarrow> \<not> reload \<Longrightarrow>
    lf_step reload s (tag_loaded (at s t (Pop_Test False (Some a') rdx')) t)"
| leave: "lpc s t = Leaving e \<Longrightarrow>
    lf_step reload s (at s t Idle\<lparr>returned := (returned s)(t := returned s t @ [e])\<rparr>)"

definition lf_init :: "'w :: len word lf_sys \<Rightarrow> bool" where
  "lf_init s \<longleftrightarrow> obj s = lf_create \<and> (\<forall>t. lpc s t = Idle \<and> returned s t = [] \<and> seen s t = 0) \<and>
     hist s = [] \<and> (\<forall>n t. own s n = Some t \<longrightarrow> nexts s n \<noteq> None)"

text \<open>
  The tag counts the swaps modulo \<open>2 ^ w\<close>, so a swap could be fooled only by a thread that
  slept through \<open>2 ^ w\<close> swaps between its load of the tag and its own swap. \<open>timely\<close>
  says that no thread does (on x86-64 that is \<open>2 ^ 64\<close> swaps).
\<close>

fun holds_tag :: "'tag lf_pc \<Rightarrow> bool" where
  "holds_tag (Push_Next once n rax rdx) = True"
| "holds_tag (Push_Cas once n rax rdx) = True"
| "holds_tag (Pop_Test once rax rdx) = True"
| "holds_tag (Pop_Next once a rdx) = True"
| "holds_tag (Pop_Cas once a rbx rdx) = True"
| "holds_tag _ = False"

definition timely :: "'w :: len word lf_sys \<Rightarrow> bool" where
  "timely s \<longleftrightarrow> (\<forall>t. holds_tag (lpc s t) \<longrightarrow> swaps (hist s) - seen s t < 2 ^ LENGTH('w))"

abbreviation lf_reach :: "bool \<Rightarrow> 'w :: len word lf_sys \<Rightarrow> bool" where
  "lf_reach reload \<equiv> reaches lf_init (\<lambda>s s'. lf_step reload s s' \<and> timely s')"

lemma lf_reach_init: "lf_init s \<Longrightarrow> lf_reach reload s"
  by (rule reaches_init)

lemma lf_reach_step: "lf_reach reload s \<Longrightarrow> lf_step reload s s' \<Longrightarrow> timely s' \<Longrightarrow> lf_reach reload s'"
  by (blast intro: reaches_step)

subsection \<open>The invariant\<close>

definition events :: "nat \<Rightarrow> (nat \<times> lf_event) list \<Rightarrow> lf_event list" where
  "events t es = map snd (filter (\<lambda>p. fst p = t) es)"

text \<open>An event that has happened in a call that has not returned yet.\<close>

fun pending :: "'tag lf_pc \<Rightarrow> lf_event list" where
  "pending (Leaving e) = [e]"
| "pending (Pop_Sync once None) = [Pop_Found_Empty]"
| "pending (Pop_Test once None rdx) = [Pop_Found_Empty]"
| "pending _ = []"

definition tag_fine :: "'w :: len word lf_sys \<Rightarrow> nat \<Rightarrow> 'w word \<Rightarrow> bool" where
  "tag_fine s t rdx \<longleftrightarrow> rdx = of_nat (seen s t) \<and> seen s t \<le> swaps (hist s)"

fun pc_fine :: "'w :: len word lf_sys \<Rightarrow> nat \<Rightarrow> 'w word lf_pc \<Rightarrow> bool" where
  "pc_fine s t (Push_Head once n) = (own s n = Some t)"
| "pc_fine s t (Push_Sync once n rax) = (own s n = Some t)"
| "pc_fine s t (Push_Next once n rax rdx) = (own s n = Some t \<and> tag_fine s t rdx)"
| "pc_fine s t (Push_Cas once n rax rdx) =
     (own s n = Some t \<and> tag_fine s t rdx \<and> nexts s n = Some rax)"
| "pc_fine s t (Pop_Sync once (Some a)) = (nexts s a \<noteq> None)"
| "pc_fine s t (Pop_Test once (Some a) rdx) = (nexts s a \<noteq> None \<and> tag_fine s t rdx)"
| "pc_fine s t (Pop_Next once a rdx) = (nexts s a \<noteq> None \<and> tag_fine s t rdx)"
| "pc_fine s t (Pop_Cas once a rbx rdx) =
     (tag_fine s t rdx \<and>
      (seen s t = swaps (hist s) \<and> lf_head (obj s) = Some a \<longrightarrow> nexts s a = Some rbx))"
| "pc_fine s t (Leaving (Popped a)) = (own s a = Some t)"
| "pc_fine s t Lf_Crashed = False"
| "pc_fine s t _ = True"

definition is_stack :: "'w :: len word lf_sys \<Rightarrow> nat list \<Rightarrow> bool" where
  "is_stack s xs \<longleftrightarrow> stack_run (map snd (hist s)) [] = Some xs \<and>
     lf_holds (obj s) (nexts s) xs \<and> (\<forall>a\<in>set xs. own s a = None)"

definition lf_inv :: "'w :: len word lf_sys \<Rightarrow> bool" where
  "lf_inv s \<longleftrightarrow> lf_sync (obj s) = of_nat (swaps (hist s)) \<and> (\<exists>xs. is_stack s xs) \<and>
     (\<forall>n t. own s n = Some t \<longrightarrow> nexts s n \<noteq> None) \<and> (\<forall>t. pc_fine s t (lpc s t)) \<and>
     (\<forall>t. events t (hist s) = returned s t @ pending (lpc s t))"

lemma lf_invI:
  assumes "lf_sync (obj s) = of_nat (swaps (hist s))" and "is_stack s xs"
    and "\<And>n t. own s n = Some t \<Longrightarrow> nexts s n \<noteq> None" and "\<And>t. pc_fine s t (lpc s t)"
    and "\<And>t. events t (hist s) = returned s t @ pending (lpc s t)"
  shows "lf_inv s"
  using assms unfolding lf_inv_def by blast

lemma lf_invD:
  assumes "lf_inv s"
  shows "lf_sync (obj s) = of_nat (swaps (hist s))" and "\<exists>xs. is_stack s xs"
    and "own s n = Some t \<Longrightarrow> nexts s n \<noteq> None" and "pc_fine s t (lpc s t)"
    and "events t (hist s) = returned s t @ pending (lpc s t)"
  using assms unfolding lf_inv_def by blast+

lemma swaps_append [simp]: "swaps (es @ fs) = swaps es + swaps fs"
  by (induction es rule: swaps.induct) (auto split: lf_event.split)

lemma events_append [simp]: "events t (es @ fs) = events t es @ events t fs"
  by (simp add: events_def)

lemma events_single [simp]: "events t [(u, e)] = (if u = t then [e] else [])"
  by (simp add: events_def)

lemma stack_run_snoc [simp]:
  "stack_run (es @ [e]) xs = (case stack_run es xs of None \<Rightarrow> None | Some ys \<Rightarrow> stack_step e ys)"
  by (induction es xs rule: stack_run.induct) (auto split: option.split)

lemma cmpxchg_True [simp]:
  "cmpxchg l old new = (l', True, regs) \<longleftrightarrow>
     old = (lf_head l, lf_sync l) \<and> l' = \<lparr>lf_head = fst new, lf_sync = snd new\<rparr> \<and> regs = old"
  by (auto simp: cmpxchg_def)

lemma cmpxchg_False [simp]:
  "cmpxchg l old new = (l', False, rax, rdx) \<longleftrightarrow>
     old \<noteq> (lf_head l, lf_sync l) \<and> l' = l \<and> rax = lf_head l \<and> rdx = lf_sync l"
  by (auto simp: cmpxchg_def)

lemma is_stack_head:
  assumes "is_stack s xs" and "lf_head (obj s) = Some a"
  obtains ys r where "xs = a # ys" "nexts s a = Some r" "chain (nexts s) r ys" "own s a = None"
  using assms by (auto simp: is_stack_def lf_holds_def chain_Some)

lemma is_stack_null: "is_stack s xs \<Longrightarrow> lf_head (obj s) = None \<Longrightarrow> xs = []"
  by (auto simp: is_stack_def lf_holds_def)

lemma lf_inv_head_live: "lf_inv s \<Longrightarrow> lf_head (obj s) = Some a \<Longrightarrow> nexts s a \<noteq> None \<and> own s a = None"
  using lf_invD(2) is_stack_head by (metis option.discI)

text \<open>What a thread knows stays true while others act.\<close>

lemma pc_fine_keep:
  assumes "pc_fine s t c" and "seen s' t = seen s t" and "swaps (hist s) \<le> swaps (hist s')"
    and "\<And>n. own s n = Some t \<Longrightarrow> own s' n = Some t \<and> nexts s' n = nexts s n"
    and "\<And>a. nexts s a \<noteq> None \<Longrightarrow> nexts s' a \<noteq> None"
    and "swaps (hist s') = swaps (hist s) \<Longrightarrow> lf_head (obj s') = lf_head (obj s) \<and>
       (\<forall>a. lf_head (obj s) = Some a \<longrightarrow> nexts s' a = nexts s a)"
  shows "pc_fine s' t c"
proof -
  have tag: "tag_fine s t rdx \<Longrightarrow> tag_fine s' t rdx" for rdx
    using assms(2,3) by (auto simp: tag_fine_def)
  show ?thesis
  proof (cases c)
    case (Pop_Cas once a rbx rdx)
    have "nexts s' a = Some rbx" if "seen s' t = swaps (hist s')" "lf_head (obj s') = Some a"
    proof -
      have eq: "swaps (hist s') = swaps (hist s)"
        using that(1) assms(1-3) Pop_Cas by (auto simp: tag_fine_def)
      show ?thesis using assms(1,2) assms(6)[OF eq] eq that Pop_Cas by auto
    qed
    then show ?thesis using assms(1) tag Pop_Cas by simp
  next
    case (Pop_Sync once rax)
    then show ?thesis using assms(1,5) by (cases rax) auto
  next
    case (Pop_Test once rax rdx)
    then show ?thesis using assms(1,5) tag by (cases rax) auto
  next
    case (Leaving e)
    then show ?thesis using assms(1,4) by (cases e) auto
  qed (use assms(1,4,5) tag in auto)
qed

text \<open>A step that touches only the thread's own registers, or its copy of the tag.\<close>

lemma lf_inv_local:
  assumes inv: "lf_inv s" and s': "s' = s\<lparr>lpc := (lpc s)(t := c), seen := (seen s)(t := v)\<rparr>"
    and "pc_fine s' t c" and "pending c = pending (lpc s t)"
  shows "lf_inv s'"
proof -
  obtain xs where xs: "is_stack s xs" using lf_invD(2)[OF inv] by blast
  show ?thesis
  proof (rule lf_invI)
    show "is_stack s' xs" using xs by (simp add: s' is_stack_def)
    show "pc_fine s' u (lpc s' u)" for u
    proof (cases "u = t")
      case False
      then show ?thesis using lf_invD(4)[OF inv, of u] by (auto simp: s' intro: pc_fine_keep)
    qed (simp add: s' assms(3)[unfolded s'])
  qed (use lf_invD[OF inv] assms(4) in \<open>auto simp: s'\<close>)
qed

text \<open>The same for a step that decides an operation without changing the object.\<close>

lemma lf_inv_decide:
  assumes inv: "lf_inv s" and stk: "is_stack s xs" "stack_step e xs = Some xs" and "swaps [(t, e)] = 0"
    and s': "s' = s\<lparr>lpc := (lpc s)(t := c), seen := (seen s)(t := v), hist := hist s @ [(t, e)]\<rparr>"
    and "pc_fine s' t c" and "pending c = pending (lpc s t) @ [e]"
  shows "lf_inv s'"
proof (rule lf_invI)
  show "is_stack s' xs" using stk by (simp add: s' is_stack_def)
  show "pc_fine s' u (lpc s' u)" for u
  proof (cases "u = t")
    case False
    then show ?thesis using lf_invD(4)[OF inv, of u] assms(4)
      by (auto simp: s' simp del: swaps.simps intro: pc_fine_keep)
  qed (simp add: s' assms(6)[unfolded s'])
  show "lf_sync (obj s') = of_nat (swaps (hist s'))"
    using lf_invD(1)[OF inv] assms(4) by (simp add: s' del: swaps.simps)
qed (use lf_invD[OF inv] assms(7) in \<open>auto simp: s'\<close>)

lemma lf_inv_push_cas:
  assumes inv: "lf_inv s" and pc: "lpc s t = Push_Cas once n rax rdx"
    and cas: "cmpxchg (obj s) (rax, rdx) (Some n, rdx + 1) = (l, True, regs)"
    and s': "s' = logged (at s t (Leaving (Pushed n))) t (Pushed n)\<lparr>obj := l, own := (own s)(n := None)\<rparr>"
  shows "lf_inv s'"
proof -
  obtain xs where xs: "is_stack s xs" using lf_invD(2)[OF inv] by blast
  have n: "own s n = Some t" "nexts s n = Some rax" using lf_invD(4)[OF inv, of t] pc by simp_all
  have "n \<notin> set xs" using xs n(1) by (auto simp: is_stack_def)
  then have "is_stack s' (n # xs)" using xs n cas by (auto simp: s' is_stack_def lf_holds_def)
  then show ?thesis
  proof (rule lf_invI[rotated])
    show "pc_fine s' u (lpc s' u)" for u
    proof (cases "u = t")
      case False
      have "pc_fine s' u (lpc s u)"
        by (rule pc_fine_keep[OF lf_invD(4)[OF inv, of u]]) (use False n(1) in \<open>auto simp: s'\<close>)
      then show ?thesis using False by (simp add: s')
    qed (simp add: s')
  qed (use lf_invD[OF inv] cas pc in \<open>auto simp: s' split: if_splits\<close>)
qed

lemma tag_unchanged:
  assumes "timely s" and "holds_tag (lpc s t)" and "tag_fine s t (lf_sync (obj s))"
    and "lf_sync (obj s) = (of_nat (swaps (hist s)) :: 'w :: len word)"
  shows "seen s t = swaps (hist s)"
proof -
  have "of_nat (swaps (hist s)) = (of_nat (seen s t) :: 'w word)" and le: "seen s t \<le> swaps (hist s)"
    using assms(3,4) by (auto simp: tag_fine_def)
  then have "(of_nat (swaps (hist s) - seen s t) :: 'w word) = 0" by simp
  moreover have "swaps (hist s) - seen s t < 2 ^ LENGTH('w)"
    using assms(1,2) by (auto simp: timely_def)
  ultimately have "swaps (hist s) - seen s t = 0"
    by (metis of_nat_inverse unat_0)
  then show ?thesis using le by simp
qed

lemma lf_inv_pop_cas:
  assumes inv: "lf_inv s" and "timely s" and pc: "lpc s t = Pop_Cas once a rbx rdx"
    and cas: "cmpxchg (obj s) (Some a, rdx) (rbx, rdx + 1) = (l, True, regs)"
    and s': "s' = logged (at s t (Leaving (Popped a))) t (Popped a)\<lparr>obj := l, own := (own s)(a \<mapsto> t)\<rparr>"
  shows "lf_inv s'"
proof -
  have fine: "pc_fine s t (Pop_Cas once a rbx rdx)" using lf_invD(4)[OF inv, of t] pc by simp
  have hd: "lf_head (obj s) = Some a" and rdx: "rdx = lf_sync (obj s)" using cas by auto
  have "seen s t = swaps (hist s)"
    by (rule tag_unchanged[OF assms(2)]) (use fine pc rdx lf_invD(1)[OF inv] in auto)
  then have nx: "nexts s a = Some rbx" using fine hd by simp
  obtain xs where xs: "is_stack s xs" using lf_invD(2)[OF inv] by blast
  obtain ys where ys: "xs = a # ys" "chain (nexts s) rbx ys" and free: "own s a = None"
    using is_stack_head[OF xs hd] nx by auto
  have "a \<notin> set ys"
    using xs ys(1) chain_distinct[of "nexts s" "lf_head (obj s)" xs]
    by (simp add: is_stack_def lf_holds_def)
  then have "is_stack s' ys" using xs ys cas by (auto simp: s' is_stack_def lf_holds_def)
  then show ?thesis
  proof (rule lf_invI[rotated])
    show "pc_fine s' u (lpc s' u)" for u
    proof (cases "u = t")
      case False
      have "pc_fine s' u (lpc s u)"
        by (rule pc_fine_keep[OF lf_invD(4)[OF inv, of u]]) (use False free in \<open>auto simp: s'\<close>)
      then show ?thesis using False by (simp add: s')
    qed (simp add: s')
  qed (use lf_invD[OF inv] cas pc nx in \<open>auto simp: s' split: if_splits\<close>)
qed

text \<open>A thread writes the link of a node it owns.\<close>

lemma lf_inv_write:
  assumes inv: "lf_inv s" and n: "own s n = Some t"
    and s': "s' = s\<lparr>nexts := (nexts s)(n \<mapsto> r), lpc := (lpc s)(t := c)\<rparr>"
    and "pc_fine s' t c" and "pending c = pending (lpc s t)"
  shows "lf_inv s'"
proof -
  obtain xs where xs: "is_stack s xs" using lf_invD(2)[OF inv] by blast
  have "n \<notin> set xs" using xs n by (auto simp: is_stack_def)
  then have "is_stack s' xs" using xs by (auto simp: s' is_stack_def lf_holds_def)
  then show ?thesis
  proof (rule lf_invI[rotated])
    show "pc_fine s' u (lpc s' u)" for u
    proof (cases "u = t")
      case False
      have "pc_fine s' u (lpc s u)"
        by (rule pc_fine_keep[OF lf_invD(4)[OF inv, of u]])
          (use False n lf_inv_head_live[OF inv] in \<open>auto simp: s'\<close>)
      then show ?thesis using False by (simp add: s')
    qed (simp add: s' assms(4)[unfolded s'])
  qed (use lf_invD[OF inv] assms(5) in \<open>auto simp: s'\<close>)
qed

lemma lf_inv_give:
  assumes inv: "lf_inv s" and "lpc s t = Idle" and n: "own s n = Some t"
  shows "lf_inv (s\<lparr>own := (own s)(n \<mapsto> t')\<rparr>)" (is "lf_inv ?s'")
proof -
  obtain xs where xs: "is_stack s xs" using lf_invD(2)[OF inv] by blast
  have "n \<notin> set xs" using xs n by (auto simp: is_stack_def)
  then have "is_stack ?s' xs" using xs by (auto simp: is_stack_def)
  then show ?thesis
  proof (rule lf_invI[rotated])
    show "pc_fine ?s' u (lpc ?s' u)" for u
    proof (cases "u = t")
      case False
      have "pc_fine ?s' u (lpc s u)"
        by (rule pc_fine_keep[OF lf_invD(4)[OF inv, of u]]) (use False n in auto)
      then show ?thesis by simp
    qed (simp add: assms(2))
  qed (use lf_invD[OF inv] n in \<open>auto split: if_splits\<close>)
qed

lemma lf_step_inv:
  assumes "lf_step reload s s'" and inv: "lf_inv s" and "timely s"
  shows "lf_inv s'"
  using assms(1)
proof cases
  case (owner_writes t n r)
  then have "s' = s\<lparr>nexts := (nexts s)(n \<mapsto> r), lpc := (lpc s)(t := Idle)\<rparr>"
    by (simp add: fun_upd_idem)
  then show ?thesis using owner_writes lf_inv_write[OF inv, where n = n and t = t and r = r and c = Idle] by simp
next
  case (owner_gives t n t')
  then show ?thesis using lf_inv_give[OF inv] by simp
next
  case (call_push t n once)
  then show ?thesis by (intro lf_inv_local[OF inv, where t = t and v = "seen s t"]) auto
next
  case (push_head t once n)
  then show ?thesis using lf_invD(4)[OF inv, of t]
    by (intro lf_inv_local[OF inv, where t = t and v = "seen s t"]) auto
next
  case (push_sync t once n rax)
  then show ?thesis using lf_invD(1)[OF inv] lf_invD(4)[OF inv, of t]
    by (intro lf_inv_local[OF inv, where t = t and v = "swaps (hist s)"]) (auto simp: tag_fine_def)
next
  case (push_next t once n rax rdx nx)
  have n: "own s n = Some t" "tag_fine s t rdx" using lf_invD(4)[OF inv, of t] push_next by simp_all
  moreover have "nx = (nexts s)(n \<mapsto> rax)"
    using push_next by (auto simp: link_wr_def split: if_splits)
  ultimately show ?thesis using push_next
    by (intro lf_inv_write[OF inv n(1), where r = rax and c = "Push_Cas once n rax rdx"]) (auto simp: tag_fine_def)
next
  case (push_next_dead t once n rax rdx e)
  then show ?thesis using lf_invD(3)[OF inv, of n t] lf_invD(4)[OF inv, of t]
    by (simp add: link_wr_def split: if_splits)
next
  case (push_cas t once n rax rdx l regs)
  then show ?thesis by (intro lf_inv_push_cas[OF inv])
next
  case (push_miss t once n rax rdx l rax' rdx')
  obtain xs where xs: "is_stack s xs" using lf_invD(2)[OF inv] by blast
  show ?thesis
  proof (cases once)
    case True
    then show ?thesis using push_miss xs
      by (intro lf_inv_decide[OF inv xs, where e = "Push_Missed n" and t = t and v = "seen s t"]) auto
  next
    case False
    then show ?thesis using push_miss lf_invD(1)[OF inv] lf_invD(4)[OF inv, of t]
      by (intro lf_inv_local[OF inv, where t = t and v = "swaps (hist s)"]) (auto simp: tag_fine_def)
  qed
next
  case (call_pop t once)
  then show ?thesis by (intro lf_inv_local[OF inv, where t = t and v = "seen s t"]) auto
next
  case (pop_head t once a)
  then show ?thesis using lf_inv_head_live[OF inv]
    by (intro lf_inv_local[OF inv, where t = t and v = "seen s t"]) auto
next
  case (pop_head_null t once)
  obtain xs where xs: "is_stack s xs" using lf_invD(2)[OF inv] by blast
  have "xs = []" using is_stack_null[OF xs] pop_head_null by simp
  then show ?thesis using pop_head_null
    by (intro lf_inv_decide[OF inv xs, where e = Pop_Found_Empty and t = t and v = "seen s t"]) auto
next
  case (pop_sync t once rax)
  have "pc_fine s' t (Pop_Test once rax (lf_sync (obj s)))"
    using lf_invD(1)[OF inv] lf_invD(4)[OF inv, of t] pop_sync by (cases rax) (auto simp: tag_fine_def)
  moreover have "pending (Pop_Test once rax (lf_sync (obj s))) = pending (lpc s t)"
    using pop_sync by (cases rax) auto
  ultimately show ?thesis using pop_sync
    by (intro lf_inv_local[OF inv, where t = t and v = "swaps (hist s)" and
          c = "Pop_Test once rax (lf_sync (obj s))"]) auto
next
  case (pop_test_null t once rdx)
  then show ?thesis by (intro lf_inv_local[OF inv, where t = t and v = "seen s t"]) auto
next
  case (pop_test t once a rdx)
  then show ?thesis using lf_invD(4)[OF inv, of t]
    by (intro lf_inv_local[OF inv, where t = t and v = "seen s t"]) (auto simp: tag_fine_def)
next
  case (pop_next t once a rdx rbx)
  then show ?thesis using lf_invD(4)[OF inv, of t]
    by (intro lf_inv_local[OF inv, where t = t and v = "seen s t"])
      (auto simp: tag_fine_def link_rd_def split: option.splits)
next
  case (pop_next_dead t once a rdx e)
  then show ?thesis using lf_invD(4)[OF inv, of t] by (simp add: link_rd_def split: option.splits)
next
  case (pop_cas t once a rbx rdx l regs)
  then show ?thesis by (intro lf_inv_pop_cas[OF inv assms(3)])
next
  case (pop_miss_once t a rbx rdx l rax' rdx')
  obtain xs where xs: "is_stack s xs" using lf_invD(2)[OF inv] by blast
  show ?thesis using pop_miss_once xs
    by (intro lf_inv_decide[OF inv xs, where e = "Pop_Missed rax'" and t = t and v = "seen s t"]) auto
next
  case (pop_miss_reload t a rbx rdx l rax' rdx')
  then show ?thesis by (intro lf_inv_local[OF inv, where t = t and v = "seen s t"]) auto
next
  case (pop_miss_null t a rbx rdx l rdx')
  obtain xs where xs: "is_stack s xs" using lf_invD(2)[OF inv] by blast
  have "xs = []" using is_stack_null[OF xs] pop_miss_null by simp
  then show ?thesis using pop_miss_null
    by (intro lf_inv_decide[OF inv xs, where e = Pop_Found_Empty and t = t and v = "swaps (hist s)"])
      auto
next
  case (pop_miss t a rbx rdx l a' rdx')
  have hd: "lf_head (obj s) = Some a'" using pop_miss by simp
  then show ?thesis using pop_miss lf_invD(1)[OF inv] lf_inv_head_live[OF inv hd]
    by (intro lf_inv_local[OF inv, where t = t and v = "swaps (hist s)" and
          c = "Pop_Test False (Some a') rdx'"]) (simp_all add: tag_fine_def)
next
  case (leave t e)
  obtain xs where xs: "is_stack s xs" using lf_invD(2)[OF inv] by blast
  then have "is_stack s' xs" by (simp add: leave is_stack_def)
  then show ?thesis
  proof (rule lf_invI[rotated])
    show "pc_fine s' u (lpc s' u)" for u
    proof (cases "u = t")
      case False
      have "pc_fine s' u (lpc s u)"
        by (rule pc_fine_keep[OF lf_invD(4)[OF inv, of u]]) (auto simp: leave)
      then show ?thesis using False by (simp add: leave)
    qed (simp add: leave)
  qed (use lf_invD[OF inv] leave in \<open>auto\<close>)
qed

lemma lf_init_inv: "lf_init s \<Longrightarrow> lf_inv s \<and> timely s"
  by (rule conjI, rule lf_invI[where xs = "[]"])
    (auto simp: lf_init_def lf_create_def is_stack_def lf_holds_def events_def timely_def)

interpretation lfs: step_invariant lf_init "\<lambda>s s'. lf_step reload s s' \<and> timely s'"
  "\<lambda>s. lf_inv s \<and> timely s" for reload
  by unfold_locales (auto simp: lf_init_inv intro: lf_step_inv)

lemmas lf_reach_inv = lfs.reaches_inv

subsection \<open>The properties\<close>

text \<open>Solo runs, for the witnesses: thread \<open>t\<close> alone performs a whole call.\<close>

abbreviation only_at :: "nat \<Rightarrow> 'tag lf_pc \<Rightarrow> nat \<Rightarrow> 'tag lf_pc" where
  "only_at t c \<equiv> (\<lambda>_. Idle)(t := c)"

lemma lf_reach_alone:
  assumes "lf_reach reload s" and "lf_step reload s s'" and "lpc s' = only_at t c"
    and "holds_tag c \<Longrightarrow> seen s' t = swaps (hist s')"
  shows "lf_reach reload s'"
  by (rule lf_reach_step[OF assms(1,2)]) (use assms(3,4) in \<open>auto simp: timely_def\<close>)

lemma lf_solo_push:
  fixes s :: "'w :: len word lf_sys"
  assumes "lf_reach reload s" and "lpc s = (\<lambda>_. Idle)" and "own s n = Some t"
  shows "\<exists>s' :: 'w word lf_sys. lf_reach reload s' \<and> lpc s' = only_at t (Leaving (Pushed n)) \<and>
     hist s' = hist s @ [(t, Pushed n)] \<and> lf_head (obj s') = Some n"
proof -
  have live: "nexts s n \<noteq> None" using lf_invD(3) lf_reach_inv assms(1,3) by blast
  let ?h = "lf_head (obj s)" and ?v = "lf_sync (obj s)"
  let ?s1 = "at s t (Push_Head False n)"
  let ?s2 = "at ?s1 t (Push_Sync False n ?h)"
  let ?s3 = "tag_loaded (at ?s2 t (Push_Next False n ?h ?v)) t"
  let ?s4 = "(at ?s3 t (Push_Cas False n ?h ?v))\<lparr>nexts := (nexts s)(n \<mapsto> ?h)\<rparr>"
  let ?s5 = "logged (at ?s4 t (Leaving (Pushed n))) t (Pushed n)
      \<lparr>obj := \<lparr>lf_head = Some n, lf_sync = ?v + 1\<rparr>, own := (own s)(n := None)\<rparr>"
  have 1: "lf_reach reload ?s1"
    by (rule lf_reach_alone[OF assms(1) call_push, where t = t]) (use assms in auto)
  have "lf_step reload ?s1 ?s2" using lf_step.push_head[of ?s1 t False n] by simp
  then have 2: "lf_reach reload ?s2" by (rule lf_reach_alone[OF 1]) (use assms in auto)
  have "lf_step reload ?s2 ?s3" using lf_step.push_sync[of ?s2 t False n ?h] by simp
  then have 3: "lf_reach reload ?s3" by (rule lf_reach_alone[OF 2]) (use assms in auto)
  have "lf_step reload ?s3 ?s4" using lf_step.push_next[of ?s3 t False n ?h ?v] live by auto
  then have 4: "lf_reach reload ?s4" by (rule lf_reach_alone[OF 3]) (use assms in auto)
  have "lf_step reload ?s4 ?s5" using lf_step.push_cas[of ?s4 t False n ?h ?v] by simp
  then have 5: "lf_reach reload ?s5" by (rule lf_reach_alone[OF 4]) (use assms in auto)
  show ?thesis by (rule exI[of _ ?s5]) (use 5 assms(2) in auto)
qed

lemma lf_solo_leave:
  fixes s :: "'w :: len word lf_sys"
  assumes "lf_reach reload s" and "lpc s = only_at t (Leaving e)"
  shows "\<exists>s' :: 'w word lf_sys. lf_reach reload s' \<and> lpc s' = (\<lambda>_. Idle) \<and>
     hist s' = hist s \<and> obj s' = obj s"
proof -
  let ?s1 = "at s t Idle\<lparr>returned := (returned s)(t := returned s t @ [e])\<rparr>"
  have "lf_step reload s ?s1" using lf_step.leave[of s t e] assms(2) by simp
  then have "lf_reach reload ?s1"
    by (rule lf_reach_alone[OF assms(1), where t = t]) (use assms(2) in auto)
  then show ?thesis by (intro exI[of _ ?s1]) (auto simp: assms(2))
qed

lemma lf_solo_pop:
  fixes s :: "'w :: len word lf_sys"
  assumes "lf_reach reload s" and "lpc s = (\<lambda>_. Idle)" and "lf_head (obj s) = Some a"
  shows "\<exists>s' :: 'w word lf_sys. lf_reach reload s' \<and> lpc s' = only_at t (Leaving (Popped a)) \<and>
     hist s' = hist s @ [(t, Popped a)]"
proof -
  obtain r where live: "nexts s a = Some r"
    using lf_inv_head_live[of s a] lf_reach_inv[OF assms(1)] assms(3) by auto
  let ?v = "lf_sync (obj s)"
  let ?s1 = "at s t (Pop_Head False)"
  let ?s2 = "at ?s1 t (Pop_Sync False (Some a))"
  let ?s3 = "tag_loaded (at ?s2 t (Pop_Test False (Some a) ?v)) t"
  let ?s4 = "at ?s3 t (Pop_Next False a ?v)"
  let ?s5 = "at ?s4 t (Pop_Cas False a r ?v)"
  let ?s6 = "logged (at ?s5 t (Leaving (Popped a))) t (Popped a)
      \<lparr>obj := \<lparr>lf_head = r, lf_sync = ?v + 1\<rparr>, own := (own s)(a \<mapsto> t)\<rparr>"
  have "lf_step reload s ?s1" using lf_step.call_pop[of s t] assms(2) by simp
  then have 1: "lf_reach reload ?s1" by (rule lf_reach_alone[OF assms(1)]) (use assms in auto)
  have "lf_step reload ?s1 ?s2" using lf_step.pop_head[of ?s1 t False a] assms by simp
  then have 2: "lf_reach reload ?s2" by (rule lf_reach_alone[OF 1]) (use assms in auto)
  have "lf_step reload ?s2 ?s3" using lf_step.pop_sync[of ?s2 t False "Some a"] by simp
  then have 3: "lf_reach reload ?s3" by (rule lf_reach_alone[OF 2]) (use assms in auto)
  have "lf_step reload ?s3 ?s4" using lf_step.pop_test[of ?s3 t False a ?v] by simp
  then have 4: "lf_reach reload ?s4" by (rule lf_reach_alone[OF 3]) (use assms in auto)
  have "lf_step reload ?s4 ?s5" using lf_step.pop_next[of ?s4 t False a ?v r] live by simp
  then have 5: "lf_reach reload ?s5" by (rule lf_reach_alone[OF 4]) (use assms in auto)
  have "lf_step reload ?s5 ?s6" using lf_step.pop_cas[of ?s5 t False a r ?v] assms(3) by simp
  then have 6: "lf_reach reload ?s6" by (rule lf_reach_alone[OF 5]) (use assms in auto)
  show ?thesis by (rule exI[of _ ?s6]) (use 6 assms(2) in auto)
qed

definition lf_start :: "nat \<Rightarrow> 64 word lf_sys" where
  "lf_start n = \<lparr>obj = lf_create, nexts = [n \<mapsto> None], lpc = (\<lambda>_. Idle), own = [n \<mapsto> 0],
     hist = [], returned = (\<lambda>_. []), seen = (\<lambda>_. 0)\<rparr>"

lemma lf_start_pushed:
  "\<exists>s. lf_reach True s \<and> lpc s = only_at 0 (Leaving (Pushed n)) \<and> hist s = [(0, Pushed n)] \<and>
     lf_head (obj (s :: 64 word lf_sys)) = Some n"
proof -
  have "lf_reach True (lf_start n)"
    by (rule lf_reach_init) (auto simp: lf_init_def lf_start_def split: if_splits)
  then show ?thesis using lf_solo_push[of True "lf_start n" n 0] by (simp add: lf_start_def)
qed

text \<open>
  C1. The lock-free stack is linearizable. However any number of threads interleave their
  loads, stores and swaps, on x86-64 (\<open>reload\<close>) and on i386, there is one order of all
  operations (the order of their deciding accesses, each made between the operation's call
  and its return) in which they are the operations of a sequential stack; each thread has
  seen exactly its own operations of that order return; and the linked nodes are that
  stack's content.
\<close>

theorem lifo_linearizable:
  assumes "lf_reach reload s"
  shows "\<exists>xs. stack_run (map snd (hist s)) [] = Some xs \<and>
     chain (nexts s) (lf_head (obj s)) xs \<and>
     (\<forall>t. events t (hist s) = returned s t @ pending (lpc s t))"
proof -
  have inv: "lf_inv s" using lf_reach_inv[OF assms] by blast
  show ?thesis using lf_invD(2,5)[OF inv] by (auto simp: is_stack_def lf_holds_def)
qed

theorem lifo_linearizable_witness:
  "\<exists>s :: 64 word lf_sys. lf_reach True s \<and> hist s = [(0, Pushed 5)] \<and>
     chain (nexts s) (lf_head (obj s)) [5]"
proof -
  obtain s :: "64 word lf_sys" where s: "lf_reach True s" "hist s = [(0, Pushed 5)]"
    using lf_start_pushed[of 5] by blast
  then show ?thesis using lifo_linearizable[OF s(1)] by auto
qed



text \<open>
  \<^verbatim>\<open>tryPop\<close> on x86-64 does not set its \<^verbatim>\<open>success\<close> flag on an empty stack: the flag is the
  low half of the address of the \<^verbatim>\<open>Lifo\<close>, which is not zero for an object below 4 GiB.
\<close>

lemma lifo_try_pop_empty:
  assumes "0 < this" and "this < 2 ^ 32" and "lf_holds l nx []"
  shows "\<exists>success. lf_try_pop this l nx = Ok (l, None, success) \<and> success \<noteq> 0"
proof -
  have "unat this < 2 ^ 32" using unat_lt_of_less[OF assms(2)] by simp
  then have "unat (ucast this :: u32) = unat this"
    by (simp add: unsigned_ucast_eq take_bit_nat_eq_self)
  then have "(ucast this :: u32) \<noteq> 0" using assms(1) by (metis unat_0 unat_gt_0 neq_iff)
  moreover have "lf_head l = None" using assms(3) by (simp add: lf_holds_def)
  ultimately show ?thesis by (auto simp: lf_try_pop_def)
qed

end
