(* ===== verification/Lifo_Progress.thy ===== *)
theory Lifo_Progress
  imports Lifo
begin

text \<open>
  No thread of the lock-free stack ever has to wait for another: left alone, wherever the others
  stopped, it finishes its call after a few accesses.
\<close>

text \<open>\<open>finishes\<close>: in at most \<open>k\<close> steps, in which no other thread takes part, thread \<open>t\<close> returns.\<close>

definition finishes :: "bool \<Rightarrow> nat \<Rightarrow> nat \<Rightarrow> 'w :: len word lf_sys \<Rightarrow> bool" where
  "finishes reload t k s \<longleftrightarrow>
     (\<exists>n s' e. n \<le> k \<and> (lf_step reload ^^ n) s s' \<and> lpc s' = (lpc s)(t := Idle) \<and>
        returned s' = (returned s)(t := returned s t @ [e]))"

lemma finishes_mono: "finishes reload t k s \<Longrightarrow> k \<le> k' \<Longrightarrow> finishes reload t k' s"
  unfolding finishes_def by (meson le_trans)

lemma finishes_step:
  assumes "finishes reload t k s1" and "lf_step reload s s1" and "lpc s1 = (lpc s)(t := c)"
    and "returned s1 = returned s"
  shows "finishes reload t (Suc k) s"
proof -
  obtain n s' e where n: "n \<le> k" "(lf_step reload ^^ n) s1 s'" "lpc s' = (lpc s1)(t := Idle)"
    "returned s' = (returned s1)(t := returned s1 t @ [e])"
    using assms(1) unfolding finishes_def by blast
  have "(lf_step reload ^^ Suc n) s s'" using assms(2) n(2) by (rule relpowp_Suc_I2)
  moreover have "lpc s' = (lpc s)(t := Idle)" using n(3) assms(3) by simp
  ultimately show ?thesis using n(1,4) assms(4) unfolding finishes_def
    by (intro exI[of _ "Suc n"] exI[of _ s'] exI[of _ e]) simp
qed

lemma finishes_leaving:
  assumes "lpc s t = Leaving e"
  shows "finishes reload t 1 s"
  unfolding finishes_def
  by (rule exI[of _ 1], rule exI[of _ "at s t Idle\<lparr>returned := (returned s)(t := returned s t @ [e])\<rparr>"])
    (use lf_step.leave[OF assms] in auto)

section \<open>Push\<close>

lemma finishes_push_fresh:
  assumes "lpc s t = Push_Cas once n (lf_head (obj s)) (lf_sync (obj s))"
  shows "finishes reload t 2 s"
proof -
  let ?s = "logged (at s t (Leaving (Pushed n))) t (Pushed n)
      \<lparr>obj := \<lparr>lf_head = Some n, lf_sync = lf_sync (obj s) + 1\<rparr>, own := (own s)(n := None)\<rparr>"
  have "lf_step reload s ?s" by (rule lf_step.push_cas[OF assms]) simp
  from finishes_step[OF finishes_leaving this, of t "Pushed n"] show ?thesis by (simp add: numeral_2_eq_2)
qed

lemma finishes_push_next:
  assumes "lpc s t = Push_Next once n rax rdx" and "nexts s n \<noteq> None"
    and "\<And>s'. lpc s' t = Push_Cas once n rax rdx \<Longrightarrow> obj s' = obj s \<Longrightarrow> nexts s' n \<noteq> None \<Longrightarrow> finishes reload t k s'"
  shows "finishes reload t (Suc k) (s :: 'w :: len word lf_sys)"
proof -
  let ?s = "(at s t (Push_Cas once n rax rdx))\<lparr>nexts := (nexts s)(n \<mapsto> rax)\<rparr>"
  have "lf_step reload s ?s" by (rule lf_step.push_next[OF assms(1)]) (use assms(2) in auto)
  moreover have "finishes reload t k ?s" by (rule assms(3)) simp_all
  ultimately show ?thesis by (intro finishes_step[of reload t k ?s]) simp_all
qed

lemma finishes_push_cas:
  assumes "lpc s t = Push_Cas once n rax rdx" and "nexts s n \<noteq> None"
  shows "finishes reload t 4 (s :: 'w :: len word lf_sys)"
proof (cases "(rax, rdx) = (lf_head (obj s), lf_sync (obj s))")
  case True
  then have "finishes reload t 2 s" using finishes_push_fresh assms(1) by simp
  then show ?thesis by (rule finishes_mono) simp
next
  case False
  let ?h = "lf_head (obj s)" and ?v = "lf_sync (obj s)"
  have miss: "cmpxchg (obj s) (rax, rdx) (Some n, rdx + 1) = (obj s, False, ?h, ?v)" using False by simp
  show ?thesis
  proof (cases once)
    case True
    let ?s = "logged (at s t (Leaving (Push_Missed n))) t (Push_Missed n)"
    have "lf_step reload s ?s" using lf_step.push_miss[OF assms(1) miss, of reload] True by simp
    from finishes_step[OF finishes_leaving this, of t "Push_Missed n"] have "finishes reload t 2 s"
      by (simp add: numeral_2_eq_2)
    then show ?thesis by (rule finishes_mono) simp
  next
    case once: False
    let ?s = "tag_loaded (at s t (Push_Next once n ?h ?v)) t"
    have "lf_step reload s ?s" using lf_step.push_miss[OF assms(1) miss, of reload] once by simp
    moreover have "finishes reload t 2 s'" if "lpc s' t = Push_Cas once n ?h ?v" "obj s' = obj s"
      for s' :: "'w word lf_sys"
      using finishes_push_fresh[of s' t once n] that by simp
    then have "finishes reload t (Suc 2) ?s"
      by (intro finishes_push_next[of _ _ once n ?h ?v]) (use assms(2) in simp_all)
    ultimately have "finishes reload t (Suc (Suc 2)) s" by (intro finishes_step[of reload t "Suc 2" ?s]) simp_all
    then show ?thesis by (simp add: numeral_eq_Suc)
  qed
qed

lemma finishes_push:
  assumes "lpc s t = Push_Next once n rax rdx \<or> lpc s t = Push_Sync once n rax \<or> lpc s t = Push_Head once n"
    and "nexts s n \<noteq> None"
  shows "finishes reload t 7 (s :: 'w :: len word lf_sys)"
proof -
  have next_ok: "finishes reload t 5 s" if "lpc s t = Push_Next once n rax rdx" "nexts s n \<noteq> None"
    for s :: "'w word lf_sys" and rax rdx
  proof -
    have "finishes reload t (Suc 4) s"
      by (rule finishes_push_next[OF that]) (use finishes_push_cas in blast)
    then show ?thesis by simp
  qed
  have sync_ok: "finishes reload t 6 s" if "lpc s t = Push_Sync once n rax" "nexts s n \<noteq> None"
    for s :: "'w word lf_sys" and rax
  proof -
    let ?s = "tag_loaded (at s t (Push_Next once n rax (lf_sync (obj s)))) t"
    have "finishes reload t 5 ?s" by (rule next_ok) (use that in simp_all)
    then have "finishes reload t (Suc 5) s"
      by (rule finishes_step[OF _ lf_step.push_sync[OF that(1)]]) simp_all
    then show ?thesis by simp
  qed
  have "finishes reload t 7 s" if "lpc s t = Push_Head once n"
  proof -
    let ?s = "at s t (Push_Sync once n (lf_head (obj s)))"
    have "finishes reload t 6 ?s" by (rule sync_ok) (use assms(2) in simp_all)
    then have "finishes reload t (Suc 6) s"
      by (rule finishes_step[OF _ lf_step.push_head[OF that]]) simp_all
    then show ?thesis by simp
  qed
  then show ?thesis using assms next_ok sync_ok finishes_mono[of reload t 5 s 7] finishes_mono[of reload t 6 s 7]
    by auto
qed

section \<open>Pop\<close>

text \<open>A pop whose registers agree with the object, on a stack whose top is live.\<close>

lemma finishes_pop_fresh:
  assumes "lpc s t = Pop_Cas once a rbx rdx" and "(Some a, rdx) = (lf_head (obj s), lf_sync (obj s))"
  shows "finishes reload t 2 s"
proof -
  let ?s = "logged (at s t (Leaving (Popped a))) t (Popped a)
      \<lparr>obj := \<lparr>lf_head = rbx, lf_sync = rdx + 1\<rparr>, own := (own s)(a \<mapsto> t)\<rparr>"
  have "lf_step reload s ?s" by (rule lf_step.pop_cas[OF assms(1)]) (use assms(2) in simp)
  from finishes_step[OF finishes_leaving this, of t "Popped a"] show ?thesis by (simp add: numeral_2_eq_2)
qed

lemma finishes_pop_null:
  assumes "lpc s t = Pop_Test once None rdx"
  shows "finishes reload t 2 (s :: 'w :: len word lf_sys)"
proof -
  have "finishes reload t 1 (at s t (Leaving Pop_Found_Empty))"
    by (rule finishes_leaving[of _ _ Pop_Found_Empty]) simp
  then have "finishes reload t (Suc 1) s"
    by (rule finishes_step[OF _ lf_step.pop_test_null[OF assms]]) simp_all
  then show ?thesis by (simp add: numeral_2_eq_2)
qed

text \<open>The steps of a pop before its swap, which change nothing that is shared.\<close>

lemma finishes_pop_next:
  assumes "lpc s t = Pop_Next once a rdx" and "nexts s a \<noteq> None"
    and "\<And>s' rbx. lpc s' t = Pop_Cas once a rbx rdx \<Longrightarrow> obj s' = obj s \<Longrightarrow> nexts s' = nexts s \<Longrightarrow>
      finishes reload t k s'"
  shows "finishes reload t (Suc k) (s :: 'w :: len word lf_sys)"
proof -
  obtain rbx where "link_rd (nexts s) a = Ok rbx" using assms(2) by auto
  then have "lf_step reload s (at s t (Pop_Cas once a rbx rdx))" by (rule lf_step.pop_next[OF assms(1)])
  moreover have "finishes reload t k (at s t (Pop_Cas once a rbx rdx))" by (rule assms(3)[of _ rbx]) simp_all
  ultimately show ?thesis by (intro finishes_step[of reload t k "at s t (Pop_Cas once a rbx rdx)"]) simp_all
qed

lemma finishes_pop_test:
  assumes "lpc s t = Pop_Test once (Some a) rdx"
    and "\<And>s'. lpc s' t = Pop_Next once a rdx \<Longrightarrow> obj s' = obj s \<Longrightarrow> nexts s' = nexts s \<Longrightarrow>
      finishes reload t k s'"
  shows "finishes reload t (Suc k) (s :: 'w :: len word lf_sys)"
  by (rule finishes_step[OF _ lf_step.pop_test[OF assms(1)]]) (simp_all add: assms(2))

lemma finishes_pop_sync:
  assumes "lpc s t = Pop_Sync once rax"
    and "\<And>s'. lpc s' t = Pop_Test once rax (lf_sync (obj s)) \<Longrightarrow> obj s' = obj s \<Longrightarrow> nexts s' = nexts s \<Longrightarrow>
      finishes reload t k s'"
  shows "finishes reload t (Suc k) (s :: 'w :: len word lf_sys)"
  by (rule finishes_step[OF _ lf_step.pop_sync[OF assms(1)]]) (simp_all add: assms(2))

text \<open>The top of the stack can be read.\<close>

definition top_live :: "'w :: len word lf_sys \<Rightarrow> bool" where
  "top_live s \<longleftrightarrow> (\<forall>a. lf_head (obj s) = Some a \<longrightarrow> nexts s a \<noteq> None)"

text \<open>From a test with fresh registers on, the swap cannot miss.\<close>

lemma finishes_pop_test_fresh:
  assumes "lpc s t = Pop_Test once (lf_head (obj s)) (lf_sync (obj s))" and "top_live s"
  shows "finishes reload t 4 (s :: 'w :: len word lf_sys)"
proof (cases "lf_head (obj s)")
  case None
  then have "finishes reload t 2 s" using finishes_pop_null assms(1) by simp
  then show ?thesis by (rule finishes_mono) simp
next
  case (Some a)
  let ?v = "lf_sync (obj s)"
  have "finishes reload t (Suc 2) s'" if s': "lpc s' t = Pop_Next once a ?v" "obj s' = obj s" "nexts s' = nexts s"
    for s' :: "'w word lf_sys"
  proof (rule finishes_pop_next[OF s'(1)])
    show "nexts s' a \<noteq> None" using s'(3) assms(2) Some by (simp add: top_live_def)
    show "finishes reload t 2 s''" if "lpc s'' t = Pop_Cas once a rbx ?v" "obj s'' = obj s'" for s'' :: "'w word lf_sys" and rbx
      by (rule finishes_pop_fresh[OF that(1)]) (use that(2) s'(2) Some in simp)
  qed
  then have "finishes reload t (Suc (Suc 2)) s"
    by (intro finishes_pop_test[of s t once a ?v]) (use assms(1) Some in simp_all)
  then show ?thesis by (simp add: numeral_eq_Suc)
qed

lemma finishes_pop_head:
  assumes "lpc s t = Pop_Head once" and "top_live s"
  shows "finishes reload t 6 (s :: 'w :: len word lf_sys)"
proof -
  have sync: "finishes reload t 5 s'" if s': "lpc s' t = Pop_Sync once (lf_head (obj s'))" "top_live s'"
    for s' :: "'w word lf_sys"
  proof -
    have "finishes reload t (Suc 4) s'"
    proof (rule finishes_pop_sync[OF s'(1)])
      show "finishes reload t 4 s''"
        if "lpc s'' t = Pop_Test once (lf_head (obj s')) (lf_sync (obj s'))" "obj s'' = obj s'" "nexts s'' = nexts s'"
        for s'' :: "'w word lf_sys"
        using that s'(2) by (intro finishes_pop_test_fresh[of s'' t once]) (simp_all add: top_live_def)
    qed
    then show ?thesis by simp
  qed
  have "finishes reload t (Suc 5) s"
  proof (cases "lf_head (obj s)")
    case None
    let ?s = "logged (at s t (Pop_Sync once None)) t Pop_Found_Empty"
    have "finishes reload t 5 ?s" by (rule sync) (use None assms(2) in \<open>simp_all add: top_live_def\<close>)
    then show ?thesis by (rule finishes_step[OF _ lf_step.pop_head_null[OF assms(1) None]]) simp_all
  next
    case (Some a)
    let ?s = "at s t (Pop_Sync once (Some a))"
    have "finishes reload t 5 ?s" by (rule sync) (use Some assms(2) in \<open>simp_all add: top_live_def\<close>)
    then show ?thesis by (rule finishes_step[OF _ lf_step.pop_head[OF assms(1) Some]]) simp_all
  qed
  then show ?thesis by simp
qed

lemma finishes_pop_cas:
  assumes "lpc s t = Pop_Cas once a rbx rdx" and "top_live s"
  shows "finishes reload t 7 (s :: 'w :: len word lf_sys)"
proof (cases "(Some a, rdx) = (lf_head (obj s), lf_sync (obj s))")
  case True
  from finishes_pop_fresh[OF assms(1) this] show ?thesis by (rule finishes_mono) simp
next
  case False
  let ?h = "lf_head (obj s)" and ?v = "lf_sync (obj s)"
  have miss: "cmpxchg (obj s) (Some a, rdx) (rbx, rdx + 1) = (obj s, False, ?h, ?v)" using False by simp
  have test: "finishes reload t 4 s'" if "lpc s' t = Pop_Test False ?h ?v" "obj s' = obj s" "nexts s' = nexts s"
    for s' :: "'w word lf_sys"
    using that assms(2) by (intro finishes_pop_test_fresh[of s' t False]) (simp_all add: top_live_def)
  consider "once" | "\<not> once" "reload" | "\<not> once" "\<not> reload" "?h = None" | b where "\<not> once" "\<not> reload" "?h = Some b"
    by (cases "?h") auto
  then show ?thesis
  proof cases
    case 1
    let ?s = "logged (at s t (Leaving (Pop_Missed ?h))) t (Pop_Missed ?h)"
    have "lf_step reload s ?s" by (rule lf_step.pop_miss_once[OF _ miss]) (use assms(1) 1 in simp)
    from finishes_step[OF finishes_leaving this, of t "Pop_Missed ?h"] have "finishes reload t 2 s"
      by (simp add: numeral_2_eq_2)
    then show ?thesis by (rule finishes_mono) simp
  next
    case 2
    let ?s = "at s t (Pop_Head False)"
    have "lf_step reload s ?s" by (rule lf_step.pop_miss_reload[OF _ miss]) (use assms(1) 2 in simp_all)
    moreover have "finishes reload t 6 ?s"
      by (rule finishes_pop_head[of _ _ False]) (use assms(2) in \<open>simp_all add: top_live_def\<close>)
    ultimately have "finishes reload t (Suc 6) s" by (intro finishes_step[of reload t 6 ?s]) simp_all
    then show ?thesis by simp
  next
    case 3
    let ?s = "logged (tag_loaded (at s t (Pop_Test False None ?v)) t) t Pop_Found_Empty"
    have "lf_step reload s ?s" by (rule lf_step.pop_miss_null[OF _ miss[unfolded 3]]) (use assms(1) 3 in simp_all)
    moreover have "finishes reload t 4 ?s" by (rule test) (use 3 in simp_all)
    ultimately have "finishes reload t (Suc 4) s" by (intro finishes_step[of reload t 4 ?s]) simp_all
    then show ?thesis by (rule finishes_mono) simp
  next
    case 4
    let ?s = "tag_loaded (at s t (Pop_Test False (Some b) ?v)) t"
    have "lf_step reload s ?s" by (rule lf_step.pop_miss[OF _ miss[unfolded 4]]) (use assms(1) 4 in simp_all)
    moreover have "finishes reload t 4 ?s" by (rule test) (use 4 in simp_all)
    ultimately have "finishes reload t (Suc 4) s" by (intro finishes_step[of reload t 4 ?s]) simp_all
    then show ?thesis by (rule finishes_mono) simp
  qed
qed

text \<open>A pop anywhere: in the worst case the first swap misses and the second does not.\<close>

lemma finishes_pop:
  assumes "top_live s"
    and "lpc s t = Pop_Next once a rdx \<and> nexts s a \<noteq> None \<or> lpc s t = Pop_Test once (Some a) rdx \<and> nexts s a \<noteq> None \<or>
      lpc s t = Pop_Sync once (Some a) \<and> nexts s a \<noteq> None"
  shows "finishes reload t 10 (s :: 'w :: len word lf_sys)"
proof -
  have next_ok: "finishes reload t 8 s"
    if "lpc s t = Pop_Next once a rdx" "nexts s a \<noteq> None" "top_live s" for s :: "'w word lf_sys" and rdx
  proof -
    have "finishes reload t (Suc 7) s"
      by (rule finishes_pop_next[OF that(1,2)]) (rule finishes_pop_cas, assumption, use that(3) in \<open>simp add: top_live_def\<close>)
    then show ?thesis by simp
  qed
  have test_ok: "finishes reload t 9 s"
    if "lpc s t = Pop_Test once (Some a) rdx" "nexts s a \<noteq> None" "top_live s" for s :: "'w word lf_sys" and rdx
  proof -
    have "finishes reload t (Suc 8) s"
      by (rule finishes_pop_test[OF that(1)]) (rule next_ok, assumption, use that(2,3) in \<open>simp_all add: top_live_def\<close>)
    then show ?thesis by simp
  qed
  have sync_ok: "finishes reload t 10 s"
    if "lpc s t = Pop_Sync once (Some a)" "nexts s a \<noteq> None" "top_live s" for s :: "'w word lf_sys"
  proof -
    have "finishes reload t (Suc 9) s"
      by (rule finishes_pop_sync[OF that(1)]) (rule test_ok, assumption, use that(2,3) in \<open>simp_all add: top_live_def\<close>)
    then show ?thesis by simp
  qed
  show ?thesis
    using assms next_ok[of s rdx] test_ok[of s rdx] sync_ok[of s]
      finishes_mono[of reload t 8 s 10] finishes_mono[of reload t 9 s 10] by auto
qed

lemma finishes_pop_empty:
  assumes "lpc s t = Pop_Sync once None"
  shows "finishes reload t 10 (s :: 'w :: len word lf_sys)"
proof -
  have "finishes reload t (Suc 2) s"
    by (rule finishes_pop_sync[OF assms]) (rule finishes_pop_null)
  then show ?thesis by (rule finishes_mono) simp
qed

lemma finishes_any:
  assumes "lf_inv s" and "lpc s t \<noteq> Idle"
  shows "finishes reload t 10 (s :: 'w :: len word lf_sys)"
proof -
  have top: "top_live s" using lf_inv_head_live[OF assms(1)] by (simp add: top_live_def)
  have fine: "pc_fine s t (lpc s t)" using lf_invD(4)[OF assms(1)] .
  have live: "nexts s n \<noteq> None" if "own s n = Some t" for n using lf_invD(3)[OF assms(1) that] .
  have push: "finishes reload t 10 s" if "finishes reload t k s" "k \<le> 10" for k using finishes_mono that by blast
  show ?thesis
  proof (cases "lpc s t")
    case (Push_Head once n)
    then show ?thesis using finishes_push[of s t once n] live[of n] fine push[of 7] by simp
  next
    case (Push_Sync once n rax)
    then show ?thesis using finishes_push[of s t once n] live[of n] fine push[of 7] by simp
  next
    case (Push_Next once n rax rdx)
    then show ?thesis using finishes_push[of s t once n] live[of n] fine push[of 7] by simp
  next
    case (Push_Cas once n rax rdx)
    then show ?thesis using finishes_push_cas[of s t once n] live[of n] fine push[of 4] by simp
  next
    case (Pop_Head once)
    then show ?thesis using finishes_pop_head[of s t once] top push[of 6] by simp
  next
    case (Pop_Sync once rax)
    then show ?thesis
      using finishes_pop[OF top, of t once] finishes_pop_empty[of s t once] fine by (cases rax) simp_all
  next
    case (Pop_Test once rax rdx)
    then show ?thesis
      using finishes_pop[OF top, of t once] finishes_pop_null[of s t once rdx] push[of 2] fine by (cases rax) simp_all
  next
    case (Pop_Next once a rdx)
    then show ?thesis using finishes_pop[OF top, of t once a rdx] fine by simp
  next
    case (Pop_Cas once a rbx rdx)
    then show ?thesis using finishes_pop_cas[of s t once] top push[of 7] by simp
  next
    case (Leaving e)
    then show ?thesis using finishes_leaving[of s t e] push[of 1] by simp
  qed (use assms(2) fine in simp_all)
qed

text \<open>
  C21. The stack needs no lock: wherever the threads have been stopped, a thread that is in a call
  and runs alone returns from it after at most ten accesses, and the other threads stay where
  they are.
\<close>
theorem lifo_runs_alone:
  assumes "lf_reach reload s" and "lpc s t \<noteq> Idle"
  shows "\<exists>n s' e. n \<le> 10 \<and> (lf_step reload ^^ n) s s' \<and> lpc s' = (lpc s)(t := Idle) \<and>
    returned s' = (returned s)(t := returned s t @ [e])"
  using finishes_any[of s t reload] lf_reach_inv[OF assms(1)] assms(2) unfolding finishes_def by blast

lemma lifo_runs_alone_witness:
  "\<exists>(s :: 64 word lf_sys) n s' e. lf_reach True s \<and> n \<le> 10 \<and> (lf_step True ^^ n) s s' \<and>
     lpc s' 0 = Idle \<and> returned s' 0 = returned s 0 @ [e]"
proof -
  obtain s :: "64 word lf_sys" where s: "lf_reach True s" "lpc s = only_at 0 (Leaving (Pushed 5))"
    using lf_start_pushed[of 5] by blast
  then have "lpc s 0 \<noteq> Idle" by simp
  from lifo_runs_alone[OF s(1) this] obtain n s' e where "n \<le> 10" "(lf_step True ^^ n) s s'"
    "lpc s' = (lpc s)(0 := Idle)" "returned s' = (returned s)(0 := returned s 0 @ [e])" by blast
  then show ?thesis using s(1) by (intro exI[of _ s] exI[of _ n] exI[of _ s'] exI[of _ e]) simp
qed

end
