(* ===== verification/Singleton.thy ===== *)
theory Singleton
  imports Selib_Prelude
begin

text \<open>
  \<^verbatim>\<open>util/singleton.h\<close> and the guard of \<^verbatim>\<open>util/autolock.h\<close> it uses. \<^verbatim>\<open>ProcessSingleton\<close> is run by
  threads that interleave at every access to \<^verbatim>\<open>_instance\<close> and to the mutex; memory is
  sequentially consistent (the code has neither a fence nor an atomic type). An object is an
  address, its constructor runs before \<^verbatim>\<open>new\<close> answers. In \<^verbatim>\<open>ThreadSingleton\<close> a thread uses its own
  slot only, so whole calls are the steps.
\<close>

section \<open>The guard\<close>

text \<open>The mutex of a type, with the thread that holds it. A lock that is taken blocks the caller.\<close>

type_synonym mutex = "nat option"

definition autolock_enter :: "mutex \<Rightarrow> nat \<Rightarrow> mutex option" where
  "autolock_enter m t = (if m = None then Some (Some t) else None)"

definition autolock_leave :: "mutex \<Rightarrow> mutex" where
  "autolock_leave m = None"

section \<open>ProcessSingleton\<close>

text \<open>Where a thread is: what it does next. \<open>Get_Read\<close> is the \<^verbatim>\<open>return _instance\<close> at the end.\<close>

datatype ps_pc =
    Ps_Idle
  | Get_Check
  | Get_Lock
  | Get_Recheck
  | Get_New
  | Get_Store ptr
  | Get_Unlock
  | Get_Read
  | Bind_Lock ptr
  | Bind_Check ptr
  | Bind_Store ptr
  | Bind_Unlock

text \<open>\<open>made\<close> has the objects constructed, \<open>rets\<close> the answers of \<^verbatim>\<open>get_instance\<close> in order of time.\<close>

record ps_sys =
  inst :: ptr
  mtx :: mutex
  fresh :: nat
  made :: "nat list"
  rets :: "(nat \<times> ptr) list"
  ps_at :: "nat \<Rightarrow> ps_pc"

definition ps_init :: ps_sys where
  "ps_init = \<lparr>inst = None, mtx = None, fresh = 0, made = [], rets = [], ps_at = (\<lambda>_. Ps_Idle)\<rparr>"

abbreviation ps_goto :: "ps_sys \<Rightarrow> nat \<Rightarrow> ps_pc \<Rightarrow> ps_sys" where
  "ps_goto s t c \<equiv> s\<lparr>ps_at := (ps_at s)(t := c)\<rparr>"

definition ps_enter :: "ps_sys \<Rightarrow> nat \<Rightarrow> ps_pc \<Rightarrow> ps_sys" where
  "ps_enter s t c =
     (case autolock_enter (mtx s) t of None \<Rightarrow> s | Some m \<Rightarrow> (ps_goto s t c)\<lparr>mtx := m\<rparr>)"

text \<open>One step of a thread inside a call; \<open>mem\<close> tells whether \<^verbatim>\<open>new (std::nothrow)\<close> succeeds.\<close>

definition get_step :: "bool \<Rightarrow> nat \<Rightarrow> ps_sys \<Rightarrow> ps_sys" where
  "get_step mem t s =
     (case ps_at s t of
        Get_Check \<Rightarrow> ps_goto s t (if inst s = None then Get_Lock else Get_Read)
      | Get_Lock \<Rightarrow> ps_enter s t Get_Recheck
      | Get_Recheck \<Rightarrow> ps_goto s t (if inst s = None then Get_New else Get_Unlock)
      | Get_New \<Rightarrow>
          (if mem
           then (ps_goto s t (Get_Store (Some (fresh s))))\<lparr>fresh := fresh s + 1, made := made s @ [fresh s]\<rparr>
           else ps_goto s t (Get_Store None))
      | Get_Store p \<Rightarrow> (ps_goto s t Get_Unlock)\<lparr>inst := p\<rparr>
      | Get_Unlock \<Rightarrow> (ps_goto s t Get_Read)\<lparr>mtx := autolock_leave (mtx s)\<rparr>
      | Get_Read \<Rightarrow> (ps_goto s t Ps_Idle)\<lparr>rets := rets s @ [(t, inst s)]\<rparr>
      | _ \<Rightarrow> s)"

definition bind_step :: "nat \<Rightarrow> ps_sys \<Rightarrow> ps_sys" where
  "bind_step t s =
     (case ps_at s t of
        Bind_Lock p \<Rightarrow> ps_enter s t (Bind_Check p)
      | Bind_Check p \<Rightarrow> ps_goto s t (if inst s = None then Bind_Store p else Bind_Unlock)
      | Bind_Store p \<Rightarrow> (ps_goto s t Bind_Unlock)\<lparr>inst := p\<rparr>
      | Bind_Unlock \<Rightarrow> (ps_goto s t Ps_Idle)\<lparr>mtx := autolock_leave (mtx s)\<rparr>
      | _ \<Rightarrow> s)"

text \<open>An action of a thread: it calls a function when it is in none, or makes one step.\<close>

datatype ps_act = Call_Get | Call_Bind ptr | Move bool

fun ps_do :: "nat \<times> ps_act \<Rightarrow> ps_sys \<Rightarrow> ps_sys" where
  "ps_do (t, Call_Get) s = (if ps_at s t = Ps_Idle then ps_goto s t Get_Check else s)"
| "ps_do (t, Call_Bind p) s = (if ps_at s t = Ps_Idle then ps_goto s t (Bind_Lock p) else s)"
| "ps_do (t, Move mem) s = get_step mem t (bind_step t s)"

definition ps_run :: "(nat \<times> ps_act) list \<Rightarrow> ps_sys \<Rightarrow> ps_sys" where
  "ps_run acts s = fold ps_do acts s"

lemma ps_run_simps [simp]:
  "ps_run [] s = s"
  "ps_run (a # acts) s = ps_run acts (ps_do a s)"
  "ps_run (as @ bs) s = ps_run bs (ps_run as s)"
  by (simp_all add: ps_run_def)

section \<open>The invariant\<close>

fun crit :: "ps_pc \<Rightarrow> bool" where
  "crit Get_Recheck = True"
| "crit Get_New = True"
| "crit (Get_Store p) = True"
| "crit Get_Unlock = True"
| "crit (Bind_Check p) = True"
| "crit (Bind_Store p) = True"
| "crit Bind_Unlock = True"
| "crit _ = False"

text \<open>The places that a thread reaches on finding the instance null.\<close>

fun found_null :: "ps_pc \<Rightarrow> bool" where
  "found_null Get_New = True"
| "found_null (Get_Store p) = True"
| "found_null (Bind_Store p) = True"
| "found_null _ = False"

definition rets_ok :: "ps_sys \<Rightarrow> bool" where
  "rets_ok s \<longleftrightarrow> (\<exists>k n. map snd (rets s) = replicate k None @ replicate n (inst s))"

definition made_ok :: "ps_sys \<Rightarrow> bool" where
  "made_ok s \<longleftrightarrow> made s = [] \<or>
     (\<exists>p. made s = [p] \<and> (inst s = Some p \<or> inst s = None \<and> (\<exists>t. ps_at s t = Get_Store (Some p))))"

definition ps_inv :: "ps_sys \<Rightarrow> bool" where
  "ps_inv s \<longleftrightarrow> (\<forall>t. crit (ps_at s t) \<longleftrightarrow> mtx s = Some t) \<and>
     (\<forall>t. found_null (ps_at s t) \<longrightarrow> inst s = None) \<and>
     (\<forall>t p. ps_at s t = Get_Store (Some p) \<longrightarrow> made s = [p]) \<and> made_ok s \<and> rets_ok s"

lemma ps_inv_init: "ps_inv ps_init"
  by (simp add: ps_inv_def ps_init_def made_ok_def rets_ok_def)

lemma crit_found_null: "found_null c \<Longrightarrow> crit c"
  by (cases c) auto

lemma ps_invI:
  assumes "\<And>u. crit (ps_at s u) \<longleftrightarrow> mtx s = Some u" and "\<And>u. found_null (ps_at s u) \<Longrightarrow> inst s = None"
    and "\<And>u p. ps_at s u = Get_Store (Some p) \<Longrightarrow> made s = [p]" and "made_ok s" and "rets_ok s"
  shows "ps_inv s"
  using assms unfolding ps_inv_def by blast

lemma ps_invD:
  assumes "ps_inv s"
  shows "crit (ps_at s u) \<longleftrightarrow> mtx s = Some u" and "found_null (ps_at s u) \<Longrightarrow> inst s = None"
    and "ps_at s u = Get_Store (Some p) \<Longrightarrow> made s = [p]" and "made_ok s" and "rets_ok s"
  using assms unfolding ps_inv_def by blast+

text \<open>The objects stay accounted for when no thread leaves or reaches the store of one.\<close>

lemma made_ok_keep:
  assumes "made_ok s" and "made s' = made s" and "inst s' = inst s"
    and "\<And>u p. ps_at s u = Get_Store (Some p) \<Longrightarrow> ps_at s' u = Get_Store (Some p)"
  shows "made_ok s'"
  using assms unfolding made_ok_def by metis

lemma rets_ok_keep: "rets_ok s \<Longrightarrow> rets s' = rets s \<Longrightarrow> inst s' = inst s \<Longrightarrow> rets_ok s'"
  by (simp add: rets_ok_def)

text \<open>Moving a thread without a change to the shared state.\<close>

lemma ps_inv_goto:
  assumes "ps_inv s" and "crit c = crit (ps_at s t)" and "found_null c \<Longrightarrow> inst s = None"
    and "\<And>p. c \<noteq> Get_Store (Some p)" and "\<And>p. ps_at s t \<noteq> Get_Store (Some p)"
  shows "ps_inv (ps_goto s t c)"
proof (rule ps_invI)
  note I = ps_invD[OF assms(1)]
  let ?s = "ps_goto s t c"
  show "crit (ps_at ?s u) \<longleftrightarrow> mtx ?s = Some u" for u using I(1)[of u] assms(2) by (cases "u = t") simp_all
  show "found_null (ps_at ?s u) \<Longrightarrow> inst ?s = None" for u
    using I(2)[of u] assms(3) by (cases "u = t") simp_all
  show "ps_at ?s u = Get_Store (Some p) \<Longrightarrow> made ?s = [p]" for u p
    using I(3)[of u p] assms(4) by (cases "u = t") simp_all
  show "made_ok ?s" by (rule made_ok_keep[OF I(4)]) (use assms(5) in auto)
  show "rets_ok ?s" by (rule rets_ok_keep[OF I(5)]) simp_all
qed

lemma ps_inv_enter:
  assumes "ps_inv s" and "\<not> crit (ps_at s t)" and "crit c" and "\<not> found_null c"
  shows "ps_inv (ps_enter s t c)"
proof (cases "mtx s")
  case None
  note I = ps_invD[OF assms(1)]
  let ?s = "(ps_goto s t c)\<lparr>mtx := Some t\<rparr>"
  have no: "\<not> crit (ps_at s u)" for u using I(1)[of u] None by simp
  have "ps_inv ?s"
  proof (rule ps_invI)
    show "crit (ps_at ?s u) \<longleftrightarrow> mtx ?s = Some u" for u using no[of u] assms(3) by auto
    show "found_null (ps_at ?s u) \<Longrightarrow> inst ?s = None" for u
      using I(2)[of u] assms(4) by (cases "u = t") simp_all
    show "ps_at ?s u = Get_Store (Some p) \<Longrightarrow> made ?s = [p]" for u p
      using I(3)[of u p] assms(4) by (cases "u = t") auto
    show "made_ok ?s" by (rule made_ok_keep[OF I(4)]) (use assms(2) in auto)
    show "rets_ok ?s" by (rule rets_ok_keep[OF I(5)]) simp_all
  qed
  then show ?thesis using None by (simp add: ps_enter_def autolock_enter_def)
next
  case (Some u)
  then show ?thesis using assms(1) by (simp add: ps_enter_def autolock_enter_def)
qed

lemma ps_inv_leave:
  assumes "ps_inv s" and "crit (ps_at s t)" and "\<not> found_null (ps_at s t)" and "\<not> crit c"
  shows "ps_inv ((ps_goto s t c)\<lparr>mtx := None\<rparr>)"
proof (rule ps_invI)
  note I = ps_invD[OF assms(1)]
  let ?s = "(ps_goto s t c)\<lparr>mtx := None\<rparr>"
  have "mtx s = Some t" using assms(2) I(1)[of t] by simp
  then have t: "crit (ps_at s u) \<longleftrightarrow> u = t" for u using I(1)[of u] by auto
  have c: "\<not> found_null c" using assms(4) crit_found_null by blast
  show "crit (ps_at ?s u) \<longleftrightarrow> mtx ?s = Some u" for u using t[of u] assms(4) by simp
  show "found_null (ps_at ?s u) \<Longrightarrow> inst ?s = None" for u using I(2)[of u] c by (cases "u = t") simp_all
  show "ps_at ?s u = Get_Store (Some p) \<Longrightarrow> made ?s = [p]" for u p
    using I(3)[of u p] c by (cases "u = t") auto
  show "made_ok ?s" by (rule made_ok_keep[OF I(4)]) (use assms(3) in auto)
  show "rets_ok ?s" by (rule rets_ok_keep[OF I(5)]) simp_all
qed

text \<open>Inside the critical section only the holder can have found the instance null.\<close>

lemma ps_inv_alone:
  assumes "ps_inv s" and "crit (ps_at s t)" and "found_null (ps_at s u)"
  shows "u = t"
proof -
  have "mtx s = Some t" using assms(2) ps_invD(1)[OF assms(1), of t] by simp
  moreover have "mtx s = Some u" using crit_found_null[OF assms(3)] ps_invD(1)[OF assms(1), of u] by simp
  ultimately show ?thesis by simp
qed

lemma rets_ok_none: "rets_ok s \<Longrightarrow> inst s = None \<Longrightarrow> rets s' = rets s \<Longrightarrow> rets_ok s'"
  unfolding rets_ok_def by (metis append_Nil2 replicate_0 replicate_add)

lemma ps_inv_store:
  assumes "ps_inv s" and "found_null (ps_at s t)" and "crit c" and "\<not> found_null c"
    and "ps_at s t = Get_Store p \<or> (\<forall>q. ps_at s t \<noteq> Get_Store q)"
  shows "ps_inv ((ps_goto s t c)\<lparr>inst := p\<rparr>)"
proof (rule ps_invI)
  note I = ps_invD[OF assms(1)]
  let ?s = "(ps_goto s t c)\<lparr>inst := p\<rparr>"
  have crit: "crit (ps_at s t)" using assms(2) by (rule crit_found_null)
  have null: "inst s = None" using I(2) assms(2) .
  have alone: "\<not> found_null (ps_at s u)" if "u \<noteq> t" for u using ps_inv_alone[OF assms(1) crit] that by blast
  have none: "ps_at s u \<noteq> Get_Store q" if "u \<noteq> t" for u q using alone[OF that] by auto
  show "crit (ps_at ?s u) \<longleftrightarrow> mtx ?s = Some u" for u using I(1)[of u] crit assms(3) by (cases "u = t") simp_all
  show "found_null (ps_at ?s u) \<Longrightarrow> inst ?s = None" for u
    using alone[of u] assms(4) by (cases "u = t") simp_all
  show "ps_at ?s u = Get_Store (Some q) \<Longrightarrow> made ?s = [q]" for u q
    using none[of u "Some q"] assms(4) by (cases "u = t") auto
  have "made s = [] \<or> (\<exists>q. made s = [q] \<and> ps_at s t = Get_Store (Some q))"
    using I(4) null none unfolding made_ok_def by (metis option.distinct(1))
  then show "made_ok ?s" using assms(5) by (auto simp: made_ok_def)
  show "rets_ok ?s" by (rule rets_ok_none[OF I(5) null]) simp
qed

lemma ps_inv_new:
  assumes "ps_inv s" and "ps_at s t = Get_New"
  shows "ps_inv ((ps_goto s t (Get_Store (Some a)))\<lparr>fresh := n, made := made s @ [a]\<rparr>)"
proof (rule ps_invI)
  note I = ps_invD[OF assms(1)]
  let ?s = "(ps_goto s t (Get_Store (Some a)))\<lparr>fresh := n, made := made s @ [a]\<rparr>"
  have crit: "crit (ps_at s t)" and null: "inst s = None" using assms(2) I(2)[of t] by simp_all
  have alone: "\<not> found_null (ps_at s u)" if "u \<noteq> t" for u using ps_inv_alone[OF assms(1) crit] that by blast
  have none: "ps_at s u \<noteq> Get_Store q" for u q using alone[of u] assms(2) by (cases "u = t") auto
  have made: "made s = []" using I(4) null none by (simp add: made_ok_def)
  show "crit (ps_at ?s u) \<longleftrightarrow> mtx ?s = Some u" for u using I(1)[of u] crit by (cases "u = t") simp_all
  show "found_null (ps_at ?s u) \<Longrightarrow> inst ?s = None" for u using null by simp
  show "ps_at ?s u = Get_Store (Some q) \<Longrightarrow> made ?s = [q]" for u q
    using none[of u "Some q"] made by (cases "u = t") simp_all
  show "made_ok ?s" using made null by (auto simp: made_ok_def)
  show "rets_ok ?s" by (rule rets_ok_keep[OF I(5)]) simp_all
qed

lemma ps_inv_ret:
  assumes "ps_inv s" and "ps_at s t = Get_Read"
  shows "ps_inv ((ps_goto s t Ps_Idle)\<lparr>rets := rets s @ [(t, inst s)]\<rparr>)"
proof -
  let ?s = "ps_goto s t Ps_Idle"
  have "ps_inv ?s" by (rule ps_inv_goto[OF assms(1)]) (simp_all add: assms(2))
  note I = ps_invD[OF this]
  show ?thesis
  proof (rule ps_invI)
    obtain k n where "map snd (rets s) = replicate k None @ replicate n (inst s)"
      using I(5) by (auto simp: rets_ok_def)
    then have "map snd (rets s @ [(t, inst s)]) = replicate k None @ replicate (Suc n) (inst s)"
      by (simp flip: replicate_append_same)
    then show "rets_ok (?s\<lparr>rets := rets s @ [(t, inst s)]\<rparr>)"
      unfolding rets_ok_def by (intro exI[of _ k] exI[of _ "Suc n"]) simp
    show "made_ok (?s\<lparr>rets := rets s @ [(t, inst s)]\<rparr>)" by (rule made_ok_keep[OF I(4)]) simp_all
  qed (use I(1-3) in simp_all)
qed

lemma get_step_inv: "ps_inv s \<Longrightarrow> ps_inv (get_step mem t s)"
proof -
  assume inv: "ps_inv s"
  note I = ps_invD[OF inv]
  show "ps_inv (get_step mem t s)"
  proof (cases "ps_at s t")
    case Get_Check
    have "ps_inv (ps_goto s t (if inst s = None then Get_Lock else Get_Read))"
      by (rule ps_inv_goto[OF inv]) (simp_all add: Get_Check split: if_splits)
    then show ?thesis by (simp add: get_step_def Get_Check)
  next
    case Get_Lock
    then show ?thesis using ps_inv_enter[OF inv, of t Get_Recheck] by (simp add: get_step_def)
  next
    case Get_Recheck
    have "ps_inv (ps_goto s t (if inst s = None then Get_New else Get_Unlock))"
      by (rule ps_inv_goto[OF inv]) (simp_all add: Get_Recheck split: if_splits)
    then show ?thesis by (simp add: get_step_def Get_Recheck)
  next
    case Get_New
    have "ps_inv (ps_goto s t (Get_Store None))"
      by (rule ps_inv_goto[OF inv]) (simp_all add: Get_New I(2)[of t])
    then show ?thesis using ps_inv_new[OF inv Get_New] by (simp add: get_step_def Get_New)
  next
    case (Get_Store p)
    then show ?thesis using ps_inv_store[OF inv, of t Get_Unlock p] by (simp add: get_step_def)
  next
    case Get_Unlock
    then show ?thesis using ps_inv_leave[OF inv, of t Get_Read] by (simp add: get_step_def autolock_leave_def)
  next
    case Get_Read
    then show ?thesis using ps_inv_ret[OF inv Get_Read] by (simp add: get_step_def)
  qed (use inv in \<open>simp_all add: get_step_def\<close>)
qed

lemma bind_step_inv: "ps_inv s \<Longrightarrow> ps_inv (bind_step t s)"
proof -
  assume inv: "ps_inv s"
  show "ps_inv (bind_step t s)"
  proof (cases "ps_at s t")
    case (Bind_Lock p)
    then show ?thesis using ps_inv_enter[OF inv, of t "Bind_Check p"] by (simp add: bind_step_def)
  next
    case (Bind_Check p)
    have "ps_inv (ps_goto s t (if inst s = None then Bind_Store p else Bind_Unlock))"
      by (rule ps_inv_goto[OF inv]) (simp_all add: Bind_Check split: if_splits)
    then show ?thesis by (simp add: bind_step_def Bind_Check)
  next
    case (Bind_Store p)
    then show ?thesis using ps_inv_store[OF inv, of t Bind_Unlock p] by (simp add: bind_step_def)
  next
    case Bind_Unlock
    then show ?thesis using ps_inv_leave[OF inv, of t Ps_Idle] by (simp add: bind_step_def autolock_leave_def)
  qed (use inv in \<open>simp_all add: bind_step_def\<close>)
qed

lemma ps_do_inv: "ps_inv s \<Longrightarrow> ps_inv (ps_do a s)"
proof (cases "(a, s)" rule: ps_do.cases)
  case (1 t)
  assume "ps_inv s"
  then show ?thesis using 1 ps_inv_goto[of s Get_Check t] by simp
next
  case (2 t p)
  assume "ps_inv s"
  then show ?thesis using 2 ps_inv_goto[of s "Bind_Lock p" t] by simp
next
  case (3 t mem)
  assume "ps_inv s"
  then show ?thesis using 3 by (simp add: get_step_inv bind_step_inv)
qed

lemma ps_run_inv: "ps_inv s \<Longrightarrow> ps_inv (ps_run acts s)"
  by (induction acts arbitrary: s) (simp_all add: ps_do_inv)

section \<open>Progress\<close>

text \<open>What an action of one thread leaves alone, and what it never undoes.\<close>

lemma ps_do_other: "u \<noteq> t \<Longrightarrow> ps_at (ps_do (u, a) s) t = ps_at s t"
  by (cases a) (auto simp: get_step_def bind_step_def ps_enter_def Let_def split: ps_pc.split option.split)

lemma get_step_rets: "\<exists>rs. rets (get_step mem t s) = rets s @ rs"
  by (auto simp: get_step_def ps_enter_def split: ps_pc.split option.split)

lemma bind_step_rets: "rets (bind_step t s) = rets s"
  by (auto simp: bind_step_def ps_enter_def split: ps_pc.split option.split)

lemma ps_do_rets: "\<exists>rs. rets (ps_do a s) = rets s @ rs"
proof (cases "(a, s)" rule: ps_do.cases)
  case (3 t mem)
  then show ?thesis using get_step_rets[of mem t "bind_step t s"] by (simp add: bind_step_rets)
qed simp_all

lemma ps_run_rets: "\<exists>rs. rets (ps_run acts s) = rets s @ rs"
proof (induction acts arbitrary: s)
  case (Cons a acts)
  obtain rs rs' where "rets (ps_do a s) = rets s @ rs"
    and "rets (ps_run acts (ps_do a s)) = rets (ps_do a s) @ rs'"
    using ps_do_rets[of a s] Cons.IH[of "ps_do a s"] by blast
  then show ?case by simp
qed simp

lemma get_step_inst: "\<not> found_null (ps_at s t) \<Longrightarrow> inst (get_step mem t s) = inst s"
  by (auto simp: get_step_def ps_enter_def split: ps_pc.split option.split)

lemma bind_step_inst: "\<not> found_null (ps_at s t) \<Longrightarrow> inst (bind_step t s) = inst s"
  by (auto simp: bind_step_def ps_enter_def split: ps_pc.split option.split)

lemma ps_do_inst:
  assumes "ps_inv s" and "inst s = Some p"
  shows "inst (ps_do a s) = Some p"
proof (cases "(a, s)" rule: ps_do.cases)
  case (3 t mem)
  have "inst (bind_step t s) = Some p"
    using bind_step_inst ps_invD(2)[OF assms(1)] assms(2) by (metis option.distinct(1))
  moreover have "ps_inv (bind_step t s)" using assms(1) by (rule bind_step_inv)
  ultimately show ?thesis using 3 get_step_inst ps_invD(2)
    by (metis Pair_inject option.distinct(1) ps_do.simps(3))
qed (use assms in simp_all)

lemma ps_run_inst: "ps_inv s \<Longrightarrow> inst s = Some p \<Longrightarrow> inst (ps_run acts s) = Some p"
  by (induction acts arbitrary: s) (simp_all add: ps_do_inv ps_do_inst)

text \<open>The moves a thread has left when nobody else holds the mutex.\<close>

fun left :: "ps_pc \<Rightarrow> nat" where
  "left Ps_Idle = 0"
| "left Get_Check = 7"
| "left Get_Lock = 6"
| "left Get_Recheck = 5"
| "left Get_New = 4"
| "left (Get_Store p) = 3"
| "left Get_Unlock = 2"
| "left Get_Read = 1"
| "left (Bind_Lock p) = 4"
| "left (Bind_Check p) = 3"
| "left (Bind_Store p) = 2"
| "left Bind_Unlock = 1"

lemma left_move:
  assumes "mtx s = None \<or> mtx s = Some t" and "crit (ps_at s t) \<longleftrightarrow> mtx s = Some t"
  shows "left (ps_at (ps_do (t, Move mem) s) t) \<le> left (ps_at s t) - 1 \<and>
    (mtx (ps_do (t, Move mem) s) = None \<or> mtx (ps_do (t, Move mem) s) = Some t)"
  using assms
  by (cases "ps_at s t")
    (auto simp: get_step_def bind_step_def ps_enter_def autolock_enter_def autolock_leave_def)

lemma left_moves:
  assumes "ps_inv s" and "mtx s = None \<or> mtx s = Some t" and "left (ps_at s t) \<le> n"
  shows "ps_at (ps_run (replicate n (t, Move mem)) s) t = Ps_Idle \<and>
    mtx (ps_run (replicate n (t, Move mem)) s) = None"
  using assms
proof (induction n arbitrary: s)
  case 0
  then have "ps_at s t = Ps_Idle" by (cases "ps_at s t") simp_all
  then show ?case using 0 ps_invD(1)[OF 0(1), of t] by simp
next
  case (Suc n)
  let ?s = "ps_do (t, Move mem) s"
  have "left (ps_at ?s t) \<le> n" "mtx ?s = None \<or> mtx ?s = Some t"
    using left_move[OF Suc.prems(2) ps_invD(1)[OF Suc.prems(1)], of mem] Suc.prems(3) by auto
  from Suc.IH[OF ps_do_inv[OF Suc.prems(1)] this(2,1)] show ?case by (simp del: ps_do.simps)
qed

lemma left_le: "left c \<le> 7"
  by (cases c) simp_all

fun moves :: "nat \<Rightarrow> (nat \<times> ps_act) list \<Rightarrow> nat" where
  "moves t [] = 0"
| "moves t ((u, Move mem) # acts) = (if u = t then 1 else 0) + moves t acts"
| "moves t ((u, a) # acts) = moves t acts"

text \<open>Once there is an instance, \<^verbatim>\<open>get_instance\<close> needs two moves of its own, whatever the others do.\<close>

lemma get_answers:
  assumes "ps_inv s" and "inst s = Some p"
    and "ps_at s t = Get_Read \<and> 1 \<le> moves t acts \<or> ps_at s t = Get_Check \<and> 2 \<le> moves t acts"
  shows "(t, Some p) \<in> set (drop (length (rets s)) (rets (ps_run acts s)))"
  using assms
proof (induction acts arbitrary: s)
  case Nil
  then show ?case by simp
next
  case (Cons act acts)
  obtain u a where act: "act = (u, a)" by (cases act)
  let ?s = "ps_do (u, a) s"
  have inv: "ps_inv ?s" and ins: "inst ?s = Some p"
    using Cons.prems(1,2) by (simp_all add: ps_do_inv ps_do_inst)
  have run: "ps_run (act # acts) s = ps_run acts ?s" by (simp add: act del: ps_do.simps)
  obtain rs where rs: "rets ?s = rets s @ rs" using ps_do_rets by blast
  obtain rs' where rs': "rets (ps_run acts ?s) = rets ?s @ rs'" using ps_run_rets by blast
  show ?case
  proof (cases "u = t \<and> (\<exists>mem. a = Move mem) \<and> ps_at s t = Get_Read")
    case True
    then have "rs = [(t, Some p)]"
      using rs Cons.prems(2) by (auto simp: get_step_def bind_step_def)
    then show ?thesis using run rs rs' by simp
  next
    case False
    have "ps_at ?s t = Get_Read \<and> 1 \<le> moves t acts \<or> ps_at ?s t = Get_Check \<and> 2 \<le> moves t acts"
    proof (cases "u = t")
      case u: True
      then show ?thesis using False Cons.prems(2,3) act
        by (cases a) (auto simp: get_step_def bind_step_def)
    next
      case u: False
      then show ?thesis using Cons.prems(3) ps_do_other[OF u, of a s] act by (cases a) simp_all
    qed
    from Cons.IH[OF inv ins this] show ?thesis using run rs rs' by simp
  qed
qed

section \<open>ThreadSingleton\<close>

text \<open>
  \<open>key_made\<close> is what \<^verbatim>\<open>Key_once\<close> records, \<open>slots\<close> the value of the key in each thread. What the
  init routine answers and what \<^verbatim>\<open>new\<close> answers is part of the call: \<open>Some q\<close> when a routine was
  passed that answered \<open>q\<close>. At the exit of a thread the system clears its slot and hands a value
  that was not null to the destructor.
\<close>

record ts_sys =
  key_made :: bool
  tls :: "nat \<Rightarrow> ptr"
  deleted :: "nat list"

datatype ts_act = Ts_Get nat "ptr option" ptr | Ts_Exit nat

definition make_key :: "ts_sys \<Rightarrow> ts_sys" where
  "make_key s = (if key_made s then s else s\<lparr>key_made := True, tls := \<lambda>_. None\<rparr>)"

definition ts_get :: "nat \<Rightarrow> ptr option \<Rightarrow> ptr \<Rightarrow> ts_sys \<Rightarrow> ts_sys \<times> ptr" where
  "ts_get t init new s =
     (let s = make_key s
      in (case tls s t of
            Some p \<Rightarrow> (s, Some p)
          | None \<Rightarrow>
              (let ret = (case init of Some q \<Rightarrow> q | None \<Rightarrow> new)
               in (s\<lparr>tls := (tls s)(t := ret)\<rparr>, ret))))"

definition ts_destructor :: "nat \<Rightarrow> nat \<Rightarrow> ts_sys \<Rightarrow> ts_sys" where
  "ts_destructor t obj s = s\<lparr>deleted := deleted s @ [obj], tls := (tls s)(t := None)\<rparr>"

definition ts_exit :: "nat \<Rightarrow> ts_sys \<Rightarrow> ts_sys" where
  "ts_exit t s =
     (if key_made s
      then (case tls s t of
              None \<Rightarrow> s
            | Some p \<Rightarrow> ts_destructor t p (s\<lparr>tls := (tls s)(t := None)\<rparr>))
      else s)"

fun ts_do :: "ts_act \<Rightarrow> ts_sys \<Rightarrow> ts_sys" where
  "ts_do (Ts_Get t init new) s = fst (ts_get t init new s)"
| "ts_do (Ts_Exit t) s = ts_exit t s"

definition ts_init :: ts_sys where
  "ts_init = \<lparr>key_made = False, tls = (\<lambda>_. None), deleted = []\<rparr>"

definition ts_run :: "ts_act list \<Rightarrow> ts_sys" where
  "ts_run acts = fold ts_do acts ts_init"

lemma ts_run_simps [simp]:
  "ts_run [] = ts_init"
  "ts_run (acts @ [a]) = ts_do a (ts_run acts)"
  by (simp_all add: ts_run_def)

text \<open>The objects a call may take up.\<close>

fun offered :: "ts_act \<Rightarrow> nat list" where
  "offered (Ts_Get t init new) = (case (case init of Some q \<Rightarrow> q | None \<Rightarrow> new) of None \<Rightarrow> [] | Some p \<Rightarrow> [p])"
| "offered (Ts_Exit t) = []"

lemma ts_unmade: "\<not> key_made (ts_run acts) \<Longrightarrow> tls (ts_run acts) = (\<lambda>_. None)"
proof (induction acts rule: rev_induct)
  case (snoc a acts)
  then show ?case by (cases a) (auto simp: ts_get_def make_key_def ts_exit_def ts_destructor_def Let_def split: option.splits)
qed (simp add: ts_init_def)

lemma make_key_tls [simp]: "tls (make_key (ts_run acts)) = tls (ts_run acts)"
  using ts_unmade[of acts] by (simp add: make_key_def)

lemma ts_get_run:
  "ts_get t init new (ts_run acts) =
     (case tls (ts_run acts) t of
        Some p \<Rightarrow> (make_key (ts_run acts), Some p)
      | None \<Rightarrow>
          ((make_key (ts_run acts))\<lparr>tls := (tls (ts_run acts))(t := case init of Some q \<Rightarrow> q | None \<Rightarrow> new)\<rparr>,
           case init of Some q \<Rightarrow> q | None \<Rightarrow> new))"
  by (simp add: ts_get_def Let_def split: option.split)

lemma ts_exit_run:
  "ts_exit t (ts_run acts) =
     (case tls (ts_run acts) t of
        None \<Rightarrow> ts_run acts
      | Some p \<Rightarrow> (ts_run acts)\<lparr>deleted := deleted (ts_run acts) @ [p], tls := (tls (ts_run acts))(t := None)\<rparr>)"
  using ts_unmade[of acts] by (auto simp: ts_exit_def ts_destructor_def split: option.split)

text \<open>Slots \<open>T\<close> hold different objects out of \<open>A\<close>, none of them among the deleted \<open>D\<close>.\<close>

definition own :: "(nat \<Rightarrow> ptr) \<Rightarrow> nat list \<Rightarrow> nat list \<Rightarrow> bool" where
  "own T D A \<longleftrightarrow> set D \<subseteq> set A \<and> distinct D \<and>
     (\<forall>t p. T t = Some p \<longrightarrow> p \<in> set A \<and> p \<notin> set D \<and> (\<forall>u. T u = Some p \<longrightarrow> u = t))"

lemma own_put:
  assumes "own T D A" and "distinct (A @ B)" and "B = (case q of None \<Rightarrow> [] | Some p \<Rightarrow> [p])" and "T t = None"
  shows "own (T(t := q)) D (A @ B)"
proof (cases q)
  case None
  then have "T(t := q) = T" using assms(4) by auto
  then show ?thesis using assms None by (simp add: own_def)
next
  case (Some p)
  then have "p \<notin> set A" using assms(2,3) by simp
  then have "T u \<noteq> Some p" "p \<notin> set D" for u using assms(1) by (auto simp: own_def)
  then show ?thesis using assms(1,3) Some by (simp add: own_def) blast
qed

lemma own_drop:
  assumes "own T D A" and "T t = Some p"
  shows "own (T(t := None)) (D @ [p]) A"
  using assms unfolding own_def by (simp add: subset_iff) metis

lemma own_more: "own T D A \<Longrightarrow> own T D (A @ B)"
  unfolding own_def by (simp add: subset_iff)

lemma ts_own:
  "distinct (concat (map offered acts)) \<Longrightarrow>
   own (tls (ts_run acts)) (deleted (ts_run acts)) (concat (map offered acts))"
proof (induction acts rule: rev_induct)
  case (snoc a acts)
  then have IH: "own (tls (ts_run acts)) (deleted (ts_run acts)) (concat (map offered acts))" by simp
  have del: "deleted (make_key s) = deleted s" for s by (simp add: make_key_def)
  show ?case
  proof (cases a)
    case (Ts_Exit t)
    then show ?thesis using IH own_drop[OF IH, of t]
      by (cases "tls (ts_run acts) t") (simp_all add: ts_exit_run fun_upd_def)
  next
    case (Ts_Get t init new)
    then have "own (tls (ts_run acts)) (deleted (ts_run acts)) (concat (map offered acts) @ offered a)"
      using own_more[OF IH] by blast
    moreover have "own ((tls (ts_run acts))(t := case init of Some q \<Rightarrow> q | None \<Rightarrow> new)) (deleted (ts_run acts))
        (concat (map offered acts) @ offered a)" if "tls (ts_run acts) t = None"
      by (rule own_put[OF IH _ _ that]) (use snoc.prems Ts_Get in simp_all)
    ultimately show ?thesis using Ts_Get
      by (cases "tls (ts_run acts) t") (simp_all add: ts_get_run del fun_upd_def)
  qed
qed (simp add: ts_init_def own_def)

lemma ts_stays:
  assumes "tls (ts_run acts) t = Some p" and "Ts_Exit t \<notin> set rest"
  shows "tls (ts_run (acts @ rest)) t = Some p"
  using assms(2)
proof (induction rest rule: rev_induct)
  case (snoc a rest)
  then have "tls (ts_run (acts @ rest)) t = Some p" by simp
  moreover have "ts_run (acts @ rest @ [a]) = ts_do a (ts_run (acts @ rest))"
    using ts_run_simps(2)[of "acts @ rest" a] by simp
  ultimately show ?case using snoc.prems
    by (cases a) (auto simp: ts_get_run ts_exit_run split: option.split)
qed (use assms in simp)

section \<open>Properties\<close>

text \<open>
  C13. However threads interleave their calls of \<open>get_instance\<close> and \<open>bind\<close>: at most one object is
  constructed and it is the instance or about to become it, one thread at a time is between lock
  and unlock, and the answers of \<open>get_instance\<close> are null at first (no memory yet) and from then
  on always the one instance.
\<close>
theorem singleton_one_instance:
  "let s = ps_run acts ps_init in
     (\<exists>k n. map snd (rets s) = replicate k None @ replicate n (inst s)) \<and>
     (made s = [] \<or> (\<exists>p. made s = [p] \<and>
       (inst s = Some p \<or> inst s = None \<and> (\<exists>t. ps_at s t = Get_Store (Some p))))) \<and>
     (\<exists>c. {t. crit (ps_at s t)} = set_option c)"
proof -
  let ?s = "ps_run acts ps_init"
  note I = ps_invD[OF ps_run_inv[OF ps_inv_init, of acts]]
  have "{t. crit (ps_at ?s t)} = set_option (mtx ?s)" using I(1) by (cases "mtx ?s") auto
  then show ?thesis using I(4,5) unfolding Let_def rets_ok_def made_ok_def by blast
qed



text \<open>
  Of objects that nobody offers twice, a thread that has got one from \<open>get_instance\<close> gets the
  same one until it exits; no other thread holds it, it is not deleted before, and the exit
  deletes it, once.
\<close>
theorem thread_singleton_own:
  assumes "Ts_Exit t \<notin> set rest" and "snd (ts_get t init new (ts_run acts)) = Some p" and "s = ts_run (acts @ Ts_Get t init new # rest)"
    and "distinct (concat (map offered (acts @ Ts_Get t init new # rest)))"
  shows "snd (ts_get t init' new' s) = Some p \<and> (\<forall>u. tls s u = Some p \<longleftrightarrow> u = t) \<and>
    p \<notin> set (deleted s) \<and> deleted (ts_exit t s) = deleted s @ [p] \<and> distinct (deleted s @ [p])"
proof -
  have "tls (ts_run (acts @ [Ts_Get t init new])) t = Some p"
    using assms(2) by (auto simp: ts_get_run split: option.splits)
  from ts_stays[OF this assms(1)] have t: "tls s t = Some p" using assms(3) by simp
  have "own (tls s) (deleted s) (concat (map offered (acts @ Ts_Get t init new # rest)))"
    unfolding assms(3) by (rule ts_own[OF assms(4)])
  then have "(\<forall>u. tls s u = Some p \<longleftrightarrow> u = t) \<and> p \<notin> set (deleted s) \<and> distinct (deleted s)"
    using t unfolding own_def by blast
  moreover have "snd (ts_get t init' new' s) = Some p" using t unfolding assms(3) by (simp add: ts_get_run)
  moreover have "deleted (ts_exit t s) = deleted s @ [p]" using t unfolding assms(3) by (simp add: ts_exit_run)
  ultimately show ?thesis by simp
qed

lemma thread_singleton_own_witness:
  "let s = ts_run ([Ts_Get 1 None (Some 4)] @ Ts_Get 0 None (Some 5) # [Ts_Exit 1, Ts_Get 2 (Some (Some 6)) None])
   in snd (ts_get 0 None (Some 7) s) = Some 5 \<and> deleted (ts_exit 0 s) = [4, 5]"
  using thread_singleton_own[of 0 "[Ts_Exit 1, Ts_Get 2 (Some (Some 6)) None]" None "Some 5" "[Ts_Get 1 None (Some 4)]" 5
      "ts_run ([Ts_Get 1 None (Some 4)] @ Ts_Get 0 None (Some 5) # [Ts_Exit 1, Ts_Get 2 (Some (Some 6)) None])" None "Some 7"]
  by (simp add: ts_run_def ts_init_def ts_get_def ts_exit_def ts_destructor_def make_key_def Let_def)

text \<open>
  A thread that enters a second guard of the same type blocks for good (the first example in the
  comment of the guard), and a routine that hands one object to two threads has it deleted twice.
\<close>

lemma autolock_twice: "autolock_enter (Some t) t = None"
  by (simp add: autolock_enter_def)

lemma thread_singleton_shared:
  "deleted (ts_run [Ts_Get 0 (Some (Some 3)) None, Ts_Get 1 (Some (Some 3)) None, Ts_Exit 0, Ts_Exit 1]) = [3, 3]"
  by (simp add: ts_run_def ts_init_def ts_get_def ts_exit_def ts_destructor_def make_key_def Let_def)

end
