(* ===== verification/Timer.thy ===== *)
theory Timer
  imports Selib_Prelude "HOL-Library.Signed_Division"
begin

text \<open>
  \<^verbatim>\<open>util/timer.h\<close>. A \<^verbatim>\<open>long\<close> has 64 bits; leaving its range is a fault. What the clock shows when
  it is read is an argument of the function that reads it.
\<close>

section \<open>The timer\<close>

record timespec =
  tv_sec :: int
  tv_nsec :: int

record timer =
  start_time :: timespec
  check_point_time :: timespec

definition long :: "int \<Rightarrow> int result" where
  "long a = (if - (2 ^ 63) \<le> a \<and> a < 2 ^ 63 then Ok a else Fault Int_Overflow)"

definition tm_clear :: timer where
  "tm_clear = (let zero = \<lparr>tv_sec = 0, tv_nsec = 0\<rparr> in \<lparr>start_time = zero, check_point_time = zero\<rparr>)"

definition tm_restart :: "timespec \<Rightarrow> timer \<Rightarrow> timer" where
  "tm_restart now tm =
     (let tm = tm\<lparr>start_time := now\<rparr> in tm\<lparr>check_point_time := start_time tm\<rparr>)"

definition tm_new :: "timespec \<Rightarrow> timer" where
  "tm_new now = tm_restart now tm_clear"

definition tm_check :: "timespec \<Rightarrow> timer \<Rightarrow> timer" where
  "tm_check now tm = tm\<lparr>check_point_time := now\<rparr>"

definition nsec_elapsed :: "timespec \<Rightarrow> timer \<Rightarrow> (timer \<times> int) result" where
  "nsec_elapsed now tm =
     (let tm = tm_check now tm in
      andthen (long (tv_sec (check_point_time tm) - tv_sec (start_time tm))) (\<lambda>secs.
      andthen (long (secs * 1000000000)) (\<lambda>a.
      andthen (long (tv_nsec (check_point_time tm) - tv_nsec (start_time tm))) (\<lambda>b.
      andthen (long (a + b)) (\<lambda>r. Ok (tm, r))))))"

definition usec_elapsed :: "timespec \<Rightarrow> timer \<Rightarrow> (timer \<times> int) result" where
  "usec_elapsed now tm = andthen (nsec_elapsed now tm) (\<lambda>(tm, r). Ok (tm, r sdiv 1000))"

definition msec_elapsed :: "timespec \<Rightarrow> timer \<Rightarrow> (timer \<times> int) result" where
  "msec_elapsed now tm = andthen (usec_elapsed now tm) (\<lambda>(tm, r). Ok (tm, r sdiv 1000))"

definition sec_elapsed :: "timespec \<Rightarrow> timer \<Rightarrow> (timer \<times> int) result" where
  "sec_elapsed now tm = andthen (msec_elapsed now tm) (\<lambda>(tm, r). Ok (tm, r sdiv 1000))"

section \<open>What the functions answer\<close>

text \<open>A reading of the clock, as nanoseconds.\<close>

definition nsec :: "timespec \<Rightarrow> int" where
  "nsec ts = tv_sec ts * 1000000000 + tv_nsec ts"

definition reading :: "timespec \<Rightarrow> bool" where
  "reading ts \<longleftrightarrow> 0 \<le> tv_sec ts \<and> tv_sec ts < 2 ^ 63 \<and> 0 \<le> tv_nsec ts \<and> tv_nsec ts < 1000000000"

definition elapsed :: "timer \<Rightarrow> timespec \<Rightarrow> int" where
  "elapsed tm now = nsec now - nsec (start_time tm)"

text \<open>The product is up to one second more than the sum, so that much room is needed.\<close>

lemma nsec_elapsed_exact:
  assumes "reading (start_time tm)" and "reading now"
    and "- (2 ^ 63) + 1000000000 \<le> elapsed tm now" and "elapsed tm now \<le> 2 ^ 63 - 1000000000"
  shows "nsec_elapsed now tm = Ok (tm_check now tm, elapsed tm now)"
proof -
  let ?s = "tv_sec now - tv_sec (start_time tm)" and ?n = "tv_nsec now - tv_nsec (start_time tm)"
  have e: "elapsed tm now = ?s * 1000000000 + ?n" by (simp add: elapsed_def nsec_def algebra_simps)
  have n: "- 1000000000 < ?n" "?n < 1000000000" using assms(1,2) by (auto simp: reading_def)
  have "long ?s = Ok ?s" using assms(1,2) by (auto simp: long_def reading_def)
  moreover have "long (?s * 1000000000) = Ok (?s * 1000000000)" using assms(3,4) e n by (auto simp: long_def)
  moreover have "long ?n = Ok ?n" using n by (simp add: long_def)
  moreover have "long (?s * 1000000000 + ?n) = Ok (?s * 1000000000 + ?n)"
    using assms(3,4) e by (auto simp: long_def)
  ultimately show ?thesis by (simp add: nsec_elapsed_def tm_check_def Let_def e)
qed

lemma sdiv_nonneg: "0 \<le> (a :: int) \<Longrightarrow> a sdiv 1000 = a div 1000"
  by (simp add: signed_divide_int_def sgn_if)

lemma usec_elapsed_exact:
  assumes "reading (start_time tm)" and "reading now"
    and "0 \<le> elapsed tm now" and "elapsed tm now \<le> 2 ^ 63 - 1000000000"
  shows "usec_elapsed now tm = Ok (tm_check now tm, elapsed tm now div 1000)"
  using nsec_elapsed_exact[OF assms(1,2) _ assms(4)] assms(3) by (simp add: usec_elapsed_def sdiv_nonneg)

section \<open>Properties\<close>

text \<open>
  A timer started at one reading of the clock and asked at a later one, less than 292 years
  on, answers the time between them in whole nanoseconds, microseconds, milliseconds and seconds,
  rounded down once although the code divides three times; no arithmetic overflows.
\<close>
theorem timer_units:
  assumes "reading t0" and "reading t1" and "nsec t0 \<le> nsec t1" and "nsec t1 - nsec t0 \<le> 2 ^ 63 - 1000000000"
    and "tm = tm_restart t0 tm0" and "e = nsec t1 - nsec t0"
  shows "nsec_elapsed t1 tm = Ok (tm_check t1 tm, e) \<and>
    usec_elapsed t1 tm = Ok (tm_check t1 tm, e div 1000) \<and>
    msec_elapsed t1 tm = Ok (tm_check t1 tm, e div 1000000) \<and>
    sec_elapsed t1 tm = Ok (tm_check t1 tm, e div 1000000000)"
proof -
  have s: "start_time tm = t0" by (simp add: assms(5) tm_restart_def Let_def)
  have e: "elapsed tm t1 = e" "0 \<le> e" using assms(3,6) by (simp_all add: elapsed_def s)
  have "nsec_elapsed t1 tm = Ok (tm_check t1 tm, e)"
    using nsec_elapsed_exact[of tm t1] assms(1,2,4,6) s e by simp
  moreover have u: "usec_elapsed t1 tm = Ok (tm_check t1 tm, e div 1000)"
    using usec_elapsed_exact[of tm t1] assms(1,2,4,6) s e by simp
  moreover have m: "msec_elapsed t1 tm = Ok (tm_check t1 tm, e div 1000000)"
    using u e(2) by (simp add: msec_elapsed_def sdiv_nonneg pos_imp_zdiv_nonneg_iff flip: zdiv_zmult2_eq)
  moreover have "sec_elapsed t1 tm = Ok (tm_check t1 tm, e div 1000000000)"
    using m e(2) by (simp add: sec_elapsed_def sdiv_nonneg pos_imp_zdiv_nonneg_iff flip: zdiv_zmult2_eq)
  ultimately show ?thesis by simp
qed

lemma timer_units_witness:
  "msec_elapsed \<lparr>tv_sec = 9, tv_nsec = 100000500\<rparr> (tm_new \<lparr>tv_sec = 7, tv_nsec = 900000000\<rparr>) =
     Ok (tm_check \<lparr>tv_sec = 9, tv_nsec = 100000500\<rparr> (tm_new \<lparr>tv_sec = 7, tv_nsec = 900000000\<rparr>), 1200)"
proof -
  let ?t0 = "\<lparr>tv_sec = 7, tv_nsec = 900000000\<rparr>" and ?t1 = "\<lparr>tv_sec = 9, tv_nsec = 100000500\<rparr>"
  have "reading ?t0" "reading ?t1" "nsec ?t0 \<le> nsec ?t1" "nsec ?t1 - nsec ?t0 \<le> 2 ^ 63 - 1000000000"
    and "1200000500 = nsec ?t1 - nsec ?t0"
    by (simp_all add: reading_def nsec_def)
  from timer_units[OF this(1-4) tm_new_def this(5)] show ?thesis by simp
qed

text \<open>Close to the end of the range the product overflows although the answer would fit.\<close>

lemma nsec_elapsed_overflow:
  "nsec_elapsed \<lparr>tv_sec = 9223372037, tv_nsec = 0\<rparr> (tm_new \<lparr>tv_sec = 0, tv_nsec = 999999999\<rparr>) = Fault Int_Overflow"
  by (simp add: nsec_elapsed_def tm_new_def tm_restart_def tm_check_def long_def Let_def)

end
