(* ===== verification/Cpu_Load.thy ===== *)
theory Cpu_Load
  imports Complex_Main Selib_Prelude Timer
begin

text \<open>
  \<^verbatim>\<open>monitor/cpu_switch_monitor.h\<close>: a thread sleeps for random times and averages how late it
  wakes up. A \<^verbatim>\<open>float\<close> is a rational; every operation that rounds applies \<open>rnd\<close>, the rounding of
  the platform. What \<^verbatim>\<open>rand_r\<close>, the clock and \<^verbatim>\<open>pthread_create\<close> answer are arguments. The object
  comes from \<^verbatim>\<open>ProcessSingleton\<close> (theory \<open>Singleton\<close>); \<open>None\<close> is its null answer.
\<close>

section \<open>The object\<close>

record cpu_load =
  seed :: int
  cpu_delay :: rat
  cl_run :: bool
  cl_tid :: "nat option"

definition cl_new :: "int \<Rightarrow> cpu_load" where
  "cl_new now = \<lparr>seed = now, cpu_delay = 0, cl_run = True, cl_tid = None\<rparr>"

text \<open>\<^verbatim>\<open>cpu_load\<close> returns the average as an \<^verbatim>\<open>int\<close>: the fraction is dropped.\<close>

definition int_range :: "int \<Rightarrow> int result" where
  "int_range a = (if - (2 ^ 31) \<le> a \<and> a < 2 ^ 31 then Ok a else Fault Int_Overflow)"

definition cl_load :: "cpu_load \<Rightarrow> int result" where
  "cl_load cl = int_range (if 0 \<le> cpu_delay cl then \<lfloor>cpu_delay cl\<rfloor> else \<lceil>cpu_delay cl\<rceil>)"

definition get_cpu_load :: "(rat \<Rightarrow> rat) \<Rightarrow> cpu_load option \<Rightarrow> rat result" where
  "get_cpu_load rnd cl =
     (case cl of
        Some cl \<Rightarrow> andthen (cl_load cl) (\<lambda>v. Ok (rnd (of_int v)))
      | None \<Rightarrow> Ok (- 1))"

definition cl_start :: "int \<times> nat option \<Rightarrow> cpu_load option \<Rightarrow> cpu_load option \<times> int" where
  "cl_start create cl =
     (case cl of
        Some cl \<Rightarrow> (Some (cl\<lparr>cl_tid := snd create\<rparr>), fst create)
      | None \<Rightarrow> (None, - 1))"

definition cl_halt :: "cpu_load \<Rightarrow> cpu_load \<times> int" where
  [simp]: "cl_halt cl = (cl\<lparr>cl_run := False\<rparr>, 0)"

definition cl_stop :: "cpu_load option \<Rightarrow> cpu_load option \<times> int" where
  "cl_stop cl = (case cl of Some cl \<Rightarrow> map_prod Some id (cl_halt cl) | None \<Rightarrow> (None, - 1))"

text \<open>\<^verbatim>\<open>join\<close> waits for the thread and answers -1 whether it did or not.\<close>

definition cl_join :: "cpu_load option \<Rightarrow> int" where
  "cl_join cl = - 1"

section \<open>The thread\<close>

text \<open>The local variables of the routine; the array is not initialised.\<close>

record sampler =
  smp_arr :: "rat option list"
  smp_cur :: u32
  smp_tm :: timer

definition sampler_new :: "timespec \<Rightarrow> sampler" where
  "sampler_new now = \<lparr>smp_arr = replicate 128 None, smp_cur = 0, smp_tm = tm_new now\<rparr>"

text \<open>How many microseconds a sleep took too long: \<open>r\<close> is the random number, \<open>t0\<close> and \<open>t1\<close> the clock.\<close>

definition late :: "int \<Rightarrow> timespec \<Rightarrow> timespec \<Rightarrow> timer \<Rightarrow> (timer \<times> int) result" where
  "late r t0 t1 tm =
     (let us = r smod 1000;
          tm = tm_restart t0 tm
      in andthen (usec_elapsed t1 tm) (\<lambda>(tm, e).
         let consume_us = signed_take_bit 31 e
         in andthen (int_range (consume_us - us)) (\<lambda>d. Ok (tm, if d \<ge> 0 then d else 0))))"

fun total :: "(rat \<Rightarrow> rat) \<Rightarrow> rat option list \<Rightarrow> rat \<Rightarrow> rat result" where
  "total rnd [] total_consume = Ok total_consume"
| "total rnd (None # xs) total_consume = Fault Uninitialised"
| "total rnd (Some x # xs) total_consume = total rnd xs (rnd (total_consume + x))"

definition sample ::
  "(rat \<Rightarrow> rat) \<Rightarrow> int \<Rightarrow> timespec \<Rightarrow> timespec \<Rightarrow> cpu_load \<Rightarrow> sampler \<Rightarrow> (cpu_load \<times> sampler) result" where
  "sample rnd r t0 t1 cl sm =
     andthen (late r t0 t1 (smp_tm sm)) (\<lambda>(tm', d).
     andthen (wr (smp_arr sm) (unat (smp_cur sm)) (Some (rnd (of_int d)))) (\<lambda>arr'.
       let sm' = \<lparr>smp_arr = arr', smp_cur = (smp_cur sm + 1) AND (128 - 1), smp_tm = tm'\<rparr>
       in if smp_cur sm' = 0
          then andthen (total rnd arr' 0) (\<lambda>total_consume.
                 Ok (cl\<lparr>cpu_delay := rnd (total_consume / 128)\<rparr>, sm'))
          else Ok (cl, sm')))"

text \<open>
  The rounds of the loop, and calls of \<^verbatim>\<open>stop\<close> in between. The thread looks at \<^verbatim>\<open>run\<close> before each
  round; when it is false the thread ends and its variables are gone.
\<close>

datatype cl_event = Stop | Round int timespec timespec

fun cl_go :: "(rat \<Rightarrow> rat) \<Rightarrow> cl_event list \<Rightarrow> cpu_load \<times> sampler option \<Rightarrow> (cpu_load \<times> sampler option) result" where
  "cl_go rnd [] st = Ok st"
| "cl_go rnd (Stop # evs) (cl, sm) = cl_go rnd evs (cl\<lparr>cl_run := False\<rparr>, sm)"
| "cl_go rnd (Round r t0 t1 # evs) (cl, sm) =
     (case sm of
        None \<Rightarrow> cl_go rnd evs (cl, None)
      | Some sm \<Rightarrow>
          if cl_run cl
          then andthen (sample rnd r t0 t1 cl sm) (\<lambda>(cl, sm). cl_go rnd evs (cl, Some sm))
          else cl_go rnd evs (cl, None))"

section \<open>One round\<close>

text \<open>A round on a clock that works: how late it is, and that it is less than 131 milliseconds.\<close>

fun late_us :: "int \<times> timespec \<times> timespec \<Rightarrow> int" where
  "late_us (r, t0, t1) = max 0 ((nsec t1 - nsec t0) div 1000 - r mod 1000)"

fun timely_round :: "int \<times> timespec \<times> timespec \<Rightarrow> bool" where
  "timely_round (r, t0, t1) \<longleftrightarrow>
     0 \<le> r \<and> reading t0 \<and> reading t1 \<and> nsec t0 \<le> nsec t1 \<and> nsec t1 - nsec t0 < 2 ^ 17 * 1000"

lemma smod_nonneg: "0 \<le> (a :: int) \<Longrightarrow> a smod 1000 = a mod 1000"
  by (cases "a = 0") (simp_all add: signed_modulo_int_def sdiv_nonneg minus_div_mult_eq_mod)

lemma late_ok:
  assumes "timely_round (r, t0, t1)"
  shows "\<exists>tm'. late r t0 t1 tm = Ok (tm', late_us (r, t0, t1))"
proof -
  let ?e = "nsec t1 - nsec t0" and ?tm = "tm_restart t0 tm"
  have e: "0 \<le> ?e" "?e < 2 ^ 17 * 1000" using assms by simp_all
  have "?e \<le> 2 ^ 63 - 1000000000" using e(2) by simp
  moreover have "start_time ?tm = t0" by (simp add: tm_restart_def Let_def)
  ultimately have "usec_elapsed t1 ?tm = Ok (tm_check t1 ?tm, ?e div 1000)"
    using usec_elapsed_exact[of ?tm t1] assms by (simp add: elapsed_def)
  moreover have d: "0 \<le> ?e div 1000" "?e div 1000 < 2 ^ 17" using e by (auto simp: pos_imp_zdiv_nonneg_iff)
  then have "signed_take_bit 31 (?e div 1000) = ?e div 1000"
    by (intro signed_take_bit_int_eq_self) simp_all
  moreover have "int_range (?e div 1000 - r mod 1000) = Ok (?e div 1000 - r mod 1000)"
    using d pos_mod_bound[of 1000 r] pos_mod_sign[of 1000 r] by (auto simp: int_range_def)
  ultimately show ?thesis using assms by (simp add: late_def smod_nonneg Let_def max_def)
qed

lemma late_us_bound:
  assumes "timely_round x"
  shows "0 \<le> late_us x" and "late_us x < 2 ^ 17"
proof -
  obtain r t0 t1 where x: "x = (r, t0, t1)" by (cases x)
  then have "(nsec t1 - nsec t0) div 1000 < 2 ^ 17" using assms by auto
  then show "0 \<le> late_us x" "late_us x < 2 ^ 17" using x pos_mod_sign[of 1000 r] by auto
qed

declare late_us.simps [simp del] timely_round.simps [simp del]

text \<open>Numbers a \<^verbatim>\<open>float\<close> holds: integers of 24 bits and their 128th parts are not rounded.\<close>

definition exact :: "(rat \<Rightarrow> rat) \<Rightarrow> bool" where
  "exact rnd \<longleftrightarrow> (\<forall>k::int. \<bar>k\<bar> \<le> 2 ^ 24 \<longrightarrow> rnd (of_int k) = of_int k \<and> rnd (of_int k / 128) = of_int k / 128)"

lemma exactD:
  "exact rnd \<Longrightarrow> 0 \<le> k \<Longrightarrow> k \<le> 2 ^ 24 \<Longrightarrow> rnd (of_int k) = of_int k"
  "exact rnd \<Longrightarrow> 0 \<le> k \<Longrightarrow> k \<le> 2 ^ 24 \<Longrightarrow> rnd (of_int k / 128) = of_int k / 128"
  by (simp_all add: exact_def)

lemma sum_list_bound:
  "\<forall>v\<in>set vs. 0 \<le> v \<and> v \<le> (b :: int) \<Longrightarrow> 0 \<le> sum_list vs \<and> sum_list vs \<le> int (length vs) * b"
  by (induction vs) (auto simp: algebra_simps)

lemma total_exact:
  assumes "exact rnd" and "\<forall>v\<in>set vs. 0 \<le> v" and "0 \<le> a" and "a + sum_list vs \<le> 2 ^ 24"
  shows "total rnd (map (\<lambda>v. Some (of_int v)) vs) (of_int a) = Ok (of_int (a + sum_list vs))"
  using assms(2-)
proof (induction vs arbitrary: a)
  case (Cons v vs)
  have "0 \<le> sum_list vs" using Cons.prems(1) by (auto intro: sum_list_nonneg)
  then have "rnd (of_int (a + v)) = of_int (a + v)" using Cons.prems assms(1) by (intro exactD) auto
  then show ?case using Cons.IH[of "a + v"] Cons.prems by (simp add: add.assoc)
qed simp

lemma cur_wraps: "m < 128 \<Longrightarrow> ((of_nat m :: u32) + 1) AND (128 - 1) = of_nat (Suc m mod 128)"
proof -
  assume m: "m < 128"
  have "((of_nat m :: u32) + 1) AND (128 - 1) = take_bit 7 (of_nat (Suc m))"
    by (simp add: take_bit_eq_mask mask_eq_exp_minus_1 ac_simps)
  also have "\<dots> = of_nat (Suc m mod 128)"
    by (simp only: take_bit_of_nat) (simp add: take_bit_eq_mod)
  finally show ?thesis .
qed

section \<open>All rounds\<close>

text \<open>The block of 128 rounds that was finished last, and the average of it.\<close>

definition block :: "int list \<Rightarrow> int list" where
  "block vs = take 128 (drop (128 * (length vs div 128 - 1)) vs)"

definition average :: "int list \<Rightarrow> rat" where
  "average vs = (if length vs < 128 then 0 else of_int (sum_list (block vs)) / 128)"

definition smp_rel :: "int list \<Rightarrow> cpu_load \<Rightarrow> sampler \<Rightarrow> bool" where
  "smp_rel vs cl sm \<longleftrightarrow> cl_run cl \<and> cpu_delay cl = average vs \<and> length (smp_arr sm) = 128 \<and>
     smp_cur sm = of_nat (length vs mod 128) \<and>
     take (length vs mod 128) (smp_arr sm) =
       map (\<lambda>v. Some (of_int v)) (drop (128 * (length vs div 128)) vs)"

lemma average_snoc:
  assumes "Suc (length vs) mod 128 \<noteq> 0"
  shows "average (vs @ [v]) = average vs"
proof -
  have "Suc (length vs) div 128 = length vs div 128" using assms by (simp add: div_Suc)
  moreover have "Suc (length vs) < 128 \<longleftrightarrow> length vs < 128" using assms by (cases "length vs = 127") auto
  moreover have "length (drop (128 * (length vs div 128 - 1)) vs) \<ge> 128" if "\<not> length vs < 128"
  proof -
    have "1 \<le> length vs div 128" using that by (simp add: Suc_le_eq div_greater_zero_iff)
    then have "128 * (length vs div 128 - 1) + 128 \<le> length vs"
      using times_div_less_eq_dividend[of 128 "length vs"] by (simp add: diff_mult_distrib2)
    then show ?thesis by simp
  qed
  ultimately show ?thesis by (simp add: average_def block_def)
qed

text \<open>The mean of a block that is complete, computed with rounding, is the exact one.\<close>

lemma block_average:
  assumes rnd: "exact rnd" and bnd: "\<forall>v\<in>set vs. 0 \<le> v \<and> v \<le> 2 ^ 17"
    and blk: "block vs = b" "length b = 128" "set b \<subseteq> set vs" and long: "128 \<le> length vs"
  shows "total rnd (map (\<lambda>v. Some (of_int v)) b) 0 = Ok (of_int (sum_list b))"
    and "rnd (of_int (sum_list b) / 128) = average vs"
proof -
  have bb: "\<forall>v\<in>set b. 0 \<le> v \<and> v \<le> 2 ^ 17" using bnd blk(3) by blast
  have S: "0 \<le> sum_list b" "sum_list b \<le> 2 ^ 24" using sum_list_bound[OF bb] unfolding blk(2) by simp_all
  show "total rnd (map (\<lambda>v. Some (of_int v)) b) 0 = Ok (of_int (sum_list b))"
    using total_exact[OF rnd, of b 0] bb S by simp
  have "\<not> length vs < 128" using long by simp
  then show "rnd (of_int (sum_list b) / 128) = average vs"
    unfolding average_def blk(1) using exactD(2)[OF rnd S] by (simp only: if_False)
qed

lemma sample_rel:
  assumes rnd: "exact rnd" and rel: "smp_rel (map late_us rs) cl sm"
    and good: "\<forall>x\<in>set (rs @ [(r, t0, t1)]). timely_round x"
  shows "\<exists>cl' sm'. sample rnd r t0 t1 cl sm = Ok (cl', sm') \<and> smp_rel (map late_us (rs @ [(r, t0, t1)])) cl' sm'"
proof -
  let ?vs = "map late_us rs" and ?v = "late_us (r, t0, t1)"
  let ?m = "length ?vs mod 128" and ?q = "length ?vs div 128"
  let ?arr = "(smp_arr sm)[?m := Some (of_int ?v)]" and ?b = "drop (128 * ?q) (?vs @ [?v])"
  have len: "length (smp_arr sm) = 128" and cur: "smp_cur sm = of_nat ?m"
    and arr: "take ?m (smp_arr sm) = map (\<lambda>v. Some (of_int v)) (drop (128 * ?q) ?vs)"
    using rel by (simp_all add: smp_rel_def)
  have m: "?m < 128" by simp
  have bnd: "\<forall>v\<in>set (?vs @ [?v]). 0 \<le> v \<and> v \<le> 2 ^ 17"
    using good late_us_bound by (fastforce simp: less_imp_le)
  have "0 \<le> ?v" "?v \<le> 2 ^ 24" using bnd by simp_all
  then have rv: "rnd (of_int ?v) = of_int ?v" using exactD(1)[OF rnd] by blast
  obtain tm' where late: "late r t0 t1 (smp_tm sm) = Ok (tm', ?v)" using late_ok good by fastforce
  have wr: "wr (smp_arr sm) (unat (smp_cur sm)) (Some (rnd (of_int ?v))) = Ok ?arr"
    using len m by (simp add: cur rv unat_of_nat)
  have cur': "(smp_cur sm + 1) AND (128 - 1) = of_nat (Suc ?m mod 128)" using cur_wraps[OF m] cur by simp
  have arr': "take (Suc ?m) ?arr = map (\<lambda>v. Some (of_int v)) ?b"
    using arr len m by (simp add: take_Suc_conv_app_nth)
  show ?thesis
  proof (cases "Suc ?m = 128")
    case False
    then have m': "Suc ?m < 128" using m by simp
    have "unat (of_nat (Suc ?m) :: u32) = Suc ?m" by (simp only: unat_of_nat) (use m' in simp)
    then have nz: "(of_nat (Suc ?m mod 128) :: u32) \<noteq> 0" using m' by (metis mod_less nat.distinct(1) unat_0)
    have L: "Suc (length ?vs) mod 128 = Suc ?m" "Suc (length ?vs) div 128 = ?q"
      using m' by (simp_all add: mod_Suc div_Suc)
    let ?sm = "\<lparr>smp_arr = ?arr, smp_cur = of_nat (Suc ?m mod 128), smp_tm = tm'\<rparr>"
    have "sample rnd r t0 t1 cl sm = Ok (cl, ?sm)" using late wr cur' nz by (simp add: sample_def Let_def)
    moreover have "smp_rel (?vs @ [?v]) cl ?sm"
      using rel len m' arr' average_snoc[of ?vs ?v] L by (simp add: smp_rel_def)
    ultimately show ?thesis by auto
  next
    case True
    have L: "Suc (length ?vs) mod 128 = 0" "Suc (length ?vs) div 128 = Suc ?q"
      using True by (simp_all add: mod_Suc div_Suc)
    have full: "?arr = map (\<lambda>v. Some (of_int v)) ?b" using arr' True len by simp
    have dl: "length ?b = 128" using full len by (metis length_list_update length_map)
    have blk: "block (?vs @ [?v]) = ?b" using dl L by (simp add: block_def)
    have long: "128 \<le> length (?vs @ [?v])" using dl by simp
    note avg = block_average[OF rnd bnd blk dl set_drop_subset long, folded full]
    let ?cl = "cl\<lparr>cpu_delay := average (?vs @ [?v])\<rparr>"
    let ?sm = "\<lparr>smp_arr = ?arr, smp_cur = 0, smp_tm = tm'\<rparr>"
    have "sample rnd r t0 t1 cl sm = Ok (?cl, ?sm)"
      using late wr cur' True avg by (simp add: sample_def Let_def)
    moreover have "smp_rel (?vs @ [?v]) ?cl ?sm" using rel len L by (simp add: smp_rel_def)
    ultimately show ?thesis by auto
  qed
qed

lemma sampler_rel: "smp_rel [] (cl_new now) (sampler_new t)"
  by (simp add: smp_rel_def cl_new_def sampler_new_def average_def)

lemma cl_go_append: "cl_go rnd (evs @ evs') st = andthen (cl_go rnd evs st) (cl_go rnd evs')"
proof (induction rnd evs st rule: cl_go.induct)
  case (3 rnd r t0 t1 evs cl sm)
  then show ?case
    by (cases sm; cases "sample rnd r t0 t1 cl (the sm)") (auto split: prod.split)
qed simp_all

lemma cl_go_rounds:
  assumes "exact rnd" and "\<forall>x\<in>set rs. timely_round x"
  shows "\<exists>cl sm. cl_go rnd (map (\<lambda>(r, t0, t1). Round r t0 t1) rs) (cl_new now, Some (sampler_new t)) = Ok (cl, Some sm) \<and>
     smp_rel (map late_us rs) cl sm"
  using assms(2)
proof (induction rs rule: rev_induct)
  case (snoc x rs)
  obtain r t0 t1 where x: "x = (r, t0, t1)" by (cases x)
  obtain cl sm where go: "cl_go rnd (map (\<lambda>(r, t0, t1). Round r t0 t1) rs) (cl_new now, Some (sampler_new t)) = Ok (cl, Some sm)"
    and rel: "smp_rel (map late_us rs) cl sm"
    using snoc by auto
  obtain cl' sm' where "sample rnd r t0 t1 cl sm = Ok (cl', sm')" "smp_rel (map late_us (rs @ [x])) cl' sm'"
    using sample_rel[OF assms(1) rel] snoc.prems x by blast
  moreover have "cl_run cl" using rel by (simp add: smp_rel_def)
  ultimately show ?case using go x by (simp add: cl_go_append)
qed (simp add: sampler_rel)

text \<open>After \<^verbatim>\<open>stop\<close> nothing changes any more.\<close>

lemma cl_go_stopped: "\<not> cl_run cl \<Longrightarrow> \<exists>sm'. cl_go rnd evs (cl, sm) = Ok (cl, sm')"
proof (induction evs arbitrary: sm)
  case (Cons e evs)
  show ?case
  proof (cases e)
    case Stop
    have "cl\<lparr>cl_run := False\<rparr> = cl" using Cons.prems by simp
    then show ?thesis using Cons Stop by (simp only: cl_go.simps) blast
  qed (use Cons in \<open>simp split: option.split\<close>)
qed simp

lemma sum_list_block:
  assumes "\<forall>x\<in>set rs. timely_round x"
  shows "0 \<le> sum_list (block (map late_us rs)) \<and> sum_list (block (map late_us rs)) \<le> 128 * 2 ^ 17"
proof -
  have "\<forall>v\<in>set (block (map late_us rs)). 0 \<le> v \<and> v \<le> 2 ^ 17"
    using assms late_us_bound by (fastforce simp: block_def less_imp_le dest!: in_set_takeD in_set_dropD)
  from sum_list_bound[OF this] have "0 \<le> sum_list (block (map late_us rs))"
    "sum_list (block (map late_us rs)) \<le> int (length (block (map late_us rs))) * 2 ^ 17" by simp_all
  moreover have "int (length (block (map late_us rs))) \<le> 128" by (simp add: block_def)
  ultimately show ?thesis by simp
qed

section \<open>Properties\<close>

text \<open>
  C33. The thread runs any number of rounds, each less than 131 milliseconds late, and any calls of
  \<open>stop\<close> and rounds may follow: it never leaves its array, never reads a cell it has not written,
  and \<open>get_cpu_load\<close> answers the average lateness of the last full block of 128 rounds before the
  first \<open>stop\<close>, rounded down to whole microseconds, and 0 before the first block is full.
\<close>
theorem cpu_load_average:
  assumes "exact rnd" and "\<forall>x\<in>set rs. timely_round x"
  shows "\<exists>cl sm cl' sm'.
    cl_go rnd (map (\<lambda>(r, t0, t1). Round r t0 t1) rs) (cl_new now, Some (sampler_new t)) = Ok (cl, Some sm) \<and>
    cl_go rnd (map (\<lambda>(r, t0, t1). Round r t0 t1) rs @ Stop # evs) (cl_new now, Some (sampler_new t)) = Ok (cl', sm') \<and>
    get_cpu_load rnd (Some cl) = get_cpu_load rnd (Some cl') \<and>
    get_cpu_load rnd (Some cl) =
      Ok (of_int (if length rs < 128 then 0 else sum_list (block (map late_us rs)) div 128))"
proof -
  let ?vs = "map late_us rs" and ?st = "(cl_new now, Some (sampler_new t))"
  obtain cl sm where go: "cl_go rnd (map (\<lambda>(r, t0, t1). Round r t0 t1) rs) ?st = Ok (cl, Some sm)"
    and rel: "smp_rel ?vs cl sm"
    using cl_go_rounds[OF assms] by blast
  obtain sm' where "cl_go rnd evs (cl\<lparr>cl_run := False\<rparr>, Some sm) = Ok (cl\<lparr>cl_run := False\<rparr>, sm')"
    using cl_go_stopped[of "cl\<lparr>cl_run := False\<rparr>" rnd evs "Some sm"] by auto
  then have stop: "cl_go rnd (map (\<lambda>(r, t0, t1). Round r t0 t1) rs @ Stop # evs) ?st = Ok (cl\<lparr>cl_run := False\<rparr>, sm')"
    using go by (simp add: cl_go_append)
  let ?S = "if length rs < 128 then 0 else sum_list (block ?vs)"
  have S: "0 \<le> ?S div 128" "?S div 128 \<le> 2 ^ 17" using sum_list_block[OF assms(2)] by auto
  have delay: "cpu_delay cl = of_int ?S / 128" using rel by (simp add: smp_rel_def average_def)
  have "\<lfloor>cpu_delay cl\<rfloor> = ?S div 128"
    using floor_divide_of_int_eq[of ?S 128, where 'a = rat] by (simp add: delay)
  moreover have "0 \<le> cpu_delay cl" using sum_list_block[OF assms(2)] unfolding delay by simp
  ultimately have "cl_load cl = Ok (?S div 128)" using S by (simp add: cl_load_def int_range_def)
  moreover have "rnd (of_int (?S div 128)) = of_int (?S div 128)" using S by (intro exactD(1)[OF assms(1)]) simp_all
  ultimately have "get_cpu_load rnd (Some cl) = Ok (of_int (?S div 128))" by (simp add: get_cpu_load_def)
  moreover have "get_cpu_load rnd (Some (cl\<lparr>cl_run := False\<rparr>)) = get_cpu_load rnd (Some cl)"
    by (simp add: get_cpu_load_def cl_load_def)
  ultimately show ?thesis using go stop by (auto simp: if_distrib[of "\<lambda>x. x div 128"] cong: if_cong)
qed

text \<open>The exact rationals are one such rounding. Every round sleeps 10 microseconds instead of 7.\<close>

lemma cpu_load_average_witness:
  "\<exists>cl sm. cl_go (\<lambda>x. x) (map (\<lambda>(r, t0, t1). Round r t0 t1)
      (replicate 130 (7, \<lparr>tv_sec = 3, tv_nsec = 0\<rparr>, \<lparr>tv_sec = 3, tv_nsec = 10000\<rparr>)))
      (cl_new 0, Some (sampler_new \<lparr>tv_sec = 0, tv_nsec = 0\<rparr>)) = Ok (cl, Some sm) \<and>
    get_cpu_load (\<lambda>x. x) (Some cl) = Ok 3"
proof -
  let ?x = "(7, \<lparr>tv_sec = 3, tv_nsec = 0\<rparr>, \<lparr>tv_sec = 3, tv_nsec = 10000\<rparr>)"
  have "exact (\<lambda>x. x)" by (simp add: exact_def)
  moreover have "\<forall>x\<in>set (replicate 130 ?x). timely_round x"
    by (simp add: timely_round.simps reading_def nsec_def)
  moreover have "sum_list (block (map late_us (replicate 130 ?x))) = 384"
    by (simp add: block_def late_us.simps nsec_def sum_list_replicate)
  ultimately show ?thesis
    using cpu_load_average[of "\<lambda>x. x" "replicate 130 ?x" 0 "\<lparr>tv_sec = 0, tv_nsec = 0\<rparr>" "[]"] by force
qed

text \<open>A monitor that was stopped and is started again ends at once: nothing sets \<^verbatim>\<open>_run\<close> again.\<close>

lemma cl_restart_ends:
  assumes "cl_stop cl = (Some cl1, rc1)" and "cl_start create (Some cl1) = (Some cl2, rc2)"
  shows "cl_go rnd [Round r t0 t1] (cl2, Some sm) = Ok (cl2, None)"
  using assms by (auto simp: cl_stop_def cl_start_def split: option.splits)

end
