(* ===== verification/Qsort.thy ===== *)
theory Qsort
  imports Selib_Prelude
begin

text \<open>
  \<^verbatim>\<open>algorithm/qsort.cpp\<close>: quicksort of the part of an array from \<open>beg\<close> to \<open>end\<close>, both included.
  The array is \<open>None\<close> for the null pointer; an \<^verbatim>\<open>int\<close> holds positions of the array, so it is an
  \<open>int\<close>. \<open>None\<close> as the outcome of a call means that it does not return.
\<close>

section \<open>The functions\<close>

partial_function (option) q_loop ::
  "'a :: linorder \<Rightarrow> 'a list \<Rightarrow> int \<Rightarrow> int \<Rightarrow> int \<Rightarrow> bool \<Rightarrow> ('a list \<times> int) result option" where
  "q_loop pivot arr b e replace_pos on_end =
     (if b < e
      then (if on_end
            then (case rdi arr e of
                    Inl f \<Rightarrow> Some (Inl f)
                  | Inr x \<Rightarrow>
                      if x < pivot
                      then (case wri arr replace_pos x of
                              Inl f \<Rightarrow> Some (Inl f)
                            | Inr arr \<Rightarrow> q_loop pivot arr b e e False)
                      else q_loop pivot arr b (e - 1) replace_pos on_end)
            else (case rdi arr b of
                    Inl f \<Rightarrow> Some (Inl f)
                  | Inr x \<Rightarrow>
                      if x > pivot
                      then (case wri arr replace_pos x of
                              Inl f \<Rightarrow> Some (Inl f)
                            | Inr arr \<Rightarrow> q_loop pivot arr b e b True)
                      else q_loop pivot arr (b + 1) e replace_pos on_end))
      else Some (Inr (arr, b)))"

declare q_loop.simps [code]

definition q_partition ::
  "'a :: linorder list option \<Rightarrow> int \<Rightarrow> int \<Rightarrow> ('a list option \<times> int) result option" where
  "q_partition arr beg end' =
     (case arr of
        None \<Rightarrow> Some (Ok (None, - 1))
      | Some xs \<Rightarrow>
          if end' - beg < 1 then Some (Ok (arr, 0))
          else runs (Some (rdi xs beg)) (\<lambda>pivot.
               runs (q_loop pivot xs beg end' beg True) (\<lambda>(xs, b).
               runs (Some (wri xs b pivot)) (\<lambda>xs. Some (Ok (Some xs, b))))))"

partial_function (option) qsort ::
  "'a :: linorder list option \<Rightarrow> int \<Rightarrow> int \<Rightarrow> ('a list option \<times> int) result option" where
  "qsort a beg end' =
     (if end' - beg < 2 then Some (Inr (a, - 1))
      else runs (q_partition a beg end') (\<lambda>(a, index).
           runs (if index - 1 - beg > 1 then qsort a beg (index - 1) else Some (Inr (a, 0))) (\<lambda>(a, _).
           runs (if end' - index - 1 > 1 then qsort a (index + 1) end' else Some (Inr (a, 0))) (\<lambda>(a, _).
             Some (Inr (a, 0))))))"

declare qsort.simps [code]

section \<open>The partition\<close>

lemma rdi_nat [simp]: "rdi xs (int i) = rd xs i"
  by (simp add: rdi_def)

lemma wri_nat [simp]: "wri xs (int i) v = wr xs i v"
  by (simp add: wri_def)

text \<open>Two arrays that agree outside of a part and have the same elements.\<close>

definition same :: "'a list \<Rightarrow> 'a list \<Rightarrow> nat \<Rightarrow> nat \<Rightarrow> bool" where
  "same xs ys beg en \<longleftrightarrow>
     length ys = length xs \<and> mset ys = mset xs \<and> (\<forall>i. i < beg \<or> en < i \<longrightarrow> ys ! i = xs ! i)"

lemma same_refl: "same xs xs beg en"
  by (simp add: same_def)

lemma same_trans: "same xs ys beg en \<Longrightarrow> same ys zs beg en \<Longrightarrow> same xs zs beg en"
  by (simp add: same_def)

lemma same_widen: "same xs ys b e \<Longrightarrow> beg \<le> b \<Longrightarrow> e \<le> en \<Longrightarrow> same xs ys beg en"
  by (auto simp: same_def)

lemma same_image:
  assumes "same xs ys beg en" and "en < length xs" and "beg \<le> i" and "i \<le> en"
  shows "\<exists>j. beg \<le> j \<and> j \<le> en \<and> ys ! i = xs ! j"
proof -
  have len: "length ys = length xs" using assms(1) by (simp add: same_def)
  have part: "zs = take beg zs @ take (Suc en - beg) (drop beg zs) @ drop (Suc en) zs" for zs :: "'a list"
  proof -
    have "Suc en - beg + beg = Suc en" using assms(3,4) by simp
    then show ?thesis by (metis append_take_drop_id drop_drop)
  qed
  have "take beg ys = take beg xs" "drop (Suc en) ys = drop (Suc en) xs"
    using assms(1) len by (auto simp: same_def intro!: nth_equalityI)
  moreover have "mset ys = mset xs" using assms(1) by (simp add: same_def)
  ultimately have "mset (take (Suc en - beg) (drop beg ys)) = mset (take (Suc en - beg) (drop beg xs))"
    by (metis (no_types, lifting) add_left_cancel add_right_cancel mset_append part)
  then have "set (take (Suc en - beg) (drop beg ys)) = set (take (Suc en - beg) (drop beg xs))"
    by (rule mset_eq_setD)
  moreover have "ys ! i = take (Suc en - beg) (drop beg ys) ! (i - beg)"
    using assms(2-4) len by simp
  then have "ys ! i \<in> set (take (Suc en - beg) (drop beg ys))"
    using assms(2-4) len by (simp only:) (rule nth_mem, simp)
  ultimately obtain k where "k < Suc en - beg" "ys ! i = xs ! (beg + k)"
    using assms(2-4) by (auto simp: in_set_conv_nth)
  then show ?thesis by (intro exI[of _ "beg + k"]) auto
qed

text \<open>The loop keeps a hole, at \<open>b\<close> or at \<open>e\<close>, that the pivot fills at the end.\<close>

definition q_inv :: "'a :: linorder \<Rightarrow> 'a list \<Rightarrow> nat \<Rightarrow> nat \<Rightarrow> 'a list \<Rightarrow> nat \<Rightarrow> nat \<Rightarrow> bool \<Rightarrow> bool" where
  "q_inv pivot xs beg en arr b e on_end \<longleftrightarrow>
     beg \<le> b \<and> b \<le> e \<and> e \<le> en \<and> en < length xs \<and>
     (\<forall>i. beg \<le> i \<and> i < b \<longrightarrow> arr ! i \<le> pivot) \<and> (\<forall>i. e < i \<and> i \<le> en \<longrightarrow> pivot \<le> arr ! i) \<and>
     same xs (arr[(if on_end then b else e) := pivot]) beg en"

lemma same_move:
  assumes "same xs (arr[i := p]) beg en" and "beg \<le> i" "i \<le> en" "beg \<le> j" "j \<le> en" and "i \<noteq> j" and "en < length xs"
  shows "same xs (arr[i := arr ! j, j := p]) beg en"
proof -
  have len: "length arr = length xs" using assms(1) by (simp add: same_def)
  have "mset ((arr[i := p])[j := arr[i := p] ! i, i := arr[i := p] ! j]) = mset (arr[i := p])"
    using assms len by (intro mset_swap) simp_all
  moreover have "(arr[i := p])[j := arr[i := p] ! i, i := arr[i := p] ! j] = arr[i := arr ! j, j := p]"
    using assms len by (intro nth_equalityI) (auto simp: nth_list_update)
  ultimately have "mset (arr[i := arr ! j, j := p]) = mset (arr[i := p])" by simp
  then show ?thesis using assms by (auto simp: same_def nth_list_update)
qed

lemma q_loop_ok:
  assumes "q_inv pivot xs beg en arr b e on_end"
  shows "\<exists>arr' m. q_loop pivot arr (int b) (int e) (int (if on_end then b else e)) on_end = Some (Ok (arr', int m)) \<and>
    q_inv pivot xs beg en arr' m m True"
  using assms
proof (induction "2 * (e - b) + of_bool (if on_end then arr ! e < pivot else arr ! b > pivot)"
    arbitrary: arr b e on_end rule: less_induct)
  case less
  have len: "length arr = length xs" using less.prems by (simp add: q_inv_def same_def)
  have bnd: "beg \<le> b" "b \<le> e" "e \<le> en" "en < length xs" using less.prems by (simp_all add: q_inv_def)
  let ?hole = "if on_end then b else e"
  note step = q_loop.simps[of pivot arr "int b" "int e" "int ?hole" on_end]
  show ?case
  proof (cases "b < e")
    case False
    then have e: "e = b" using bnd by simp
    then have "q_inv pivot xs beg en arr b b True" using less.prems by (simp add: q_inv_def)
    then show ?thesis using e by (subst step) auto
  next
    case True
    show ?thesis
    proof (cases on_end)
      case on: True
      show ?thesis
      proof (cases "arr ! e < pivot")
        case lt: True
        let ?arr = "arr[b := arr ! e]"
        have inv: "q_inv pivot xs beg en ?arr b e False"
          using less.prems on True bnd lt same_move[of xs arr b pivot beg en e]
          by (auto simp: q_inv_def nth_list_update)
        have run: "q_loop pivot arr (int b) (int e) (int ?hole) on_end = q_loop pivot ?arr (int b) (int e) (int e) False"
          by (subst step) (use True on lt bnd len in simp)
        show ?thesis unfolding run
          by (rule less.hyps[OF _ inv, unfolded if_True if_False]) (use True on lt bnd len in simp_all)
      next
        case ge: False
        have "pivot \<le> arr ! i" if "e - 1 < i" "i \<le> en" for i
          using less.prems ge True that by (cases "i = e") (auto simp: q_inv_def)
        then have inv: "q_inv pivot xs beg en arr b (e - 1) True"
          using less.prems on True bnd by (auto simp: q_inv_def)
        have run: "q_loop pivot arr (int b) (int e) (int ?hole) on_end = q_loop pivot arr (int b) (int (e - 1)) (int b) True"
          by (subst step) (use True on ge bnd len in \<open>simp add: of_nat_diff\<close>)
        show ?thesis unfolding run
          by (rule less.hyps[OF _ inv, unfolded if_True if_False]) (use True on ge bnd len in auto)
      qed
    next
      case off: False
      show ?thesis
      proof (cases "arr ! b > pivot")
        case gt: True
        let ?arr = "arr[e := arr ! b]"
        have inv: "q_inv pivot xs beg en ?arr b e True"
          using less.prems off True bnd gt same_move[of xs arr e pivot beg en b]
          by (auto simp: q_inv_def nth_list_update)
        have run: "q_loop pivot arr (int b) (int e) (int ?hole) on_end = q_loop pivot ?arr (int b) (int e) (int b) True"
          by (subst step) (use True off gt bnd len in simp)
        show ?thesis unfolding run
          by (rule less.hyps[OF _ inv, unfolded if_True if_False]) (use True off gt bnd len in simp_all)
      next
        case le: False
        have inv: "q_inv pivot xs beg en arr (Suc b) e False"
          using less.prems off True bnd le by (auto simp: q_inv_def less_Suc_eq)
        have run: "q_loop pivot arr (int b) (int e) (int ?hole) on_end = q_loop pivot arr (int (Suc b)) (int e) (int e) False"
          by (subst step) (use True off le bnd len in \<open>simp add: ac_simps\<close>)
        show ?thesis unfolding run
          by (rule less.hyps[OF _ inv, unfolded if_True if_False]) (use True off le bnd len in auto)
      qed
    qed
  qed
qed

text \<open>What the partition leaves: the pivot at \<open>m\<close>, nothing greater before it, nothing less behind.\<close>

lemma q_partition_ok:
  assumes "beg < en" and "en < length xs"
  obtains ys m where "q_partition (Some xs) (int beg) (int en) = Some (Ok (Some ys, int m))"
    "beg \<le> m" "m \<le> en" "same xs ys beg en"
    "\<And>i. beg \<le> i \<Longrightarrow> i < m \<Longrightarrow> ys ! i \<le> ys ! m" "\<And>i. m < i \<Longrightarrow> i \<le> en \<Longrightarrow> ys ! m \<le> ys ! i"
proof -
  let ?p = "xs ! beg"
  have "q_inv ?p xs beg en xs beg en True" using assms by (auto simp: q_inv_def same_refl)
  from q_loop_ok[OF this] obtain arr m
    where loop: "q_loop ?p xs (int beg) (int en) (int beg) True = Some (Ok (arr, int m))"
      and inv: "q_inv ?p xs beg en arr m m True" by auto
  let ?ys = "arr[m := ?p]"
  have same: "same xs ?ys beg en" and m: "beg \<le> m" "m \<le> en" using inv by (simp_all add: q_inv_def)
  have len: "length arr = length xs" using same by (simp add: same_def)
  have "q_partition (Some xs) (int beg) (int en) = Some (Ok (Some ?ys, int m))"
    using assms loop m len by (simp add: q_partition_def)
  moreover have "?ys ! i \<le> ?ys ! m" if "beg \<le> i" "i < m" for i
    using inv that m len assms(2) by (simp add: q_inv_def)
  moreover have "?ys ! m \<le> ?ys ! i" if "m < i" "i \<le> en" for i
    using inv that m len assms(2) by (simp add: q_inv_def)
  ultimately show thesis using that same m by blast
qed

section \<open>The sort\<close>

text \<open>Every two elements that are not neighbours are in order.\<close>

definition near_sorted :: "'a :: linorder list \<Rightarrow> nat \<Rightarrow> nat \<Rightarrow> bool" where
  "near_sorted ys beg en \<longleftrightarrow> (\<forall>i j. beg \<le> i \<and> i + 2 \<le> j \<and> j \<le> en \<longrightarrow> ys ! i \<le> ys ! j)"

lemma near_sorted_other:
  "near_sorted xs b e \<Longrightarrow> same xs ys beg en \<Longrightarrow> e < beg \<or> en < b \<Longrightarrow> near_sorted ys b e"
  unfolding near_sorted_def same_def by (metis add_leD1 le_less_trans less_le_trans order_trans)

lemma near_sorted_join:
  assumes "near_sorted zs (Suc m) en" and "m = beg \<or> near_sorted zs beg (m - 1)"
    and "\<And>i. beg \<le> i \<Longrightarrow> i < m \<Longrightarrow> zs ! i \<le> zs ! m" "\<And>i. m < i \<Longrightarrow> i \<le> en \<Longrightarrow> zs ! m \<le> zs ! i"
  shows "near_sorted zs beg en"
  unfolding near_sorted_def
proof (intro allI impI)
  fix i j
  assume ij: "beg \<le> i \<and> i + 2 \<le> j \<and> j \<le> en"
  consider "j < m" | "m < i" | "i = m" | "j = m" | "i < m" "m < j" by linarith
  then show "zs ! i \<le> zs ! j"
  proof cases
    case 1
    then have "near_sorted zs beg (m - 1)" using assms(2) ij by auto
    then show ?thesis using ij 1 unfolding near_sorted_def by auto
  next
    case 2
    then show ?thesis using assms(1) ij unfolding near_sorted_def by auto
  next
    case 5
    then show ?thesis using assms(3)[of i] assms(4)[of j] ij by (meson order_trans)
  qed (use assms(3,4) ij in auto)
qed

text \<open>The two halves of a part that was divided at \<open>m\<close>, each near sorted by itself.\<close>

lemma halves_near_sorted:
  assumes m: "beg \<le> m" "m \<le> en" "en < length ys"
    and low: "\<And>i. beg \<le> i \<Longrightarrow> i < m \<Longrightarrow> ys ! i \<le> ys ! m" and high: "\<And>i. m < i \<Longrightarrow> i \<le> en \<Longrightarrow> ys ! m \<le> ys ! i"
    and l: "same ys ls beg (m - 1)" "m = beg \<or> near_sorted ls beg (m - 1)" "m = beg \<Longrightarrow> ls = ys"
    and r: "same ls zs (Suc m) en" "near_sorted zs (Suc m) en"
  shows "near_sorted zs beg en" and "same ys zs beg en"
proof -
  have len: "length ls = length ys" using l(1) by (simp add: same_def)
  have left: "zs ! i = ls ! i" if "i \<le> m" for i using r(1) that by (simp add: same_def)
  have right: "ls ! i = ys ! i" if "m \<le> i" for i
    using l(1,3) that m(1) by (cases "m = beg") (auto simp: same_def)
  have mid: "zs ! m = ys ! m" using left[of m] right[of m] by simp
  have "zs ! i \<le> zs ! m" if i: "beg \<le> i" "i < m" for i
  proof -
    obtain j where "beg \<le> j" "j \<le> m - 1" "ls ! i = ys ! j"
      using same_image[OF l(1) _ i(1)] i m by fastforce
    then show ?thesis using low[of j] i left[of i] mid by auto
  qed
  moreover have "zs ! m \<le> zs ! i" if i: "m < i" "i \<le> en" for i
  proof -
    obtain j where "Suc m \<le> j" "j \<le> en" "zs ! i = ls ! j"
      using same_image[OF r(1), of i] i m(3) len by fastforce
    then show ?thesis using high[of j] right[of j] mid by auto
  qed
  moreover have "m = beg \<or> near_sorted zs beg (m - 1)"
    using l(2) near_sorted_other[OF _ r(1), of beg "m - 1"] by linarith
  ultimately show "near_sorted zs beg en" using near_sorted_join[OF r(2)] by blast
  have "same ys ls beg en" "same ls zs beg en"
    using m same_widen[OF l(1), of beg en] same_widen[OF r(1), of beg en] by auto
  then show "same ys zs beg en" by (rule same_trans)
qed

lemma qsort_ok:
  assumes "beg + 2 \<le> en" and "en < length xs"
  shows "\<exists>ys. qsort (Some xs) (int beg) (int en) = Some (Ok (Some ys, 0)) \<and> same xs ys beg en \<and> near_sorted ys beg en"
  using assms
proof (induction "en - beg" arbitrary: beg en xs rule: less_induct)
  case less
  obtain ys m where p: "q_partition (Some xs) (int beg) (int en) = Some (Ok (Some ys, int m))"
    "beg \<le> m" "m \<le> en" "same xs ys beg en"
    "\<And>i. beg \<le> i \<Longrightarrow> i < m \<Longrightarrow> ys ! i \<le> ys ! m" "\<And>i. m < i \<Longrightarrow> i \<le> en \<Longrightarrow> ys ! m \<le> ys ! i"
    using q_partition_ok[of beg en xs] less.prems by auto
  have len: "length ys = length xs" using p(4) by (simp add: same_def)
  obtain ls rl where l: "(if int m - 1 - int beg > 1 then qsort (Some ys) (int beg) (int m - 1) else Some (Ok (Some ys, 0))) =
      Some (Ok (Some ls, rl))" "same ys ls beg (m - 1)" "m = beg \<or> near_sorted ls beg (m - 1)"
    "m = beg \<Longrightarrow> ls = ys"
  proof (cases "int m - 1 - int beg > 1")
    case True
    then have "\<exists>ls. qsort (Some ys) (int beg) (int (m - 1)) = Some (Ok (Some ls, 0)) \<and>
        same ys ls beg (m - 1) \<and> near_sorted ls beg (m - 1)"
      using less.prems p(3) len by (intro less.hyps) auto
    then show thesis using that True by (auto simp: of_nat_diff)
  next
    case False
    then have "near_sorted ys beg (m - 1)" by (auto simp: near_sorted_def)
    then show thesis using that[of ys 0] False same_refl by auto
  qed
  have len': "length ls = length xs" using l(2) len by (simp add: same_def)
  obtain zs rr where r: "(if int en - int m - 1 > 1 then qsort (Some ls) (int m + 1) (int en) else Some (Ok (Some ls, 0))) =
      Some (Ok (Some zs, rr))" "same ls zs (Suc m) en" "near_sorted zs (Suc m) en"
  proof (cases "int en - int m - 1 > 1")
    case True
    then have "\<exists>zs. qsort (Some ls) (int (Suc m)) (int en) = Some (Ok (Some zs, 0)) \<and>
        same ls zs (Suc m) en \<and> near_sorted zs (Suc m) en"
      using less.prems p(2) len' by (intro less.hyps) auto
    then show thesis using that True by (auto simp: ac_simps)
  next
    case False
    then have "near_sorted ls (Suc m) en" by (auto simp: near_sorted_def)
    then show thesis using that[of ls 0] False same_refl by auto
  qed
  have run: "qsort (Some xs) (int beg) (int en) = Some (Ok (Some zs, 0))"
    using less.prems p(1) l(1) r(1) by (subst qsort.simps) simp
  have "en < length ys" using less.prems(2) len by simp
  from halves_near_sorted[OF p(2,3) this p(5,6) l(2-4) r(2,3)]
  show ?case using run same_trans[OF p(4)] by blast
qed

text \<open>On the null pointer the right half of a part that starts at 0 is the part itself.\<close>

lemma qsort_null:
  assumes "qsort (None :: 'a :: linorder list option) beg en = Some y"
  shows "\<not> (beg = 0 \<and> 2 \<le> en)"
proof (rule qsort.raw_induct[of "\<lambda>a beg en y. a = None \<longrightarrow> \<not> (beg = 0 \<and> 2 \<le> en)", OF _ assms, THEN mp, OF _ refl])
  fix f :: "'a list option \<Rightarrow> int \<Rightarrow> int \<Rightarrow> ('a list option \<times> int) result option" and a beg en y
  assume IH: "\<And>a beg en y. f a beg en = Some y \<Longrightarrow> a = None \<longrightarrow> \<not> (beg = 0 \<and> 2 \<le> en)"
    and body: "(if en - beg < 2 then Some (Inr (a, - 1))
      else runs (q_partition a beg en) (\<lambda>(a, index).
           runs (if index - 1 - beg > 1 then f a beg (index - 1) else Some (Inr (a, 0))) (\<lambda>(a, _).
           runs (if en - index - 1 > 1 then f a (index + 1) en else Some (Inr (a, 0))) (\<lambda>(a, _).
             Some (Inr (a, 0)))))) = Some y"
  show "a = None \<longrightarrow> \<not> (beg = 0 \<and> 2 \<le> en)"
  proof (intro impI notI)
    assume a: "a = None" and en: "beg = 0 \<and> 2 \<le> en"
    then have "f None 0 en = None" using IH[of None 0 en] by (cases "f None 0 en") auto
    then show False using body a en by (simp add: q_partition_def)
  qed
qed

section \<open>Properties\<close>

text \<open>
  C34. A call for a part of at least three elements returns; it permutes that part and leaves the
  rest of the array. Parts of two elements are never put in order, so the result is sorted up to
  neighbours: any element is at most any other that stands two or more places behind it. With the
  null pointer in place of the array such a call from position 0 does not return.
\<close>
theorem qsort_near_sorted:
  assumes "beg + 2 \<le> en" and "en < length xs"
  shows "(\<exists>ys. qsort (Some xs) (int beg) (int en) = Some (Ok (Some ys, 0)) \<and>
      mset ys = mset xs \<and> take beg ys = take beg xs \<and> drop (Suc en) ys = drop (Suc en) xs \<and>
      (\<forall>i j. beg \<le> i \<and> i + 2 \<le> j \<and> j \<le> en \<longrightarrow> ys ! i \<le> ys ! j)) \<and>
    qsort (None :: 'a :: linorder list option) 0 (int en) = None"
proof
  obtain ys where q: "qsort (Some xs) (int beg) (int en) = Some (Ok (Some ys, 0))"
    and same: "same xs ys beg en" and near: "near_sorted ys beg en"
    using qsort_ok[OF assms] by blast
  have "take beg ys = take beg xs" "drop (Suc en) ys = drop (Suc en) xs"
    using same assms by (auto simp: same_def intro!: nth_equalityI)
  then show "\<exists>ys. qsort (Some xs) (int beg) (int en) = Some (Ok (Some ys, 0)) \<and>
      mset ys = mset xs \<and> take beg ys = take beg xs \<and> drop (Suc en) ys = drop (Suc en) xs \<and>
      (\<forall>i j. beg \<le> i \<and> i + 2 \<le> j \<and> j \<le> en \<longrightarrow> ys ! i \<le> ys ! j)"
    using q same near unfolding same_def near_sorted_def by blast
  show "qsort (None :: 'a list option) 0 (int en) = None"
    using qsort_null[of 0 "int en"] assms(1) by (cases "qsort (None :: 'a list option) 0 (int en)") auto
qed

text \<open>The example of \<^verbatim>\<open>main\<close>.\<close>

lemma qsort_near_sorted_witness:
  "(\<exists>ys. qsort (Some [38, 8, 16, 6, 79, 57, 24, 56, 2, 58, 4, 70, 45 :: int]) (int 0) (int 12) = Some (Ok (Some ys, 0)) \<and>
     (\<forall>i j. 0 \<le> i \<and> i + 2 \<le> j \<and> j \<le> 12 \<longrightarrow> ys ! i \<le> ys ! j)) \<and>
   qsort (None :: int list option) 0 (int 12) = None"
proof -
  let ?xs = "[38, 8, 16, 6, 79, 57, 24, 56, 2, 58, 4, 70, 45 :: int]"
  have "0 + 2 \<le> (12 :: nat)" "12 < length ?xs" by simp_all
  from qsort_near_sorted[OF this] show ?thesis
    by (elim conjE exE) (intro conjI exI; assumption)
qed

text \<open>Three elements that come out unsorted.\<close>

lemma qsort_not_sorted: "qsort (Some [1, 3, 2 :: int]) 0 2 = Some (Ok (Some [1, 3, 2], 0))"
proof -
  have "q_loop 1 [1, 3, 2 :: int] 0 2 0 True = Some (Ok ([1, 3, 2], 0))"
    by ((subst q_loop.simps, simp add: rdi_def)+)
  then have "q_partition (Some [1, 3, 2 :: int]) 0 2 = Some (Ok (Some [1, 3, 2], 0))"
    by (simp add: q_partition_def rdi_def wri_def)
  then show ?thesis by (subst qsort.simps) simp
qed

end
