(* ===== verification/Auto_Release.thy ===== *)
theory Auto_Release
  imports Selib_Prelude
begin

text \<open>
  \<^verbatim>\<open>util/auto_release.h\<close>: objects that hold a resource and release it when their scope is left.
  What a destructor does is the list of the calls it makes.
\<close>

datatype guard =
    AutoClose ptr
  | AutoDesClose int
  | AutoUnmap ptr nat
  | AutoBufDeleter ptr

datatype release_call =
    Fclose nat
  | Close int
  | Munmap nat nat
  | Delete_Array nat

definition auto_close :: "ptr \<Rightarrow> release_call list" where
  "auto_close p = (case p of Some f \<Rightarrow> [Fclose f] | None \<Rightarrow> [])"

definition auto_des_close :: "int \<Rightarrow> release_call list" where
  "auto_des_close fd = (if 0 \<noteq> fd \<and> - 1 \<noteq> fd then [Close fd] else [])"

definition auto_unmap :: "ptr \<Rightarrow> nat \<Rightarrow> release_call list" where
  "auto_unmap vmem size' = (case vmem of Some a \<Rightarrow> if 0 \<noteq> size' then [Munmap a size'] else [] | None \<Rightarrow> [])"

text \<open>\<^verbatim>\<open>delete []\<close> of a null pointer does nothing.\<close>

definition auto_buf_deleter :: "ptr \<Rightarrow> release_call list" where
  "auto_buf_deleter p = (case p of Some a \<Rightarrow> [Delete_Array a] | None \<Rightarrow> [])"

fun destructor :: "guard \<Rightarrow> release_call list" where
  "destructor (AutoClose p) = auto_close p"
| "destructor (AutoDesClose fd) = auto_des_close fd"
| "destructor (AutoUnmap vmem size') = auto_unmap vmem size'"
| "destructor (AutoBufDeleter p) = auto_buf_deleter p"

text \<open>Leaving a scope destroys its objects in the opposite order.\<close>

definition leave_scope :: "guard list \<Rightarrow> release_call list" where
  "leave_scope gs = concat (map destructor (rev gs))"

text \<open>The guards that hold something their destructor releases.\<close>

fun holds_resource :: "guard \<Rightarrow> bool" where
  "holds_resource (AutoClose p) = (p \<noteq> None)"
| "holds_resource (AutoDesClose fd) = (fd \<noteq> - 1 \<and> fd \<noteq> 0)"
| "holds_resource (AutoUnmap vmem size') = (vmem \<noteq> None \<and> size' \<noteq> 0)"
| "holds_resource (AutoBufDeleter p) = (p \<noteq> None)"

lemma destructor_once:
  "length (destructor g) = of_bool (holds_resource g)"
  "holds_resource g \<Longrightarrow> holds_resource h \<Longrightarrow> destructor g = destructor h \<longleftrightarrow> g = h"
  by (cases g; auto simp: auto_close_def auto_des_close_def auto_unmap_def auto_buf_deleter_def split: option.splits)
    (cases g; cases h; auto simp: auto_close_def auto_des_close_def auto_unmap_def auto_buf_deleter_def)

text \<open>
  Guards of different resources release each of them once; the descriptor 0 is a valid one that
  is never closed.
\<close>

lemma leave_scope_once:
  assumes "distinct gs" and "\<forall>g\<in>set gs. holds_resource g"
  shows "distinct (leave_scope gs)" and "length (leave_scope gs) = length gs"
proof -
  have one: "\<exists>c. destructor g = [c]" if "holds_resource g" for g
    using destructor_once(1)[of g] that by (cases "destructor g") auto
  have "leave_scope gs = map (\<lambda>g. hd (destructor g)) (rev gs)"
  proof -
    have "concat (map destructor hs) = map (\<lambda>g. hd (destructor g)) hs" if "\<forall>g\<in>set hs. holds_resource g" for hs
      using that one by (induction hs) fastforce+
    from this[of "rev gs"] show ?thesis using assms(2) by (simp add: leave_scope_def)
  qed
  moreover have "inj_on (\<lambda>g. hd (destructor g)) (set gs)"
    using assms(2) one destructor_once(2) by (intro inj_onI) (metis list.sel(1))
  ultimately show "distinct (leave_scope gs)" "length (leave_scope gs) = length gs"
    using assms(1) by (simp_all add: distinct_map)
qed

lemma stdin_stays_open: "leave_scope [AutoDesClose 0] = []"
  by (simp add: leave_scope_def auto_des_close_def)

end
