(* ===== verification/Resource_Stack.thy ===== *)
theory Resource_Stack
  imports Lifo
begin

text \<open>
  \<^verbatim>\<open>container/resource_stack.h\<close>: \<^verbatim>\<open>ResourceStack\<close>, a pool of pointers kept in holders that
  travel between two lock-free stacks, one of holders with a resource and one of empty
  holders. The producer is a template parameter of the code and a parameter \<open>mk\<close> here:
  what its call operator returns, on the bound instance (\<open>True\<close>) or on the stack's own.
\<close>

section \<open>The state\<close>

record rstack =
  rs_aviable :: "u64 lifo"
  rs_empty :: "u64 lifo"
  rs_next :: "nat \<rightharpoonup> ptr"      \<comment> \<open>the \<^verbatim>\<open>next\<close> of every holder that is not deleted\<close>
  rs_p :: "nat \<Rightarrow> ptr"           \<comment> \<open>the \<^verbatim>\<open>_p\<close> of the holders\<close>
  rs_fresh :: nat                 \<comment> \<open>the address of the next \<^verbatim>\<open>new\<close>\<close>
  rs_bound :: bool                \<comment> \<open>\<^verbatim>\<open>_producer\<close> is not null\<close>

definition rs_new :: "nat \<Rightarrow> rstack" where
  "rs_new a = \<lparr>rs_aviable = lf_create, rs_empty = lf_create, rs_next = Map.empty,
     rs_p = (\<lambda>_. None), rs_fresh = a, rs_bound = False\<rparr>"

definition rs_bind :: "rstack \<Rightarrow> bool \<Rightarrow> rstack" where
  "rs_bind st produce = st\<lparr>rs_bound := produce\<rparr>"

section \<open>The operations\<close>

definition pop_empty :: "rstack \<Rightarrow> (rstack \<times> ptr) result option" where
  "pop_empty st = runs (lf_pop True (rs_empty st) (rs_next st))
     (\<lambda>(l, h). Some (Ok (st\<lparr>rs_empty := l\<rparr>, h)))"

definition push_empty :: "rstack \<Rightarrow> nat \<Rightarrow> rstack result option" where
  "push_empty st h = runs (lf_push (rs_empty st) (rs_next st) h)
     (\<lambda>(l, nx). Some (Ok (st\<lparr>rs_empty := l, rs_next := nx\<rparr>)))"

definition pop_aviable :: "rstack \<Rightarrow> (rstack \<times> ptr) result option" where
  "pop_aviable st = runs (lf_pop True (rs_aviable st) (rs_next st))
     (\<lambda>(l, h). Some (Ok (st\<lparr>rs_aviable := l\<rparr>, h)))"

definition push_aviable :: "rstack \<Rightarrow> nat \<Rightarrow> rstack result option" where
  "push_aviable st h = runs (lf_push (rs_aviable st) (rs_next st) h)
     (\<lambda>(l, nx). Some (Ok (st\<lparr>rs_aviable := l, rs_next := nx\<rparr>)))"

text \<open>\<^verbatim>\<open>new (std::nothrow) hoder_t\<close>, when there is memory; the members are not initialised.\<close>

definition new_holder :: "rstack \<Rightarrow> rstack \<times> nat" where
  "new_holder st =
     (st\<lparr>rs_next := (rs_next st)(rs_fresh st \<mapsto> None), rs_fresh := Suc (rs_fresh st)\<rparr>, rs_fresh st)"

definition delete_holder :: "rstack \<Rightarrow> nat \<Rightarrow> rstack" where
  "delete_holder st h = st\<lparr>rs_next := (rs_next st)(h := None)\<rparr>"

definition rs_push :: "rstack \<Rightarrow> ptr \<Rightarrow> (rstack \<times> bool) result option" where
  "rs_push st inp =
     (if inp = None then Some (Ok (st, False))
      else runs (pop_empty st) (\<lambda>(st, hoder).
        case hoder of None \<Rightarrow> Some (Ok (st, False))
        | Some h \<Rightarrow>
            runs (push_aviable (st\<lparr>rs_p := (rs_p st)(h := inp)\<rparr>) h) (\<lambda>st. Some (Ok (st, True)))))"

definition rs_pop :: "rstack \<Rightarrow> (rstack \<times> ptr) result option" where
  "rs_pop st =
     runs (pop_aviable st) (\<lambda>(st, hoder).
       case hoder of None \<Rightarrow> Some (Ok (st, None))
       | Some h \<Rightarrow>
           let back = rs_p st h
           in runs (push_empty (st\<lparr>rs_p := (rs_p st)(h := None)\<rparr>) h) (\<lambda>st. Some (Ok (st, back))))"

text \<open>The loop of \<^verbatim>\<open>create\<close>, with the rounds left and whether the next allocations succeed.\<close>

fun create_loop :: "rstack \<Rightarrow> bool list \<Rightarrow> (rstack \<times> bool) result option" where
  "create_loop st [] = Some (Ok (st, True))"
| "create_loop st (mem # mems) =
     (if \<not> mem then Some (Ok (st, False))
      else case new_holder st of (st, h) \<Rightarrow> runs (push_empty st h) (\<lambda>st. create_loop st mems))"

definition rs_create :: "rstack \<Rightarrow> u32 \<Rightarrow> (nat \<Rightarrow> bool) \<Rightarrow> (rstack \<times> bool) result option" where
  "rs_create st bucket_size mem = create_loop st (map mem [0..<unat bucket_size])"

definition rs_produce :: "(bool \<Rightarrow> ptr) \<Rightarrow> rstack \<Rightarrow> bool \<Rightarrow> (rstack \<times> ptr) result option" where
  "rs_produce mk st mem =
     (let back = (if \<not> rs_bound st then mk False else mk True)
      in if back = None then Some (Ok (st, None))
         else if \<not> mem then Some (Ok (st, None))
         else case new_holder st of (st, h) \<Rightarrow>
           runs (push_empty (st\<lparr>rs_p := (rs_p st)(h := None)\<rparr>) h) (\<lambda>st. Some (Ok (st, back))))"

definition rs_force_pop :: "(bool \<Rightarrow> ptr) \<Rightarrow> rstack \<Rightarrow> bool \<Rightarrow> (rstack \<times> ptr) result option" where
  "rs_force_pop mk st mem =
     runs (rs_pop st) (\<lambda>(st, b). if b = None then rs_produce mk st mem else Some (Ok (st, b)))"

text \<open>
  \<^verbatim>\<open>destroy\<close>, run by the destructor: first all empty holders, then all others. The list is
  of the resources handed to the \<^verbatim>\<open>destroy\<close> of the stack's own producer instance; the other
  branch calls it through \<^verbatim>\<open>_producer\<close>, which is null there.
\<close>

partial_function (option) destroy_empty :: "rstack \<Rightarrow> rstack result option" where
  "destroy_empty st =
     (case pop_empty st of
        None \<Rightarrow> None
      | Some (Inl e) \<Rightarrow> Some (Inl e)
      | Some (Inr (st', hoder)) \<Rightarrow>
          (case hoder of None \<Rightarrow> Some (Inr st') | Some h \<Rightarrow> destroy_empty (delete_holder st' h)))"

declare destroy_empty.simps [code]

partial_function (option) destroy_aviable ::
  "rstack \<Rightarrow> ptr list \<Rightarrow> (rstack \<times> ptr list) result option" where
  "destroy_aviable st destroyed =
     (case pop_aviable st of
        None \<Rightarrow> None
      | Some (Inl e) \<Rightarrow> Some (Inl e)
      | Some (Inr (st', hoder)) \<Rightarrow>
          (case hoder of
             None \<Rightarrow> Some (Inr (st', destroyed))
           | Some h \<Rightarrow>
               if rs_bound st' then destroy_aviable (delete_holder st' h) (destroyed @ [rs_p st' h])
               else Some (Inl Null_Deref)))"

declare destroy_aviable.simps [code]

definition rs_destroy :: "rstack \<Rightarrow> (rstack \<times> ptr list) result option" where
  "rs_destroy st = runs (destroy_empty st) (\<lambda>st. destroy_aviable st [])"

section \<open>The holders are never lost\<close>

text \<open>
  \<open>rs_shape st E A\<close>: the holders not deleted are the disjoint contents \<open>E\<close> and \<open>A\<close> of the
  two stacks. \<open>rs_rel st free rs\<close>: there are \<open>free\<close> empty holders, and the others
  carry the resources \<open>rs\<close>, last pushed first.
\<close>

definition rs_shape :: "rstack \<Rightarrow> nat list \<Rightarrow> nat list \<Rightarrow> bool" where
  "rs_shape st E A \<longleftrightarrow> lf_holds (rs_empty st) (rs_next st) E \<and>
     lf_holds (rs_aviable st) (rs_next st) A \<and> set E \<inter> set A = {} \<and>
     dom (rs_next st) = set E \<union> set A \<and> (\<forall>a\<ge>rs_fresh st. rs_next st a = None)"

definition rs_rel :: "rstack \<Rightarrow> nat \<Rightarrow> nat list \<Rightarrow> bool" where
  "rs_rel st free rs \<longleftrightarrow>
     (\<exists>E A. rs_shape st E A \<and> length E = free \<and> map (rs_p st) A = map Some rs)"

lemma rs_relI: "rs_shape st E A \<Longrightarrow> length E = free \<Longrightarrow> map (rs_p st) A = map Some rs \<Longrightarrow> rs_rel st free rs"
  unfolding rs_rel_def by blast

lemma rs_new_shape: "rs_shape (rs_new a) [] []"
  by (simp add: rs_shape_def rs_new_def lf_holds_def lf_create_def)

lemma rs_shape_distinct: "rs_shape st E A \<Longrightarrow> distinct E \<and> distinct A"
  by (auto simp: rs_shape_def intro: lf.holds_distinct)

text \<open>
  The same while holders are on their way: \<open>H\<close> are those that a running operation has taken
  out of one stack, or made, and not yet put into the other.
\<close>

definition rs_parts :: "rstack \<Rightarrow> nat list \<Rightarrow> nat list \<Rightarrow> nat set \<Rightarrow> bool" where
  "rs_parts st E A H \<longleftrightarrow> lf_holds (rs_empty st) (rs_next st) E \<and>
     lf_holds (rs_aviable st) (rs_next st) A \<and> set E \<inter> set A = {} \<and> H \<inter> (set E \<union> set A) = {} \<and>
     dom (rs_next st) = set E \<union> set A \<union> H \<and> (\<forall>a\<ge>rs_fresh st. rs_next st a = None)"

lemma rs_shape_parts: "rs_shape st E A = rs_parts st E A {}"
  by (simp add: rs_shape_def rs_parts_def)

lemma rs_partsD:
  assumes "rs_parts st E A H"
  shows "lf_holds (rs_empty st) (rs_next st) E" "lf_holds (rs_aviable st) (rs_next st) A"
    "set E \<inter> set A = {}" "H \<inter> (set E \<union> set A) = {}" "dom (rs_next st) = set E \<union> set A \<union> H"
    "\<And>a. rs_fresh st \<le> a \<Longrightarrow> rs_next st a = None" "distinct E" "distinct A"
  using assms lf.holds_distinct unfolding rs_parts_def by blast+

lemma rs_parts_p [simp]: "rs_parts (st\<lparr>rs_p := p\<rparr>) E A H = rs_parts st E A H"
  by (simp add: rs_parts_def)

lemma rs_parts_fresh: "rs_parts st E A H \<Longrightarrow> rs_fresh st \<notin> set E \<union> set A \<union> H"
  using rs_partsD(5,6) by blast

text \<open>What the operations on one of the two stacks do to the parts.\<close>

lemma pop_empty_parts:
  assumes "rs_parts st E A H"
  shows "case E of [] \<Rightarrow> pop_empty st = Some (Ok (st, None))
    | h # E' \<Rightarrow> \<exists>l. pop_empty st = Some (Ok (st\<lparr>rs_empty := l\<rparr>, Some h)) \<and>
        rs_parts (st\<lparr>rs_empty := l\<rparr>) E' A (insert h H)"
proof (cases E)
  case Nil
  then show ?thesis
    using lf.pop_empty[of "rs_empty st" "rs_next st" True] rs_partsD(1)[OF assms]
    by (simp add: pop_empty_def)
next
  case (Cons h E')
  note D = rs_partsD[OF assms, unfolded Cons]
  obtain l where "lf_pop True (rs_empty st) (rs_next st) = Some (Ok (l, Some h))"
    "lf_holds l (rs_next st) E'"
    using lf.pop_ok[OF D(1)] by blast
  then show ?thesis using D Cons by (auto simp: pop_empty_def rs_parts_def)
qed

lemma pop_aviable_parts:
  assumes "rs_parts st E A H"
  shows "case A of [] \<Rightarrow> pop_aviable st = Some (Ok (st, None))
    | h # A' \<Rightarrow> \<exists>l. pop_aviable st = Some (Ok (st\<lparr>rs_aviable := l\<rparr>, Some h)) \<and>
        rs_parts (st\<lparr>rs_aviable := l\<rparr>) E A' (insert h H)"
proof (cases A)
  case Nil
  then show ?thesis
    using lf.pop_empty[of "rs_aviable st" "rs_next st" True] rs_partsD(2)[OF assms]
    by (simp add: pop_aviable_def)
next
  case (Cons h A')
  note D = rs_partsD[OF assms, unfolded Cons]
  obtain l where "lf_pop True (rs_aviable st) (rs_next st) = Some (Ok (l, Some h))"
    "lf_holds l (rs_next st) A'"
    using lf.pop_ok[OF D(2)] by blast
  then show ?thesis using D Cons by (auto simp: pop_aviable_def rs_parts_def)
qed

lemma push_empty_parts:
  assumes "rs_parts st E A H" and "h \<in> H"
  shows "\<exists>l nx. push_empty st h = Some (Ok (st\<lparr>rs_empty := l, rs_next := nx\<rparr>)) \<and>
     rs_parts (st\<lparr>rs_empty := l, rs_next := nx\<rparr>) (h # E) A (H - {h})"
proof -
  note D = rs_partsD[OF assms(1)]
  have h: "h \<notin> set E" "h \<notin> set A" "rs_next st h \<noteq> None" using D(4,5) assms(2) by auto
  obtain l r where l: "lf_push (rs_empty st) (rs_next st) h = Some (Ok (l, (rs_next st)(h \<mapsto> r)))"
    "lf_holds l ((rs_next st)(h \<mapsto> r)) (h # E)"
    using lf.push_ok[OF D(1) h(3,1)] by blast
  have "lf_holds (rs_aviable st) ((rs_next st)(h \<mapsto> r)) A" using lf.holds_frame[OF D(2) h(2)] .
  moreover have "\<forall>a\<ge>rs_fresh st. ((rs_next st)(h \<mapsto> r)) a = None" using D(6) h(3) by auto
  ultimately show ?thesis
    using l D(3-5) h(1,2) assms(2)
    by (intro exI[of _ l] exI[of _ "(rs_next st)(h \<mapsto> r)"]) (auto simp: push_empty_def rs_parts_def)
qed

lemma push_aviable_parts:
  assumes "rs_parts st E A H" and "h \<in> H"
  shows "\<exists>l nx. push_aviable st h = Some (Ok (st\<lparr>rs_aviable := l, rs_next := nx\<rparr>)) \<and>
     rs_parts (st\<lparr>rs_aviable := l, rs_next := nx\<rparr>) E (h # A) (H - {h})"
proof -
  note D = rs_partsD[OF assms(1)]
  have h: "h \<notin> set E" "h \<notin> set A" "rs_next st h \<noteq> None" using D(4,5) assms(2) by auto
  obtain l r where l: "lf_push (rs_aviable st) (rs_next st) h = Some (Ok (l, (rs_next st)(h \<mapsto> r)))"
    "lf_holds l ((rs_next st)(h \<mapsto> r)) (h # A)"
    using lf.push_ok[OF D(2) h(3,2)] by blast
  have "lf_holds (rs_empty st) ((rs_next st)(h \<mapsto> r)) E" using lf.holds_frame[OF D(1) h(1)] .
  moreover have "\<forall>a\<ge>rs_fresh st. ((rs_next st)(h \<mapsto> r)) a = None" using D(6) h(3) by auto
  ultimately show ?thesis
    using l D(3-5) h(1,2) assms(2)
    by (intro exI[of _ l] exI[of _ "(rs_next st)(h \<mapsto> r)"]) (auto simp: push_aviable_def rs_parts_def)
qed

lemma new_holder_parts:
  assumes "rs_parts st E A H"
  shows "rs_parts (fst (new_holder st)) E A (insert (rs_fresh st) H)"
    and "snd (new_holder st) = rs_fresh st"
    and "rs_p (fst (new_holder st)) = rs_p st" "rs_bound (fst (new_holder st)) = rs_bound st"
proof -
  note D = rs_partsD[OF assms]
  have n: "rs_fresh st \<notin> set E" "rs_fresh st \<notin> set A" using rs_parts_fresh[OF assms] by auto
  show "rs_parts (fst (new_holder st)) E A (insert (rs_fresh st) H)"
    using lf.holds_frame[OF D(1) n(1)] lf.holds_frame[OF D(2) n(2)] D(3-6) n
    by (auto simp: rs_parts_def new_holder_def)
qed (simp_all add: new_holder_def)

lemma new_holder_shape:
  assumes "rs_shape st E A"
  shows "\<exists>st'. push_empty (fst (new_holder (st\<lparr>rs_p := p\<rparr>))) (rs_fresh st) = Some (Ok st') \<and>
     rs_shape st' (rs_fresh st # E) A \<and> rs_p st' = p \<and> rs_bound st' = rs_bound st"
proof -
  have "rs_parts (st\<lparr>rs_p := p\<rparr>) E A {}" using assms by (simp add: rs_shape_parts)
  note N = new_holder_parts[OF this]
  from push_empty_parts[OF N(1), of "rs_fresh st"] show ?thesis
    using N(3,4) by (auto simp: rs_shape_parts)
qed

lemma rs_create_rel:
  assumes "rs_rel st free rs"
  shows "\<exists>st'. rs_create st num (\<lambda>_. True) = Some (Ok (st', True)) \<and>
     rs_rel st' (free + unat num) rs \<and> rs_bound st' = rs_bound st"
proof -
  have "\<exists>st'. create_loop st (map (\<lambda>_. True) xs) = Some (Ok (st', True)) \<and>
      rs_rel st' (free + length xs) rs \<and> rs_bound st' = rs_bound st" for xs :: "nat list"
    using assms
  proof (induction xs arbitrary: st free)
    case (Cons x xs)
    obtain E A where EA: "rs_shape st E A" "length E = free" "map (rs_p st) A = map Some rs"
      using Cons.prems by (auto simp: rs_rel_def)
    obtain st' where st': "push_empty (fst (new_holder st)) (rs_fresh st) = Some (Ok st')"
      "rs_shape st' (rs_fresh st # E) A" "rs_p st' = rs_p st" "rs_bound st' = rs_bound st"
      using new_holder_shape[OF EA(1), of "rs_p st"] by auto
    have rel: "rs_rel st' (Suc free) rs"
      by (rule rs_relI[OF st'(2)]) (use EA st'(3) in simp_all)
    have "create_loop st (map (\<lambda>_. True) (x # xs)) = create_loop st' (map (\<lambda>_. True) xs)"
      using st'(1) by (simp add: new_holder_def)
    then show ?case using Cons.IH[OF rel] st'(4) by simp
  qed auto
  from this[of "[0..<unat num]"] show ?thesis by (simp add: rs_create_def)
qed

lemma rs_push_rel:
  assumes "rs_rel st free rs"
  shows "\<exists>st'. rs_push st (Some r) = Some (Ok (st', free \<noteq> 0)) \<and> rs_bound st' = rs_bound st \<and>
     (if free = 0 then rs_rel st' 0 rs else rs_rel st' (free - 1) (r # rs))"
proof -
  obtain E A where EA: "rs_parts st E A {}" "length E = free" "map (rs_p st) A = map Some rs"
    using assms by (auto simp: rs_rel_def rs_shape_parts)
  note pop = pop_empty_parts[OF EA(1)]
  show ?thesis
  proof (cases E)
    case Nil
    then show ?thesis using assms EA(2) pop by (auto simp: rs_push_def)
  next
    case (Cons h E')
    then obtain k where k: "pop_empty st = Some (Ok (st\<lparr>rs_empty := k\<rparr>, Some h))"
      "rs_parts (st\<lparr>rs_empty := k\<rparr>) E' A {h}"
      using pop by auto
    let ?st1 = "st\<lparr>rs_empty := k, rs_p := (rs_p st)(h := Some r)\<rparr>"
    have "rs_parts ?st1 E' A {h}" using k(2) by (simp add: rs_parts_def)
    from push_aviable_parts[OF this] obtain l nx where l:
      "push_aviable ?st1 h = Some (Ok (?st1\<lparr>rs_aviable := l, rs_next := nx\<rparr>))"
      "rs_parts (?st1\<lparr>rs_aviable := l, rs_next := nx\<rparr>) E' (h # A) {}" by auto
    have "h \<notin> set A" using rs_partsD(4)[OF k(2)] by simp
    then have "rs_rel (?st1\<lparr>rs_aviable := l, rs_next := nx\<rparr>) (free - 1) (r # rs)"
      using l(2) EA(2,3) Cons
      by (intro rs_relI[where E = E' and A = "h # A"]) (simp_all add: rs_shape_parts)
    moreover have "rs_push st (Some r) = Some (Ok (?st1\<lparr>rs_aviable := l, rs_next := nx\<rparr>, True))"
      using k(1) l(1) by (simp add: rs_push_def)
    ultimately show ?thesis using EA(2) Cons by auto
  qed
qed

lemma rs_pop_rel:
  assumes "rs_rel st free rs"
  shows "\<exists>st'. rs_pop st = Some (Ok (st', case rs of [] \<Rightarrow> None | r # _ \<Rightarrow> Some r)) \<and>
     rs_bound st' = rs_bound st \<and>
     (case rs of [] \<Rightarrow> rs_rel st' free [] | _ # rs' \<Rightarrow> rs_rel st' (Suc free) rs')"
proof -
  obtain E A where EA: "rs_parts st E A {}" "length E = free" "map (rs_p st) A = map Some rs"
    using assms by (auto simp: rs_rel_def rs_shape_parts)
  note pop = pop_aviable_parts[OF EA(1)]
  show ?thesis
  proof (cases A)
    case Nil
    then show ?thesis using assms EA(3) pop by (auto simp: rs_pop_def)
  next
    case (Cons h A')
    then obtain r rs' where rs: "rs = r # rs'" "rs_p st h = Some r" "map (rs_p st) A' = map Some rs'"
      using EA(3) by (cases rs) auto
    obtain k where k: "pop_aviable st = Some (Ok (st\<lparr>rs_aviable := k\<rparr>, Some h))"
      "rs_parts (st\<lparr>rs_aviable := k\<rparr>) E A' {h}"
      using pop Cons by auto
    let ?st1 = "st\<lparr>rs_aviable := k, rs_p := (rs_p st)(h := None)\<rparr>"
    have "rs_parts ?st1 E A' {h}" using k(2) by (simp add: rs_parts_def)
    from push_empty_parts[OF this] obtain l nx where l:
      "push_empty ?st1 h = Some (Ok (?st1\<lparr>rs_empty := l, rs_next := nx\<rparr>))"
      "rs_parts (?st1\<lparr>rs_empty := l, rs_next := nx\<rparr>) (h # E) A' {}" by auto
    have "h \<notin> set A'" using rs_partsD(4)[OF k(2)] by simp
    then have "rs_rel (?st1\<lparr>rs_empty := l, rs_next := nx\<rparr>) (Suc free) rs'"
      using l(2) EA(2) rs(3)
      by (intro rs_relI[where E = "h # E" and A = A']) (simp_all add: rs_shape_parts)
    moreover have "rs_pop st = Some (Ok (?st1\<lparr>rs_empty := l, rs_next := nx\<rparr>, Some r))"
      using k(1) l(1) rs(2) by (simp add: rs_pop_def)
    ultimately show ?thesis using rs(1) by auto
  qed
qed

lemma rs_produce_rel:
  assumes "rs_rel st free rs" and "mk (rs_bound st) = Some r"
  shows "\<exists>st'. rs_produce mk st True = Some (Ok (st', Some r)) \<and> rs_bound st' = rs_bound st \<and>
     rs_rel st' (Suc free) rs"
proof -
  obtain E A where EA: "rs_shape st E A" "length E = free" "map (rs_p st) A = map Some rs"
    using assms by (auto simp: rs_rel_def)
  let ?p = "(rs_p st)(rs_fresh st := None)"
  have n: "rs_fresh st \<notin> set A" using EA(1) by (auto simp: rs_shape_def)
  obtain st' where st': "push_empty (fst (new_holder (st\<lparr>rs_p := ?p\<rparr>))) (rs_fresh st) = Some (Ok st')"
    "rs_shape st' (rs_fresh st # E) A" "rs_p st' = ?p" "rs_bound st' = rs_bound st"
    using new_holder_shape[OF EA(1)] by blast
  have rel: "rs_rel st' (Suc free) rs"
    by (rule rs_relI[OF st'(2)]) (use EA n st'(3) in simp_all)
  have "rs_produce mk st True = Some (Ok (st', Some r))"
    using st'(1) assms(2)
    by (cases st; cases "rs_bound st") (simp_all add: rs_produce_def new_holder_def)
  then show ?thesis using rel st'(4) by blast
qed

lemma rs_force_pop_rel:
  assumes "rs_rel st free rs" and "mk (rs_bound st) = Some q"
  shows "\<exists>st'. rs_force_pop mk st True =
       Some (Ok (st', case rs of [] \<Rightarrow> Some q | r # _ \<Rightarrow> Some r)) \<and>
     rs_bound st' = rs_bound st \<and>
     (case rs of [] \<Rightarrow> rs_rel st' (Suc free) [] | _ # rs' \<Rightarrow> rs_rel st' (Suc free) rs')"
proof -
  obtain st' where st': "rs_pop st = Some (Ok (st', case rs of [] \<Rightarrow> None | r # _ \<Rightarrow> Some r))"
    "rs_bound st' = rs_bound st"
    "case rs of [] \<Rightarrow> rs_rel st' free [] | _ # rs' \<Rightarrow> rs_rel st' (Suc free) rs'"
    using rs_pop_rel[OF assms(1)] by blast
  show ?thesis
  proof (cases rs)
    case Nil
    then have "rs_rel st' free []" using st'(3) by simp
    moreover have "mk (rs_bound st') = Some q" using assms(2) st'(2) by simp
    ultimately show ?thesis
      using rs_produce_rel[of st' free "[]" mk q] st'(1,2) Nil by (auto simp: rs_force_pop_def)
  next
    case (Cons r rs')
    then show ?thesis using st' by (simp add: rs_force_pop_def)
  qed
qed

section \<open>The destructor\<close>

lemma destroy_empty_shape:
  "rs_shape st E A \<Longrightarrow> \<exists>st'. destroy_empty st = Some (Ok st') \<and> rs_shape st' [] A \<and>
     rs_p st' = rs_p st \<and> rs_bound st' = rs_bound st"
proof (induction E arbitrary: st)
  case Nil
  then have "lf_holds (rs_empty st) (rs_next st) []" by (simp add: rs_shape_def)
  then have "destroy_empty st = Some (Ok st)"
    using lf.pop_empty[of "rs_empty st" "rs_next st" True]
    by (simp add: destroy_empty.simps[of st] pop_empty_def)
  then show ?case using Nil by simp
next
  case (Cons h E)
  then have E: "lf_holds (rs_empty st) (rs_next st) (h # E)"
    and A: "lf_holds (rs_aviable st) (rs_next st) A"
    and d: "dom (rs_next st) = set (h # E) \<union> set A" "set (h # E) \<inter> set A = {}"
      "\<forall>a\<ge>rs_fresh st. rs_next st a = None"
    unfolding rs_shape_def by blast+
  have h: "h \<notin> set E" "h \<notin> set A" using lf.holds_distinct[OF E] d(2) by auto
  obtain l where l: "lf_pop True (rs_empty st) (rs_next st) = Some (Ok (l, Some h))"
    "lf_holds l (rs_next st) E"
    using lf.pop_ok[OF E] by blast
  let ?st = "delete_holder (st\<lparr>rs_empty := l\<rparr>) h"
  have "rs_shape ?st E A"
    using lf.holds_frame[OF l(2) h(1)] lf.holds_frame[OF A h(2)] d h
    by (auto simp: rs_shape_def delete_holder_def)
  moreover have "destroy_empty st = destroy_empty ?st"
    using l(1) by (simp add: destroy_empty.simps[of st] pop_empty_def)
  ultimately show ?case using Cons.IH[of ?st] by (simp add: delete_holder_def)
qed

lemma destroy_aviable_shape:
  "rs_shape st [] A \<Longrightarrow> rs_bound st \<Longrightarrow>
     \<exists>st'. destroy_aviable st out = Some (Ok (st', out @ map (rs_p st) A)) \<and> rs_next st' = Map.empty"
proof (induction A arbitrary: st out)
  case Nil
  then have "lf_holds (rs_aviable st) (rs_next st) []" unfolding rs_shape_def by blast
  then have "destroy_aviable st out = Some (Ok (st, out))"
    using lf.pop_empty[of "rs_aviable st" "rs_next st" True]
    by (simp add: destroy_aviable.simps[of st] pop_aviable_def)
  then show ?case using Nil by (simp add: rs_shape_def)
next
  case (Cons h A)
  then have E: "lf_holds (rs_empty st) (rs_next st) []"
    and A: "lf_holds (rs_aviable st) (rs_next st) (h # A)"
    and d: "dom (rs_next st) = set (h # A)" "\<forall>a\<ge>rs_fresh st. rs_next st a = None"
    unfolding rs_shape_def by auto
  have h: "h \<notin> set A" using lf.holds_distinct[OF A] by simp
  obtain l where l: "lf_pop True (rs_aviable st) (rs_next st) = Some (Ok (l, Some h))"
    "lf_holds l (rs_next st) A"
    using lf.pop_ok[OF A] by blast
  let ?st = "delete_holder (st\<lparr>rs_aviable := l\<rparr>) h"
  have E': "lf_holds (rs_empty st) ((rs_next st)(h := None)) []"
    by (rule lf.holds_frame[OF E]) simp
  have "rs_shape ?st [] A"
    using lf.holds_frame[OF l(2) h] E' d h by (auto simp: rs_shape_def delete_holder_def)
  moreover have "destroy_aviable st out = destroy_aviable ?st (out @ [rs_p st h])"
    using l(1) Cons.prems(2)
    by (simp add: destroy_aviable.simps[of st] pop_aviable_def delete_holder_def)
  ultimately show ?case
    using Cons.IH[of ?st "out @ [rs_p st h]"] Cons.prems(2) by (simp add: delete_holder_def)
qed

lemma destroy_aviable_unbound:
  assumes "rs_shape st [] (h # A)" and "\<not> rs_bound st"
  shows "destroy_aviable st out = Some (Fault Null_Deref)"
proof -
  have "lf_holds (rs_aviable st) (rs_next st) (h # A)" using assms(1) by (simp add: rs_shape_def)
  from lf.pop_ok[OF this, of True] show ?thesis
    using assms(2) by (auto simp: destroy_aviable.simps[of st] pop_aviable_def)
qed

section \<open>The properties\<close>

datatype rs_op = Store nat | Take | Force_Take

datatype rs_out = Stored bool | Got ptr

text \<open>The pool under a sequence of calls of its clients.\<close>

fun rs_do :: "(bool \<Rightarrow> ptr) \<Rightarrow> rstack \<Rightarrow> rs_op \<Rightarrow> (rstack \<times> rs_out) result option" where
  "rs_do mk st (Store r) = runs (rs_push st (Some r)) (\<lambda>(st, b). Some (Ok (st, Stored b)))"
| "rs_do mk st Take = runs (rs_pop st) (\<lambda>(st, p). Some (Ok (st, Got p)))"
| "rs_do mk st Force_Take = runs (rs_force_pop mk st True) (\<lambda>(st, p). Some (Ok (st, Got p)))"

fun rs_run :: "(bool \<Rightarrow> ptr) \<Rightarrow> rstack \<Rightarrow> rs_op list \<Rightarrow> (rstack \<times> rs_out list) result option" where
  "rs_run mk st [] = Some (Ok (st, []))"
| "rs_run mk st (op # ops) =
     runs (rs_do mk st op) (\<lambda>(st, out).
       runs (rs_run mk st ops) (\<lambda>(st, outs). Some (Ok (st, out # outs))))"

text \<open>
  What it is to do: a stack with room for \<open>free\<close> more entries, where taking from the empty
  stack by force makes a new resource and room for it.
\<close>

fun pool_do :: "nat \<Rightarrow> nat \<times> nat list \<Rightarrow> rs_op \<Rightarrow> (nat \<times> nat list) \<times> rs_out" where
  "pool_do made (free, rs) (Store r) =
     (if free = 0 then ((free, rs), Stored False) else ((free - 1, r # rs), Stored True))"
| "pool_do made (free, []) Take = ((free, []), Got None)"
| "pool_do made (free, r # rs) Take = ((Suc free, rs), Got (Some r))"
| "pool_do made (free, []) Force_Take = ((Suc free, []), Got (Some made))"
| "pool_do made (free, r # rs) Force_Take = ((Suc free, rs), Got (Some r))"

fun pool_run :: "nat \<Rightarrow> nat \<times> nat list \<Rightarrow> rs_op list \<Rightarrow> (nat \<times> nat list) \<times> rs_out list" where
  "pool_run made p [] = (p, [])"
| "pool_run made p (op # ops) =
     (case pool_do made p op of (p, out) \<Rightarrow> case pool_run made p ops of (p, outs) \<Rightarrow> (p, out # outs))"

lemma rs_do_rel:
  assumes "rs_rel st free rs" and "mk (rs_bound st) = Some q"
    and "pool_do q (free, rs) op = ((free', rs'), out)"
  shows "\<exists>st'. rs_do mk st op = Some (Ok (st', out)) \<and> rs_rel st' free' rs' \<and>
     rs_bound st' = rs_bound st"
proof (cases op)
  case (Store r)
  then show ?thesis using rs_push_rel[OF assms(1), of r] assms(3) by (auto split: if_splits)
next
  case Take
  then show ?thesis using rs_pop_rel[OF assms(1)] assms(3) by (cases rs) auto
next
  case Force_Take
  then show ?thesis using rs_force_pop_rel[where mk = mk and q = q, OF assms(1,2)] assms(3)
    by (cases rs) auto
qed

lemma rs_run_rel:
  "rs_rel st free rs \<Longrightarrow> mk (rs_bound st) = Some q \<Longrightarrow>
   pool_run q (free, rs) ops = ((free', rs'), outs) \<Longrightarrow>
   \<exists>st'. rs_run mk st ops = Some (Ok (st', outs)) \<and> rs_rel st' free' rs' \<and> rs_bound st' = rs_bound st"
proof (induction ops arbitrary: st free rs outs)
  case (Cons op ops)
  obtain p out outs' where p: "pool_do q (free, rs) op = (p, out)"
    "pool_run q p ops = ((free', rs'), outs')" "outs = out # outs'"
    using Cons.prems(3) by (auto split: prod.splits)
  obtain f r where fr: "p = (f, r)" by (cases p)
  obtain st1 where st1: "rs_do mk st op = Some (Ok (st1, out))" "rs_rel st1 f r"
    "rs_bound st1 = rs_bound st"
    using rs_do_rel[where mk = mk, OF Cons.prems(1,2), of op f r out] p(1) fr by blast
  have "mk (rs_bound st1) = Some q" using Cons.prems(2) st1(3) by simp
  from Cons.IH[OF st1(2) this p(2)[unfolded fr]] obtain st' where
    "rs_run mk st1 ops = Some (Ok (st', outs'))" "rs_rel st' free' rs'" "rs_bound st' = rs_bound st1"
    by blast
  then show ?case using st1(1,3) p(3) by auto
qed simp

lemma rs_new_create:
  "\<exists>st. rs_create (rs_bind (rs_new a) b) num (\<lambda>_. True) = Some (Ok (st, True)) \<and>
     rs_rel st (unat num) [] \<and> rs_bound st = b"
proof -
  have "rs_rel (rs_bind (rs_new a) b) 0 []"
    using rs_new_shape[of a] by (auto simp: rs_rel_def rs_shape_def rs_bind_def)
  from rs_create_rel[OF this, of num] show ?thesis by (simp add: rs_bind_def)
qed

lemma rs_destroy_rel:
  assumes "rs_rel st free rs"
  shows "if rs_bound st
     then \<exists>st'. rs_destroy st = Some (Ok (st', map Some rs)) \<and> rs_next st' = Map.empty
     else rs \<noteq> [] \<longrightarrow> rs_destroy st = Some (Fault Null_Deref)"
proof -
  obtain E A where EA: "rs_shape st E A" "map (rs_p st) A = map Some rs"
    using assms by (auto simp: rs_rel_def)
  obtain st' where st': "destroy_empty st = Some (Ok st')" "rs_shape st' [] A" "rs_p st' = rs_p st"
    "rs_bound st' = rs_bound st"
    using destroy_empty_shape[OF EA(1)] by blast
  show ?thesis
  proof (cases "rs_bound st")
    case True
    then show ?thesis
      using destroy_aviable_shape[OF st'(2), of "[]"] st' EA(2) by (auto simp: rs_destroy_def)
  next
    case False
    then show ?thesis
      using destroy_aviable_unbound[of st'] st' EA(2) by (cases A) (auto simp: rs_destroy_def)
  qed
qed



text \<open>
  The test of the producer in the destructor is inverted: a pool that was never bound to
  a producer and still holds a resource calls \<^verbatim>\<open>destroy\<close> through the null \<^verbatim>\<open>_producer\<close>.
\<close>

theorem resource_stack_unbound_destructor_faults:
  assumes "mk False = Some q" and "pool_run q (unat num, []) ops = ((free, rs), outs)" and "rs \<noteq> []"
  shows "\<exists>st st'. rs_create (rs_new a) num (\<lambda>_. True) = Some (Ok (st, True)) \<and>
     rs_run mk st ops = Some (Ok (st', outs)) \<and> rs_destroy st' = Some (Fault Null_Deref)"
proof -
  have "rs_bind (rs_new a) False = rs_new a" by (simp add: rs_bind_def rs_new_def)
  then obtain st where st: "rs_create (rs_new a) num (\<lambda>_. True) = Some (Ok (st, True))"
    "rs_rel st (unat num) []" "\<not> rs_bound st"
    using rs_new_create[of a False num] by auto
  obtain st' where st': "rs_run mk st ops = Some (Ok (st', outs))" "rs_rel st' free rs" "\<not> rs_bound st'"
    using rs_run_rel[where mk = mk, OF st(2) _ assms(2)] assms(1) st(3) by auto
  then show ?thesis using st(1) rs_destroy_rel[OF st'(2)] assms(3) by auto
qed

theorem resource_stack_unbound_destructor_faults_witness:
  "\<exists>st st'. rs_create (rs_new 0) 2 (\<lambda>_. True) = Some (Ok (st, True)) \<and>
     rs_run (\<lambda>_. Some 9) st [Store 4] = Some (Ok (st', [Stored True])) \<and>
     rs_destroy st' = Some (Fault Null_Deref)"
  using resource_stack_unbound_destructor_faults[where mk = "\<lambda>_. Some 9" and q = 9 and num = 2 and
      a = 0 and ops = "[Store 4]" and free = 1 and rs = "[4]" and outs = "[Stored True]"]
  by (simp del: rs_run.simps)

end
