(* ===== verification/Shining_Pool.thy ===== *)
theory Shining_Pool
  imports Resource_Stack
begin

text \<open>
  \<^verbatim>\<open>framework/shining_pool.h\<close>: \<^verbatim>\<open>PoolMgr\<close>, worker threads that take elements from a consumer
  stack, process them and give them back to a producer stack, from which a client takes
  elements to fill and push. \<^verbatim>\<open>ele_process\<close> and \<^verbatim>\<open>make_thread_data\<close> are pure virtual: the
  element's content is not modelled and every outcome of the two calls is a step. Each
  call on a stack is one step here; that the calls of several threads on one lock-free stack
  can be put in such an order is the property of \<^verbatim>\<open>Lifo\<close>.
\<close>

section \<open>The manager\<close>

record pool_mgr =
  sp_producer :: "rstack option"    \<comment> \<open>\<^verbatim>\<open>_producer_pool\<close>; \<open>None\<close>: null\<close>
  sp_consumer :: "rstack option"
  sp_ids :: bool                    \<comment> \<open>\<^verbatim>\<open>_thread_ids\<close> is not null\<close>
  sp_th_size :: int
  sp_alive :: bool
  sp_p_size :: int

definition sp_new :: pool_mgr where
  "sp_new = \<lparr>sp_producer = None, sp_consumer = None, sp_ids = False, sp_th_size = 0,
     sp_alive = False, sp_p_size = 0\<rparr>"

definition the_pool :: "rstack option \<Rightarrow> rstack result" where
  "the_pool p = (case p of None \<Rightarrow> Fault Null_Deref | Some st \<Rightarrow> Ok st)"

text \<open>
  \<^verbatim>\<open>init\<close>; \<open>mem i\<close>: does the \<open>i\<close>-th allocation succeed (both stacks, the thread ids),
  \<open>hmem\<close>: those of the consumer's holders.
\<close>

definition sp_init ::
  "pool_mgr \<Rightarrow> int \<Rightarrow> int \<Rightarrow> (nat \<Rightarrow> bool) \<Rightarrow> (nat \<Rightarrow> bool) \<Rightarrow> (pool_mgr \<times> int) result option" where
  "sp_init m thread_size pool_size mem hmem =
     (let m = m\<lparr>sp_th_size := thread_size, sp_p_size := pool_size\<rparr>
      in if \<not> mem 0 then Some (Ok (m\<lparr>sp_producer := None\<rparr>, - 1))
         else let m = m\<lparr>sp_producer := Some (rs_new 0)\<rparr>
         in if \<not> mem 1 then Some (Ok (m\<lparr>sp_consumer := None\<rparr>, - 1))
         else runs (rs_create (rs_new 0) (of_int (sp_p_size m)) hmem) (\<lambda>(c, created).
           let m = m\<lparr>sp_consumer := Some c\<rparr>
           in if \<not> created then Some (Ok (m, - 1))
              else if \<not> mem 2 then Some (Ok (m\<lparr>sp_ids := False\<rparr>, - 1))
              else Some (Ok (m\<lparr>sp_ids := True\<rparr>, 0))))"

definition sp_push :: "pool_mgr \<Rightarrow> ptr \<Rightarrow> (pool_mgr \<times> bool) result option" where
  "sp_push m inp =
     runs (Some (the_pool (sp_consumer m))) (\<lambda>c.
     runs (rs_push c inp) (\<lambda>(c, ret). Some (Ok (m\<lparr>sp_consumer := Some c\<rparr>, ret))))"

text \<open>
  \<open>made\<close>: what \<^verbatim>\<open>new POOL_ELE()\<close> of the element allocator returns, \<open>mem\<close>: is there memory
  for its holder.
\<close>

definition sp_pop :: "pool_mgr \<Rightarrow> ptr \<Rightarrow> bool \<Rightarrow> (pool_mgr \<times> ptr) result option" where
  "sp_pop m made mem =
     runs (Some (the_pool (sp_producer m))) (\<lambda>pp.
     runs (rs_pop pp) (\<lambda>(pp, p).
       if p = None \<and> sp_p_size m > 0
       then runs (rs_force_pop (\<lambda>_. made) pp mem) (\<lambda>(pp, p).
         Some (Ok (m\<lparr>sp_producer := Some pp, sp_p_size := sp_p_size m - 1\<rparr>, p)))
       else Some (Ok (m\<lparr>sp_producer := Some pp\<rparr>, p))))"

text \<open>\<^verbatim>\<open>start\<close> and \<^verbatim>\<open>stop\<close>, but for the creation of the threads; \<^verbatim>\<open>start\<close> returns 0.\<close>

definition sp_start :: "pool_mgr \<Rightarrow> pool_mgr \<times> bool" where
  "sp_start m = (m\<lparr>sp_alive := True\<rparr>, False)"

definition sp_stop :: "pool_mgr \<Rightarrow> pool_mgr \<times> bool" where
  "sp_stop m = (m\<lparr>sp_alive := False\<rparr>, True)"

text \<open>
  The destructor: the thread ids, then both stacks with their elements. The list is of the
  elements destroyed.
\<close>

definition destroy_pool :: "rstack option \<Rightarrow> ptr list result option" where
  "destroy_pool p =
     (case p of None \<Rightarrow> Some (Ok []) | Some st \<Rightarrow> runs (rs_destroy st) (\<lambda>(_, es). Some (Ok es)))"

definition sp_destroy :: "pool_mgr \<Rightarrow> ptr list result option" where
  "sp_destroy m =
     runs (destroy_pool (sp_producer m)) (\<lambda>es.
     runs (destroy_pool (sp_consumer m)) (\<lambda>es'. Some (Ok (es @ es'))))"

section \<open>A client and the worker threads\<close>

text \<open>The places of \<^verbatim>\<open>thread_fun\<close>.\<close>

datatype worker =
    Not_Started
  | Making_Data
  | Looping                  \<comment> \<open>at the test of \<^verbatim>\<open>_alive\<close>\<close>
  | Taking                   \<comment> \<open>before the \<^verbatim>\<open>pop\<close> of the consumer stack\<close>
  | Processing nat
  | Giving_Back nat
  | Ended

record pool_sys =
  mgr :: pool_mgr
  workers :: "nat \<Rightarrow> worker"
  held :: "nat multiset"      \<comment> \<open>elements the client has popped and not pushed\<close>
  next_ele :: nat             \<comment> \<open>the address of the next element\<close>
  no_holder :: "nat multiset" \<comment> \<open>elements made for which there was no memory for a holder\<close>
  dropped :: "nat multiset"   \<comment> \<open>elements that a worker could not give back\<close>

abbreviation worker_at :: "pool_sys \<Rightarrow> nat \<Rightarrow> worker \<Rightarrow> pool_sys" where
  "worker_at s t w \<equiv> s\<lparr>workers := (workers s)(t := w)\<rparr>"

fun ptr_mset :: "ptr \<Rightarrow> nat multiset" where
  "ptr_mset None = {#}"
| "ptr_mset (Some e) = {#e#}"

inductive pool_step :: "pool_sys \<Rightarrow> pool_sys \<Rightarrow> bool" where
  start: "sp_start (mgr s) = (m, ret) \<Longrightarrow> \<forall>t. workers s t = Not_Started \<Longrightarrow>
    pool_step s (s\<lparr>mgr := m,
      workers := (\<lambda>t. if int t < sp_th_size (mgr s) \<and> created t then Making_Data else Not_Started)\<rparr>)"
| stop: "sp_stop (mgr s) = (m, ret) \<Longrightarrow> pool_step s (s\<lparr>mgr := m\<rparr>)"
| client_pop: "made = (if mem_ele then Some (next_ele s) else None) \<Longrightarrow>
    sp_pop (mgr s) made mem = Some (Ok (m, p)) \<Longrightarrow>
    ran_new = (sp_p_size m \<noteq> sp_p_size (mgr s) \<and> mem_ele) \<Longrightarrow>
    pool_step s (s\<lparr>mgr := m, held := held s + ptr_mset p,
      next_ele := (if ran_new then Suc (next_ele s) else next_ele s),
      no_holder := (if ran_new \<and> \<not> mem then add_mset (next_ele s) (no_holder s) else no_holder s)\<rparr>)"
| client_push: "e \<in># held s \<Longrightarrow> sp_push (mgr s) (Some e) = Some (Ok (m, ret)) \<Longrightarrow>
    pool_step s (s\<lparr>mgr := m, held := (if ret then held s - {#e#} else held s)\<rparr>)"
| make_data: "workers s t = Making_Data \<Longrightarrow>
    pool_step s (worker_at s t (if th_data then Looping else Ended))"
| test_alive: "workers s t = Looping \<Longrightarrow>
    pool_step s (worker_at s t (if sp_alive (mgr s) then Taking else Ended))"
| take_ele: "workers s t = Taking \<Longrightarrow> sp_consumer (mgr s) = Some c \<Longrightarrow>
    rs_pop c = Some (Ok (c', ce)) \<Longrightarrow>
    pool_step s ((worker_at s t (case ce of None \<Rightarrow> Looping | Some e \<Rightarrow> Processing e))
      \<lparr>mgr := (mgr s)\<lparr>sp_consumer := Some c'\<rparr>\<rparr>)"
| process: "workers s t = Processing e \<Longrightarrow> pool_step s (worker_at s t (Giving_Back e))"
| give_back: "workers s t = Giving_Back e \<Longrightarrow> sp_producer (mgr s) = Some pp \<Longrightarrow>
    rs_push pp (Some e) = Some (Ok (pp', ret)) \<Longrightarrow>
    pool_step s ((worker_at s t Looping)
      \<lparr>mgr := (mgr s)\<lparr>sp_producer := Some pp'\<rparr>,
       dropped := (if ret then dropped s else add_mset e (dropped s))\<rparr>)"

definition pool_sys_of :: "pool_mgr \<Rightarrow> pool_sys" where
  "pool_sys_of m = \<lparr>mgr = m, workers = (\<lambda>_. Not_Started), held = {#}, next_ele = 0,
     no_holder = {#}, dropped = {#}\<rparr>"

text \<open>Reachable after an \<^verbatim>\<open>init\<close> that succeeded.\<close>

abbreviation pool_started :: "int \<Rightarrow> int \<Rightarrow> pool_sys \<Rightarrow> bool" where
  "pool_started thread_size pool_size s \<equiv>
     \<exists>m. sp_init sp_new thread_size pool_size (\<lambda>_. True) (\<lambda>_. True) = Some (Ok (m, 0)) \<and> s = pool_sys_of m"

abbreviation pool_reach :: "int \<Rightarrow> int \<Rightarrow> pool_sys \<Rightarrow> bool" where
  "pool_reach thread_size pool_size \<equiv> reaches (pool_started thread_size pool_size) pool_step"

lemma pool_reach_init:
  "sp_init sp_new thread_size pool_size (\<lambda>_. True) (\<lambda>_. True) = Some (Ok (m, 0)) \<Longrightarrow>
     pool_reach thread_size pool_size (pool_sys_of m)"
  by (blast intro: reaches_init)

lemma pool_reach_step:
  "pool_reach thread_size pool_size s \<Longrightarrow> pool_step s s' \<Longrightarrow> pool_reach thread_size pool_size s'"
  by (blast intro: reaches_step)

section \<open>The invariant\<close>

fun work :: "worker \<Rightarrow> nat multiset" where
  "work (Processing e) = {#e#}"
| "work (Giving_Back e) = {#e#}"
| "work _ = {#}"

definition busy :: "nat \<Rightarrow> pool_sys \<Rightarrow> nat multiset" where
  "busy n s = (\<Sum>t<n. work (workers s t))"

lemma busy_upd:
  fixes n t :: nat
  assumes "t < n"
  shows "(\<Sum>u<n. work ((ws(t := w)) u)) + work (ws t) = (\<Sum>u<n. work (ws u)) + work w"
proof -
  have t: "t \<in> {..<n}" using assms by simp
  have "(\<Sum>u<n. work ((ws(t := w)) u)) = work w + (\<Sum>u\<in>{..<n} - {t}. work ((ws(t := w)) u))"
    by (subst sum.remove[OF finite_lessThan t]) simp
  also have "(\<Sum>u\<in>{..<n} - {t}. work ((ws(t := w)) u)) = (\<Sum>u\<in>{..<n} - {t}. work (ws u))"
    by (rule sum.cong) auto
  finally show ?thesis using sum.remove[OF finite_lessThan t, of "\<lambda>u. work (ws u)"]
    by (simp add: ac_simps)
qed

text \<open>
  Every element made so far is in one place: with the client, in one of the stacks, with a
  worker, or lost for want of memory. The producer stack has an empty holder for each element
  that is out of it.
\<close>

definition pool_shape ::
  "int \<Rightarrow> int \<Rightarrow> pool_sys \<Rightarrow> nat \<Rightarrow> nat list \<Rightarrow> nat \<Rightarrow> nat list \<Rightarrow> bool" where
  "pool_shape thread_size pool_size s pf prs cf crs \<longleftrightarrow>
     (\<exists>pp c. sp_producer (mgr s) = Some pp \<and> sp_consumer (mgr s) = Some c \<and>
        rs_rel pp pf prs \<and> rs_rel c cf crs) \<and>
     sp_th_size (mgr s) = thread_size \<and> (\<forall>t\<ge>nat thread_size. workers s t = Not_Started) \<and>
     pf = size (held s + mset crs + busy (nat thread_size) s) \<and>
     cf + length crs = nat pool_size \<and> pf + length prs + nat (sp_p_size (mgr s)) \<le> nat pool_size \<and>
     held s + mset crs + busy (nat thread_size) s + mset prs + no_holder s = mset [0..<next_ele s] \<and>
     dropped s = {#}"

definition pool_inv :: "int \<Rightarrow> int \<Rightarrow> pool_sys \<Rightarrow> bool" where
  "pool_inv thread_size pool_size s \<longleftrightarrow>
     (\<exists>pf prs cf crs. pool_shape thread_size pool_size s pf prs cf crs)"

lemma pool_shapeE:
  assumes "pool_shape th ps s pf prs cf crs"
  obtains pp c where "sp_producer (mgr s) = Some pp" "sp_consumer (mgr s) = Some c"
    "rs_rel pp pf prs" "rs_rel c cf crs" "sp_th_size (mgr s) = th"
    "\<forall>t\<ge>nat th. workers s t = Not_Started" "pf = size (held s + mset crs + busy (nat th) s)"
    "cf + length crs = nat ps" "pf + length prs + nat (sp_p_size (mgr s)) \<le> nat ps"
    "held s + mset crs + busy (nat th) s + mset prs + no_holder s = mset [0..<next_ele s]"
    "dropped s = {#}"
  using assms unfolding pool_shape_def by blast

text \<open>A worker moves without touching the stacks and keeps what it has.\<close>

lemma pool_shape_worker:
  assumes "pool_shape th ps s pf prs cf crs" and "workers s t \<noteq> Not_Started"
    and "work w = work (workers s t)"
  shows "pool_shape th ps (worker_at s t w) pf prs cf crs"
proof -
  have t: "t < nat th" using assms(1,2) by (auto simp: pool_shape_def not_less[symmetric])
  have "busy (nat th) (worker_at s t w) = busy (nat th) s"
    using busy_upd[OF t, of "workers s" w] assms(3) by (simp add: busy_def)
  then show ?thesis using assms(1) t by (auto simp: pool_shape_def)
qed

lemma pool_inv_worker:
  assumes "pool_inv th ps s" and "workers s t \<noteq> Not_Started" and "work w = work (workers s t)"
  shows "pool_inv th ps (worker_at s t w)"
  using assms pool_shape_worker unfolding pool_inv_def by blast

lemma rs_produce_none:
  assumes "made = None \<or> \<not> mem"
  shows "rs_produce (\<lambda>_. made) st mem = Some (Ok (st, None))"
  using assms by (auto simp: rs_produce_def)

lemma sp_pop_rel:
  assumes "sp_producer m = Some pp" and "rs_rel pp pf prs"
    and "sp_pop m made mem = Some (Ok (m', p))"
  shows "\<exists>pp'. m' = m\<lparr>sp_producer := Some pp', sp_p_size := sp_p_size m'\<rparr> \<and>
     (case prs of r # rs \<Rightarrow> p = Some r \<and> sp_p_size m' = sp_p_size m \<and> rs_rel pp' (Suc pf) rs
      | [] \<Rightarrow>
          if sp_p_size m > 0 then sp_p_size m' = sp_p_size m - 1 \<and>
            (if made \<noteq> None \<and> mem then p = made \<and> rs_rel pp' (Suc pf) []
             else p = None \<and> rs_rel pp' pf [])
          else p = None \<and> sp_p_size m' = sp_p_size m \<and> rs_rel pp' pf [])"
proof -
  obtain p1 where p1: "rs_pop pp = Some (Ok (p1, case prs of [] \<Rightarrow> None | r # _ \<Rightarrow> Some r))"
    "case prs of [] \<Rightarrow> rs_rel p1 pf [] | _ # rs' \<Rightarrow> rs_rel p1 (Suc pf) rs'"
    using rs_pop_rel[OF assms(2)] by blast
  show ?thesis
  proof (cases "prs = [] \<and> sp_p_size m > 0")
    case False
    then show ?thesis using assms(1,3) p1
      by (cases m; cases prs) (auto simp: sp_pop_def the_pool_def)
  next
    case True
    then have rel: "rs_rel p1 pf []" using p1(2) by simp
    have "\<exists>p2. rs_force_pop (\<lambda>_. made) p1 mem =
        Some (Ok (p2, if made \<noteq> None \<and> mem then made else None)) \<and>
        rs_rel p2 (if made \<noteq> None \<and> mem then Suc pf else pf) []"
    proof (cases "made \<noteq> None \<and> mem")
      case made: True
      then obtain q where "made = Some q" by auto
      then show ?thesis using rs_force_pop_rel[OF rel, of "\<lambda>_. made" q] made by auto
    next
      case False
      obtain p2 where "rs_pop p1 = Some (Ok (p2, None))" "rs_rel p2 pf []"
        using rs_pop_rel[OF rel] by auto
      then show ?thesis using False rs_produce_none[of made mem p2]
        by (auto simp: rs_force_pop_def)
    qed
    then obtain p2 where "rs_force_pop (\<lambda>_. made) p1 mem =
        Some (Ok (p2, if made \<noteq> None \<and> mem then made else None))"
      "rs_rel p2 (if made \<noteq> None \<and> mem then Suc pf else pf) []" by blast
    then show ?thesis using True p1(1) assms(1,3)
      by (cases m) (auto simp: sp_pop_def the_pool_def split: if_splits)
  qed
qed

lemma sp_push_rel:
  assumes "sp_consumer m = Some c" and "rs_rel c cf crs"
  shows "\<exists>c'. sp_push m (Some e) = Some (Ok (m\<lparr>sp_consumer := Some c'\<rparr>, cf \<noteq> 0)) \<and>
     (if cf = 0 then rs_rel c' 0 crs else rs_rel c' (cf - 1) (e # crs))"
proof -
  obtain c' where c': "rs_push c (Some e) = Some (Ok (c', cf \<noteq> 0))"
    "if cf = 0 then rs_rel c' 0 crs else rs_rel c' (cf - 1) (e # crs)"
    using rs_push_rel[OF assms(2), of e] by blast
  then have "sp_push m (Some e) = Some (Ok (m\<lparr>sp_consumer := Some c'\<rparr>, cf \<noteq> 0))"
    using assms(1) by (simp add: sp_push_def the_pool_def)
  then show ?thesis using c'(2) by blast
qed

lemma pool_shape_alive:
  assumes "pool_shape th ps s pf prs cf crs"
  shows "pool_shape th ps (s\<lparr>mgr := (mgr s)\<lparr>sp_alive := b\<rparr>\<rparr>) pf prs cf crs"
proof -
  have "busy n (s\<lparr>mgr := m\<rparr>) = busy n s" for n m by (simp add: busy_def)
  then show ?thesis using assms by (auto simp: pool_shape_def)
qed

lemma pool_step_start:
  assumes "pool_shape th ps s pf prs cf crs" and "sp_start (mgr s) = (m, ret)"
    and "\<forall>t. workers s t = Not_Started"
  shows "pool_shape th ps (s\<lparr>mgr := m,
      workers := (\<lambda>t. if int t < sp_th_size (mgr s) \<and> created t then Making_Data else Not_Started)\<rparr>)
      pf prs cf crs" (is "pool_shape th ps ?s' pf prs cf crs")
proof -
  have m: "m = (mgr s)\<lparr>sp_alive := True\<rparr>" using assms(2) by (simp add: sp_start_def)
  have "busy n ?s' = {#}" for n by (auto simp: busy_def intro!: sum.neutral)
  moreover have "busy n s = {#}" for n using assms(3) by (simp add: busy_def)
  ultimately show ?thesis using assms(1) by (auto simp: pool_shape_def m)
qed

lemma pool_step_pop:
  assumes inv: "pool_shape th ps s pf prs cf crs"
    and made: "made = (if mem_ele then Some (next_ele s) else None)"
    and pop: "sp_pop (mgr s) made mem = Some (Ok (m, p))"
    and ran: "ran_new = (sp_p_size m \<noteq> sp_p_size (mgr s) \<and> mem_ele)"
  shows "pool_inv th ps (s\<lparr>mgr := m, held := held s + ptr_mset p,
      next_ele := (if ran_new then Suc (next_ele s) else next_ele s),
      no_holder := (if ran_new \<and> \<not> mem then add_mset (next_ele s) (no_holder s) else no_holder s)\<rparr>)"
    (is "pool_inv th ps ?s'")
proof -
  obtain pp c where sh: "sp_producer (mgr s) = Some pp" "sp_consumer (mgr s) = Some c"
    "rs_rel pp pf prs" "rs_rel c cf crs" "sp_th_size (mgr s) = th"
    "\<forall>t\<ge>nat th. workers s t = Not_Started" "pf = size (held s + mset crs + busy (nat th) s)"
    "cf + length crs = nat ps" "pf + length prs + nat (sp_p_size (mgr s)) \<le> nat ps"
    "held s + mset crs + busy (nat th) s + mset prs + no_holder s = mset [0..<next_ele s]"
    "dropped s = {#}"
    using inv by (rule pool_shapeE)
  have b: "busy (nat th) ?s' = busy (nat th) s" by (simp add: busy_def)
  obtain pp' where m: "m = (mgr s)\<lparr>sp_producer := Some pp', sp_p_size := sp_p_size m\<rparr>"
    and cs: "case prs of r # rs \<Rightarrow> p = Some r \<and> sp_p_size m = sp_p_size (mgr s) \<and> rs_rel pp' (Suc pf) rs
      | [] \<Rightarrow>
          if sp_p_size (mgr s) > 0 then sp_p_size m = sp_p_size (mgr s) - 1 \<and>
            (if made \<noteq> None \<and> mem then p = made \<and> rs_rel pp' (Suc pf) []
             else p = None \<and> rs_rel pp' pf [])
          else p = None \<and> sp_p_size m = sp_p_size (mgr s) \<and> rs_rel pp' pf []"
    using sp_pop_rel[OF sh(1,3) pop] by blast
  have f: "sp_producer m = Some pp'" "sp_consumer m = Some c" "sp_th_size m = th"
    using m sh(2,5) by (metis pool_mgr.select_convs pool_mgr.surjective pool_mgr.update_convs)+
  have "\<exists>pf' prs'. rs_rel pp' pf' prs' \<and> pf' = pf + size (ptr_mset p) \<and>
      pf' + length prs' + nat (sp_p_size m) \<le> nat ps \<and>
      held ?s' + mset crs + busy (nat th) s + mset prs' + no_holder ?s' = mset [0..<next_ele ?s']"
  proof (cases prs)
    case (Cons r rs)
    then show ?thesis using cs sh(9,10) ran
      by (intro exI[of _ "Suc pf"] exI[of _ rs]) (auto simp: ac_simps)
  next
    case Nil
    note cs = cs[unfolded Nil, simplified]
    show ?thesis
    proof (cases "sp_p_size (mgr s) > 0")
      case False
      then show ?thesis using cs sh(9,10) ran Nil by (intro exI[of _ pf] exI[of _ "[]"]) auto
    next
      case pos: True
      then have ran': "ran_new = mem_ele" and sz: "nat (sp_p_size (mgr s)) = Suc (nat (sp_p_size m))"
        using cs ran by auto
      show ?thesis
      proof (cases "mem_ele \<and> mem")
        case True
        then show ?thesis using cs pos sh(9,10) ran' sz Nil made
          by (intro exI[of _ "Suc pf"] exI[of _ "[]"]) auto
      next
        case False
        then show ?thesis using cs pos sh(9,10) ran' sz Nil made
          by (intro exI[of _ pf] exI[of _ "[]"]) (auto simp del: mset_upt)
      qed
    qed
  qed
  then obtain pf' prs' where "rs_rel pp' pf' prs'" "pf' = pf + size (ptr_mset p)"
    "pf' + length prs' + nat (sp_p_size m) \<le> nat ps"
    "held ?s' + mset crs + busy (nat th) s + mset prs' + no_holder ?s' = mset [0..<next_ele ?s']"
    by blast
  then have "pool_shape th ps ?s' pf' prs' cf crs"
    using f sh(4,6,7,8,11) unfolding pool_shape_def b by auto
  then show ?thesis unfolding pool_inv_def by blast
qed

lemma pool_step_push:
  assumes inv: "pool_shape th ps s pf prs cf crs" and e: "e \<in># held s"
    and push: "sp_push (mgr s) (Some e) = Some (Ok (m, ret))"
  shows "pool_inv th ps (s\<lparr>mgr := m, held := (if ret then held s - {#e#} else held s)\<rparr>) \<and> ret"
proof -
  obtain pp c where sh: "sp_producer (mgr s) = Some pp" "sp_consumer (mgr s) = Some c"
    "rs_rel pp pf prs" "rs_rel c cf crs" "sp_th_size (mgr s) = th"
    "\<forall>t\<ge>nat th. workers s t = Not_Started" "pf = size (held s + mset crs + busy (nat th) s)"
    "cf + length crs = nat ps" "pf + length prs + nat (sp_p_size (mgr s)) \<le> nat ps"
    "held s + mset crs + busy (nat th) s + mset prs + no_holder s = mset [0..<next_ele s]"
    "dropped s = {#}"
    using inv by (rule pool_shapeE)
  obtain hs where hs: "held s = add_mset e hs" using e by (auto dest: multi_member_split)
  then have cf: "cf \<noteq> 0" using sh(7,8,9) by auto
  obtain c' where "m = (mgr s)\<lparr>sp_consumer := Some c'\<rparr>" and ret: "ret" "rs_rel c' (cf - 1) (e # crs)"
    using sp_push_rel[OF sh(2,4), of e] push cf by auto
  moreover have "busy (nat th) (s\<lparr>mgr := m, held := hs\<rparr>) = busy (nat th) s" by (simp add: busy_def)
  ultimately have "pool_shape th ps (s\<lparr>mgr := m, held := hs\<rparr>) pf prs (cf - 1) (e # crs)"
    using sh hs cf unfolding pool_shape_def by auto
  then show ?thesis using ret(1) hs unfolding pool_inv_def by auto
qed

lemma pool_step_take:
  assumes inv: "pool_shape th ps s pf prs cf crs" and t: "workers s t = Taking"
    and c: "sp_consumer (mgr s) = Some c" "rs_pop c = Some (Ok (c', ce))"
  shows "pool_inv th ps ((worker_at s t (case ce of None \<Rightarrow> Looping | Some e \<Rightarrow> Processing e))
      \<lparr>mgr := (mgr s)\<lparr>sp_consumer := Some c'\<rparr>\<rparr>)" (is "pool_inv th ps ?s'")
proof -
  obtain pp where sh: "sp_producer (mgr s) = Some pp"
    "rs_rel pp pf prs" "rs_rel c cf crs" "sp_th_size (mgr s) = th"
    "\<forall>t\<ge>nat th. workers s t = Not_Started" "pf = size (held s + mset crs + busy (nat th) s)"
    "cf + length crs = nat ps" "pf + length prs + nat (sp_p_size (mgr s)) \<le> nat ps"
    "held s + mset crs + busy (nat th) s + mset prs + no_holder s = mset [0..<next_ele s]"
    "dropped s = {#}"
    using inv c(1) by (auto elim: pool_shapeE)
  have tn: "t < nat th" using sh(5) t by (metis not_less worker.distinct(5))
  have b: "busy (nat th) ?s' = busy (nat th) s + ptr_mset ce"
    using busy_upd[OF tn, of "workers s"] t by (cases ce) (simp_all add: busy_def)
  obtain crs' cf' where "rs_rel c' cf' crs'" "mset crs = mset crs' + ptr_mset ce"
    "cf' + length crs' = cf + length crs"
    using rs_pop_rel[OF sh(3)] c(2) by (cases crs) fastforce+
  then have "pool_shape th ps ?s' pf prs cf' crs'"
    using sh tn unfolding pool_shape_def b by (auto simp: ac_simps)
  then show ?thesis unfolding pool_inv_def by blast
qed

lemma pool_step_back:
  assumes inv: "pool_shape th ps s pf prs cf crs" and t: "workers s t = Giving_Back e"
    and pp: "sp_producer (mgr s) = Some pp" "rs_push pp (Some e) = Some (Ok (pp', ret))"
  shows "pool_inv th ps ((worker_at s t Looping)
      \<lparr>mgr := (mgr s)\<lparr>sp_producer := Some pp'\<rparr>,
       dropped := (if ret then dropped s else add_mset e (dropped s))\<rparr>) \<and> ret"
    (is "pool_inv th ps ?s' \<and> ret")
proof -
  obtain c where sh: "sp_consumer (mgr s) = Some c"
    "rs_rel pp pf prs" "rs_rel c cf crs" "sp_th_size (mgr s) = th"
    "\<forall>t\<ge>nat th. workers s t = Not_Started" "pf = size (held s + mset crs + busy (nat th) s)"
    "cf + length crs = nat ps" "pf + length prs + nat (sp_p_size (mgr s)) \<le> nat ps"
    "held s + mset crs + busy (nat th) s + mset prs + no_holder s = mset [0..<next_ele s]"
    "dropped s = {#}"
    using inv pp(1) by (auto elim: pool_shapeE)
  have tn: "t < nat th" using sh(5) t by (metis not_less worker.distinct(9))
  have b: "busy (nat th) s = add_mset e (busy (nat th) ?s')"
    using busy_upd[OF tn, of "workers s" Looping] t by (simp add: busy_def)
  then have pf: "pf \<noteq> 0" using sh(6) by simp
  have ret: "ret" "rs_rel pp' (pf - 1) (e # prs)" using rs_push_rel[OF sh(2), of e] pp(2) pf by auto
  have "pool_shape th ps ?s' (pf - 1) (e # prs) cf crs"
    using sh tn ret b pf unfolding pool_shape_def by (auto simp: ac_simps)
  then show ?thesis using ret(1) unfolding pool_inv_def by blast
qed

lemma pool_step_inv: "pool_step s s' \<Longrightarrow> pool_inv th ps s \<Longrightarrow> pool_inv th ps s'"
proof (induction rule: pool_step.induct)
  case (start s m ret created)
  then show ?case using pool_step_start unfolding pool_inv_def by blast
next
  case (stop s m ret)
  then have "m = (mgr s)\<lparr>sp_alive := False\<rparr>" by (simp add: sp_stop_def)
  then show ?case using stop pool_shape_alive unfolding pool_inv_def by blast
next
  case (client_pop made mem_ele s mem m p ran_new)
  then obtain pf prs cf crs where "pool_shape th ps s pf prs cf crs" by (auto simp: pool_inv_def)
  from pool_step_pop[OF this client_pop.hyps] show ?case .
next
  case (client_push e s m ret)
  then show ?case using pool_step_push unfolding pool_inv_def by blast
next
  case (take_ele s t c c' ce)
  then show ?case using pool_step_take unfolding pool_inv_def by blast
next
  case (give_back s t e pp pp' ret)
  then show ?case using pool_step_back unfolding pool_inv_def by blast
qed (auto intro!: pool_inv_worker)

text \<open>The manager after an \<^verbatim>\<open>init\<close> that succeeded.\<close>

lemma sp_init_ok:
  assumes "0 \<le> ps" and "ps < 2 ^ 31"
    and "sp_init sp_new th ps (\<lambda>_. True) (\<lambda>_. True) = Some (Ok (m, 0))"
  shows "\<exists>c. rs_rel c (nat ps) [] \<and> \<not> rs_bound c \<and>
     m = sp_new\<lparr>sp_th_size := th, sp_p_size := ps, sp_producer := Some (rs_new 0),
       sp_consumer := Some c, sp_ids := True\<rparr>"
proof -
  have new: "rs_rel (rs_new 0) 0 []" "rs_bound (rs_new 0) = False"
    using rs_new_shape[of 0] by (auto simp: rs_rel_def rs_new_def)
  have "unat (of_int ps :: u32) = nat ps"
    using assms(1,2) by (simp add: unat_eq_nat_uint uint_word_of_int)
  then obtain c where "rs_create (rs_new 0) (of_int ps) (\<lambda>_. True) = Some (Ok (c, True))"
    "rs_rel c (nat ps) []" "\<not> rs_bound c"
    using rs_create_rel[OF new(1), of "of_int ps"] new(2) by auto
  then show ?thesis using assms(3) by (intro exI[of _ c]) (simp add: sp_init_def Let_def)
qed

lemma pool_init_inv:
  assumes "0 \<le> ps" and "ps < 2 ^ 31"
    and "sp_init sp_new th ps (\<lambda>_. True) (\<lambda>_. True) = Some (Ok (m, 0))"
  shows "pool_inv th ps (pool_sys_of m)"
proof -
  have new: "rs_rel (rs_new 0) 0 []" using rs_new_shape[of 0] by (auto simp: rs_rel_def)
  obtain c where c: "rs_rel c (nat ps) []" and
    m: "m = sp_new\<lparr>sp_th_size := th, sp_p_size := ps, sp_producer := Some (rs_new 0),
      sp_consumer := Some c, sp_ids := True\<rparr>"
    using sp_init_ok[OF assms] by blast
  have "pool_shape th ps (pool_sys_of m) 0 [] (nat ps) []"
    using new c by (simp add: pool_shape_def pool_sys_of_def busy_def m)
  then show ?thesis unfolding pool_inv_def by blast
qed

interpretation pools: step_invariant "pool_started th ps" pool_step
  "\<lambda>s. 0 \<le> ps \<and> ps < 2 ^ 31 \<longrightarrow> pool_inv th ps s" for th ps
  by unfold_locales (auto intro: pool_init_inv pool_step_inv)

lemma pool_reach_inv: "pool_reach th ps s \<Longrightarrow> 0 \<le> ps \<Longrightarrow> ps < 2 ^ 31 \<Longrightarrow> pool_inv th ps s"
  using pools.reaches_inv by blast

section \<open>The properties\<close>

text \<open>A pool of size one, on which the properties are tried: its consumer stack has one holder.\<close>

definition one_holder :: "ptr \<Rightarrow> nat \<Rightarrow> ptr \<Rightarrow> nat \<Rightarrow> ptr \<Rightarrow> rstack" where
  "one_holder av n em k p = \<lparr>rs_aviable = \<lparr>lf_head = av, lf_sync = of_nat n\<rparr>,
     rs_empty = \<lparr>lf_head = em, lf_sync = of_nat k\<rparr>, rs_next = [0 \<mapsto> None], rs_p = (\<lambda>_. None)(0 := p),
     rs_fresh = 1, rs_bound = False\<rparr>"

definition small_pool :: "rstack \<Rightarrow> rstack \<Rightarrow> int \<Rightarrow> pool_mgr" where
  "small_pool pp cc n = \<lparr>sp_producer = Some pp, sp_consumer = Some cc, sp_ids = True,
     sp_th_size = 1, sp_alive = False, sp_p_size = n\<rparr>"

lemma small_pool_init:
  "sp_init sp_new 1 1 (\<lambda>_. True) (\<lambda>_. True) =
     Some (Ok (small_pool (rs_new 0) (one_holder None 0 (Some 0) 1 None) 1, 0))"
  by (simp add: sp_init_def rs_create_def new_holder_def push_empty_def lf_push_alone small_pool_def
      one_holder_def rs_new_def lf_create_def sp_new_def)

lemma pool_start_pop:
  "\<exists>s. pool_reach 1 1 s \<and> held s = {#0#} \<and> next_ele s = 1"
proof -
  let ?c = "one_holder None 0 (Some 0) 1 None"
  let ?m = "small_pool (rs_new 0) ?c 1" and ?m' = "small_pool ?c ?c 0"
  have reach: "pool_reach 1 1 (pool_sys_of ?m)" by (rule pool_reach_init[OF small_pool_init])
  have "sp_pop ?m (Some 0) True = Some (Ok (?m', Some 0))"
    by (simp add: sp_pop_def the_pool_def rs_pop_def pop_aviable_def lf_pop_alone rs_force_pop_def
        rs_produce_def new_holder_def push_empty_def lf_push_alone small_pool_def one_holder_def
        rs_new_def lf_create_def Let_def)
  then have "pool_step (pool_sys_of ?m) ((pool_sys_of ?m)\<lparr>mgr := ?m', held := {#0#}, next_ele := 1,
      no_holder := {#}\<rparr>)"
    using pool_step.client_pop[of "Some 0" True "pool_sys_of ?m" True ?m' "Some 0" True]
    by (simp add: pool_sys_of_def small_pool_def)
  then show ?thesis using pool_reach_step[OF reach] by fastforce
qed

text \<open>
  No element of the pool is lost, and none is in two hands. With any number of worker
  threads, a client that pushes only elements it has popped, and any outcome of the
  allocations and of \<^verbatim>\<open>ele_process\<close>, every element made is at every moment in exactly one
  place: with the client, waiting in the consumer stack, with one worker, or back in the
  producer stack, except those for whose holder there was no memory. No worker ever fails to
  give an element back.
\<close>

theorem shining_pool_conserves:
  assumes "pool_reach thread_size pool_size s" and "0 \<le> pool_size" and "pool_size < 2 ^ 31"
  shows "\<exists>pp c pf prs cf crs. sp_producer (mgr s) = Some pp \<and> sp_consumer (mgr s) = Some c \<and>
     rs_rel pp pf prs \<and> rs_rel c cf crs \<and>
     held s + mset crs + (\<Sum>t<nat thread_size. work (workers s t)) + mset prs + no_holder s =
       mset [0..<next_ele s] \<and>
     dropped s = {#}"
  using pool_reach_inv[OF assms] unfolding pool_inv_def pool_shape_def busy_def by blast

theorem shining_pool_conserves_witness:
  "\<exists>s pp. pool_reach 1 1 s \<and> held s = {#0#} \<and> sp_producer (mgr s) = Some pp \<and> dropped s = {#}"
proof -
  obtain s where s: "pool_reach 1 1 s" "held s = {#0#}" using pool_start_pop by blast
  then show ?thesis using shining_pool_conserves[OF s(1)] by auto
qed

text \<open>
  The consumer stack has room for every element in circulation: \<^verbatim>\<open>push\<close> of an element that
  the client got from \<^verbatim>\<open>pop\<close> never fails.
\<close>

theorem shining_pool_push_succeeds:
  assumes "pool_reach thread_size pool_size s" and "0 \<le> pool_size" and "pool_size < 2 ^ 31"
    and "e \<in># held s"
  shows "\<exists>m. sp_push (mgr s) (Some e) = Some (Ok (m, True))"
proof -
  obtain pf prs cf crs where sh: "pool_shape thread_size pool_size s pf prs cf crs"
    using pool_reach_inv[OF assms(1-3)] by (auto simp: pool_inv_def)
  obtain c where c: "sp_consumer (mgr s) = Some c" "rs_rel c cf crs"
    using sh by (auto simp: pool_shape_def)
  obtain m ret where m: "sp_push (mgr s) (Some e) = Some (Ok (m, ret))"
    using sp_push_rel[OF c] by blast
  then show ?thesis using pool_step_push[OF sh assms(4) m] by auto
qed

theorem shining_pool_push_succeeds_witness:
  "\<exists>s m. pool_reach 1 1 s \<and> sp_push (mgr s) (Some 0) = Some (Ok (m, True))"
proof -
  obtain s where s: "pool_reach 1 1 s" "0 \<in># held s" using pool_start_pop by force
  then show ?thesis using shining_pool_push_succeeds[OF s(1) _ _ s(2)] by auto
qed

end
