(* ===== verification/Resource_Concurrent.thy ===== *)
theory Resource_Concurrent
  imports Resource_Stack Linearize
begin

text \<open>
  \<^verbatim>\<open>container/resource_stack.h\<close> used by many threads at once. \<^verbatim>\<open>push\<close>, \<^verbatim>\<open>pop\<close> and
  \<^verbatim>\<open>force_pop\<close> are cut at every operation on one of the two lock-free stacks and at every access to
  a holder; between two of them any other thread may run. That an operation on one lock-free
  stack is a single step is the property of \<open>Lifo\<close>. The theory shows that the whole is
  linearizable as a stack of resources, that no holder is lost, and how many calls in progress can
  make a push fail.
\<close>

section \<open>The calls, one access at a time\<close>

datatype rc_call = Call_Push ptr | Call_Pop | Call_Force

text \<open>
  \<open>Took p\<close>: \<^verbatim>\<open>pop\<close> or \<^verbatim>\<open>force_pop\<close> returns what was in the stack; \<open>Made p\<close>: \<^verbatim>\<open>force_pop\<close> found
  the stack empty and returns what \<^verbatim>\<open>produce\<close> returned.
\<close>

datatype rc_answer = Put bool | Took ptr | Made ptr

datatype rc_pc =
    Rc_Idle
  | Pu_Null ptr                   \<comment> \<open>\<^verbatim>\<open>NULL == in\<close>\<close>
  | Pu_Get nat                    \<comment> \<open>\<^verbatim>\<open>hoder = _empty.pop()\<close>\<close>
  | Pu_Set nat nat                \<comment> \<open>\<^verbatim>\<open>hoder->_p = in\<close>\<close>
  | Pu_Put nat nat                \<comment> \<open>\<^verbatim>\<open>_aviable.push(hoder)\<close>\<close>
  | Po_Get bool                   \<comment> \<open>\<^verbatim>\<open>hoder = _aviable.pop()\<close>; the flag: called by \<^verbatim>\<open>force_pop\<close>\<close>
  | Po_Read bool nat              \<comment> \<open>\<^verbatim>\<open>back = hoder->_p\<close>\<close>
  | Po_Clear bool nat ptr         \<comment> \<open>\<^verbatim>\<open>hoder->_p = NULL\<close>\<close>
  | Po_Put bool nat ptr           \<comment> \<open>\<^verbatim>\<open>_empty.push(hoder)\<close>\<close>
  | Mk_Call                       \<comment> \<open>the producer's call operator, in \<^verbatim>\<open>produce\<close>\<close>
  | Mk_New nat                    \<comment> \<open>\<^verbatim>\<open>new (std::nothrow)hoder_t\<close>\<close>
  | Mk_Clear nat nat              \<comment> \<open>\<^verbatim>\<open>hoder->_p = NULL\<close>\<close>
  | Mk_Put nat nat                \<comment> \<open>\<^verbatim>\<open>_empty.push(hoder)\<close>\<close>
  | Rc_Return rc_answer
  | Rc_Dead fault

text \<open>
  One access: the stack after it, the next place, and the answer when the call takes its effect
  at this access. \<open>mk\<close> is what the producer returns, \<open>mem\<close>: is there memory for a holder.
\<close>

type_synonym rc_result = "(rstack \<times> rc_pc \<times> rc_answer option) result option"

fun rc_move :: "(bool \<Rightarrow> ptr) \<Rightarrow> bool \<Rightarrow> rstack \<Rightarrow> rc_pc \<Rightarrow> rc_result option" where
  "rc_move mk mem st (Pu_Null inp) =
     Some (Some (Ok (case inp of
        None \<Rightarrow> (st, Rc_Return (Put False), Some (Put False))
      | Some r \<Rightarrow> (st, Pu_Get r, None))))"
| "rc_move mk mem st (Pu_Get r) =
     Some (runs (pop_empty st) (\<lambda>(st, hoder). Some (Ok (case hoder of
        None \<Rightarrow> (st, Rc_Return (Put False), Some (Put False))
      | Some h \<Rightarrow> (st, Pu_Set r h, None)))))"
| "rc_move mk mem st (Pu_Set r h) =
     Some (Some (Ok (st\<lparr>rs_p := (rs_p st)(h := Some r)\<rparr>, Pu_Put r h, None)))"
| "rc_move mk mem st (Pu_Put r h) =
     Some (runs (push_aviable st h) (\<lambda>st. Some (Ok (st, Rc_Return (Put True), Some (Put True)))))"
| "rc_move mk mem st (Po_Get force) =
     Some (runs (pop_aviable st) (\<lambda>(st, hoder). Some (Ok (case hoder of
        None \<Rightarrow> if force then (st, Mk_Call, None) else (st, Rc_Return (Took None), Some (Took None))
      | Some h \<Rightarrow> (st, Po_Read force h, Some (Took (rs_p st h)))))))"
| "rc_move mk mem st (Po_Read force h) = Some (Some (Ok (st, Po_Clear force h (rs_p st h), None)))"
| "rc_move mk mem st (Po_Clear force h back) =
     Some (Some (Ok (st\<lparr>rs_p := (rs_p st)(h := None)\<rparr>, Po_Put force h back, None)))"
| "rc_move mk mem st (Po_Put force h back) =
     Some (runs (push_empty st h) (\<lambda>st. Some (Ok
       (st, if force \<and> back = None then Mk_Call else Rc_Return (Took back), None))))"
| "rc_move mk mem st Mk_Call =
     (let back = (if \<not> rs_bound st then mk False else mk True)
      in Some (Some (Ok (case back of
           None \<Rightarrow> (st, Rc_Return (Made None), Some (Made None))
         | Some r \<Rightarrow> (st, Mk_New r, None)))))"
| "rc_move mk mem st (Mk_New r) =
     Some (Some (Ok
       (if \<not> mem then (st, Rc_Return (Made None), Some (Made None))
        else (fst (new_holder st), Mk_Clear r (snd (new_holder st)), None))))"
| "rc_move mk mem st (Mk_Clear r h) =
     Some (Some (Ok (st\<lparr>rs_p := (rs_p st)(h := None)\<rparr>, Mk_Put r h, None)))"
| "rc_move mk mem st (Mk_Put r h) =
     Some (runs (push_empty st h) (\<lambda>st. Some (Ok
       (st, Rc_Return (Made (Some r)), Some (Made (Some r))))))"
| "rc_move mk mem st _ = None"

fun rc_begin :: "rc_call \<Rightarrow> rc_pc" where
  "rc_begin (Call_Push inp) = Pu_Null inp"
| "rc_begin Call_Pop = Po_Get False"
| "rc_begin Call_Force = Po_Get True"

section \<open>Threads\<close>

record rc_sys =
  rc_st :: rstack
  rc_pcs :: "nat \<Rightarrow> rc_pc"

abbreviation rc_goto :: "rc_sys \<Rightarrow> nat \<Rightarrow> rc_pc \<Rightarrow> rc_sys" where
  "rc_goto s t c \<equiv> s\<lparr>rc_pcs := (rc_pcs s)(t := c)\<rparr>"

inductive rc_step :: "rc_sys \<Rightarrow> (rc_call, rc_answer) event list \<Rightarrow> rc_sys \<Rightarrow> bool" where
  rc_call: "rc_pcs s t = Rc_Idle \<Longrightarrow> rc_step s [Called t c] (rc_goto s t (rc_begin c))"
| rc_access: "rc_move mk mem (rc_st s) (rc_pcs s t) = Some (Some (Ok (st, c, r))) \<Longrightarrow>
    rc_step s (effect_of t r) ((rc_goto s t c)\<lparr>rc_st := st\<rparr>)"
| rc_fault: "rc_move mk mem (rc_st s) (rc_pcs s t) = Some (Some (Fault f)) \<Longrightarrow>
    rc_step s [] (rc_goto s t (Rc_Dead f))"
| rc_return: "rc_pcs s t = Rc_Return r \<Longrightarrow> rc_step s [Returned t r] (rc_goto s t Rc_Idle)"

text \<open>A stack that \<^verbatim>\<open>create\<close> gave \<open>num\<close> holders.\<close>

definition rc_init :: "bool \<Rightarrow> u32 \<Rightarrow> rc_sys" where
  "rc_init bound num =
     \<lparr>rc_st = (case rs_create (rs_bind (rs_new 0) bound) num (\<lambda>_. True) of
        Some (Inr (st, created)) \<Rightarrow> st | _ \<Rightarrow> rs_new 0),
      rc_pcs = (\<lambda>_. Rc_Idle)\<rparr>"

abbreviation rc_run :: "bool \<Rightarrow> u32 \<Rightarrow> (rc_call, rc_answer) event list \<Rightarrow> rc_sys \<Rightarrow> bool" where
  "rc_run bound num \<equiv> runs_to rc_step (rc_init bound num)"

lemmas rc_run_init = runs_to_init[where step = rc_step]
lemmas rc_run_step = runs_to_step[where step = rc_step]

section \<open>The specification: a stack of resources\<close>

text \<open>
  A push may be refused; when is the second property. What the producer makes does not go
  through the stack.
\<close>

fun stack_effect :: "nat list \<Rightarrow> rc_call \<Rightarrow> rc_answer \<Rightarrow> nat list option" where
  "stack_effect xs (Call_Push inp) (Put b) =
     (if b then map_option (\<lambda>r. r # xs) inp else Some xs)"
| "stack_effect xs Call_Pop (Took p) =
     (case xs of [] \<Rightarrow> if p = None then Some [] else None
      | x # xs' \<Rightarrow> if p = Some x then Some xs' else None)"
| "stack_effect xs Call_Force (Took p) =
     (case xs of [] \<Rightarrow> None | x # xs' \<Rightarrow> if p = Some x then Some xs' else None)"
| "stack_effect xs Call_Force (Made p) = Some xs"
| "stack_effect xs _ _ = None"

section \<open>What holds at every moment\<close>

text \<open>The holder in the hands of a thread.\<close>

fun in_hand :: "rc_pc \<Rightarrow> nat set" where
  "in_hand (Pu_Set r h) = {h}"
| "in_hand (Pu_Put r h) = {h}"
| "in_hand (Po_Read force h) = {h}"
| "in_hand (Po_Clear force h back) = {h}"
| "in_hand (Po_Put force h back) = {h}"
| "in_hand (Mk_Clear r h) = {h}"
| "in_hand (Mk_Put r h) = {h}"
| "in_hand _ = {}"

fun rc_ok :: "(nat \<Rightarrow> ptr) \<Rightarrow> rc_pc \<Rightarrow> (rc_call, rc_answer) status \<Rightarrow> bool" where
  "rc_ok p Rc_Idle st \<longleftrightarrow> st = Ready"
| "rc_ok p (Pu_Null inp) st \<longleftrightarrow> st = Pending (Call_Push inp)"
| "rc_ok p (Pu_Get r) st \<longleftrightarrow> st = Pending (Call_Push (Some r))"
| "rc_ok p (Pu_Set r h) st \<longleftrightarrow> st = Pending (Call_Push (Some r))"
| "rc_ok p (Pu_Put r h) st \<longleftrightarrow> st = Pending (Call_Push (Some r)) \<and> p h = Some r"
| "rc_ok p (Po_Get force) st \<longleftrightarrow> st = Pending (if force then Call_Force else Call_Pop)"
| "rc_ok p (Po_Read force h) st \<longleftrightarrow> p h \<noteq> None \<and> st = Answered (Took (p h))"
| "rc_ok p (Po_Clear force h back) st \<longleftrightarrow> back \<noteq> None \<and> st = Answered (Took back)"
| "rc_ok p (Po_Put force h back) st \<longleftrightarrow> back \<noteq> None \<and> st = Answered (Took back)"
| "rc_ok p Mk_Call st \<longleftrightarrow> st = Pending Call_Force"
| "rc_ok p (Mk_New r) st \<longleftrightarrow> st = Pending Call_Force"
| "rc_ok p (Mk_Clear r h) st \<longleftrightarrow> st = Pending Call_Force"
| "rc_ok p (Mk_Put r h) st \<longleftrightarrow> st = Pending Call_Force"
| "rc_ok p (Rc_Return r) st \<longleftrightarrow> st = Answered r"
| "rc_ok p (Rc_Dead f) st \<longleftrightarrow> False"

text \<open>\<open>n\<close> counts the holders: those of \<^verbatim>\<open>create\<close> and those that \<^verbatim>\<open>produce\<close> has added.\<close>

definition hands :: "(nat \<Rightarrow> rc_pc) \<Rightarrow> nat set" where
  "hands pcs = (\<Union>t. in_hand (pcs t))"

definition rc_inv ::
  "rc_sys \<Rightarrow> (nat list, rc_call, rc_answer) spec \<Rightarrow> nat list \<Rightarrow> nat list \<Rightarrow> bool" where
  "rc_inv s q E A \<longleftrightarrow>
     rs_parts (rc_st s) E A (hands (rc_pcs s)) \<and> map (rs_p (rc_st s)) A = map Some (fst q) \<and>
     (\<forall>t u. t \<noteq> u \<longrightarrow> in_hand (rc_pcs s t) \<inter> in_hand (rc_pcs s u) = {}) \<and>
     (\<forall>t. rc_ok (rs_p (rc_st s)) (rc_pcs s t) (snd q t))"

lemma rc_invD:
  assumes "rc_inv s q E A"
  shows "rs_parts (rc_st s) E A (hands (rc_pcs s))" "map (rs_p (rc_st s)) A = map Some (fst q)"
    "t \<noteq> u \<Longrightarrow> in_hand (rc_pcs s t) \<inter> in_hand (rc_pcs s u) = {}"
    "rc_ok (rs_p (rc_st s)) (rc_pcs s t) (snd q t)"
  using assms unfolding rc_inv_def by blast+

section \<open>One access\<close>

text \<open>Only \<^verbatim>\<open>new\<close> adds a holder.\<close>

fun grows :: "rc_pc \<Rightarrow> nat" where
  "grows (Mk_Clear r h) = 1"
| "grows _ = 0"

lemma grows_none: "in_hand c = {} \<Longrightarrow> grows c = 0"
  by (cases c) simp_all

definition rc_good ::
  "rstack \<Rightarrow> nat list \<Rightarrow> nat list \<Rightarrow> nat list \<Rightarrow> nat set \<Rightarrow> rc_pc \<Rightarrow> (rc_call, rc_answer) status \<Rightarrow>
   rc_result \<Rightarrow> bool" where
  "rc_good st xs E A H c w res \<longleftrightarrow>
     (\<exists>st' c' r xs' w' E' A'. res = Some (Ok (st', c', r)) \<and> takes stack_effect xs w r xs' w' \<and>
        rs_parts st' E' A' (H \<union> in_hand c') \<and> H \<inter> in_hand c' = {} \<and>
        map (rs_p st') A' = map Some xs' \<and> rc_ok (rs_p st') c' w' \<and>
        (\<forall>h\<in>H. rs_p st' h = rs_p st h) \<and> dom (rs_next st) \<subseteq> dom (rs_next st') \<and>
        length E' + length A' + card (in_hand c') =
          length E + length A + card (in_hand c) + grows c' \<and>
        rs_bound st' = rs_bound st)"

lemma rc_goodI:
  assumes "res = Some (Ok (st', c', r))" "takes stack_effect xs w r xs' w'"
    "rs_parts st' E' A' (H \<union> in_hand c')" "H \<inter> in_hand c' = {}" "map (rs_p st') A' = map Some xs'"
    "rc_ok (rs_p st') c' w'" "\<And>h. h \<in> H \<Longrightarrow> rs_p st' h = rs_p st h"
    "dom (rs_next st) \<subseteq> dom (rs_next st')"
    "length E' + length A' + card (in_hand c') = length E + length A + card (in_hand c) + grows c'"
    "rs_bound st' = rs_bound st"
  shows "rc_good st xs E A H c w res"
  unfolding rc_good_def using assms by (intro exI conjI ballI) assumption+

text \<open>An access that touches neither the stacks nor a holder.\<close>

lemma rc_good_local:
  assumes "rs_parts st E A H" "map (rs_p st) A = map Some xs"
    and "in_hand c = {}"
    and "res = Some (Ok (st, c', r))" "takes stack_effect xs w r xs w'" "in_hand c' = {}"
    "rc_ok (rs_p st) c' w'"
  shows "rc_good st xs E A H c w res"
  using assms grows_none by (intro rc_goodI[where E' = E and A' = A]) auto

text \<open>An access that writes the holder in the thread's hands.\<close>

lemma rc_good_write_holder:
  assumes parts: "rs_parts st E A (H \<union> in_hand c)" "H \<inter> in_hand c = {}"
    and map: "map (rs_p st) A = map Some xs" and hand: "in_hand c = {h}" "in_hand c' = {h}" "grows c' = 0"
    and res: "res = Some (Ok (st\<lparr>rs_p := (rs_p st)(h := v)\<rparr>, c', None))"
    and ok: "rc_ok ((rs_p st)(h := v)) c' w"
  shows "rc_good st xs E A H c w res"
proof -
  have h: "h \<notin> H" "h \<notin> set A" using parts(2) rs_partsD(4)[OF parts(1)] hand(1) by auto
  then have "map ((rs_p st)(h := v)) A = map (rs_p st) A" by simp
  then show ?thesis
    using parts map hand ok h
    by (intro rc_goodI[OF res, where E' = E and A' = A and w' = w and xs' = xs]) auto
qed

text \<open>The access that gives the emptied holder back.\<close>

lemma rc_good_put_empty:
  assumes parts: "rs_parts st E A (H \<union> in_hand c)" "H \<inter> in_hand c = {}"
    and map: "map (rs_p st) A = map Some xs" and hand: "in_hand c = {h}" "in_hand c' = {}" "grows c' = 0"
    and res: "\<And>st'. push_empty st h = Some (Ok st') \<Longrightarrow> res = Some (Ok (st', c', r))"
    and eff: "takes stack_effect xs w r xs w'" and ok: "rc_ok (rs_p st) c' w'"
  shows "rc_good st xs E A H c w res"
proof -
  have P: "rs_parts st E A (insert h H)" using parts(1) hand(1) by simp
  have h: "h \<notin> H" using parts(2) hand(1) by simp
  from push_empty_parts[OF P, of h] obtain l nx where l:
    "push_empty st h = Some (Ok (st\<lparr>rs_empty := l, rs_next := nx\<rparr>))"
    "rs_parts (st\<lparr>rs_empty := l, rs_next := nx\<rparr>) (h # E) A H" using h by auto
  have "dom (rs_next st) = dom nx" using rs_partsD(5)[OF P] rs_partsD(5)[OF l(2)] by auto
  then show ?thesis
    using l(2) map hand eff ok
    by (intro rc_goodI[OF res[OF l(1)], where E' = "h # E" and A' = A and w' = w' and xs' = xs]) auto
qed

text \<open>The access of \<^verbatim>\<open>pop\<close> to the stack of the available.\<close>

lemma rc_good_take:
  assumes P: "rs_parts st E A H" and map: "map (rs_p st) A = map Some xs"
    and ok: "rc_ok (rs_p st) (Po_Get f) w" and mv: "rc_move mk mem st (Po_Get f) = Some res"
  shows "rc_good st xs E A H (Po_Get f) w res"
proof (cases A)
  case Nil
  have res: "res = Some (Ok (if f then (st, Mk_Call, None)
      else (st, Rc_Return (Took None), Some (Took None))))" and xs: "xs = []"
    using pop_aviable_parts[OF P] mv map Nil by simp_all
  show ?thesis
  proof (cases f)
    case True
    then show ?thesis
      using P Nil ok res xs by (intro rc_good_local[where w' = w and c' = Mk_Call and r = None]) simp_all
  next
    case False
    then show ?thesis
      using P Nil ok res xs
      by (intro rc_good_local[where w' = "Answered (Took None)" and r = "Some (Took None)" and
            c' = "Rc_Return (Took None)"]) simp_all
  qed
next
  case (Cons h A')
  then obtain x xs' where xs: "xs = x # xs'" "rs_p st h = Some x" "map (rs_p st) A' = map Some xs'"
    using map by (cases xs) auto
  obtain l where l: "pop_aviable st = Some (Ok (st\<lparr>rs_aviable := l\<rparr>, Some h))"
    "rs_parts (st\<lparr>rs_aviable := l\<rparr>) E A' (insert h H)"
    using pop_aviable_parts[OF P] Cons by auto
  have "h \<notin> H" using rs_partsD(4)[OF P] Cons by auto
  then show ?thesis
    using l xs ok mv Cons
    by (cases f; intro rc_goodI[where st' = "st\<lparr>rs_aviable := l\<rparr>" and c' = "Po_Read f h"
          and r = "Some (Took (Some x))" and E' = E and A' = A'
          and w' = "Answered (Took (Some x))" and xs' = xs']) (simp_all add: insert_commute)
qed

text \<open>The access of \<^verbatim>\<open>push\<close> to the stack of the empty holders.\<close>

lemma rc_good_take_empty:
  assumes P: "rs_parts st E A H" and map: "map (rs_p st) A = map Some xs"
    and ok: "rc_ok (rs_p st) (Pu_Get r) w" and mv: "rc_move mk mem st (Pu_Get r) = Some res"
  shows "rc_good st xs E A H (Pu_Get r) w res"
proof (cases E)
  case Nil
  then have "res = Some (Ok (st, Rc_Return (Put False), Some (Put False)))"
    using pop_empty_parts[OF P] mv by simp
  then show ?thesis
    using P map ok
    by (intro rc_good_local[where w' = "Answered (Put False)" and r = "Some (Put False)" and
          c' = "Rc_Return (Put False)"]) simp_all
next
  case (Cons h E')
  then obtain l where l: "pop_empty st = Some (Ok (st\<lparr>rs_empty := l\<rparr>, Some h))"
    "rs_parts (st\<lparr>rs_empty := l\<rparr>) E' A (insert h H)"
    using pop_empty_parts[OF P] by auto
  have "h \<notin> H" using rs_partsD(4)[OF P] Cons by auto
  then show ?thesis
    using l map ok mv Cons
    by (intro rc_goodI[where st' = "st\<lparr>rs_empty := l\<rparr>" and c' = "Pu_Set r h" and r = None and E' = E' and A' = A
          and w' = w]) (simp_all add: insert_commute)
qed

lemma rc_good_push:
  assumes parts: "rs_parts st E A (H \<union> in_hand c)" "H \<inter> in_hand c = {}"
    and map: "map (rs_p st) A = map Some xs" and ok: "rc_ok (rs_p st) c w"
    and mv: "rc_move mk mem st c = Some res"
    and c: "(\<exists>inp. c = Pu_Null inp) \<or> (\<exists>r. c = Pu_Get r) \<or> (\<exists>r h. c = Pu_Set r h) \<or> (\<exists>r h. c = Pu_Put r h)"
  shows "rc_good st xs E A H c w res"
proof -
  consider (null) inp where "c = Pu_Null inp" | (get) r where "c = Pu_Get r"
    | (set) r h where "c = Pu_Set r h" | (put) r h where "c = Pu_Put r h"
    using c by blast
  then show ?thesis
  proof cases
    case null
    have P: "rs_parts st E A H" using parts(1) null by simp
    show ?thesis
    proof (cases inp)
      case None
      then show ?thesis
        using P map ok mv null by (intro rc_good_local[where w' = "Answered (Put False)"]) auto
    next
      case (Some r)
      then show ?thesis using P map ok mv null by (intro rc_good_local[where w' = w]) auto
    qed
  next
    case get
    then show ?thesis using rc_good_take_empty[of st E A H xs r w] parts map ok mv by simp
  next
    case set
    then show ?thesis using ok mv
      by (intro rc_good_write_holder[OF parts map, where c' = "Pu_Put r h" and h = h and v = "Some r"]) auto
  next
    case put
    have P: "rs_parts st E A (insert h H)" using parts(1) put by simp
    have h: "h \<notin> H" using parts(2) put by simp
    from push_aviable_parts[OF P, of h] obtain l nx where l:
      "push_aviable st h = Some (Ok (st\<lparr>rs_aviable := l, rs_next := nx\<rparr>))"
      "rs_parts (st\<lparr>rs_aviable := l, rs_next := nx\<rparr>) E (h # A) H" using h by auto
    have "dom (rs_next st) = dom nx" using rs_partsD(5)[OF P] rs_partsD(5)[OF l(2)] by auto
    then show ?thesis
      using l map ok put mv
      by (intro rc_goodI[where st' = "st\<lparr>rs_aviable := l, rs_next := nx\<rparr>"
            and c' = "Rc_Return (Put True)" and E' = E and A' = "h # A" and w' = "Answered (Put True)"
            and xs' = "r # xs"]) auto
  qed
qed

lemma rc_good_pop:
  assumes parts: "rs_parts st E A (H \<union> in_hand c)" "H \<inter> in_hand c = {}"
    and map: "map (rs_p st) A = map Some xs" and ok: "rc_ok (rs_p st) c w"
    and mv: "rc_move mk mem st c = Some res"
    and c: "(\<exists>f. c = Po_Get f) \<or> (\<exists>f h. c = Po_Read f h) \<or> (\<exists>f h b. c = Po_Clear f h b) \<or>
      (\<exists>f h b. c = Po_Put f h b)"
  shows "rc_good st xs E A H c w res"
proof -
  consider (get) f where "c = Po_Get f" | (read) f h where "c = Po_Read f h"
    | (clear) f h b where "c = Po_Clear f h b" | (put) f h b where "c = Po_Put f h b"
    using c by blast
  then show ?thesis
  proof cases
    case get
    then show ?thesis using rc_good_take[of st E A H xs f w] parts map ok mv by simp
  next
    case read
    then show ?thesis
      using parts map ok mv
      by (intro rc_goodI[where st' = st and c' = "Po_Clear f h (rs_p st h)" and E' = E and A' = A
            and w' = w and xs' = xs]) auto
  next
    case clear
    then show ?thesis using ok mv
      by (intro rc_good_write_holder[OF parts map, where c' = "Po_Put f h b" and h = h and v = None]) auto
  next
    case put
    then show ?thesis using ok mv
      by (intro rc_good_put_empty[OF parts map, where c' = "Rc_Return (Took b)" and h = h and r = None and w' = w]) auto
  qed
qed

lemma rc_good_make:
  assumes parts: "rs_parts st E A (H \<union> in_hand c)" "H \<inter> in_hand c = {}"
    and map: "map (rs_p st) A = map Some xs" and ok: "rc_ok (rs_p st) c w"
    and mv: "rc_move mk mem st c = Some res"
    and c: "c = Mk_Call \<or> (\<exists>r. c = Mk_New r) \<or> (\<exists>r h. c = Mk_Clear r h) \<or> (\<exists>r h. c = Mk_Put r h)"
  shows "rc_good st xs E A H c w res"
proof -
  consider (mk) "c = Mk_Call" | (new) r where "c = Mk_New r"
    | (clear) r h where "c = Mk_Clear r h" | (put) r h where "c = Mk_Put r h"
    using c by blast
  then show ?thesis
  proof cases
    case mk
    have P: "rs_parts st E A H" using parts(1) mk by simp
    have b: "(if \<not> rs_bound st then mk False else mk True) = mk (rs_bound st)"
      by (cases "rs_bound st") simp_all
    show ?thesis
    proof (cases "mk (rs_bound st)")
      case None
      then show ?thesis
        using P map ok mv mk b by (intro rc_good_local[where w' = "Answered (Made None)"]) auto
    next
      case (Some r)
      then show ?thesis using P map ok mv mk b by (intro rc_good_local[where w' = w]) auto
    qed
  next
    case new
    have P: "rs_parts st E A H" using parts(1) new by simp
    note N = new_holder_parts[OF P]
    have f: "rs_fresh st \<notin> H" using rs_parts_fresh[OF P] by simp
    have dom: "dom (rs_next st) \<subseteq> dom (rs_next (fst (new_holder st)))"
      by (auto simp: new_holder_def)
    show ?thesis
    proof (cases mem)
      case True
      then show ?thesis
        using N f map ok new mv dom
        by (intro rc_goodI[where st' = "fst (new_holder st)" and c' = "Mk_Clear r (rs_fresh st)"
              and r = None and E' = E and A' = A and w' = w and xs' = xs]) (simp_all add: insert_commute)
    next
      case False
      then show ?thesis using P map ok new mv
        by (intro rc_good_local[where w' = "Answered (Made None)"]) auto
    qed
  next
    case clear
    then show ?thesis using ok mv
      by (intro rc_good_write_holder[OF parts map, where c' = "Mk_Put r h" and h = h and v = None]) auto
  next
    case put
    then show ?thesis using ok mv
      by (intro rc_good_put_empty[OF parts map, where c' = "Rc_Return (Made (Some r))" and h = h
            and r = "Some (Made (Some r))" and w' = "Answered (Made (Some r))"]) auto
  qed
qed

lemma rc_move_good:
  assumes "rs_parts st E A (H \<union> in_hand c)" "H \<inter> in_hand c = {}"
    and "map (rs_p st) A = map Some xs" and "rc_ok (rs_p st) c w"
    and "rc_move mk mem st c = Some res"
  shows "rc_good st xs E A H c w res"
  using rc_good_push[OF assms] rc_good_pop[OF assms] rc_good_make[OF assms] assms(5)
  by (cases c) simp_all

section \<open>A step of the system\<close>

lemma rc_ok_cong: "(\<And>h. h \<in> in_hand c \<Longrightarrow> p' h = p h) \<Longrightarrow> rc_ok p' c w = rc_ok p c w"
  by (cases c) simp_all

text \<open>The holders of the other threads.\<close>

definition others :: "(nat \<Rightarrow> rc_pc) \<Rightarrow> nat \<Rightarrow> nat set" where
  "others pcs t = (\<Union>u\<in>- {t}. in_hand (pcs u))"

lemma hands_upd: "hands (pcs(t := c)) = others pcs t \<union> in_hand c"
  by (auto simp: hands_def others_def split: if_splits)

lemma others_in: "u \<noteq> t \<Longrightarrow> in_hand (pcs u) \<subseteq> others pcs t"
  by (auto simp: others_def)

lemma hands_split: "hands pcs = others pcs t \<union> in_hand (pcs t)"
  using hands_upd[of pcs t "pcs t"] by simp

lemma rc_inv_apart:
  assumes "rc_inv s q E A"
  shows "others (rc_pcs s) t \<inter> in_hand (rc_pcs s t) = {}"
  using rc_invD(3)[OF assms] by (fastforce simp: others_def)

lemma rc_invI:
  assumes inv: "rc_inv s (xs, st) E A"
    and "rs_parts m E' A' (others (rc_pcs s) t \<union> in_hand c)" "others (rc_pcs s) t \<inter> in_hand c = {}"
    and "map (rs_p m) A' = map Some xs'" and "rc_ok (rs_p m) c w"
    and frame: "\<And>h. h \<in> others (rc_pcs s) t \<Longrightarrow> rs_p m h = rs_p (rc_st s) h"
  shows "rc_inv ((rc_goto s t c)\<lparr>rc_st := m\<rparr>) (xs', st(t := w)) E' A'"
  unfolding rc_inv_def
proof (intro conjI allI impI)
  note I = rc_invD[OF inv]
  fix u v
  have "rc_ok (rs_p m) (rc_pcs s u) (st u)" if "u \<noteq> t"
    using I(4)[of u] rc_ok_cong[of "rc_pcs s u" "rs_p m" "rs_p (rc_st s)"] frame
      others_in[OF that, of "rc_pcs s"] by auto
  then show "rc_ok (rs_p (rc_st (rc_goto s t c\<lparr>rc_st := m\<rparr>))) (rc_pcs (rc_goto s t c\<lparr>rc_st := m\<rparr>) u)
      (snd (xs', st(t := w)) u)"
    using assms(5) by simp
  assume uv: "u \<noteq> v"
  show "in_hand (rc_pcs (rc_goto s t c\<lparr>rc_st := m\<rparr>) u) \<inter>
      in_hand (rc_pcs (rc_goto s t c\<lparr>rc_st := m\<rparr>) v) = {}"
    using I(3)[OF uv] uv assms(3) others_in[of u t "rc_pcs s"] others_in[of v t "rc_pcs s"]
    by (cases "u = t"; cases "v = t") auto
qed (use assms(2,4) in \<open>simp_all add: hands_upd\<close>)

lemma rc_step_quiet:
  assumes inv: "rc_inv s (xs, st) E A" and "in_hand (rc_pcs s t) = {}" "in_hand c = {}"
    and "rc_ok (rs_p (rc_st s)) c w"
  shows "rc_inv (rc_goto s t c) (xs, st(t := w)) E A"
proof -
  note I = rc_invD[OF inv]
  have "rc_inv ((rc_goto s t c)\<lparr>rc_st := rc_st s\<rparr>) (xs, st(t := w)) E A"
    by (rule rc_invI[OF inv]) (use assms I(1,2) in \<open>simp_all add: hands_split[of "rc_pcs s" t]\<close>)
  then show ?thesis by simp
qed

lemma rc_inv_move:
  assumes inv: "rc_inv s (xs, st) E A" and mv: "rc_move mk mem (rc_st s) (rc_pcs s t) = Some res"
  shows "\<exists>m c r xs' w E' A'. res = Some (Ok (m, c, r)) \<and> takes stack_effect xs (st t) r xs' w \<and>
     rc_inv ((rc_goto s t c)\<lparr>rc_st := m\<rparr>) (xs', st(t := w)) E' A' \<and>
     dom (rs_next (rc_st s)) \<subseteq> dom (rs_next m) \<and>
     length E' + length A' + card (in_hand c) =
       length E + length A + card (in_hand (rc_pcs s t)) + grows c \<and>
     rs_bound m = rs_bound (rc_st s)"
proof -
  note I = rc_invD[OF inv]
  have "rc_good (rc_st s) xs E A (others (rc_pcs s) t) (rc_pcs s t) (st t) res"
    by (rule rc_move_good[OF _ rc_inv_apart[OF inv] _ _ mv])
      (use I(1,2) I(4)[of t] in \<open>simp_all add: hands_split[of "rc_pcs s" t]\<close>)
  then obtain m c r xs' w E' A' where G: "res = Some (Ok (m, c, r))"
    "takes stack_effect xs (st t) r xs' w" "rs_parts m E' A' (others (rc_pcs s) t \<union> in_hand c)"
    "others (rc_pcs s) t \<inter> in_hand c = {}" "map (rs_p m) A' = map Some xs'" "rc_ok (rs_p m) c w"
    "\<forall>h\<in>others (rc_pcs s) t. rs_p m h = rs_p (rc_st s) h"
    "dom (rs_next (rc_st s)) \<subseteq> dom (rs_next m)"
    "length E' + length A' + card (in_hand c) =
      length E + length A + card (in_hand (rc_pcs s t)) + grows c"
    "rs_bound m = rs_bound (rc_st s)"
    unfolding rc_good_def by blast
  have "rc_inv ((rc_goto s t c)\<lparr>rc_st := m\<rparr>) (xs', st(t := w)) E' A'"
    using rc_invI[OF inv G(3-6)] G(7) by blast
  then show ?thesis using G(1,2,8-10) by blast
qed

lemma rc_step_inv:
  assumes "rc_step s es s'" and inv: "rc_inv s (xs, st) E A"
  shows "\<exists>q E' A'. spec_run stack_effect (xs, st) es = Some q \<and> rc_inv s' q E' A' \<and>
     dom (rs_next (rc_st s)) \<subseteq> dom (rs_next (rc_st s'))"
  using assms(1)
proof cases
  case (rc_call t c)
  note ok = rc_invD(4)[OF inv, of t]
  have "in_hand (rc_begin c) = {}" "rc_ok (rs_p (rc_st s)) (rc_begin c) (Pending c)"
    by (cases c; simp)+
  from rc_step_quiet[OF inv _ this, of t] show ?thesis
    using rc_call ok by (intro exI[of _ "(xs, st(t := Pending c))"] exI[of _ E] exI[of _ A]) simp
next
  case (rc_access mk mem t m c r)
  from rc_inv_move[OF inv rc_access(3)] obtain xs' w E' A' where
    "takes stack_effect xs (st t) r xs' w"
    "rc_inv ((rc_goto s t c)\<lparr>rc_st := m\<rparr>) (xs', st(t := w)) E' A'"
    "dom (rs_next (rc_st s)) \<subseteq> dom (rs_next m)"
    by auto
  then show ?thesis using rc_access(1,2) by (auto dest: takes_run)
next
  case (rc_fault mk mem t f)
  then show ?thesis using rc_inv_move[OF inv rc_fault(3)] by simp
next
  case (rc_return t r)
  note ok = rc_invD(4)[OF inv, of t]
  have "rc_inv (rc_goto s t Rc_Idle) (xs, st(t := Ready)) E A"
    by (rule rc_step_quiet[OF inv]) (use rc_return(3) in simp_all)
  then show ?thesis
    using rc_return ok by (intro exI[of _ "(xs, st(t := Ready))"] exI[of _ E] exI[of _ A]) simp
qed

lemma rs_parts_finite:
  assumes "rs_parts st E A H"
  shows "finite (dom (rs_next st))"
proof (rule finite_subset)
  show "dom (rs_next st) \<subseteq> {..<rs_fresh st}"
  proof
    fix a
    assume "a \<in> dom (rs_next st)"
    then show "a \<in> {..<rs_fresh st}" using rs_partsD(6)[OF assms, of a] by (cases "rs_fresh st \<le> a") auto
  qed
qed simp

lemma rc_inv_init:
  "\<exists>E. rc_inv (rc_init bound num) ([], \<lambda>_. Ready) E [] \<and>
     unat num \<le> card (dom (rs_next (rc_st (rc_init bound num))))"
proof -
  obtain m where m: "rs_create (rs_bind (rs_new 0) bound) num (\<lambda>_. True) = Some (Ok (m, True))"
    "rs_rel m (unat num) []"
    using rs_new_create[of 0 bound num] by blast
  then obtain E where E: "rs_parts m E [] {}" "length E = unat num"
    by (auto simp: rs_rel_def rs_shape_parts)
  have "card (dom (rs_next m)) = unat num"
    using rs_partsD(5,7)[OF E(1)] E(2) distinct_card[of E] by simp
  then show ?thesis
    using m(1) E(1) by (intro exI[of _ E]) (simp add: rc_init_def rc_inv_def hands_def)
qed

text \<open>Every holder is in one of the stacks or in the hands of one thread.\<close>

lemma hands_card:
  assumes inv: "rc_inv s q E A"
  shows "card (dom (rs_next (rc_st s))) \<le>
     length E + length A + card {t. in_hand (rc_pcs s t) \<noteq> {}}"
proof -
  note P = rc_invD(1)[OF inv] and D = rs_partsD[OF rc_invD(1)[OF inv]]
  let ?T = "{t. in_hand (rc_pcs s t) \<noteq> {}}" and ?the = "\<lambda>t. the_elem (in_hand (rc_pcs s t))"
  have one: "in_hand c = {} \<or> in_hand c = {the_elem (in_hand c)}" for c by (cases c) simp_all
  have fin: "finite (hands (rc_pcs s))"
    using rs_parts_finite[OF P] D(5) by simp
  have the: "in_hand (rc_pcs s t) = {?the t}" if t: "t \<in> ?T" for t using one t by auto
  have hands: "hands (rc_pcs s) = ?the ` ?T" using the unfolding hands_def by blast
  have "inj_on ?the ?T"
  proof (rule inj_onI, rule ccontr)
    fix t u
    assume "t \<in> ?T" "u \<in> ?T" "?the t = ?the u" "t \<noteq> u"
    then show False using rc_invD(3)[OF inv] the by (metis Int_absorb insert_not_empty)
  qed
  then have "card (hands (rc_pcs s)) = card ?T" using hands card_image by fastforce
  moreover have "card (dom (rs_next (rc_st s))) \<le> card (set E) + card (set A) + card (hands (rc_pcs s))"
    unfolding D(5) using card_Un_le[of "set E \<union> set A" "hands (rc_pcs s)"] card_Un_le[of "set E" "set A"]
    by linarith
  ultimately show ?thesis using card_length[of E] card_length[of A] by linarith
qed

section \<open>The runs\<close>

text \<open>Good states, for a stack that \<^verbatim>\<open>create\<close> gave \<open>n\<close> holders.\<close>

definition rc_holds :: "nat \<Rightarrow> rc_sys \<Rightarrow> (nat list, rc_call, rc_answer) spec \<Rightarrow> bool" where
  "rc_holds n s q \<longleftrightarrow> (\<exists>E A. rc_inv s q E A) \<and> n \<le> card (dom (rs_next (rc_st s)))"

lemma rc_holds_step:
  assumes "rc_step s es s'" and "rc_holds n s q"
  shows "\<exists>q'. spec_run stack_effect q es = Some q' \<and> rc_holds n s' q'"
proof -
  obtain xs st E A where q: "q = (xs, st)" "rc_inv s (xs, st) E A"
    using assms(2) unfolding rc_holds_def by (cases q) blast
  from rc_step_inv[OF assms(1) q(2)] obtain q' E' A' where
    q': "spec_run stack_effect (xs, st) es = Some q'" "rc_inv s' q' E' A'"
    "dom (rs_next (rc_st s)) \<subseteq> dom (rs_next (rc_st s'))" by blast
  have "card (dom (rs_next (rc_st s))) \<le> card (dom (rs_next (rc_st s')))"
    using card_mono[OF rs_parts_finite[OF rc_invD(1)[OF q'(2)]] q'(3)] .
  then show ?thesis using assms(2) q q'(1,2) unfolding rc_holds_def by auto
qed

lemma rc_holds_alive: "rc_holds n s q \<Longrightarrow> rc_pcs s t \<noteq> Rc_Dead f"
  unfolding rc_holds_def by (metis rc_invD(4) rc_ok.simps(15))

lemma rc_holds_rest:
  assumes "rc_holds n s (xs, st)" and idle: "\<forall>t. rc_pcs s t = Rc_Idle"
  shows "\<exists>free. rs_rel (rc_st s) free xs \<and> n \<le> free + length xs"
proof -
  obtain E A where inv: "rc_inv s (xs, st) E A" and n: "n \<le> card (dom (rs_next (rc_st s)))"
    using assms(1) unfolding rc_holds_def by blast
  note I = rc_invD[OF inv]
  have "hands (rc_pcs s) = {}" using idle by (simp add: hands_def)
  then have "rs_rel (rc_st s) (length E) xs"
    using I(1,2) by (intro rs_relI[of _ E A]) (simp_all add: rs_shape_parts)
  moreover have "length A = length xs" using I(2) by (metis fst_conv length_map)
  ultimately show ?thesis using hands_card[OF inv] n idle by auto
qed

interpretation rc: linearizable rc_step "rc_holds n" stack_effect "\<lambda>s. \<exists>t f. rc_pcs s t = Rc_Dead f"
    "\<lambda>s. \<forall>t. rc_pcs s t = Rc_Idle" "\<lambda>s xs. \<exists>free. rs_rel (rc_st s) free xs \<and> n \<le> free + length xs"
  for n :: nat
  by unfold_locales (auto dest: rc_holds_step rc_holds_alive rc_holds_rest)

lemma rc_init_holds: "rc_holds (unat num) (rc_init bound num) ([], \<lambda>_. Ready)"
  using rc_inv_init unfolding rc_holds_def by blast

section \<open>The properties\<close>

text \<open>
  Two threads, the others idle: a first push takes the only holder, a second one finds none. The
  properties below are tried on this run.
\<close>

definition rc_demo :: "rstack \<Rightarrow> rc_pc \<Rightarrow> rc_pc \<Rightarrow> rc_sys" where
  "rc_demo m c d = \<lparr>rc_st = m, rc_pcs = (\<lambda>_. Rc_Idle)(0 := c, 1 := d)\<rparr>"

lemma rc_demo_pcs: "rc_pcs (rc_demo m c d) 0 = c" "rc_pcs (rc_demo m c d) (Suc 0) = d"
  by (simp_all add: rc_demo_def)

lemma rc_demo_first:
  "rc_run b num tr (rc_demo m Rc_Idle d) \<Longrightarrow> rc_run b num (tr @ [Called 0 c]) (rc_demo m (rc_begin c) d)"
  "rc_run b num tr (rc_demo m c0 d) \<Longrightarrow> rc_move mk mem m c0 = Some (Some (Ok (m', c', r))) \<Longrightarrow>
     rc_run b num (tr @ effect_of 0 r) (rc_demo m' c' d)"
proof -
  assume "rc_run b num tr (rc_demo m Rc_Idle d)"
  from rc_run_step[OF this rc_call[of _ 0]]
  show "rc_run b num (tr @ [Called 0 c]) (rc_demo m (rc_begin c) d)"
    by (simp add: rc_demo_def fun_upd_twist[of 0])
next
  assume "rc_run b num tr (rc_demo m c0 d)" "rc_move mk mem m c0 = Some (Some (Ok (m', c', r)))"
  from rc_run_step[OF this(1) rc_access[of mk mem _ 0 m' c' r]] this(2)
  show "rc_run b num (tr @ effect_of 0 r) (rc_demo m' c' d)"
    by (simp add: rc_demo_def fun_upd_twist[of 0])
qed

lemma rc_demo_second:
  "rc_run b num tr (rc_demo m c0 Rc_Idle) \<Longrightarrow> rc_run b num (tr @ [Called 1 c]) (rc_demo m c0 (rc_begin c))"
  "rc_move mk mem m d = Some (Some (Ok (m', d', r))) \<Longrightarrow>
     rc_step (rc_demo m c0 d) (effect_of 1 r) (rc_demo m' c0 d')"
proof -
  assume "rc_run b num tr (rc_demo m c0 Rc_Idle)"
  from rc_run_step[OF this rc_call[of _ 1]]
  show "rc_run b num (tr @ [Called 1 c]) (rc_demo m c0 (rc_begin c))"
    by (simp add: rc_demo_def)
next
  assume "rc_move mk mem m d = Some (Some (Ok (m', d', r)))"
  with rc_access[of mk mem "rc_demo m c0 d" 1 m' d' r]
  show "rc_step (rc_demo m c0 d) (effect_of 1 r) (rc_demo m' c0 d')"
    by (simp add: rc_demo_def)
qed

lemma rc_demo_run:
  "\<exists>m h. rc_run False 1 [Called 0 (Call_Push (Some 5)), Called 1 (Call_Push (Some 6))]
       (rc_demo m (Pu_Set 5 h) (Pu_Get 6)) \<and>
     rc_step (rc_demo m (Pu_Set 5 h) (Pu_Get 6)) [Effect 1 (Put False)]
       (rc_demo m (Pu_Set 5 h) (Rc_Return (Put False)))"
proof -
  obtain m where m: "rs_create (rs_bind (rs_new 0) False) 1 (\<lambda>_. True) = Some (Ok (m, True))"
    "rs_rel m 1 []"
    using rs_new_create[of 0 False 1] by auto
  then obtain h where P: "rs_parts m [h] [] {}" by (auto simp: rs_rel_def rs_shape_parts length_Suc_conv)
  obtain l where l: "pop_empty m = Some (Ok (m\<lparr>rs_empty := l\<rparr>, Some h))"
    "rs_parts (m\<lparr>rs_empty := l\<rparr>) [] [] {h}"
    using pop_empty_parts[OF P] by auto
  have none: "pop_empty (m\<lparr>rs_empty := l\<rparr>) = Some (Ok (m\<lparr>rs_empty := l\<rparr>, None))"
    using pop_empty_parts[OF l(2)] by simp
  have "rc_init False 1 = rc_demo m Rc_Idle Rc_Idle"
    using m(1) by (simp add: rc_init_def rc_demo_def fun_upd_idem)
  then have "rc_run False 1 [] (rc_demo m Rc_Idle Rc_Idle)" using rc_run_init[of "rc_init False 1"] by simp
  from rc_demo_first(1)[OF this, of "Call_Push (Some 5)"]
  have "rc_run False 1 [Called 0 (Call_Push (Some 5))] (rc_demo m (Pu_Null (Some 5)) Rc_Idle)" by simp
  from rc_demo_first(2)[OF this, of "\<lambda>_. None" True m "Pu_Get 5" None]
  have "rc_run False 1 [Called 0 (Call_Push (Some 5))] (rc_demo m (Pu_Get 5) Rc_Idle)" by simp
  from rc_demo_first(2)[OF this, of "\<lambda>_. None" True "m\<lparr>rs_empty := l\<rparr>" "Pu_Set 5 h" None] l(1)
  have "rc_run False 1 [Called 0 (Call_Push (Some 5))]
      (rc_demo (m\<lparr>rs_empty := l\<rparr>) (Pu_Set 5 h) Rc_Idle)" by simp
  from rc_demo_second(1)[OF this, of "Call_Push (Some 6)"]
  have run: "rc_run False 1 [Called 0 (Call_Push (Some 5)), Called 1 (Call_Push (Some 6))]
      (rc_demo (m\<lparr>rs_empty := l\<rparr>) (Pu_Set 5 h) (Pu_Null (Some 6)))" by simp
  have "rc_step (rc_demo (m\<lparr>rs_empty := l\<rparr>) (Pu_Set 5 h) (Pu_Null (Some 6))) []
      (rc_demo (m\<lparr>rs_empty := l\<rparr>) (Pu_Set 5 h) (Pu_Get 6))"
    using rc_demo_second(2)[of "\<lambda>_. None" True "m\<lparr>rs_empty := l\<rparr>" "Pu_Null (Some 6)" _ "Pu_Get 6" None]
    by simp
  from rc_run_step[OF run this] rc_demo_second(2)[of "\<lambda>_. None" True "m\<lparr>rs_empty := l\<rparr>" "Pu_Get 6" _
      "Rc_Return (Put False)" "Some (Put False)"] none
  show ?thesis by (intro exI[of _ "m\<lparr>rs_empty := l\<rparr>"] exI[of _ h]) simp
qed

text \<open>
  C4. The stack of resources is linearizable: whatever the interleaving of the calls of any
  number of threads, every call takes effect once, between its call and its return, with the
  answer that a stack gives (last in, first out, a \<^verbatim>\<open>pop\<close> returning null only when it is
  empty); no call faults; and when all calls have returned no holder is lost: beside the
  resources that are in the stack there is room for the rest of the \<open>num\<close> that \<^verbatim>\<open>create\<close> made.
\<close>

theorem resource_stack_linearizable:
  assumes "rc_run bound num tr s"
  shows "\<exists>xs st. spec_run stack_effect ([], \<lambda>_. Ready) tr = Some (xs, st) \<and>
     (\<forall>t f. rc_pcs s t \<noteq> Rc_Dead f) \<and>
     ((\<forall>t. rc_pcs s t = Rc_Idle) \<longrightarrow>
       (\<exists>free. rs_rel (rc_st s) free xs \<and> unat num \<le> free + length xs))"
  using rc.run_linearizable[OF assms rc_init_holds] by blast

theorem resource_stack_linearizable_witness:
  "\<exists>s xs st. rc_run False 1 [Called 0 (Call_Push (Some 5)), Called 1 (Call_Push (Some 6)), Effect 1 (Put False)] s \<and>
     spec_run stack_effect ([], \<lambda>_. Ready)
       [Called 0 (Call_Push (Some 5)), Called 1 (Call_Push (Some 6)), Effect 1 (Put False)] = Some (xs, st) \<and>
     xs = [] \<and> (\<forall>t f. rc_pcs s t \<noteq> Rc_Dead f)"
proof -
  obtain m h where "rc_run False 1 [Called 0 (Call_Push (Some 5)), Called 1 (Call_Push (Some 6))]
       (rc_demo m (Pu_Set 5 h) (Pu_Get 6))"
    "rc_step (rc_demo m (Pu_Set 5 h) (Pu_Get 6)) [Effect 1 (Put False)]
       (rc_demo m (Pu_Set 5 h) (Rc_Return (Put False)))"
    using rc_demo_run by blast
  from rc_run_step[OF this] have run: "rc_run False 1
      [Called 0 (Call_Push (Some 5)), Called 1 (Call_Push (Some 6)), Effect 1 (Put False)]
      (rc_demo m (Pu_Set 5 h) (Rc_Return (Put False)))" by simp
  then show ?thesis
    using resource_stack_linearizable[OF run]
    by (intro exI[of _ "rc_demo m (Pu_Set 5 h) (Rc_Return (Put False))"]) auto
qed

text \<open>
  C25. A push is refused only when there is no room but what other calls are just about to give
  back: when a push of a resource finds no empty holder, the resources in the stack and the
  calls that have a holder in their hands are together at least the \<open>num\<close> holders of \<^verbatim>\<open>create\<close>.
\<close>

theorem resource_stack_push_refused:
  assumes "rc_run bound num tr s" and "spec_run stack_effect ([], \<lambda>_. Ready) tr = Some (xs, st)"
    and "rc_pcs s t = Pu_Get r" and "rc_step s [Effect t (Put False)] s'"
  shows "unat num \<le> length xs + card {u. in_hand (rc_pcs s u) \<noteq> {}}"
proof -
  obtain E A where inv: "rc_inv s (xs, st) E A" and n: "unat num \<le> card (dom (rs_next (rc_st s)))"
    using rc.run_good[OF assms(1) rc_init_holds] assms(2) unfolding rc_holds_def by auto
  note I = rc_invD[OF inv]
  from assms(4) obtain mk mem m c where mv: "rc_move mk mem (rc_st s) (Pu_Get r) = Some (Some (Ok (m, c, Some (Put False))))"
  proof cases
    case (rc_access mk mem t' m c a)
    then show ?thesis using assms(3) that by (cases a) auto
  qed
  have "E = []"
    using pop_empty_parts[OF I(1)] mv by (cases E) auto
  moreover have "length A = length xs" using I(2) by (metis fst_conv length_map)
  ultimately show ?thesis using hands_card[OF inv] n by simp
qed

theorem resource_stack_push_refused_witness:
  "\<exists>s s'. rc_run False 1 [Called 0 (Call_Push (Some 5)), Called 1 (Call_Push (Some 6))] s \<and>
     rc_pcs s 1 = Pu_Get 6 \<and> rc_step s [Effect 1 (Put False)] s' \<and>
     unat (1 :: u32) \<le> length ([] :: nat list) + card {u. in_hand (rc_pcs s u) \<noteq> {}}"
proof -
  obtain m h where run: "rc_run False 1 [Called 0 (Call_Push (Some 5)), Called 1 (Call_Push (Some 6))]
       (rc_demo m (Pu_Set 5 h) (Pu_Get 6))"
    "rc_step (rc_demo m (Pu_Set 5 h) (Pu_Get 6)) [Effect 1 (Put False)]
       (rc_demo m (Pu_Set 5 h) (Rc_Return (Put False)))"
    using rc_demo_run by blast
  then show ?thesis
    using resource_stack_push_refused[OF run(1) _ _ run(2), of "[]" _ 6] rc_demo_pcs(2) by fastforce
qed

end
