(* ===== verification/Pool_Threads.thy ===== *)
theory Pool_Threads
  imports Shining_Pool Resource_Concurrent
begin

text \<open>
  \<^verbatim>\<open>framework/shining_pool.h\<close> as the threads run it: the worker threads and the client are cut at
  every access to one of the two stacks (the cuts of \<open>Resource_Concurrent\<close>), at every use of
  \<^verbatim>\<open>_alive\<close> and \<^verbatim>\<open>_p_size\<close>, at every \<^verbatim>\<open>pthread_create\<close> and \<^verbatim>\<open>pthread_join\<close>, and between two cuts any
  other thread may run. The theory shows that no element is lost or shared, that a push
  never fails, that the workers end after \<^verbatim>\<open>stop\<close>, and what the destructor does.
\<close>

section \<open>The threads\<close>

text \<open>
  Thread 0 is the client, thread \<open>i + 1\<close> the worker whose id is \<^verbatim>\<open>_thread_ids[i]\<close>. The client is
  one thread: \<^verbatim>\<open>pop\<close> tests and decrements \<^verbatim>\<open>_p_size\<close> in two steps. It calls \<^verbatim>\<open>start\<close> and \<^verbatim>\<open>wait\<close> once
  and pushes only elements that it has popped.
\<close>

datatype place =
    Cl_Idle
  | Cl_Start nat             \<comment> \<open>\<^verbatim>\<open>start\<close>, before the test of the loop\<close>
  | Cl_Push nat rc_pc        \<comment> \<open>in \<^verbatim>\<open>_consumer_pool->push(in)\<close>\<close>
  | Cl_Pop rc_pc             \<comment> \<open>in \<^verbatim>\<open>_producer_pool->pop()\<close>\<close>
  | Cl_Test ptr              \<comment> \<open>\<^verbatim>\<open>NULL == p && _p_size > 0\<close>\<close>
  | Cl_Force rc_pc           \<comment> \<open>in \<^verbatim>\<open>_producer_pool->force_pop()\<close>\<close>
  | Cl_Count ptr             \<comment> \<open>\<^verbatim>\<open>-- _p_size\<close>\<close>
  | Cl_Wait nat              \<comment> \<open>\<^verbatim>\<open>wait\<close>, before the test of the loop\<close>
  | W_None                   \<comment> \<open>no such thread, or not created\<close>
  | W_Data                   \<comment> \<open>\<^verbatim>\<open>make_thread_data\<close>\<close>
  | W_Loop                   \<comment> \<open>\<^verbatim>\<open>while(pm->_alive)\<close>\<close>
  | W_Take rc_pc             \<comment> \<open>in \<^verbatim>\<open>_consumer_pool->pop()\<close>\<close>
  | W_Process nat            \<comment> \<open>in \<^verbatim>\<open>ele_process\<close>\<close>
  | W_Give nat rc_pc         \<comment> \<open>in \<^verbatim>\<open>_producer_pool->push(ce)\<close>\<close>
  | W_End
  | Fallen fault

text \<open>The place of a thread in the calls on the two stacks.\<close>

fun at_producer :: "place \<Rightarrow> rc_pc" where
  "at_producer (Cl_Pop c) = c"
| "at_producer (Cl_Force c) = c"
| "at_producer (W_Give e c) = c"
| "at_producer _ = Rc_Idle"

fun at_consumer :: "place \<Rightarrow> rc_pc" where
  "at_consumer (Cl_Push e c) = c"
| "at_consumer (W_Take c) = c"
| "at_consumer _ = Rc_Idle"

fun moved_to :: "place \<Rightarrow> rc_pc \<Rightarrow> place" where
  "moved_to (Cl_Push e _) c = Cl_Push e c"
| "moved_to (Cl_Pop _) c = Cl_Pop c"
| "moved_to (Cl_Force _) c = Cl_Force c"
| "moved_to (W_Take _) c = W_Take c"
| "moved_to (W_Give e _) c = W_Give e c"
| "moved_to pl c = pl"

fun returned :: "rc_answer \<Rightarrow> ptr" where
  "returned (Took p) = p"
| "returned (Made p) = p"
| "returned (Put b) = None"

text \<open>
  What a worker does between its accesses; \<open>alive\<close> is what it reads in \<^verbatim>\<open>_alive\<close>, \<open>data\<close>: does
  \<^verbatim>\<open>make_thread_data\<close> return data.
\<close>

fun worker_next :: "bool \<Rightarrow> bool \<Rightarrow> place \<Rightarrow> place option" where
  "worker_next alive data W_Data = Some (if \<not> data then W_End else W_Loop)"
| "worker_next alive data W_Loop = Some (if alive then W_Take (Po_Get False) else W_End)"
| "worker_next alive data (W_Take (Rc_Return r)) =
     Some (case returned r of None \<Rightarrow> W_Loop | Some ce \<Rightarrow> W_Process ce)"
| "worker_next alive data (W_Process ce) = Some (W_Give ce (Pu_Null (Some ce)))"
| "worker_next alive data (W_Give ce (Rc_Return r)) = Some W_Loop"
| "worker_next alive data _ = None"

text \<open>An element that a worker could not give back.\<close>

fun refusal :: "place \<Rightarrow> nat multiset" where
  "refusal (W_Give ce (Rc_Return r)) = (if r = Put True then {#} else {#ce#})"
| "refusal _ = {#}"

text \<open>
  What the client does between its accesses: its next place, the elements that it then has in
  addition, and \<^verbatim>\<open>_p_size\<close> afterwards.
\<close>

fun client_next :: "int \<Rightarrow> place \<Rightarrow> (place \<times> nat multiset \<times> int) option" where
  "client_next p_size (Cl_Push e (Rc_Return r)) =
     Some (Cl_Idle, if r = Put True then {#} else {#e#}, p_size)"
| "client_next p_size (Cl_Pop (Rc_Return r)) = Some (Cl_Test (returned r), {#}, p_size)"
| "client_next p_size (Cl_Test p) =
     Some (if p = None \<and> p_size > 0 then (Cl_Force (Po_Get True), {#}, p_size)
           else (Cl_Idle, ptr_mset p, p_size))"
| "client_next p_size (Cl_Force (Rc_Return r)) = Some (Cl_Count (returned r), {#}, p_size)"
| "client_next p_size (Cl_Count p) = Some (Cl_Idle, ptr_mset p, p_size - 1)"
| "client_next p_size _ = None"

section \<open>The system\<close>

record pt_sys =
  pt_mgr :: pool_mgr
  places :: "nat \<Rightarrow> place"
  hold :: "nat multiset"      \<comment> \<open>elements the client has popped and not pushed\<close>
  made_no :: nat              \<comment> \<open>how many elements were made; also the address of the next\<close>
  leaked :: "nat multiset"    \<comment> \<open>elements made for which there was no memory for a holder\<close>
  refused :: "nat multiset"   \<comment> \<open>elements that a worker could not give back\<close>

abbreviation place_at :: "pt_sys \<Rightarrow> nat \<Rightarrow> place \<Rightarrow> pt_sys" where
  "place_at s t pl \<equiv> s\<lparr>places := (places s)(t := pl)\<rparr>"

text \<open>\<^verbatim>\<open>EleAllocator\<close>: its call operator, \<^verbatim>\<open>new (std::nothrow) POOL_ELE()\<close>.\<close>

definition ele_new :: "bool \<Rightarrow> nat \<Rightarrow> ptr" where
  "ele_new mem a = (if mem then Some a else None)"

text \<open>The element that \<^verbatim>\<open>produce\<close> leaks when there is no memory for its holder.\<close>

definition made_leak :: "bool \<Rightarrow> rc_pc \<Rightarrow> nat multiset" where
  "made_leak mem c = (case c of Mk_New e \<Rightarrow> if mem then {#} else {#e#} | _ \<Rightarrow> {#})"

text \<open>
  One step of thread \<open>t\<close>. In \<open>pt_producer\<close>, \<open>ele\<close> and \<open>mem\<close>: is there memory for an element, for
  a holder. The flag \<^verbatim>\<open>_alive\<close> may be cleared at any moment.
\<close>

inductive pt_step :: "nat \<Rightarrow> pt_sys \<Rightarrow> pt_sys \<Rightarrow> bool" where
  pt_start: "places s 0 = Cl_Idle \<Longrightarrow> \<forall>i. places s (Suc i) = W_None \<Longrightarrow>
    sp_start (pt_mgr s) = (m, ret) \<Longrightarrow>
    pt_step 0 s ((place_at s 0 (Cl_Start 0))\<lparr>pt_mgr := m\<rparr>)"
| pt_create: "places s 0 = Cl_Start i \<Longrightarrow> int i < sp_th_size (pt_mgr s) \<Longrightarrow>
    pt_step 0 s (place_at (place_at s 0 (Cl_Start (Suc i))) (Suc i)
      (if created then W_Data else W_None))"
| pt_started: "places s 0 = Cl_Start i \<Longrightarrow> \<not> int i < sp_th_size (pt_mgr s) \<Longrightarrow>
    pt_step 0 s (place_at s 0 Cl_Idle)"
| pt_stop: "sp_stop (pt_mgr s) = (m, ret) \<Longrightarrow> pt_step 0 s (s\<lparr>pt_mgr := m\<rparr>)"
| pt_push: "places s 0 = Cl_Idle \<Longrightarrow> e \<in># hold s \<Longrightarrow>
    pt_step 0 s ((place_at s 0 (Cl_Push e (Pu_Null (Some e))))\<lparr>hold := hold s - {#e#}\<rparr>)"
| pt_pop: "places s 0 = Cl_Idle \<Longrightarrow> pt_step 0 s (place_at s 0 (Cl_Pop (Po_Get False)))"
| pt_client: "client_next (sp_p_size (pt_mgr s)) (places s 0) = Some (pl, es, left) \<Longrightarrow>
    pt_step 0 s ((place_at s 0 pl)
      \<lparr>pt_mgr := (pt_mgr s)\<lparr>sp_p_size := left\<rparr>, hold := hold s + es\<rparr>)"
| pt_wait: "places s 0 = Cl_Idle \<Longrightarrow> pt_step 0 s (place_at s 0 (Cl_Wait 0))"
| pt_join: "places s 0 = Cl_Wait i \<Longrightarrow> int i < sp_th_size (pt_mgr s) \<Longrightarrow>
    places s (Suc i) = W_End \<Longrightarrow> pt_step 0 s (place_at s 0 (Cl_Wait (Suc i)))"
| pt_join_none: "places s 0 = Cl_Wait i \<Longrightarrow> int i < sp_th_size (pt_mgr s) \<Longrightarrow>
    places s (Suc i) = W_None \<Longrightarrow> pt_step 0 s (place_at s 0 (Fallen Uninitialised))"
| pt_waited: "places s 0 = Cl_Wait i \<Longrightarrow> \<not> int i < sp_th_size (pt_mgr s) \<Longrightarrow>
    pt_step 0 s (place_at s 0 Cl_Idle)"
| pt_worker: "worker_next (sp_alive (pt_mgr s)) data (places s (Suc i)) = Some pl \<Longrightarrow>
    pt_step (Suc i) s ((place_at s (Suc i) pl)
      \<lparr>refused := refused s + refusal (places s (Suc i))\<rparr>)"
| pt_producer: "sp_producer (pt_mgr s) = Some pp \<Longrightarrow> c = at_producer (places s t) \<Longrightarrow>
    rc_move (\<lambda>_. ele_new ele (made_no s)) mem pp c = Some (Some (Ok (pp', c', r))) \<Longrightarrow>
    pt_step t s ((place_at s t (moved_to (places s t) c'))
      \<lparr>pt_mgr := (pt_mgr s)\<lparr>sp_producer := Some pp'\<rparr>,
       made_no := (if c = Mk_Call \<and> ele then Suc (made_no s) else made_no s),
       leaked := leaked s + made_leak mem c\<rparr>)"
| pt_consumer: "sp_consumer (pt_mgr s) = Some cc \<Longrightarrow> c = at_consumer (places s t) \<Longrightarrow>
    rc_move (\<lambda>_. None) True cc c = Some (Some (Ok (cc', c', r))) \<Longrightarrow>
    pt_step t s ((place_at s t (moved_to (places s t) c'))
      \<lparr>pt_mgr := (pt_mgr s)\<lparr>sp_consumer := Some cc'\<rparr>\<rparr>)"
| pt_fault: "sp_producer (pt_mgr s) = Some pp \<Longrightarrow> sp_consumer (pt_mgr s) = Some cc \<Longrightarrow>
    rc_move (\<lambda>_. ele_new ele (made_no s)) mem pp (at_producer (places s t)) = Some (Some (Fault f)) \<or>
    rc_move (\<lambda>_. None) True cc (at_consumer (places s t)) = Some (Some (Fault f)) \<Longrightarrow>
    pt_step t s (place_at s t (Fallen f))"

text \<open>Reachable after an \<^verbatim>\<open>init\<close> that succeeded.\<close>

definition pt_sys_of :: "pool_mgr \<Rightarrow> pt_sys" where
  "pt_sys_of m = \<lparr>pt_mgr = m, places = (\<lambda>t. if t = 0 then Cl_Idle else W_None), hold = {#},
     made_no = 0, leaked = {#}, refused = {#}\<rparr>"

abbreviation pt_started :: "int \<Rightarrow> int \<Rightarrow> pt_sys \<Rightarrow> bool" where
  "pt_started thread_size pool_size s \<equiv>
     \<exists>m. sp_init sp_new thread_size pool_size (\<lambda>_. True) (\<lambda>_. True) = Some (Ok (m, 0)) \<and> s = pt_sys_of m"

abbreviation pt_reach :: "int \<Rightarrow> int \<Rightarrow> pt_sys \<Rightarrow> bool" where
  "pt_reach thread_size pool_size \<equiv> reaches (pt_started thread_size pool_size) (\<lambda>s s'. \<exists>t. pt_step t s s')"

lemma pt_reach_init:
  "sp_init sp_new thread_size pool_size (\<lambda>_. True) (\<lambda>_. True) = Some (Ok (m, 0)) \<Longrightarrow>
     pt_reach thread_size pool_size (pt_sys_of m)"
  by (blast intro: reaches_init)

lemma pt_reach_step:
  "pt_reach thread_size pool_size s \<Longrightarrow> pt_step t s s' \<Longrightarrow> pt_reach thread_size pool_size s'"
  by (blast intro: reaches_step)

section \<open>Which element is where\<close>

text \<open>What a call has of its own, by its status, and what \<^verbatim>\<open>produce\<close> has just made.\<close>

fun cargo :: "(rc_call, rc_answer) status \<Rightarrow> nat multiset" where
  "cargo (Pending (Call_Push inp)) = ptr_mset inp"
| "cargo (Answered a) = ptr_mset (returned a)"
| "cargo _ = {#}"

fun making :: "rc_pc \<Rightarrow> nat multiset" where
  "making (Mk_New r) = {#r#}"
| "making (Mk_Clear r h) = {#r#}"
| "making (Mk_Put r h) = {#r#}"
| "making _ = {#}"

fun has :: "place \<Rightarrow> (rc_call, rc_answer) status \<Rightarrow> (rc_call, rc_answer) status \<Rightarrow> nat multiset" where
  "has (Cl_Push e c) wp wc = cargo wc"
| "has (Cl_Pop c) wp wc = cargo wp"
| "has (Cl_Test p) wp wc = ptr_mset p"
| "has (Cl_Force c) wp wc = cargo wp + making c"
| "has (Cl_Count p) wp wc = ptr_mset p"
| "has (W_Take c) wp wc = cargo wc"
| "has (W_Process e) wp wc = {#e#}"
| "has (W_Give e c) wp wc = cargo wp"
| "has _ wp wc = {#}"

text \<open>How many empty holders of the producer stack a thread relies on.\<close>

fun need_of :: "rc_pc \<Rightarrow> nat" where
  "need_of (Rc_Return r) = size (ptr_mset (returned r))"
| "need_of _ = 0"

fun need :: "place \<Rightarrow> nat" where
  "need (Cl_Push e c) = (case c of Rc_Return r \<Rightarrow> 0 | _ \<Rightarrow> 1)"
| "need (Cl_Pop c) = need_of c"
| "need (Cl_Test p) = size (ptr_mset p)"
| "need (Cl_Force c) = need_of c"
| "need (Cl_Count p) = size (ptr_mset p)"
| "need (W_Take c) = need_of c + card (in_hand c)"
| "need (W_Process e) = 1"
| "need (W_Give e c) = (case c of Pu_Null p \<Rightarrow> 1 | Pu_Get r \<Rightarrow> 1 | _ \<Rightarrow> 0)"
| "need _ = 0"

text \<open>The place is one of the thread's code.\<close>

fun push_at :: "nat \<Rightarrow> rc_pc \<Rightarrow> bool" where
  "push_at e (Pu_Null inp) \<longleftrightarrow> inp = Some e"
| "push_at e (Pu_Get r) \<longleftrightarrow> r = e"
| "push_at e (Pu_Set r h) \<longleftrightarrow> r = e"
| "push_at e (Pu_Put r h) \<longleftrightarrow> r = e"
| "push_at e (Rc_Return a) \<longleftrightarrow> a = Put True"
| "push_at e _ \<longleftrightarrow> False"

fun pop_at :: "bool \<Rightarrow> rc_pc \<Rightarrow> bool" where
  "pop_at force (Po_Get f) \<longleftrightarrow> f = force"
| "pop_at force (Po_Read f h) \<longleftrightarrow> f = force"
| "pop_at force (Po_Clear f h b) \<longleftrightarrow> f = force"
| "pop_at force (Po_Put f h b) \<longleftrightarrow> f = force"
| "pop_at force (Rc_Return a) \<longleftrightarrow> (case a of Put b \<Rightarrow> False | Took p \<Rightarrow> True | Made p \<Rightarrow> force)"
| "pop_at force Mk_Call \<longleftrightarrow> force"
| "pop_at force (Mk_New r) \<longleftrightarrow> force"
| "pop_at force (Mk_Clear r h) \<longleftrightarrow> force"
| "pop_at force (Mk_Put r h) \<longleftrightarrow> force"
| "pop_at force _ \<longleftrightarrow> False"

fun place_ok :: "nat \<Rightarrow> place \<Rightarrow> bool" where
  "place_ok t Cl_Idle \<longleftrightarrow> t = 0"
| "place_ok t (Cl_Start i) \<longleftrightarrow> t = 0"
| "place_ok t (Cl_Push e c) \<longleftrightarrow> t = 0 \<and> push_at e c"
| "place_ok t (Cl_Pop c) \<longleftrightarrow> t = 0 \<and> pop_at False c"
| "place_ok t (Cl_Test p) \<longleftrightarrow> t = 0"
| "place_ok t (Cl_Force c) \<longleftrightarrow> t = 0 \<and> pop_at True c"
| "place_ok t (Cl_Count p) \<longleftrightarrow> t = 0"
| "place_ok t (Cl_Wait i) \<longleftrightarrow> t = 0"
| "place_ok t (W_Take c) \<longleftrightarrow> t \<noteq> 0 \<and> pop_at False c"
| "place_ok t (W_Give e c) \<longleftrightarrow> t \<noteq> 0 \<and> push_at e c"
| "place_ok t (Fallen f) \<longleftrightarrow> t = 0 \<and> f = Uninitialised"
| "place_ok t pl \<longleftrightarrow> t \<noteq> 0"

text \<open>The client has made an element and not yet counted it.\<close>

fun uncounted :: "place \<Rightarrow> bool" where
  "uncounted (Cl_Force (Mk_New r)) \<longleftrightarrow> True"
| "uncounted (Cl_Force (Mk_Clear r h)) \<longleftrightarrow> True"
| "uncounted (Cl_Force (Mk_Put r h)) \<longleftrightarrow> True"
| "uncounted (Cl_Force (Rc_Return a)) \<longleftrightarrow> True"
| "uncounted (Cl_Count p) \<longleftrightarrow> True"
| "uncounted _ \<longleftrightarrow> False"

fun forcing :: "place \<Rightarrow> bool" where
  "forcing (Cl_Force c) \<longleftrightarrow> True"
| "forcing (Cl_Count p) \<longleftrightarrow> True"
| "forcing _ \<longleftrightarrow> False"

section \<open>One access to a stack\<close>

lemma push_next:
  assumes "push_at e c" and "rc_move mk mem m c = Some (Some (Ok (m', c', r)))"
  shows "case c of
      Pu_Null inp \<Rightarrow> c' = Pu_Get e \<and> r = None
    | Pu_Get x \<Rightarrow> (\<exists>h. c' = Pu_Set e h \<and> r = None) \<or> c' = Rc_Return (Put False)
    | Pu_Set x h \<Rightarrow> c' = Pu_Put e h \<and> r = None
    | Pu_Put x h \<Rightarrow> c' = Rc_Return (Put True) \<and> r = Some (Put True)
    | _ \<Rightarrow> False"
  using assms
  by (cases c) (auto simp: runs_def split: option.splits sum.splits)

lemma push_not_refused:
  assumes "rs_parts m E A H" and "E \<noteq> []" and "rc_move mk mem m (Pu_Get e) = Some (Some (Ok (m', c', r)))"
  shows "c' \<noteq> Rc_Return (Put False)"
  using pop_empty_parts[OF assms(1)] assms(2,3) by (cases E) auto

lemma pop_next:
  assumes "pop_at force c" and "rc_move (\<lambda>_. ele_new ele a) mem m c = Some (Some (Ok (m', c', r)))"
  shows "case c of
      Po_Get f \<Rightarrow> (\<exists>h. c' = Po_Read force h \<and> r = Some (Took (rs_p m' h))) \<or>
        (if force then c' = Mk_Call \<and> r = None else c' = Rc_Return (Took None) \<and> r = Some (Took None))
    | Po_Read f h \<Rightarrow> c' = Po_Clear force h (rs_p m h) \<and> r = None
    | Po_Clear f h b \<Rightarrow> c' = Po_Put force h b \<and> r = None
    | Po_Put f h b \<Rightarrow> c' = (if force \<and> b = None then Mk_Call else Rc_Return (Took b)) \<and> r = None
    | Mk_Call \<Rightarrow> if ele then c' = Mk_New a \<and> r = None
        else c' = Rc_Return (Made None) \<and> r = Some (Made None)
    | Mk_New x \<Rightarrow> if mem then (\<exists>h. c' = Mk_Clear x h) \<and> r = None
        else c' = Rc_Return (Made None) \<and> r = Some (Made None)
    | Mk_Clear x h \<Rightarrow> c' = Mk_Put x h \<and> r = None
    | Mk_Put x h \<Rightarrow> c' = Rc_Return (Made (Some x)) \<and> r = Some (Made (Some x))
    | _ \<Rightarrow> False"
  using assms
  by (cases c) (auto simp: runs_def ele_new_def split: option.splits sum.splits if_splits)

text \<open>What an access of a push does to the balance of elements and holders.\<close>

lemma push_access:
  assumes inv: "rc_inv s (xs, st) E A" and c: "c = rc_pcs s t" "push_at e c"
    and room: "c = Pu_Get e \<Longrightarrow> E \<noteq> []"
    and mv: "rc_move mk mem (rc_st s) c = Some (Some (Ok (m, c', r)))"
  shows "\<exists>xs' w E' A'. rc_inv ((rc_goto s t c')\<lparr>rc_st := m\<rparr>) (xs', st(t := w)) E' A' \<and>
     rs_bound m = rs_bound (rc_st s) \<and> push_at e c' \<and>
     mset xs' + cargo w = mset xs + cargo (st t) \<and>
     length E' + length xs' + card (in_hand c') = length E + length xs + card (in_hand c) \<and>
     length E' + (case c of Pu_Null p \<Rightarrow> 1 | Pu_Get r \<Rightarrow> 1 | _ \<Rightarrow> 0)
       = length E + (case c' of Pu_Null p \<Rightarrow> 1 | Pu_Get r \<Rightarrow> 1 | _ \<Rightarrow> 0) \<and>
     length xs' + (case c' of Rc_Return a \<Rightarrow> 0 | _ \<Rightarrow> 1) = length xs + (case c of Rc_Return a \<Rightarrow> 0 | _ \<Rightarrow> 1)"
proof -
  note I = rc_invD[OF inv]
  obtain xs' w E' A' where M: "takes stack_effect xs (st t) r xs' w"
    "rc_inv ((rc_goto s t c')\<lparr>rc_st := m\<rparr>) (xs', st(t := w)) E' A'"
    "length E' + length A' + card (in_hand c') = length E + length A + card (in_hand c) + grows c'"
    "rs_bound m = rs_bound (rc_st s)"
    using rc_inv_move[OF inv, of mk mem t] mv c by auto
  have len: "length A = length xs" "length A' = length xs'"
    using I(2) rc_invD(2)[OF M(2)] by (metis fst_conv length_map)+
  have ok: "rc_ok (rs_p (rc_st s)) c (st t)" using I(4)[of t] c by simp
  have no: "c' \<noteq> Rc_Return (Put False)" if "c = Pu_Get e"
    using push_not_refused[OF I(1) room[OF that]] mv that by blast
  have "push_at e c' \<and> mset xs' + cargo w = mset xs + cargo (st t) \<and> grows c' = 0 \<and>
     length E' + (case c of Pu_Null p \<Rightarrow> 1 | Pu_Get r \<Rightarrow> 1 | _ \<Rightarrow> 0)
       = length E + (case c' of Pu_Null p \<Rightarrow> 1 | Pu_Get r \<Rightarrow> 1 | _ \<Rightarrow> 0) \<and>
     length xs' + (case c' of Rc_Return a \<Rightarrow> 0 | _ \<Rightarrow> 1) = length xs + (case c of Rc_Return a \<Rightarrow> 0 | _ \<Rightarrow> 1)"
    using push_next[OF c(2) mv] c(2) M(1,3) len ok no by (cases c) auto
  then show ?thesis using M(2-4) len by (intro exI[of _ xs'] exI[of _ w] exI[of _ E'] exI[of _ A']) simp
qed

lemma pop_access:
  assumes inv: "rc_inv s (xs, st) E A" and c: "c = rc_pcs s t" "pop_at force c"
    and mv: "rc_move (\<lambda>_. ele_new ele a) mem (rc_st s) c = Some (Some (Ok (m, c', r)))"
  shows "\<exists>xs' w E' A'. rc_inv ((rc_goto s t c')\<lparr>rc_st := m\<rparr>) (xs', st(t := w)) E' A' \<and>
     rs_bound m = rs_bound (rc_st s) \<and> pop_at force c' \<and>
     mset xs' + cargo w + making c' + made_leak mem c =
       mset xs + cargo (st t) + making c + (if c = Mk_Call \<and> ele then {#a#} else {#}) \<and>
     length E' + length xs' + card (in_hand c') = length E + length xs + card (in_hand c) + grows c' \<and>
     length E' + need_of c = length E + need_of c' \<and>
     (\<not> force \<longrightarrow> grows c' = 0 \<and>
       length xs' + need_of c' + card (in_hand c') = length xs + need_of c + card (in_hand c))"
proof -
  note I = rc_invD[OF inv]
  obtain xs' w E' A' where M: "takes stack_effect xs (st t) r xs' w"
    "rc_inv ((rc_goto s t c')\<lparr>rc_st := m\<rparr>) (xs', st(t := w)) E' A'"
    "length E' + length A' + card (in_hand c') = length E + length A + card (in_hand c) + grows c'"
    "rs_bound m = rs_bound (rc_st s)"
    using rc_inv_move[OF inv, of "\<lambda>_. ele_new ele a" mem t] mv c by auto
  have len: "length A = length xs" "length A' = length xs'"
    using I(2) rc_invD(2)[OF M(2)] by (metis fst_conv length_map)+
  have ok: "rc_ok (rs_p (rc_st s)) c (st t)" using I(4)[of t] c by simp
  have ok': "rc_ok (rs_p m) c' w" using rc_invD(4)[OF M(2), of t] by simp
  have "pop_at force c' \<and>
     mset xs' + cargo w + making c' + made_leak mem c =
       mset xs + cargo (st t) + making c + (if c = Mk_Call \<and> ele then {#a#} else {#}) \<and>
     length E' + need_of c = length E + need_of c' \<and>
     (\<not> force \<longrightarrow> grows c' = 0 \<and>
       length xs' + need_of c' + card (in_hand c') = length xs + need_of c + card (in_hand c))"
    using pop_next[OF c(2) mv] c(2) M(1,3) len ok ok'
    by (cases c) (auto simp: made_leak_def split: if_splits list.splits)
  then show ?thesis
    using M(2-4) len by (intro exI[of _ xs'] exI[of _ w] exI[of _ E'] exI[of _ A']) simp
qed

section \<open>The invariant\<close>

text \<open>The threads as users of one of the stacks.\<close>

definition producer_sys :: "pt_sys \<Rightarrow> rc_sys" where
  "producer_sys s =
     \<lparr>rc_st = the (sp_producer (pt_mgr s)), rc_pcs = (\<lambda>t. at_producer (places s t))\<rparr>"

definition consumer_sys :: "pt_sys \<Rightarrow> rc_sys" where
  "consumer_sys s =
     \<lparr>rc_st = the (sp_consumer (pt_mgr s)), rc_pcs = (\<lambda>t. at_consumer (places s t))\<rparr>"

type_synonym rc_spec = "(nat list, rc_call, rc_answer) spec"

text \<open>The form of the system.\<close>

definition pt_form :: "int \<Rightarrow> pt_sys \<Rightarrow> bool" where
  "pt_form th s \<longleftrightarrow> sp_producer (pt_mgr s) \<noteq> None \<and> sp_consumer (pt_mgr s) \<noteq> None \<and>
     \<not> rs_bound (the (sp_producer (pt_mgr s))) \<and> \<not> rs_bound (the (sp_consumer (pt_mgr s))) \<and>
     sp_th_size (pt_mgr s) = th \<and> (\<forall>t. place_ok t (places s t)) \<and>
     (\<forall>t>nat th. places s t = W_None) \<and>
     (\<forall>i j. places s 0 = Cl_Start i \<longrightarrow> i \<le> j \<longrightarrow> places s (Suc j) = W_None)"

text \<open>The number of elements made is bounded by the pool size.\<close>

definition pt_quota :: "int \<Rightarrow> int \<Rightarrow> int \<Rightarrow> place \<Rightarrow> bool" where
  "pt_quota ps made p_size pl \<longleftrightarrow> 0 \<le> p_size \<and> (forcing pl \<longrightarrow> 0 < p_size) \<and>
     made + p_size \<le> ps + (if uncounted pl then 1 else 0)"

text \<open>
  Every element is in one place, and there are enough holders: the producer stack has an empty
  one for each element that is out of it, the consumer stack \<open>ps\<close> altogether.
\<close>

definition pt_ledger :: "int \<Rightarrow> pt_sys \<Rightarrow> rc_spec \<Rightarrow> rc_spec \<Rightarrow> bool" where
  "pt_ledger th s qp qc \<longleftrightarrow>
     hold s + (\<Sum>t<Suc (nat th). has (places s t) (snd qp t) (snd qc t)) +
       mset (fst qp) + mset (fst qc) + leaked s = mset [0..<made_no s]"

definition pt_room :: "int \<Rightarrow> int \<Rightarrow> pt_sys \<Rightarrow> nat list \<Rightarrow> rc_spec \<Rightarrow> nat list \<Rightarrow> bool" where
  "pt_room th ps s Ep qc Ec \<longleftrightarrow>
     length Ep = size (hold s) + length (fst qc) + (\<Sum>t<Suc (nat th). need (places s t)) \<and>
     length Ec + length (fst qc) + (\<Sum>t<Suc (nat th). card (in_hand (at_consumer (places s t)))) = nat ps"

definition pt_shape ::
  "int \<Rightarrow> int \<Rightarrow> pt_sys \<Rightarrow> rc_spec \<Rightarrow> nat list \<Rightarrow> nat list \<Rightarrow> rc_spec \<Rightarrow> nat list \<Rightarrow> nat list \<Rightarrow> bool"
where
  "pt_shape th ps s qp Ep Ap qc Ec Ac \<longleftrightarrow> pt_form th s \<and>
     rc_inv (producer_sys s) qp Ep Ap \<and> rc_inv (consumer_sys s) qc Ec Ac \<and>
     pt_ledger th s qp qc \<and> pt_room th ps s Ep qc Ec \<and>
     pt_quota ps (int (made_no s)) (sp_p_size (pt_mgr s)) (places s 0) \<and> refused s = {#}"

definition pt_inv :: "int \<Rightarrow> int \<Rightarrow> pt_sys \<Rightarrow> bool" where
  "pt_inv th ps s \<longleftrightarrow> (\<exists>qp Ep Ap qc Ec Ac. pt_shape th ps s qp Ep Ap qc Ec Ac)"

lemma pt_shapeD:
  assumes "pt_shape th ps s qp Ep Ap qc Ec Ac"
  shows "pt_form th s" "rc_inv (producer_sys s) qp Ep Ap" "rc_inv (consumer_sys s) qc Ec Ac"
    "pt_ledger th s qp qc" "pt_room th ps s Ep qc Ec"
    "pt_quota ps (int (made_no s)) (sp_p_size (pt_mgr s)) (places s 0)" "refused s = {#}"
  using assms unfolding pt_shape_def by blast+

lemma pt_formD:
  assumes "pt_form th s"
  shows "\<exists>pp. sp_producer (pt_mgr s) = Some pp" "\<exists>cc. sp_consumer (pt_mgr s) = Some cc"
    "\<not> rs_bound (the (sp_producer (pt_mgr s)))" "\<not> rs_bound (the (sp_consumer (pt_mgr s)))"
    "sp_th_size (pt_mgr s) = th" "place_ok t (places s t)"
    "nat th < t \<Longrightarrow> places s t = W_None"
    "places s 0 = Cl_Start i \<Longrightarrow> i \<le> j \<Longrightarrow> places s (Suc j) = W_None"
  using assms unfolding pt_form_def by blast+

lemma producer_sys_sel [simp]:
  "rc_st (producer_sys s) = the (sp_producer (pt_mgr s))"
  "rc_pcs (producer_sys s) t = at_producer (places s t)"
  "rc_st (consumer_sys s) = the (sp_consumer (pt_mgr s))"
  "rc_pcs (consumer_sys s) t = at_consumer (places s t)"
  by (simp_all add: producer_sys_def consumer_sys_def)

text \<open>One thread goes to another place.\<close>

lemma place_sys:
  assumes "places s' = (places s)(t := pl)"
  shows "producer_sys s' =
      (rc_goto (producer_sys s) t (at_producer pl))\<lparr>rc_st := the (sp_producer (pt_mgr s'))\<rparr>"
    "consumer_sys s' =
      (rc_goto (consumer_sys s) t (at_consumer pl))\<lparr>rc_st := the (sp_consumer (pt_mgr s'))\<rparr>"
  using assms by (auto simp: producer_sys_def consumer_sys_def)

lemma sum_upd:
  fixes f :: "nat \<Rightarrow> 'a :: comm_monoid_add"
  assumes "t < n" and "\<And>u. u \<noteq> t \<Longrightarrow> g u = f u"
  shows "(\<Sum>u<n. g u) + f t = (\<Sum>u<n. f u) + g t"
proof -
  have t: "t \<in> {..<n}" using assms(1) by simp
  have "(\<Sum>u\<in>{..<n} - {t}. g u) = (\<Sum>u\<in>{..<n} - {t}. f u)" using assms(2) by (intro sum.cong) auto
  then show ?thesis
    using sum.remove[OF finite_lessThan t, of f] sum.remove[OF finite_lessThan t, of g]
    by (simp add: ac_simps)
qed

lemma pt_ledger_upd:
  assumes L: "pt_ledger th s (xp, sp) (xc, sc)" and t: "t \<le> nat th"
    and s': "places s' = (places s)(t := pl)"
    and eq: "hold s' + has pl wp wc + mset xp' + mset xc' + leaked s' + mset [0..<made_no s] =
      hold s + has (places s t) (sp t) (sc t) + mset xp + mset xc + leaked s + mset [0..<made_no s']"
  shows "pt_ledger th s' (xp', sp(t := wp)) (xc', sc(t := wc))"
proof -
  let ?f = "\<lambda>u. has (places s u) (sp u) (sc u)"
  let ?g = "\<lambda>u. has (places s' u) ((sp(t := wp)) u) ((sc(t := wc)) u)"
  have S: "(\<Sum>u<Suc (nat th). ?g u) + ?f t = (\<Sum>u<Suc (nat th). ?f u) + has pl wp wc"
    using sum_upd[of t "Suc (nat th)" ?g ?f] t by (simp add: s' del: sum.lessThan_Suc)
  have "(hold s' + (\<Sum>u<Suc (nat th). ?g u) + mset xp' + mset xc' + leaked s') +
      (?f t + mset [0..<made_no s]) =
    (hold s' + has pl wp wc + mset xp' + mset xc' + leaked s' + mset [0..<made_no s]) +
      (\<Sum>u<Suc (nat th). ?f u)"
    using S by (simp add: ac_simps del: sum.lessThan_Suc mset_upt)
  also have "\<dots> = (hold s + (\<Sum>u<Suc (nat th). ?f u) + mset xp + mset xc + leaked s) +
      (?f t + mset [0..<made_no s'])"
    unfolding eq by (simp only: ac_simps)
  also have "\<dots> = mset [0..<made_no s] + (?f t + mset [0..<made_no s'])"
    using L unfolding pt_ledger_def by simp
  finally show ?thesis unfolding pt_ledger_def by (simp add: ac_simps del: sum.lessThan_Suc mset_upt)
qed

lemma pt_room_upd:
  assumes R: "pt_room th ps s Ep (xc, sc) Ec" and t: "t \<le> nat th"
    and s': "places s' = (places s)(t := pl)"
    and p: "length Ep' + size (hold s) + length xc + need (places s t) =
      length Ep + size (hold s') + length xc' + need pl"
    and c: "length Ec' + length xc' + card (in_hand (at_consumer pl)) =
      length Ec + length xc + card (in_hand (at_consumer (places s t)))"
  shows "pt_room th ps s' Ep' (xc', sc') Ec'"
proof -
  have n: "(\<Sum>u<Suc (nat th). need (places s' u)) + need (places s t) =
      (\<Sum>u<Suc (nat th). need (places s u)) + need pl"
    using sum_upd[of t "Suc (nat th)" "\<lambda>u. need (places s' u)" "\<lambda>u. need (places s u)"] t
    by (simp add: s' del: sum.lessThan_Suc)
  have h: "(\<Sum>u<Suc (nat th). card (in_hand (at_consumer (places s' u)))) +
      card (in_hand (at_consumer (places s t))) =
      (\<Sum>u<Suc (nat th). card (in_hand (at_consumer (places s u)))) + card (in_hand (at_consumer pl))"
    using sum_upd[of t "Suc (nat th)" "\<lambda>u. card (in_hand (at_consumer (places s' u)))"
        "\<lambda>u. card (in_hand (at_consumer (places s u)))"] t
    by (simp add: s' del: sum.lessThan_Suc)
  show ?thesis using R n h p c unfolding pt_room_def by (simp del: sum.lessThan_Suc)
qed

lemma pt_form_upd:
  assumes F: "pt_form th s" and s': "places s' = (places s)(t := pl)"
    and "sp_producer (pt_mgr s') = Some pp" "sp_consumer (pt_mgr s') = Some cc"
    "rs_bound pp = rs_bound (the (sp_producer (pt_mgr s)))"
    "rs_bound cc = rs_bound (the (sp_consumer (pt_mgr s)))"
    "sp_th_size (pt_mgr s') = sp_th_size (pt_mgr s)"
    and "place_ok t pl" and t: "t \<le> nat th"
    and start: "\<And>i j. t = 0 \<Longrightarrow> pl = Cl_Start i \<Longrightarrow> i \<le> j \<Longrightarrow> places s (Suc j) = W_None"
    and busy: "\<And>i j. t = Suc j \<Longrightarrow> places s 0 = Cl_Start i \<Longrightarrow> j < i"
  shows "pt_form th s'"
  unfolding pt_form_def
proof (intro conjI allI impI)
  note D = pt_formD[OF F]
  fix u
  show "place_ok u (places s' u)" using D(6)[of u] assms(8) s' by simp
  show "places s' u = W_None" if "nat th < u" using D(7)[OF that] that t s' by simp
  fix i j
  assume i: "places s' 0 = Cl_Start i" "i \<le> j"
  show "places s' (Suc j) = W_None"
  proof (cases "t = 0")
    case True
    then show ?thesis using start[of i j] i s' by simp
  next
    case False
    then have "places s 0 = Cl_Start i" using i s' by simp
    then show ?thesis using D(8)[of i j] busy[of j i] i s' by fastforce
  qed
qed (use assms pt_formD(3-5)[OF F] in simp_all)

text \<open>The places between the accesses: a call not yet begun, or about to make its first access.\<close>

fun quiet :: "rc_pc \<Rightarrow> (rc_call, rc_answer) status option" where
  "quiet Rc_Idle = Some Ready"
| "quiet (Pu_Null inp) = Some (Pending (Call_Push inp))"
| "quiet (Po_Get force) = Some (Pending (if force then Call_Force else Call_Pop))"
| "quiet _ = None"

lemma quiet_facts: "quiet c = Some w \<Longrightarrow> in_hand c = {} \<and> rc_ok p c w"
  by (cases c) auto

lemma pt_local:
  assumes sh: "pt_shape th ps s (xp, sp) Ep Ap (xc, sc) Ec Ac" and t: "t \<le> nat th"
    and s': "places s' = (places s)(t := pl)"
    "sp_producer (pt_mgr s') = sp_producer (pt_mgr s)" "sp_consumer (pt_mgr s') = sp_consumer (pt_mgr s)"
    "made_no s' = made_no s" "leaked s' = leaked s" "refused s' = {#}"
    and form: "pt_form th s'"
    and old: "in_hand (at_producer (places s t)) = {}" "in_hand (at_consumer (places s t)) = {}"
    and new: "quiet (at_producer pl) = Some wp" "quiet (at_consumer pl) = Some wc"
    and eq: "hold s' + has pl wp wc = hold s + has (places s t) (sp t) (sc t)"
    "size (hold s) + need (places s t) = size (hold s') + need pl"
    and quota: "pt_quota ps (int (made_no s')) (sp_p_size (pt_mgr s')) (places s' 0)"
  shows "pt_inv th ps s'"
proof -
  note D = pt_shapeD[OF sh]
  have P: "producer_sys s' = rc_goto (producer_sys s) t (at_producer pl)"
    "consumer_sys s' = rc_goto (consumer_sys s) t (at_consumer pl)"
    using place_sys[OF s'(1)] s'(2,3) by (simp_all add: producer_sys_def consumer_sys_def)
  have "rc_inv (producer_sys s') (xp, sp(t := wp)) Ep Ap"
    unfolding P using rc_step_quiet[OF D(2)] old(1) quiet_facts[OF new(1)] by simp
  moreover have "rc_inv (consumer_sys s') (xc, sc(t := wc)) Ec Ac"
    unfolding P using rc_step_quiet[OF D(3)] old(2) quiet_facts[OF new(2)] by simp
  moreover have "pt_ledger th s' (xp, sp(t := wp)) (xc, sc(t := wc))"
  proof (rule pt_ledger_upd[OF D(4) t s'(1)])
    have "hold s' + has pl wp wc + mset xp + mset xc + leaked s' + mset [0..<made_no s] =
        (hold s' + has pl wp wc) + mset xp + mset xc + leaked s + mset [0..<made_no s]"
      using s'(5) by simp
    also have "\<dots> = (hold s + has (places s t) (sp t) (sc t)) + mset xp + mset xc + leaked s +
        mset [0..<made_no s']"
      unfolding eq(1) s'(4) ..
    finally show "hold s' + has pl wp wc + mset xp + mset xc + leaked s' + mset [0..<made_no s] =
        hold s + has (places s t) (sp t) (sc t) + mset xp + mset xc + leaked s + mset [0..<made_no s']" .
  qed
  moreover have "pt_room th ps s' Ep (xc, sc(t := wc)) Ec"
    using eq(2) old(2) quiet_facts[OF new(2)] by (intro pt_room_upd[OF D(5) t s'(1)]) simp_all
  ultimately show ?thesis using form quota s'(6) unfolding pt_inv_def pt_shape_def by blast
qed

text \<open>The statuses of a thread that is in no call.\<close>

lemma pt_status:
  assumes "pt_shape th ps s (xp, sp) Ep Ap (xc, sc) Ec Ac"
  shows "rc_ok (rs_p (the (sp_producer (pt_mgr s)))) (at_producer (places s t)) (sp t)"
    "rc_ok (rs_p (the (sp_consumer (pt_mgr s)))) (at_consumer (places s t)) (sc t)"
  using rc_invD(4)[OF pt_shapeD(2)[OF assms], of t] rc_invD(4)[OF pt_shapeD(3)[OF assms], of t]
  by simp_all

lemma pt_thread_le:
  assumes "pt_form th s" and "places s t \<noteq> W_None"
  shows "t \<le> nat th"
  using pt_formD(7)[OF assms(1), of t] assms(2) not_less by blast

lemma pt_starting:
  assumes "pt_form th s" and "places s (Suc j) \<noteq> W_None" and "places s 0 = Cl_Start i"
  shows "j < i"
  using pt_formD(8)[OF assms(1,3), of j] assms(2) not_less by blast

lemma pt_worker_inv:
  assumes sh: "pt_shape th ps s qp Ep Ap qc Ec Ac"
    and nx: "worker_next alive data (places s (Suc i)) = Some pl"
  shows "pt_inv th ps ((place_at s (Suc i) pl)\<lparr>refused := refused s + refusal (places s (Suc i))\<rparr>)"
    (is "pt_inv th ps ?s'")
proof -
  obtain xp sp xc sc where q: "qp = (xp, sp)" "qc = (xc, sc)" by fastforce
  note D = pt_shapeD[OF sh] and F = pt_formD[OF pt_shapeD(1)[OF sh]]
  note st = pt_status[OF sh[unfolded q], of "Suc i"] and ok = F(6)[of "Suc i"]
  have old: "places s (Suc i) \<noteq> W_None" using nx by auto
  have t: "Suc i \<le> nat th" using pt_thread_le[OF D(1) old] .
  obtain pp cc where mgr: "sp_producer (pt_mgr s) = Some pp" "sp_consumer (pt_mgr s) = Some cc"
    using F(1,2) by blast
  have "place_ok (Suc i) pl"
    using nx ok by (cases "(alive, data, places s (Suc i))" rule: worker_next.cases) (auto split: option.splits)
  then have form: "pt_form th ?s'"
    using mgr t pt_starting[OF D(1) old] by (intro pt_form_upd[OF D(1), of _ "Suc i" pl pp cc]) auto
  have quota: "pt_quota ps (int (made_no ?s')) (sp_p_size (pt_mgr ?s')) (places ?s' 0)" using D(6) by simp
  have "\<exists>wp wc. quiet (at_producer pl) = Some wp \<and> quiet (at_consumer pl) = Some wc \<and>
      has pl wp wc = has (places s (Suc i)) (sp (Suc i)) (sc (Suc i)) \<and> need pl = need (places s (Suc i)) \<and>
      in_hand (at_producer (places s (Suc i))) = {} \<and> in_hand (at_consumer (places s (Suc i))) = {} \<and>
      refusal (places s (Suc i)) = {#}"
    using nx ok st by (cases "(alive, data, places s (Suc i))" rule: worker_next.cases) (auto split: option.splits)
  then obtain wp wc where "quiet (at_producer pl) = Some wp" "quiet (at_consumer pl) = Some wc"
    "has pl wp wc = has (places s (Suc i)) (sp (Suc i)) (sc (Suc i))" "need pl = need (places s (Suc i))"
    "in_hand (at_producer (places s (Suc i))) = {}" "in_hand (at_consumer (places s (Suc i))) = {}"
    "refusal (places s (Suc i)) = {#}" by blast
  then show ?thesis
    using D(7) quota by (intro pt_local[where pl = pl and wp = wp and wc = wc,
          OF sh[unfolded q] t _ _ _ _ _ _ form]) simp_all
qed

text \<open>The client between its accesses; \<open>es\<close> is added to what it holds, \<open>es'\<close> taken away.\<close>

lemma pt_client_local:
  assumes sh: "pt_shape th ps s qp Ep Ap qc Ec Ac"
    and ok: "place_ok 0 pl" "\<And>i j. pl = Cl_Start i \<Longrightarrow> i \<le> j \<Longrightarrow> places s (Suc j) = W_None"
    and old: "in_hand (at_producer (places s 0)) = {}" "in_hand (at_consumer (places s 0)) = {}"
    and new: "quiet (at_producer pl) = Some wp" "quiet (at_consumer pl) = Some wc"
    and eq: "es + has pl wp wc = es' + has (places s 0) (snd qp 0) (snd qc 0)"
    "size es' + need (places s 0) = size es + need pl" "es' \<subseteq># hold s"
    and mgr: "sp_producer m = sp_producer (pt_mgr s)" "sp_consumer m = sp_consumer (pt_mgr s)"
    "sp_th_size m = sp_th_size (pt_mgr s)"
    and quota: "pt_quota ps (int (made_no s)) (sp_p_size m) pl"
  shows "pt_inv th ps ((place_at s 0 pl)\<lparr>pt_mgr := m, hold := hold s - es' + es\<rparr>)" (is "pt_inv th ps ?s'")
proof -
  obtain xp sp xc sc where q: "qp = (xp, sp)" "qc = (xc, sc)" by fastforce
  note D = pt_shapeD[OF sh] and F = pt_formD[OF pt_shapeD(1)[OF sh]]
  obtain hs where hs: "hold s = es' + hs" using eq(3) by (auto simp: subset_mset.le_iff_add)
  obtain pp cc where pc: "sp_producer (pt_mgr s) = Some pp" "sp_consumer (pt_mgr s) = Some cc"
    using F(1,2) by blast
  have form: "pt_form th ?s'"
    using pc mgr ok by (intro pt_form_upd[OF D(1), of _ 0 pl pp cc]) auto
  have e: "hold ?s' + has pl wp wc = hold s + has (places s 0) (sp 0) (sc 0)"
    "size (hold s) + need (places s 0) = size (hold ?s') + need pl"
    using eq(1,2) hs q by (simp_all add: ac_simps)
  show ?thesis
    using D(7) old quota mgr
    by (intro pt_local[where pl = pl and wp = wp and wc = wc,
          OF sh[unfolded q] _ _ _ _ _ _ _ form _ _ new e]) simp_all
qed

lemma pt_client_inv:
  assumes sh: "pt_shape th ps s qp Ep Ap qc Ec Ac"
    and nx: "client_next (sp_p_size (pt_mgr s)) (places s 0) = Some (pl, es, left)"
  shows "pt_inv th ps ((place_at s 0 pl)
      \<lparr>pt_mgr := (pt_mgr s)\<lparr>sp_p_size := left\<rparr>, hold := hold s + es\<rparr>)"
proof -
  obtain xp sp xc sc where q: "qp = (xp, sp)" "qc = (xc, sc)" by fastforce
  note D = pt_shapeD[OF sh]
  note st = pt_status[OF sh[unfolded q], of 0] and ok = pt_formD(6)[OF D(1), of 0]
  have "place_ok 0 pl \<and> (\<forall>i. pl \<noteq> Cl_Start i) \<and> (\<exists>wp wc. quiet (at_producer pl) = Some wp \<and>
        quiet (at_consumer pl) = Some wc \<and> es + has pl wp wc = has (places s 0) (sp 0) (sc 0)) \<and>
      need (places s 0) = size es + need pl \<and>
      in_hand (at_producer (places s 0)) = {} \<and> in_hand (at_consumer (places s 0)) = {} \<and>
      pt_quota ps (int (made_no s)) left pl"
    using nx ok st D(6) unfolding pt_quota_def
    by (cases "(sp_p_size (pt_mgr s), places s 0)" rule: client_next.cases)
      (auto split: if_splits rc_answer.splits)
  then obtain wp wc where C: "place_ok 0 pl" "\<forall>i. pl \<noteq> Cl_Start i" "quiet (at_producer pl) = Some wp"
    "quiet (at_consumer pl) = Some wc" "es + has pl wp wc = has (places s 0) (sp 0) (sc 0)"
    "need (places s 0) = size es + need pl"
    "in_hand (at_producer (places s 0)) = {}" "in_hand (at_consumer (places s 0)) = {}"
    "pt_quota ps (int (made_no s)) left pl" by blast
  then show ?thesis
    using pt_client_local[OF sh C(1) _ C(7,8,3,4), of es "{#}" "(pt_mgr s)\<lparr>sp_p_size := left\<rparr>"] q
    by simp
qed

text \<open>The accesses.\<close>

lemma has_le: "rc_ok p (at_consumer pl) wc \<Longrightarrow> place_ok t pl \<Longrightarrow> card (in_hand (at_consumer pl)) \<le> size (has pl wp wc)"
proof (cases pl)
  case (Cl_Push e c)
  assume "rc_ok p (at_consumer pl) wc" "place_ok t pl"
  then show ?thesis using Cl_Push by (cases c) auto
next
  case (W_Take c)
  assume "rc_ok p (at_consumer pl) wc" "place_ok t pl"
  then show ?thesis using W_Take by (cases c) auto
qed simp_all

lemma pt_consumer_room:
  assumes sh: "pt_shape th ps s qp Ep Ap qc Ec Ac" and c: "places s 0 = Cl_Push e (Pu_Get e)"
  shows "Ec \<noteq> []"
proof -
  obtain xp sp xc sc where q: "qp = (xp, sp)" "qc = (xc, sc)" by fastforce
  note D = pt_shapeD[OF sh[unfolded q]]
  let ?h = "\<lambda>t. card (in_hand (at_consumer (places s t)))" and ?e = "\<lambda>t. has (places s t) (sp t) (sc t)"
  have le: "?h t \<le> size (?e t)" for t
    using has_le[OF pt_status(2)[OF sh[unfolded q], of t] pt_formD(6)[OF D(1), of t]] .
  have S: "(\<Sum>t<Suc (nat th). f t) = f 0 + (\<Sum>t<nat th. f (Suc t))" for f :: "nat \<Rightarrow> nat"
    by (rule sum.lessThan_Suc_shift)
  have client: "?h 0 = 0" "size (?e 0) = 1"
    using c pt_status(2)[OF sh[unfolded q], of 0] by simp_all
  have "(\<Sum>t<Suc (nat th). ?h t) + 1 \<le> (\<Sum>t<Suc (nat th). size (?e t))"
    unfolding S using client sum_mono[of "{..<nat th}" "\<lambda>t. ?h (Suc t)" "\<lambda>t. size (?e (Suc t))"] le by simp
  moreover have "size (hold s) + (\<Sum>t<Suc (nat th). size (?e t)) + length xp + length xc + size (leaked s)
      = made_no s"
    using arg_cong[OF D(4)[unfolded pt_ledger_def], of size]
    by (simp add: size_multiset_sum del: sum.lessThan_Suc)
  moreover have "int (made_no s) \<le> ps" using D(6) c by (simp add: pt_quota_def)
  ultimately show ?thesis using D(5) unfolding pt_room_def by (auto simp del: sum.lessThan_Suc)
qed

lemma pt_producer_room:
  assumes sh: "pt_shape th ps s qp Ep Ap qc Ec Ac" and c: "places s t = W_Give e (Pu_Get e)"
  shows "Ep \<noteq> []"
proof -
  note D = pt_shapeD[OF sh]
  have t: "t \<in> {..<Suc (nat th)}" using pt_thread_le[OF D(1), of t] c by simp
  have "need (places s t) \<le> (\<Sum>u<Suc (nat th). need (places s u))"
    by (rule member_le_sum[OF t]) simp_all
  then show ?thesis using D(5) c unfolding pt_room_def by (auto simp del: sum.lessThan_Suc)
qed

lemma pop_makes: "pop_at False c \<Longrightarrow> making c = {#} \<and> made_leak mem c = {#} \<and> c \<noteq> Mk_Call"
  by (cases c) (simp_all add: made_leak_def)

lemma push_makes: "push_at e c \<Longrightarrow> making c = {#} \<and> made_leak mem c = {#} \<and> c \<noteq> Mk_Call"
  by (cases c) (simp_all add: made_leak_def)

lemma regroup:
  fixes a :: "'a :: comm_monoid_add"
  shows "a + b + c + d = a' + b' + c' + d' \<Longrightarrow> b + c + a + d = b' + c' + a' + d'"
  by (simp only: ac_simps)

text \<open>What an access of thread \<open>t\<close> to the producer stack does to the accounts.\<close>

definition producer_books ::
  "pt_sys \<Rightarrow> rc_spec \<Rightarrow> nat list \<Rightarrow> nat \<Rightarrow> (rc_call, rc_answer) status \<Rightarrow> bool \<Rightarrow> bool \<Rightarrow> rstack \<Rightarrow> rc_pc \<Rightarrow> bool"
where
  "producer_books s q E t wc ele mem pp' c' \<longleftrightarrow> (\<exists>xs' wp E' A'.
     rc_inv ((rc_goto (producer_sys s) t c')\<lparr>rc_st := pp'\<rparr>) (xs', (snd q)(t := wp)) E' A' \<and>
     \<not> rs_bound pp' \<and> place_ok t (moved_to (places s t) c') \<and>
     at_producer (moved_to (places s t) c') = c' \<and> at_consumer (moved_to (places s t) c') = Rc_Idle \<and>
     at_consumer (places s t) = Rc_Idle \<and>
     has (moved_to (places s t) c') wp wc + mset xs' + made_leak mem (at_producer (places s t)) =
       has (places s t) (snd q t) wc + mset (fst q) +
       (if at_producer (places s t) = Mk_Call \<and> ele then {#made_no s#} else {#}) \<and>
     length E' + need (places s t) = length E + need (moved_to (places s t) c') \<and>
     (\<forall>i. moved_to (places s t) c' \<noteq> Cl_Start i))"

lemma producer_books_pop:
  assumes inv: "rc_inv (producer_sys s) (xp, sp) Ep Ap" and b: "\<not> rs_bound (the (sp_producer (pt_mgr s)))"
    and u: "places s t = (if f then Cl_Force c else Cl_Pop c)" "place_ok t (places s t)"
    and mv: "rc_move (\<lambda>_. ele_new ele (made_no s)) mem (rc_st (producer_sys s)) c = Some (Some (Ok (pp', c', r)))"
  shows "producer_books s (xp, sp) Ep t wc ele mem pp' c'"
proof -
  have at: "pop_at f c" "t = 0" "c = rc_pcs (producer_sys s) t" using u by (cases f; simp)+
  let ?pl = "moved_to (places s t) c'"
  from pop_access[OF inv at(3,1) mv] obtain xp' wp Ep' Ap' where
    M: "rc_inv ((rc_goto (producer_sys s) t c')\<lparr>rc_st := pp'\<rparr>) (xp', sp(t := wp)) Ep' Ap'"
    "rs_bound pp' = rs_bound (rc_st (producer_sys s))" "pop_at f c'"
    "mset xp' + cargo wp + making c' + made_leak mem c = mset xp + cargo (sp t) + making c +
      (if c = Mk_Call \<and> ele then {#made_no s#} else {#})" "length Ep' + need_of c = length Ep + need_of c'"
    unfolding made_leak_def by blast
  have H: "has ?pl wp wc = cargo wp + making c'" "has (places s t) (sp t) wc = cargo (sp t) + making c"
    "at_producer (places s t) = c"
    using u(1) pop_makes at(1) M(3) by (cases f; simp)+
  have "\<not> rs_bound pp' \<and> place_ok t ?pl \<and> at_producer ?pl = c' \<and> at_consumer ?pl = Rc_Idle \<and>
    at_consumer (places s t) = Rc_Idle"
    "length Ep' + need (places s t) = length Ep + need ?pl \<and> (\<forall>i. ?pl \<noteq> Cl_Start i)"
    using M(2,3,5) b u(1) at(2) by (cases f; simp)+
  with M(1) regroup[OF M(4)] show ?thesis unfolding producer_books_def fst_conv snd_conv
    by - (rule exI[of _ xp'], rule exI[of _ wp], rule exI[of _ Ep'], rule exI[of _ Ap'], unfold H, blast)
qed

lemma producer_books_push:
  assumes inv: "rc_inv (producer_sys s) (xp, sp) Ep Ap" and b: "\<not> rs_bound (the (sp_producer (pt_mgr s)))"
    and u: "places s t = W_Give e c" "place_ok t (places s t)" and room: "c = Pu_Get e \<Longrightarrow> Ep \<noteq> []"
    and mv: "rc_move mk mem (rc_st (producer_sys s)) c = Some (Some (Ok (pp', c', r)))"
  shows "producer_books s (xp, sp) Ep t wc ele mem pp' c'"
proof -
  have at: "push_at e c" "t \<noteq> 0" "c = rc_pcs (producer_sys s) t" using u by simp_all
  from push_access[OF inv at(3,1) room mv] obtain xp' wp Ep' Ap' where
    M: "rc_inv ((rc_goto (producer_sys s) t c')\<lparr>rc_st := pp'\<rparr>) (xp', sp(t := wp)) Ep' Ap'"
    "rs_bound pp' = rs_bound (rc_st (producer_sys s))" "push_at e c'"
    "mset xp' + cargo wp = mset xp + cargo (sp t)"
    "length Ep' + need (W_Give e c) = length Ep + need (W_Give e c')"
    unfolding need.simps by blast
  show ?thesis
    using M b u(1) at(2) push_makes[OF at(1)] unfolding producer_books_def fst_conv snd_conv
    by - (rule exI[of _ xp'], rule exI[of _ wp], rule exI[of _ Ep'], rule exI[of _ Ap'], simp add: ac_simps)
qed

lemma quota_force:
  assumes "pop_at True c" and "rc_move (\<lambda>_. ele_new ele a) mem m c = Some (Some (Ok (m', c', r)))"
  shows "uncounted (Cl_Force c) \<Longrightarrow> uncounted (Cl_Force c')" and "c = Mk_Call \<Longrightarrow> \<not> uncounted (Cl_Force c)"
    and "c = Mk_Call \<and> ele \<Longrightarrow> uncounted (Cl_Force c')"
  using pop_next[OF assms] by (cases c; auto split: if_splits)+

lemma pt_producer_inv:
  assumes sh: "pt_shape th ps s qp Ep Ap qc Ec Ac"
    and mgr: "sp_producer (pt_mgr s) = Some pp" and c: "c = at_producer (places s t)"
    and mv: "rc_move (\<lambda>_. ele_new ele (made_no s)) mem pp c = Some (Some (Ok (pp', c', r)))"
  shows "pt_inv th ps ((place_at s t (moved_to (places s t) c'))
      \<lparr>pt_mgr := (pt_mgr s)\<lparr>sp_producer := Some pp'\<rparr>,
       made_no := (if c = Mk_Call \<and> ele then Suc (made_no s) else made_no s),
       leaked := leaked s + made_leak mem c\<rparr>)"
    (is "pt_inv th ps ?s'")
proof -
  obtain xp sp xc sc where q: "qp = (xp, sp)" "qc = (xc, sc)" by fastforce
  note D = pt_shapeD[OF sh[unfolded q]] and F = pt_formD[OF pt_shapeD(1)[OF sh]]
  obtain cc where cc: "sp_consumer (pt_mgr s) = Some cc" using F(2) by blast
  let ?pl = "moved_to (places s t) c'"
  have none: "places s t \<noteq> W_None" using mv c by auto
  have t: "t \<le> nat th" using pt_thread_le[OF D(1) none] .
  have mv': "rc_move (\<lambda>_. ele_new ele (made_no s)) mem (rc_st (producer_sys s)) c = Some (Some (Ok (pp', c', r)))"
    using mv mgr by simp
  have user: "(\<exists>f. places s t = (if f then Cl_Force c else Cl_Pop c)) \<or> (\<exists>e. places s t = W_Give e c)"
    using mv c F(6)[of t] by (cases "places s t") auto
  then have "producer_books s (xp, sp) Ep t (sc t) ele mem pp' c'"
    using producer_books_pop[OF D(2) F(3) _ F(6) mv'] producer_books_push[OF D(2) F(3) _ F(6) _ mv']
      pt_producer_room[OF sh] by blast
  then obtain xp' wp Ep' Ap' where
    B: "rc_inv ((rc_goto (producer_sys s) t c')\<lparr>rc_st := pp'\<rparr>) (xp', sp(t := wp)) Ep' Ap'"
    "\<not> rs_bound pp'" "place_ok t ?pl" "at_producer ?pl = c'" "at_consumer ?pl = Rc_Idle"
    "at_consumer (places s t) = Rc_Idle"
    "has ?pl wp (sc t) + mset xp' + made_leak mem c =
      has (places s t) (sp t) (sc t) + mset xp + (if c = Mk_Call \<and> ele then {#made_no s#} else {#})"
    "length Ep' + need (places s t) = length Ep + need ?pl" "\<forall>i. ?pl \<noteq> Cl_Start i"
    unfolding producer_books_def fst_conv snd_conv c by blast
  have "pt_form th ?s'"
    using cc B(2,3,9) t F(3) pt_starting[OF D(1)] none
    by (intro pt_form_upd[OF D(1), of _ t ?pl pp' cc]) auto
  moreover have "rc_inv (producer_sys ?s') (xp', sp(t := wp)) Ep' Ap'"
    using B(1,4) place_sys(1)[of ?s' s t ?pl] by simp
  moreover have "consumer_sys ?s' = consumer_sys s"
    using B(5,6) by (auto simp: consumer_sys_def)
  then have "rc_inv (consumer_sys ?s') (xc, sc(t := sc t)) Ec Ac" using D(3) by simp
  moreover have "pt_ledger th ?s' (xp', sp(t := wp)) (xc, sc(t := sc t))"
  proof (rule pt_ledger_upd[OF D(4) t, of _ ?pl])
    have "hold ?s' + has ?pl wp (sc t) + mset xp' + mset xc + leaked ?s' + mset [0..<made_no s] =
        (has ?pl wp (sc t) + mset xp' + made_leak mem c) + (hold s + mset xc + leaked s + mset [0..<made_no s])"
      by (simp add: ac_simps del: mset_upt)
    also have "\<dots> = hold s + has (places s t) (sp t) (sc t) + mset xp + mset xc + leaked s +
        mset [0..<made_no ?s']"
      unfolding B(7) by (simp del: mset_upt)
    finally show "hold ?s' + has ?pl wp (sc t) + mset xp' + mset xc + leaked ?s' + mset [0..<made_no s] =
        hold s + has (places s t) (sp t) (sc t) + mset xp + mset xc + leaked s + mset [0..<made_no ?s']" .
  qed simp
  moreover have "pt_room th ps ?s' Ep' (xc, sc(t := sc t)) Ec"
    using B(5,6,8) by (intro pt_room_upd[OF D(5) t, of _ ?pl]) simp_all
  moreover have "pt_quota ps (int (made_no ?s')) (sp_p_size (pt_mgr ?s')) (places ?s' 0)"
  proof -
    consider "t \<noteq> 0" "c \<noteq> Mk_Call" | "places s t = Cl_Pop c" "t = 0" "c \<noteq> Mk_Call"
      | "places s t = Cl_Force c" "t = 0" "pop_at True c"
      using user F(6)[of t] that pop_makes[of c] push_makes[of _ c]
      by (fastforce split: if_splits)
    then show ?thesis
      using D(6) quota_force[OF _ mv'] unfolding pt_quota_def
      by cases (auto split: if_splits)
  qed
  ultimately show ?thesis using D(7) unfolding pt_inv_def pt_shape_def by fastforce
qed

lemma consumer_move:
  assumes inv: "rc_inv (consumer_sys s) (xc, sc) Ec Ac" and b: "\<not> rs_bound (the (sp_consumer (pt_mgr s)))"
    and u: "places s t = W_Take c \<or> (\<exists>e. places s t = Cl_Push e c)" "place_ok t (places s t)"
    and room: "\<forall>e. places s t = Cl_Push e (Pu_Get e) \<longrightarrow> Ec \<noteq> []"
    and mv: "rc_move (\<lambda>_. None) True (rc_st (consumer_sys s)) c = Some (Some (Ok (cc', c', r)))"
  shows "\<exists>xs' wc E' A'. rc_inv ((rc_goto (consumer_sys s) t c')\<lparr>rc_st := cc'\<rparr>) (xs', sc(t := wc)) E' A' \<and>
     \<not> rs_bound cc' \<and> place_ok t (moved_to (places s t) c') \<and>
     at_consumer (moved_to (places s t) c') = c' \<and> at_producer (moved_to (places s t) c') = Rc_Idle \<and>
     at_producer (places s t) = Rc_Idle \<and>
     has (moved_to (places s t) c') wp wc + mset xs' = has (places s t) wp (sc t) + mset xc \<and>
     length xs' + need (moved_to (places s t) c') = length xc + need (places s t) \<and>
     length E' + length xs' + card (in_hand c') = length Ec + length xc + card (in_hand c) \<and>
     (\<forall>i. moved_to (places s t) c' \<noteq> Cl_Start i) \<and>
     forcing (moved_to (places s t) c') = forcing (places s t) \<and>
     uncounted (moved_to (places s t) c') = uncounted (places s t)"
  using u(1)
proof (elim disjE exE)
  assume p: "places s t = W_Take c"
  then have at: "pop_at False c" "c = rc_pcs (consumer_sys s) t" using u(2) by simp_all
  have "rc_move (\<lambda>_. ele_new False 0) True (rc_st (consumer_sys s)) c = Some (Some (Ok (cc', c', r)))"
    using mv by (simp add: ele_new_def)
  from pop_access[OF inv at(2,1) this] obtain xs' w E' A' where
    M: "rc_inv ((rc_goto (consumer_sys s) t c')\<lparr>rc_st := cc'\<rparr>) (xs', sc(t := w)) E' A'"
    "rs_bound cc' = rs_bound (rc_st (consumer_sys s))" "pop_at False c'"
    "mset xs' + cargo w + making c' + made_leak True c = mset xc + cargo (sc t) + making c +
      (if c = Mk_Call \<and> False then {#0#} else {#})"
    "length E' + length xs' + card (in_hand c') = length Ec + length xc + card (in_hand c) + grows c'"
    "grows c' = 0" "length xs' + need_of c' + card (in_hand c') = length xc + need_of c + card (in_hand c)"
    unfolding made_leak_def by blast
  show ?thesis
    using M(1-3,5-7) regroup[OF M(4)] b u(2) p pop_makes[OF at(1)] pop_makes[OF M(3)]
    by - (rule exI[of _ xs'], rule exI[of _ w], rule exI[of _ E'], rule exI[of _ A'], simp add: ac_simps)
next
  fix e
  assume p: "places s t = Cl_Push e c"
  then have at: "push_at e c" "c = rc_pcs (consumer_sys s) t" using u(2) by simp_all
  from push_access[OF inv at(2,1) _ mv] room p obtain xs' w E' A' where
    M: "rc_inv ((rc_goto (consumer_sys s) t c')\<lparr>rc_st := cc'\<rparr>) (xs', sc(t := w)) E' A'"
    "rs_bound cc' = rs_bound (rc_st (consumer_sys s))" "push_at e c'"
    "mset xs' + cargo w = mset xc + cargo (sc t)"
    "length E' + length xs' + card (in_hand c') = length Ec + length xc + card (in_hand c)"
    "length xs' + need (Cl_Push e c') = length xc + need (Cl_Push e c)"
    unfolding need.simps by blast
  show ?thesis
    using M b u(2) p
    by - (rule exI[of _ xs'], rule exI[of _ w], rule exI[of _ E'], rule exI[of _ A'], simp add: ac_simps)
qed

lemma pt_consumer_inv:
  assumes sh: "pt_shape th ps s qp Ep Ap qc Ec Ac"
    and mgr: "sp_consumer (pt_mgr s) = Some cc" and c: "c = at_consumer (places s t)"
    and mv: "rc_move (\<lambda>_. None) True cc c = Some (Some (Ok (cc', c', r)))"
  shows "pt_inv th ps ((place_at s t (moved_to (places s t) c'))
      \<lparr>pt_mgr := (pt_mgr s)\<lparr>sp_consumer := Some cc'\<rparr>\<rparr>)"
    (is "pt_inv th ps ?s'")
proof -
  obtain xp sp xc sc where q: "qp = (xp, sp)" "qc = (xc, sc)" by fastforce
  note D = pt_shapeD[OF sh[unfolded q]] and F = pt_formD[OF pt_shapeD(1)[OF sh]]
  obtain pp where pp: "sp_producer (pt_mgr s) = Some pp" using F(1) by blast
  let ?pl = "moved_to (places s t) c'"
  have none: "places s t \<noteq> W_None" using mv c by auto
  have t: "t \<le> nat th" using pt_thread_le[OF D(1) none] .
  have mv': "rc_move (\<lambda>_. None) True (rc_st (consumer_sys s)) c = Some (Some (Ok (cc', c', r)))"
    using mv mgr by simp
  have user: "places s t = W_Take c \<or> (\<exists>e. places s t = Cl_Push e c)"
    using mv c F(6)[of t] by (cases "places s t") auto
  have room: "\<forall>e. places s t = Cl_Push e (Pu_Get e) \<longrightarrow> Ec \<noteq> []"
    using pt_consumer_room[OF sh] F(6)[of t] by auto
  from consumer_move[OF D(3) F(4) user F(6) room mv', where wp = "sp t"] obtain xc' wc Ec' Ac' where
    B: "rc_inv ((rc_goto (consumer_sys s) t c')\<lparr>rc_st := cc'\<rparr>) (xc', sc(t := wc)) Ec' Ac'"
    "\<not> rs_bound cc'" "place_ok t ?pl" "at_consumer ?pl = c'" "at_producer ?pl = Rc_Idle"
    "at_producer (places s t) = Rc_Idle"
    "has ?pl (sp t) wc + mset xc' = has (places s t) (sp t) (sc t) + mset xc"
    "length xc' + need ?pl = length xc + need (places s t)"
    "length Ec' + length xc' + card (in_hand c') = length Ec + length xc + card (in_hand c)"
    "\<forall>i. ?pl \<noteq> Cl_Start i" "forcing ?pl = forcing (places s t)" "uncounted ?pl = uncounted (places s t)"
    by blast
  have "pt_form th ?s'"
    using pp B(2,3,10) t F(4) pt_starting[OF D(1)] none
    by (intro pt_form_upd[OF D(1), of _ t ?pl pp cc']) auto
  moreover have "rc_inv (consumer_sys ?s') (xc', sc(t := wc)) Ec' Ac'"
    using B(1,4) place_sys(2)[of ?s' s t ?pl] by simp
  moreover have "producer_sys ?s' = producer_sys s"
    using B(5,6) by (auto simp: producer_sys_def)
  then have "rc_inv (producer_sys ?s') (xp, sp(t := sp t)) Ep Ap" using D(2) by simp
  moreover have "pt_ledger th ?s' (xp, sp(t := sp t)) (xc', sc(t := wc))"
  proof (rule pt_ledger_upd[OF D(4) t, of _ ?pl])
    have "hold ?s' + has ?pl (sp t) wc + mset xp + mset xc' + leaked ?s' + mset [0..<made_no s] =
        (has ?pl (sp t) wc + mset xc') + (hold s + mset xp + leaked s + mset [0..<made_no s])"
      by (simp add: ac_simps del: mset_upt)
    also have "\<dots> = hold s + has (places s t) (sp t) (sc t) + mset xp + mset xc + leaked s +
        mset [0..<made_no ?s']"
      unfolding B(7) by (simp add: ac_simps del: mset_upt)
    finally show "hold ?s' + has ?pl (sp t) wc + mset xp + mset xc' + leaked ?s' + mset [0..<made_no s] =
        hold s + has (places s t) (sp t) (sc t) + mset xp + mset xc + leaked s + mset [0..<made_no ?s']" .
  qed simp
  moreover have "pt_room th ps ?s' Ep (xc', sc(t := wc)) Ec'"
    using B(4,8,9) c by (intro pt_room_upd[OF D(5) t, of _ ?pl]) simp_all
  moreover have "pt_quota ps (int (made_no ?s')) (sp_p_size (pt_mgr ?s')) (places ?s' 0)"
    using D(6) B(11,12) unfolding pt_quota_def by (cases "t = 0") simp_all
  ultimately show ?thesis using D(7) unfolding pt_inv_def pt_shape_def by fastforce
qed

text \<open>No access faults.\<close>

lemma pt_no_fault:
  assumes sh: "pt_shape th ps s qp Ep Ap qc Ec Ac"
    and "sp_producer (pt_mgr s) = Some pp" "sp_consumer (pt_mgr s) = Some cc"
  shows "rc_move mk mem pp (at_producer (places s t)) \<noteq> Some (Some (Fault f))"
    "rc_move mk mem cc (at_consumer (places s t)) \<noteq> Some (Some (Fault f))"
proof -
  obtain xp sp xc sc where q: "qp = (xp, sp)" "qc = (xc, sc)" by fastforce
  note D = pt_shapeD[OF sh[unfolded q]]
  show "rc_move mk mem pp (at_producer (places s t)) \<noteq> Some (Some (Fault f))"
    using rc_inv_move[OF D(2), of mk mem t] assms(2) by auto
  show "rc_move mk mem cc (at_consumer (places s t)) \<noteq> Some (Some (Fault f))"
    using rc_inv_move[OF D(3), of mk mem t] assms(3) by auto
qed

text \<open>The steps of the client that touch neither stack nor elements.\<close>

lemma pt_client_plain:
  assumes sh: "pt_shape th ps s qp Ep Ap qc Ec Ac"
    and old: "has (places s 0) (snd qp 0) (snd qc 0) = {#}" "need (places s 0) = 0"
    "at_producer (places s 0) = Rc_Idle" "at_consumer (places s 0) = Rc_Idle"
    and new: "quiet (at_producer pl) = Some wp" "quiet (at_consumer pl) = Some wc"
    "has pl wp wc = {#}" "need pl = 0" "place_ok 0 pl" "\<not> forcing pl"
    "\<And>i j. pl = Cl_Start i \<Longrightarrow> i \<le> j \<Longrightarrow> places s (Suc j) = W_None"
    and mgr: "sp_producer m = sp_producer (pt_mgr s)" "sp_consumer m = sp_consumer (pt_mgr s)"
    "sp_th_size m = sp_th_size (pt_mgr s)" "sp_p_size m = sp_p_size (pt_mgr s)"
    and un: "\<not> uncounted (places s 0)"
  shows "pt_inv th ps ((place_at s 0 pl)\<lparr>pt_mgr := m\<rparr>)"
proof -
  have "pt_quota ps (int (made_no s)) (sp_p_size m) pl"
    using pt_shapeD(6)[OF sh] mgr(4) new(6) un by (simp add: pt_quota_def)
  then have "pt_inv th ps ((place_at s 0 pl)\<lparr>pt_mgr := m, hold := hold s - {#} + {#}\<rparr>)"
    using assms by (intro pt_client_local[where wp = wp and wc = wc, OF sh]) simp_all
  then show ?thesis by simp
qed

lemma pt_alive_inv:
  assumes "pt_inv th ps s"
  shows "pt_inv th ps (s\<lparr>pt_mgr := (pt_mgr s)\<lparr>sp_alive := b\<rparr>\<rparr>)"
proof -
  obtain qp Ep Ap qc Ec Ac where "pt_shape th ps s qp Ep Ap qc Ec Ac" using assms unfolding pt_inv_def by blast
  then have "pt_shape th ps (s\<lparr>pt_mgr := (pt_mgr s)\<lparr>sp_alive := b\<rparr>\<rparr>) qp Ep Ap qc Ec Ac"
    by (simp add: pt_shape_def pt_form_def producer_sys_def consumer_sys_def pt_ledger_def pt_room_def)
  then show ?thesis unfolding pt_inv_def by blast
qed

lemma pt_create_inv:
  assumes sh: "pt_shape th ps s qp Ep Ap qc Ec Ac" and st: "places s 0 = Cl_Start i"
    and i: "int i < sp_th_size (pt_mgr s)" and pl: "pl = W_Data \<or> pl = W_None"
  shows "pt_inv th ps (place_at (place_at s 0 (Cl_Start (Suc i))) (Suc i) pl)" (is "pt_inv th ps (place_at ?s (Suc i) pl)")
proof -
  note D = pt_shapeD[OF sh] and F = pt_formD[OF pt_shapeD(1)[OF sh]]
  have none: "places s (Suc i) = W_None" using F(8)[OF st] by simp
  have "pt_inv th ps (?s\<lparr>pt_mgr := pt_mgr s\<rparr>)"
    using F(8)[OF st] st
    by (intro pt_client_plain[where wp = Ready and wc = Ready, OF sh]) simp_all
  then obtain qp Ep Ap qc Ec Ac where sh': "pt_shape th ps ?s qp Ep Ap qc Ec Ac"
    unfolding pt_inv_def by auto
  obtain xp sp xc sc where q: "qp = (xp, sp)" "qc = (xc, sc)" by fastforce
  note D' = pt_shapeD[OF sh'] and F' = pt_formD[OF pt_shapeD(1)[OF sh']]
  obtain pp cc where pc: "sp_producer (pt_mgr ?s) = Some pp" "sp_consumer (pt_mgr ?s) = Some cc"
    using F'(1,2) by blast
  have t: "Suc i \<le> nat th" using i F(5) by simp
  have form: "pt_form th (place_at ?s (Suc i) pl)"
    using pc t pl by (intro pt_form_upd[OF D'(1), of _ "Suc i" pl pp cc]) auto
  show ?thesis
    using D'(6,7) pl none
    by (intro pt_local[where pl = pl and wp = Ready and wc = Ready, OF sh'[unfolded q] t _ _ _ _ _ _ form]) auto
qed

lemma pt_push_inv:
  assumes sh: "pt_shape th ps s qp Ep Ap qc Ec Ac" and st: "places s 0 = Cl_Idle" and e: "e \<in># hold s"
  shows "pt_inv th ps ((place_at s 0 (Cl_Push e (Pu_Null (Some e))))\<lparr>hold := hold s - {#e#}\<rparr>)"
proof -
  have "pt_inv th ps ((place_at s 0 (Cl_Push e (Pu_Null (Some e))))
      \<lparr>pt_mgr := pt_mgr s, hold := hold s - {#e#} + {#}\<rparr>)"
    using st e pt_shapeD(6)[OF sh]
    by (intro pt_client_local[where wp = Ready and wc = "Pending (Call_Push (Some e))", OF sh])
      (simp_all add: pt_quota_def)
  then show ?thesis by simp
qed

lemma pt_step_inv: "pt_step t s s' \<Longrightarrow> pt_inv th ps s \<Longrightarrow> pt_inv th ps s'"
proof (induction rule: pt_step.induct)
  case (pt_start s m ret)
  then have "m = (pt_mgr s)\<lparr>sp_alive := True\<rparr>" by (simp add: sp_start_def)
  then show ?case
    using pt_start pt_client_plain[where pl = "Cl_Start 0" and wp = Ready and wc = Ready and m = m]
    unfolding pt_inv_def[of _ _ s] by fastforce
next
  case (pt_create s i created)
  then show ?case using pt_create_inv unfolding pt_inv_def[of _ _ s] by fastforce
next
  case (pt_started s i)
  then show ?case
    using pt_client_plain[where pl = Cl_Idle and wp = Ready and wc = Ready and m = "pt_mgr s"]
    unfolding pt_inv_def[of _ _ s] by fastforce
next
  case (pt_stop s m ret)
  then show ?case using pt_alive_inv[of th ps s False] by (simp add: sp_stop_def)
next
  case (pt_push s e)
  then show ?case using pt_push_inv unfolding pt_inv_def[of _ _ s] by blast
next
  case (pt_pop s)
  then show ?case
    using pt_client_plain[where pl = "Cl_Pop (Po_Get False)" and wp = "Pending Call_Pop" and wc = Ready and
        m = "pt_mgr s"]
    unfolding pt_inv_def[of _ _ s] by fastforce
next
  case (pt_client s pl es left)
  then show ?case using pt_client_inv unfolding pt_inv_def[of _ _ s] by blast
next
  case (pt_wait s)
  then show ?case
    using pt_client_plain[where pl = "Cl_Wait 0" and wp = Ready and wc = Ready and m = "pt_mgr s"]
    unfolding pt_inv_def[of _ _ s] by fastforce
next
  case (pt_join s i)
  then show ?case
    using pt_client_plain[where pl = "Cl_Wait (Suc i)" and wp = Ready and wc = Ready and m = "pt_mgr s"]
    unfolding pt_inv_def[of _ _ s] by fastforce
next
  case (pt_join_none s i)
  then show ?case
    using pt_client_plain[where pl = "Fallen Uninitialised" and wp = Ready and wc = Ready and m = "pt_mgr s"]
    unfolding pt_inv_def[of _ _ s] by fastforce
next
  case (pt_waited s i)
  then show ?case
    using pt_client_plain[where pl = Cl_Idle and wp = Ready and wc = Ready and m = "pt_mgr s"]
    unfolding pt_inv_def[of _ _ s] by fastforce
next
  case (pt_worker s data i pl)
  then show ?case using pt_worker_inv unfolding pt_inv_def[of _ _ s] by blast
next
  case (pt_producer s pp c t ele mem pp' c' r)
  then show ?case using pt_producer_inv unfolding pt_inv_def[of _ _ s] by blast
next
  case (pt_consumer s cc c t cc' c' r)
  then show ?case using pt_consumer_inv unfolding pt_inv_def[of _ _ s] by blast
next
  case (pt_fault s pp cc ele mem t f)
  obtain qp Ep Ap qc Ec Ac where "pt_shape th ps s qp Ep Ap qc Ec Ac"
    using pt_fault.prems unfolding pt_inv_def by blast
  from pt_no_fault[OF this pt_fault.hyps(1,2)] pt_fault.hyps(3) show ?case by blast
qed

lemma pt_init_inv:
  assumes "0 \<le> ps" and "ps < 2 ^ 31"
    and "sp_init sp_new th ps (\<lambda>_. True) (\<lambda>_. True) = Some (Ok (m, 0))"
  shows "pt_inv th ps (pt_sys_of m)"
proof -
  obtain cc where cc: "rs_rel cc (nat ps) []" "\<not> rs_bound cc" and
    m: "m = sp_new\<lparr>sp_th_size := th, sp_p_size := ps, sp_producer := Some (rs_new 0),
      sp_consumer := Some cc, sp_ids := True\<rparr>"
    using sp_init_ok[OF assms] by blast
  obtain E where E: "rs_parts cc E [] {}" "length E = nat ps"
    using cc(1) by (auto simp: rs_rel_def rs_shape_parts)
  have pp: "rs_parts (rs_new 0) [] [] {}" "rs_bound (rs_new 0) = False"
    using rs_new_shape[of 0] by (simp_all add: rs_shape_parts rs_new_def)
  have no: "hands (\<lambda>t. at_producer (if t = 0 then Cl_Idle else W_None)) = {}"
    "hands (\<lambda>t. at_consumer (if t = 0 then Cl_Idle else W_None)) = {}"
    unfolding hands_def by (simp_all add: if_distrib)
  have "pt_shape th ps (pt_sys_of m) ([], \<lambda>_. Ready) [] [] ([], \<lambda>_. Ready) E []"
    unfolding pt_shape_def pt_form_def rc_inv_def pt_ledger_def pt_room_def pt_quota_def
    using assms(1) pp E cc(2) no
    by (simp add: pt_sys_of_def m producer_sys_def consumer_sys_def del: sum.lessThan_Suc)
      (auto intro!: sum.neutral)
  then show ?thesis unfolding pt_inv_def by blast
qed

interpretation pts: step_invariant "pt_started th ps" "\<lambda>s s'. \<exists>t. pt_step t s s'"
  "\<lambda>s. 0 \<le> ps \<and> ps < 2 ^ 31 \<longrightarrow> pt_inv th ps s" for th ps
  by unfold_locales (auto intro: pt_init_inv pt_step_inv)

lemma pt_reach_inv: "pt_reach th ps s \<Longrightarrow> 0 \<le> ps \<Longrightarrow> ps < 2 ^ 31 \<Longrightarrow> pt_inv th ps s"
  using pts.reaches_inv by blast

section \<open>A run of the client\<close>

text \<open>
  A pool of one element before the workers are started: the client pops the element, which is
  made then, and pushes it. The properties below are tried on its states.
\<close>

definition demo_pool :: "rstack \<Rightarrow> rstack \<Rightarrow> int \<Rightarrow> place \<Rightarrow> nat multiset \<Rightarrow> nat \<Rightarrow> pt_sys" where
  "demo_pool pp cc n pl h k = \<lparr>pt_mgr = small_pool pp cc n,
     places = (\<lambda>t. if t = 0 then pl else W_None), hold = h, made_no = k, leaked = {#}, refused = {#}\<rparr>"

lemma demo_client:
  assumes "pt_reach 1 1 (demo_pool pp cc n pl h k)"
  shows "pl = Cl_Idle \<Longrightarrow> pt_reach 1 1 (demo_pool pp cc n (Cl_Pop (Po_Get False)) h k)"
    "pl = Cl_Idle \<Longrightarrow> e \<in># h \<Longrightarrow> pt_reach 1 1 (demo_pool pp cc n (Cl_Push e (Pu_Null (Some e))) (h - {#e#}) k)"
    "client_next n pl = Some (pl', es, n') \<Longrightarrow> pt_reach 1 1 (demo_pool pp cc n' pl' (h + es) k)"
proof -
  note R = pt_reach_step[OF assms]
  have upd: "(\<lambda>t. if t = 0 then x else W_None)(0 := y) = (\<lambda>t. if t = 0 then y else W_None)" for x y
    by auto
  show "pt_reach 1 1 (demo_pool pp cc n (Cl_Pop (Po_Get False)) h k)" if "pl = Cl_Idle"
    using R[OF pt_pop] that by (simp add: demo_pool_def upd)
  show "pt_reach 1 1 (demo_pool pp cc n (Cl_Push e (Pu_Null (Some e))) (h - {#e#}) k)"
    if "pl = Cl_Idle" "e \<in># h"
    using R[OF pt_push[of _ e]] that by (simp add: demo_pool_def upd)
  show "pt_reach 1 1 (demo_pool pp cc n' pl' (h + es) k)" if "client_next n pl = Some (pl', es, n')"
    using R[OF pt_client[of _ pl' es n']] that by (simp add: demo_pool_def upd small_pool_def)
qed

lemma demo_access:
  assumes "pt_reach 1 1 (demo_pool pp cc n pl h k)"
  shows "rc_move (\<lambda>_. ele_new True k) True pp (at_producer pl) = Some (Some (Ok (pp', c, r))) \<Longrightarrow>
      pt_reach 1 1 (demo_pool pp' cc n (moved_to pl c) h (if at_producer pl = Mk_Call then Suc k else k))"
    "rc_move (\<lambda>_. None) True cc (at_consumer pl) = Some (Some (Ok (cc', c, r))) \<Longrightarrow>
      pt_reach 1 1 (demo_pool pp cc' n (moved_to pl c) h k)"
proof -
  note R = pt_reach_step[OF assms]
  have upd: "(\<lambda>t. if t = 0 then x else W_None)(0 := y) = (\<lambda>t. if t = 0 then y else W_None)" for x y
    by auto
  have none: "made_leak True c = {#}" for c by (simp add: made_leak_def split: rc_pc.splits)
  show "pt_reach 1 1 (demo_pool pp' cc n (moved_to pl c) h (if at_producer pl = Mk_Call then Suc k else k))"
    if "rc_move (\<lambda>_. ele_new True k) True pp (at_producer pl) = Some (Some (Ok (pp', c, r)))"
    using R[OF pt_producer[of _ pp _ 0 True True pp' c r]] that
    by (cases "at_producer pl = Mk_Call") (simp_all add: demo_pool_def upd small_pool_def none)
  show "pt_reach 1 1 (demo_pool pp cc' n (moved_to pl c) h k)"
    if "rc_move (\<lambda>_. None) True cc (at_consumer pl) = Some (Some (Ok (cc', c, r)))"
    using R[OF pt_consumer[of _ cc _ 0 cc' c r]] that
    by (simp add: demo_pool_def upd small_pool_def)
qed

lemma demo_stack:
  "pop_aviable (rs_new 0) = Some (Ok (rs_new 0, None))"
  "new_holder (rs_new 0) = (one_holder None 0 None 0 None, 0)"
  "rs_bound (rs_new 0) = False"
  "push_empty (one_holder None 0 None 0 None) 0 = Some (Ok (one_holder None 0 (Some 0) 1 None))"
  "pop_empty (one_holder None 0 (Some 0) 1 None) = Some (Ok (one_holder None 0 None 2 None, Some 0))"
  "push_aviable (one_holder None 0 None 2 p) 0 = Some (Ok (one_holder (Some 0) 1 None 2 p))"
  "(one_holder av i em j p)\<lparr>rs_p := (rs_p (one_holder av i em j p))(0 := q)\<rparr> = one_holder av i em j q"
  by (simp_all add: one_holder_def rs_new_def lf_create_def pop_aviable_def new_holder_def push_empty_def
      pop_empty_def push_aviable_def lf_pop_alone lf_push_alone)

lemma demo_made:
  "pt_reach 1 1 (demo_pool (rs_new 0) (one_holder None 0 (Some 0) 1 None) 1 (Cl_Force (Mk_New 0)) {#} 1)"
proof -
  let ?c = "one_holder None 0 (Some 0) 1 None" and ?p = "rs_new 0"
  have "pt_sys_of (small_pool ?p ?c 1) = demo_pool ?p ?c 1 Cl_Idle {#} 0"
    by (simp add: pt_sys_of_def demo_pool_def)
  with pt_reach_init[OF small_pool_init] have "pt_reach 1 1 (demo_pool ?p ?c 1 Cl_Idle {#} 0)" by simp
  from demo_client(1)[OF this] have "pt_reach 1 1 (demo_pool ?p ?c 1 (Cl_Pop (Po_Get False)) {#} 0)" by simp
  from demo_access(1)[OF this] have "pt_reach 1 1 (demo_pool ?p ?c 1 (Cl_Pop (Rc_Return (Took None))) {#} 0)"
    by (simp add: demo_stack del: One_nat_def)
  from demo_client(3)[OF this] have "pt_reach 1 1 (demo_pool ?p ?c 1 (Cl_Test None) {#} 0)" by simp
  from demo_client(3)[OF this] have "pt_reach 1 1 (demo_pool ?p ?c 1 (Cl_Force (Po_Get True)) {#} 0)" by simp
  from demo_access(1)[OF this] have "pt_reach 1 1 (demo_pool ?p ?c 1 (Cl_Force Mk_Call) {#} 0)"
    by (simp add: demo_stack del: One_nat_def)
  from demo_access(1)[OF this] show ?thesis by (simp add: demo_stack ele_new_def)
qed

lemma demo_popped:
  "pt_reach 1 1 (demo_pool (one_holder None 0 (Some 0) 1 None) (one_holder None 0 (Some 0) 1 None) 0 Cl_Idle {#0#} 1)"
proof -
  let ?c = "one_holder None 0 (Some 0) 1 None" and ?p = "one_holder None 0 None 0 None"
  from demo_access(1)[OF demo_made]
  have "pt_reach 1 1 (demo_pool ?p ?c 1 (Cl_Force (Mk_Clear 0 0)) {#} 1)" by (simp add: demo_stack del: One_nat_def)
  from demo_access(1)[OF this]
  have "pt_reach 1 1 (demo_pool ?p ?c 1 (Cl_Force (Mk_Put 0 0)) {#} 1)" by (simp add: demo_stack del: One_nat_def)
  from demo_access(1)[OF this]
  have "pt_reach 1 1 (demo_pool ?c ?c 1 (Cl_Force (Rc_Return (Made (Some 0)))) {#} 1)"
    by (simp add: demo_stack del: One_nat_def)
  from demo_client(3)[OF this] have "pt_reach 1 1 (demo_pool ?c ?c 1 (Cl_Count (Some 0)) {#} 1)" by simp
  from demo_client(3)[OF this] show ?thesis by simp
qed

lemma demo_pushed:
  "pt_reach 1 1 (demo_pool (one_holder None 0 (Some 0) 1 None) (one_holder (Some 0) 1 None 2 (Some 0)) 0 Cl_Idle {#} 1)"
proof -
  let ?p = "one_holder None 0 (Some 0) 1 None" and ?c = "one_holder None 0 None 2"
  from demo_client(2)[OF demo_popped, of 0]
  have "pt_reach 1 1 (demo_pool ?p ?p 0 (Cl_Push 0 (Pu_Null (Some 0))) {#} 1)" by simp
  from demo_access(2)[OF this] have "pt_reach 1 1 (demo_pool ?p ?p 0 (Cl_Push 0 (Pu_Get 0)) {#} 1)" by simp
  from demo_access(2)[OF this] have "pt_reach 1 1 (demo_pool ?p (?c None) 0 (Cl_Push 0 (Pu_Set 0 0)) {#} 1)"
    by (simp add: demo_stack del: One_nat_def)
  from demo_access(2)[OF this]
  have "pt_reach 1 1 (demo_pool ?p (?c (Some 0)) 0 (Cl_Push 0 (Pu_Put 0 0)) {#} 1)"
    by (simp add: demo_stack del: One_nat_def)
  from demo_access(2)[OF this] have "pt_reach 1 1 (demo_pool ?p (one_holder (Some 0) 1 None 2 (Some 0)) 0
      (Cl_Push 0 (Rc_Return (Put True))) {#} 1)"
    by (simp add: demo_stack del: One_nat_def)
  from demo_client(3)[OF this] show ?thesis by simp
qed

section \<open>No element is lost\<close>

text \<open>The elements of a thread, as its variables and the holder in its hand show them.\<close>

fun elements_in :: "rstack \<Rightarrow> rc_pc \<Rightarrow> nat multiset" where
  "elements_in st (Po_Read f h) = ptr_mset (rs_p st h)"
| "elements_in st (Po_Clear f h back) = ptr_mset back"
| "elements_in st (Po_Put f h back) = ptr_mset back"
| "elements_in st (Mk_New r) = {#r#}"
| "elements_in st (Mk_Clear r h) = {#r#}"
| "elements_in st (Mk_Put r h) = {#r#}"
| "elements_in st (Rc_Return r) = ptr_mset (returned r)"
| "elements_in st _ = {#}"

fun elements_of :: "rstack \<Rightarrow> rstack \<Rightarrow> place \<Rightarrow> nat multiset" where
  "elements_of pp cc (Cl_Push e c) = (case c of Rc_Return r \<Rightarrow> {#} | _ \<Rightarrow> {#e#})"
| "elements_of pp cc (Cl_Pop c) = elements_in pp c"
| "elements_of pp cc (Cl_Test p) = ptr_mset p"
| "elements_of pp cc (Cl_Force c) = elements_in pp c"
| "elements_of pp cc (Cl_Count p) = ptr_mset p"
| "elements_of pp cc (W_Take c) = elements_in cc c"
| "elements_of pp cc (W_Process e) = {#e#}"
| "elements_of pp cc (W_Give e c) = (case c of Rc_Return r \<Rightarrow> {#} | _ \<Rightarrow> {#e#})"
| "elements_of pp cc _ = {#}"

lemma elements_in_cargo:
  "rc_ok (rs_p st) c w \<Longrightarrow> pop_at f c \<Longrightarrow> elements_in st c = cargo w + making c"
  by (cases c) auto

lemma elements_push_cargo:
  "rc_ok p c w \<Longrightarrow> push_at e c \<Longrightarrow> (case c of Rc_Return r \<Rightarrow> {#} | _ \<Rightarrow> {#e#}) = cargo w"
  by (cases c) auto

lemma elements_has:
  assumes "rc_ok (rs_p pp) (at_producer pl) wp" "rc_ok (rs_p cc) (at_consumer pl) wc" "place_ok t pl"
  shows "elements_of pp cc pl = has pl wp wc"
  using assms elements_in_cargo elements_push_cargo pop_makes by (cases pl) fastforce+





section \<open>The workers end\<close>

text \<open>
  \<open>pt_after t s n s'\<close>: a run from \<open>s\<close> to \<open>s'\<close> in which thread \<open>t\<close> has made \<open>n\<close> steps.
\<close>

inductive pt_after :: "nat \<Rightarrow> pt_sys \<Rightarrow> nat \<Rightarrow> pt_sys \<Rightarrow> bool" for t s where
  pt_after_here: "pt_after t s 0 s"
| pt_after_step: "pt_after t s n s' \<Longrightarrow> pt_step u s' s'' \<Longrightarrow> pt_after t s (if u = t then Suc n else n) s''"

text \<open>The steps that a worker has left when \<^verbatim>\<open>_alive\<close> is false.\<close>

fun steps_left :: "place \<Rightarrow> nat" where
  "steps_left W_Data = 2"
| "steps_left W_Loop = 1"
| "steps_left (W_Take c) =
     (case c of Po_Get f \<Rightarrow> 12 | Po_Read f h \<Rightarrow> 11 | Po_Clear f h b \<Rightarrow> 10 | Po_Put f h b \<Rightarrow> 9 | _ \<Rightarrow> 8)"
| "steps_left (W_Process e) = 7"
| "steps_left (W_Give e c) =
     (case c of Pu_Null p \<Rightarrow> 6 | Pu_Get r \<Rightarrow> 5 | Pu_Set r h \<Rightarrow> 4 | Pu_Put r h \<Rightarrow> 3 | _ \<Rightarrow> 2)"
| "steps_left _ = 0"

lemma steps_left_bound: "steps_left pl \<le> 12"
proof (cases pl)
  case (W_Take c)
  then show ?thesis by (cases c) simp_all
next
  case (W_Give e c)
  then show ?thesis by (cases c) simp_all
qed simp_all

lemma worker_next_left:
  "worker_next False data pl = Some pl' \<Longrightarrow> steps_left pl' < steps_left pl \<and> pl' \<noteq> W_None"
  by (cases "(False, data, pl)" rule: worker_next.cases) (auto split: if_splits option.splits)

lemma worker_producer_left:
  assumes "place_ok (Suc i) pl" and "rc_move mk mem pp (at_producer pl) = Some (Some (Ok (pp', c', r)))"
  shows "steps_left (moved_to pl c') < steps_left pl \<and> moved_to pl c' \<noteq> W_None"
proof (cases pl)
  case (W_Give e c)
  then have at: "push_at e c" using assms(1) by simp
  have "rc_move mk mem pp c = Some (Some (Ok (pp', c', r)))" using assms(2) W_Give by simp
  from push_next[OF at this] show ?thesis using at W_Give by (cases c) auto
qed (use assms in auto)

lemma worker_consumer_left:
  assumes "place_ok (Suc i) pl" and "rc_move (\<lambda>_. None) True cc (at_consumer pl) = Some (Some (Ok (cc', c', r)))"
  shows "steps_left (moved_to pl c') < steps_left pl \<and> moved_to pl c' \<noteq> W_None"
proof (cases pl)
  case (W_Take c)
  then have at: "pop_at False c" using assms(1) by simp
  have "rc_move (\<lambda>_. ele_new False 0) True cc c = Some (Some (Ok (cc', c', r)))"
    using assms(2) W_Take by (simp add: ele_new_def)
  from pop_next[OF at this] show ?thesis using at W_Take by (cases c) auto
qed (use assms in auto)

lemma worker_step_left:
  assumes "pt_step (Suc i) s s'" and inv: "pt_inv th ps s" and "\<not> sp_alive (pt_mgr s)"
  shows "steps_left (places s' (Suc i)) < steps_left (places s (Suc i)) \<and> places s' (Suc i) \<noteq> W_None"
proof -
  obtain qp Ep Ap qc Ec Ac where sh: "pt_shape th ps s qp Ep Ap qc Ec Ac" using inv unfolding pt_inv_def by blast
  note ok = pt_formD(6)[OF pt_shapeD(1)[OF sh], of "Suc i"]
  from assms(1) show ?thesis
  proof cases
    case (pt_worker data pl)
    then show ?thesis using worker_next_left assms(3) by simp
  next
    case (pt_producer pp c ele mem pp' c' r)
    then show ?thesis using worker_producer_left[OF ok] by simp
  next
    case (pt_consumer cc c cc' c' r)
    then show ?thesis using worker_consumer_left[OF ok] by simp
  next
    case (pt_fault pp cc ele mem f)
    then show ?thesis using pt_no_fault[OF sh] by blast
  qed
qed

lemma worker_step_frame:
  assumes "pt_step t s s'" and inv: "pt_inv th ps s" and "places s (Suc i) \<noteq> W_None" "\<not> sp_alive (pt_mgr s)"
  shows "\<not> sp_alive (pt_mgr s')" and "t \<noteq> Suc i \<Longrightarrow> places s' (Suc i) = places s (Suc i)"
proof -
  obtain qp Ep Ap qc Ec Ac where sh: "pt_shape th ps s qp Ep Ap qc Ec Ac" using inv unfolding pt_inv_def by blast
  note F = pt_formD(8)[OF pt_shapeD(1)[OF sh]]
  show "\<not> sp_alive (pt_mgr s')"
    using assms(1,3,4) by cases (auto simp: sp_stop_def)
  show "places s' (Suc i) = places s (Suc i)" if "t \<noteq> Suc i"
    using assms(1,3) that F by cases (auto split: if_splits)
qed

lemma pt_after_left:
  assumes "pt_after (Suc i) s n s'" and "pt_inv th ps s" and "places s (Suc i) \<noteq> W_None"
    and "\<not> sp_alive (pt_mgr s)"
  shows "pt_inv th ps s' \<and> places s' (Suc i) \<noteq> W_None \<and> \<not> sp_alive (pt_mgr s') \<and>
     n + steps_left (places s' (Suc i)) \<le> steps_left (places s (Suc i))"
  using assms
proof (induction rule: pt_after.induct)
  case (pt_after_step n s' u s'')
  then have I: "pt_inv th ps s'" "places s' (Suc i) \<noteq> W_None" "\<not> sp_alive (pt_mgr s')"
    "n + steps_left (places s' (Suc i)) \<le> steps_left (places s (Suc i))" by blast+
  show ?case
    using pt_step_inv[OF pt_after_step.hyps(2) I(1)] worker_step_frame[OF pt_after_step.hyps(2) I(1-3)]
      worker_step_left[of i s' s'' th ps] pt_after_step.hyps(2) I
    by (cases "u = Suc i") fastforce+
qed simp

lemma worker_enabled:
  assumes sh: "pt_shape th ps s qp Ep Ap qc Ec Ac"
    and "places s (Suc i) \<noteq> W_None" "places s (Suc i) \<noteq> W_End"
  shows "\<exists>s'. pt_step (Suc i) s s'"
proof -
  obtain xp sp xc sc where q: "qp = (xp, sp)" "qc = (xc, sc)" by fastforce
  note D = pt_shapeD[OF sh[unfolded q]] and F = pt_formD[OF pt_shapeD(1)[OF sh]]
  obtain pp cc where pc: "sp_producer (pt_mgr s) = Some pp" "sp_consumer (pt_mgr s) = Some cc"
    using F(1,2) by blast
  consider pl where "worker_next (sp_alive (pt_mgr s)) True (places s (Suc i)) = Some pl"
    | res where "rc_move (\<lambda>_. ele_new True (made_no s)) True pp (at_producer (places s (Suc i))) = Some res"
    | res where "rc_move (\<lambda>_. None) True cc (at_consumer (places s (Suc i))) = Some res"
  proof (cases "places s (Suc i)")
    case (W_Take c)
    then show ?thesis using that F(6)[of "Suc i"] by (cases c) auto
  next
    case (W_Give e c)
    then show ?thesis using that F(6)[of "Suc i"] by (cases c) auto
  qed (use assms(2,3) F(6)[of "Suc i"] that(1) in auto)
  then show ?thesis
  proof cases
    case 1
    then show ?thesis using pt_worker by blast
  next
    case 2
    then show ?thesis using rc_inv_move[OF D(2), of _ True "Suc i"] pc pt_producer[OF pc(1) refl] by fastforce
  next
    case 3
    then show ?thesis using rc_inv_move[OF D(3), of _ True "Suc i"] pc pt_consumer[OF pc(2) refl] by fastforce
  qed
qed


text \<open>One worker is created, and stopped before it has looked for an element.\<close>

lemma demo_stopped:
  "\<exists>s s'. pt_reach 1 1 s \<and> \<not> sp_alive (pt_mgr s) \<and> places s (Suc 0) = W_Data \<and>
     pt_after (Suc 0) s 2 s' \<and> places s' (Suc 0) = W_End"
proof -
  let ?c = "one_holder None 0 (Some 0) 1 None" and ?p = "rs_new 0"
  have "pt_sys_of (small_pool ?p ?c 1) = demo_pool ?p ?c 1 Cl_Idle {#} 0" (is "_ = ?s0")
    by (simp add: pt_sys_of_def demo_pool_def)
  with pt_reach_init[OF small_pool_init] have R0: "pt_reach 1 1 ?s0" by simp
  define s1 where "s1 = (place_at ?s0 0 (Cl_Start 0))\<lparr>pt_mgr := fst (sp_start (pt_mgr ?s0))\<rparr>"
  define s2 where "s2 = place_at (place_at s1 0 (Cl_Start 1)) (Suc 0) W_Data"
  define s3 where "s3 = s2\<lparr>pt_mgr := fst (sp_stop (pt_mgr s2))\<rparr>"
  define s4 where "s4 = place_at s3 (Suc 0) W_Loop"
  define s5 where "s5 = place_at s4 (Suc 0) W_End"
  note defs = s1_def s2_def s3_def demo_pool_def small_pool_def sp_start_def sp_stop_def
  have "pt_step 0 ?s0 s1"
    unfolding s1_def by (rule pt_start[where ret = False]) (simp_all add: demo_pool_def sp_start_def)
  note R1 = pt_reach_step[OF R0 this]
  have "pt_step 0 s1 s2" using pt_create[of s1 0 True] by (simp add: defs)
  note R2 = pt_reach_step[OF R1 this]
  have "pt_step 0 s2 s3" unfolding s3_def by (rule pt_stop[where ret = True]) (simp add: sp_stop_def)
  note R3 = pt_reach_step[OF R2 this]
  have s3: "places s3 (Suc 0) = W_Data" "\<not> sp_alive (pt_mgr s3)" by (simp_all add: defs)
  have "pt_step (Suc 0) s3 s4" using pt_worker[of s3 True 0 W_Loop] s3 by (simp add: s4_def)
  from pt_after_step[OF pt_after_here[of "Suc 0"] this] have A: "pt_after (Suc 0) s3 1 s4" by simp
  have "pt_step (Suc 0) s4 s5" using pt_worker[of s4 True 0 W_End] s3 by (simp add: s4_def s5_def)
  from pt_after_step[OF A this] have "pt_after (Suc 0) s3 2 s5" by (simp add: numeral_2_eq_2)
  then show ?thesis using R3 s3 by (intro exI[of _ s3] exI[of _ s5]) (simp add: s5_def)
qed


section \<open>The destructor\<close>

lemma rs_destroy_nil:
  assumes "rs_rel st free []"
  shows "\<exists>st'. rs_destroy st = Some (Ok (st', []))"
proof -
  obtain E where "rs_shape st E []" using assms by (auto simp: rs_rel_def)
  then obtain st' where st': "destroy_empty st = Some (Ok st')" "rs_shape st' [] []"
    using destroy_empty_shape by blast
  then have "lf_holds (rs_aviable st') (rs_next st') []" unfolding rs_shape_def by blast
  then have "destroy_aviable st' [] = Some (Ok (st', []))"
    using lf.pop_empty[of "rs_aviable st'" "rs_next st'" True]
    by (simp add: destroy_aviable.simps[of st'] pop_aviable_def)
  then show ?thesis using st'(1) by (auto simp: rs_destroy_def)
qed

lemma idle_elements: "at_producer pl = Rc_Idle \<Longrightarrow> at_consumer pl = Rc_Idle \<Longrightarrow>
  pl \<in> {Cl_Idle, W_None, W_End} \<Longrightarrow> has pl wp wc = {#}"
  by auto

text \<open>
  C40. The pool cannot be destroyed while an element is in it. \<^verbatim>\<open>init\<close> binds no producer to the
  stacks, and the stacks' destructor then calls \<^verbatim>\<open>destroy\<close> through a null pointer for the first
  resource that it finds: when all workers have ended and the client does not have all elements
  that were made, \<^verbatim>\<open>~PoolMgr\<close> faults.
\<close>

theorem pool_destructor_faults:
  assumes "pt_reach thread_size pool_size s" and "0 \<le> pool_size" and "pool_size < 2 ^ 31"
    and "places s 0 = Cl_Idle" and "\<forall>i. places s (Suc i) \<in> {W_None, W_End}"
    and "size (hold s) + size (leaked s) < made_no s"
  shows "sp_destroy (pt_mgr s) = Some (Fault Null_Deref)"
proof -
  obtain xp sp Ep Ap xc sc Ec Ac where
    sh: "pt_shape thread_size pool_size s (xp, sp) Ep Ap (xc, sc) Ec Ac"
    using pt_reach_inv[OF assms(1-3)] unfolding pt_inv_def by auto
  note D = pt_shapeD[OF sh] and F = pt_formD[OF pt_shapeD(1)[OF sh]]
  obtain pp cc where pc: "sp_producer (pt_mgr s) = Some pp" "sp_consumer (pt_mgr s) = Some cc"
    using F(1,2) by blast
  have idle: "places s t \<in> {Cl_Idle, W_None, W_End}" for t using assms(4,5) by (cases t) auto
  have at: "at_producer (places s t) = Rc_Idle" "at_consumer (places s t) = Rc_Idle" for t
    using idle[of t] by auto
  have "hands (rc_pcs (producer_sys s)) = {}" "hands (rc_pcs (consumer_sys s)) = {}"
    using at by (simp_all add: hands_def)
  then have rel: "rs_rel pp (length Ep) xp" "rs_rel cc (length Ec) xc"
    using rc_invD(1,2)[OF D(2)] rc_invD(1,2)[OF D(3)] pc
    by (auto intro!: rs_relI simp: rs_shape_parts)
  have "(\<Sum>t<Suc (nat thread_size). has (places s t) (sp t) (sc t)) = {#}"
    using idle_elements[OF at idle] by (simp del: sum.lessThan_Suc)
  then have "size (hold s) + length xp + length xc + size (leaked s) = made_no s"
    using arg_cong[OF D(4)[unfolded pt_ledger_def], of size] by (simp del: sum.lessThan_Suc)
  then have some: "xp \<noteq> [] \<or> xc \<noteq> []" using assms(6) by auto
  have nb: "\<not> rs_bound pp" "\<not> rs_bound cc" using F(3,4) pc by simp_all
  show ?thesis
  proof (cases "xp = []")
    case True
    then show ?thesis
      using some rs_destroy_nil[of pp "length Ep"] rel rs_destroy_rel[OF rel(2)] nb pc
      by (auto simp: sp_destroy_def destroy_pool_def)
  next
    case False
    then show ?thesis
      using rs_destroy_rel[OF rel(1)] nb pc by (simp add: sp_destroy_def destroy_pool_def)
  qed
qed

theorem pool_destructor_faults_witness:
  "\<exists>s. pt_reach 1 1 s \<and> made_no s = 1 \<and> hold s = {#} \<and> sp_destroy (pt_mgr s) = Some (Fault Null_Deref)"
proof -
  have "sp_destroy (pt_mgr (demo_pool (one_holder None 0 (Some 0) 1 None)
      (one_holder (Some 0) 1 None 2 (Some 0)) 0 Cl_Idle {#} 1)) = Some (Fault Null_Deref)"
    by (rule pool_destructor_faults[OF demo_pushed]) (simp_all add: demo_pool_def)
  then show ?thesis
    by (intro exI[of _ "demo_pool (one_holder None 0 (Some 0) 1 None)
        (one_holder (Some 0) 1 None 2 (Some 0)) 0 Cl_Idle {#} 1"] conjI[OF demo_pushed])
      (simp add: demo_pool_def)
qed

end
