(* ===== verification/Atomic_Ops.thy ===== *)
theory Atomic_Ops
  imports Selib_Prelude
begin

text \<open>
  \<^verbatim>\<open>util/lock_free_atomic_ops.h\<close>: the four atomic operations on a word of memory. Each maps the
  contents of the word to its contents afterwards and the value of the macro; nothing comes
  between the read and the write, so in a system of threads each is one step.
\<close>

section \<open>The macros\<close>

definition AtomicAdd :: "'w :: len word \<Rightarrow> 'w word \<Rightarrow> 'w word \<times> 'w word" where
  "AtomicAdd v n = (v + n, v)"

definition AtomicSub :: "'w :: len word \<Rightarrow> 'w word \<Rightarrow> 'w word \<times> 'w word" where
  "AtomicSub v n = (v - n, v)"

definition CAS :: "'w :: len word \<Rightarrow> 'w word \<Rightarrow> 'w word \<Rightarrow> 'w word \<times> bool" where
  "CAS v old new = (if v = old then (new, True) else (v, False))"

definition CASVal :: "'w :: len word \<Rightarrow> 'w word \<Rightarrow> 'w word \<Rightarrow> 'w word \<times> 'w word" where
  "CASVal v old new = (if v = old then new else v, v)"

section \<open>What they leave\<close>

lemma atomic_contents [simp]:
  "fst (AtomicAdd v n) = v + n" "fst (AtomicSub v n) = v - n"
  by (simp_all add: AtomicAdd_def AtomicSub_def)

lemma atomic_old [simp]:
  "snd (AtomicAdd v n) = v" "snd (AtomicSub v n) = v" "snd (CASVal v old new) = v"
  by (simp_all add: AtomicAdd_def AtomicSub_def CASVal_def)

text \<open>The two forms of compare-and-swap differ in what they answer only.\<close>

lemma CASVal_CAS:
  "fst (CASVal v old new) = fst (CAS v old new)" "snd (CASVal v old new) = old \<longleftrightarrow> snd (CAS v old new)"
  by (simp_all add: CASVal_def CAS_def)

text \<open>
  Additions by threads in any order leave the sum, modulo the width of the word, and each
  thread is answered what the additions before its own have made of the word.
\<close>

fun adds :: "'w :: len word \<Rightarrow> 'w word list \<Rightarrow> 'w word \<times> 'w word list" where
  "adds v [] = (v, [])"
| "adds v (n # ns) = (case AtomicAdd v n of (v', a) \<Rightarrow> case adds v' ns of (w, as) \<Rightarrow> (w, a # as))"

lemma adds_sum: "adds v ns = (v + sum_list ns, map (\<lambda>i. v + sum_list (take i ns)) [0..<length ns])"
proof (induction ns arbitrary: v)
  case (Cons n ns)
  have "[0..<length (n # ns)] = 0 # map Suc [0..<length ns]"
    by (simp only: length_Cons map_Suc_upt upt_conv_Cons[OF zero_less_Suc])
  then have "map (\<lambda>i. v + sum_list (take i (n # ns))) [0..<length (n # ns)] =
      v # map (\<lambda>i. v + n + sum_list (take i ns)) [0..<length ns]"
    by (simp only: list.map map_map comp_def take_Suc_Cons take_0 sum_list.Nil sum_list.Cons add.assoc add_0_right)
  moreover have "adds v (n # ns) = (v + n + sum_list ns,
      v # map (\<lambda>i. v + n + sum_list (take i ns)) [0..<length ns])"
    using Cons[of "v + n"] by (simp only: adds.simps AtomicAdd_def prod.case)
  ultimately show ?case by (simp only: sum_list.Cons add.assoc)
qed simp

lemma adds_any_order:
  assumes "mset ms = mset ns"
  shows "fst (adds v ms) = fst (adds v ns)"
proof -
  have "sum_list ms = sum_list ns" using assms by (metis sum_mset_sum_list)
  then show ?thesis by (simp only: adds_sum fst_conv)
qed

text \<open>A retry loop round \<^verbatim>\<open>CAS\<close> that reads the word first succeeds unless another write came between.\<close>

lemma CAS_after_read: "CAS v v new = (new, True)"
  by (simp add: CAS_def)

end
