(* ===== verification/P_Queue.thy ===== *)
theory P_Queue
  imports Atomic_Ops
begin

text \<open>
  \<^verbatim>\<open>container/pqueue.h\<close>: \<^verbatim>\<open>PQueue\<close>, a linked queue with one lock for its writers and another
  for its readers. The newest node stays in the queue as a dummy until another is pushed.
  First the functions as one thread runs them; then readers and writers interleaving
  between any two accesses to the shared fields, where the first push into the empty queue
  turns out to be unsafe and everything after it safe.
\<close>

section \<open>The queue\<close>

record 'v qnode =
  qval :: 'v
  qnext :: ptr

text \<open>\<^verbatim>\<open>tail\<close> points to the head node inside the queue or to an allocated node.\<close>

datatype qaddr = Head | Qn nat

record 'v pqueue =
  pq_first :: ptr                    \<comment> \<open>\<^verbatim>\<open>head.next\<close>\<close>
  pq_tail :: qaddr
  pq_size :: u32
  pq_length :: u32
  pq_flushed :: bool
  pq_nodes :: "nat \<rightharpoonup> 'v qnode"   \<comment> \<open>the nodes allocated\<close>
  pq_fresh :: nat

definition pq_create :: "u32 \<Rightarrow> 'v pqueue" where
  "pq_create len = \<lparr>pq_first = None, pq_tail = Head, pq_size = 0, pq_length = len,
     pq_flushed = False, pq_nodes = Map.empty, pq_fresh = 0\<rparr>"

definition pq_reserve :: "'v pqueue \<Rightarrow> u32 \<Rightarrow> 'v pqueue \<times> int" where
  "pq_reserve q len = (q\<lparr>pq_length := len\<rparr>, 0)"

definition node_at :: "'v pqueue \<Rightarrow> nat \<Rightarrow> 'v qnode result" where
  "node_at q a = (case pq_nodes q a of None \<Rightarrow> Fault Use_After_Free | Some n \<Rightarrow> Ok n)"

definition new_node :: "'v pqueue \<Rightarrow> 'v \<Rightarrow> 'v pqueue \<times> nat" where
  "new_node q x =
     (q\<lparr>pq_nodes := (pq_nodes q)(pq_fresh q \<mapsto> \<lparr>qval = x, qnext = None\<rparr>), pq_fresh := Suc (pq_fresh q)\<rparr>,
      pq_fresh q)"

text \<open>\<^verbatim>\<open>tail->next = qn\<close>\<close>

definition link_tail :: "'v pqueue \<Rightarrow> nat \<Rightarrow> 'v pqueue result" where
  "link_tail q qn =
     (case pq_tail q of
        Head \<Rightarrow> Ok (q\<lparr>pq_first := Some qn\<rparr>)
      | Qn a \<Rightarrow> andthen (node_at q a) (\<lambda>n.
          Ok (q\<lparr>pq_nodes := (pq_nodes q)(a \<mapsto> n\<lparr>qnext := Some qn\<rparr>)\<rparr>)))"

definition pq_push :: "'v pqueue \<Rightarrow> bool \<Rightarrow> 'v \<Rightarrow> ('v pqueue \<times> int) result" where
  "pq_push q mem x =
     (if \<not> mem then Ok (q, - 1)
      else case new_node q x of (q, qn) \<Rightarrow>
        andthen (link_tail q qn) (\<lambda>q.
          Ok (q\<lparr>pq_tail := Qn qn, pq_size := fst (AtomicAdd (pq_size q) 1)\<rparr>, 0)))"

text \<open>\<^verbatim>\<open>flush\<close> pushes an element \<open>t\<close> that was never assigned; the result of the push is ignored.\<close>

definition pq_flush :: "'v pqueue \<Rightarrow> bool \<Rightarrow> 'v \<Rightarrow> ('v pqueue \<times> int) result" where
  "pq_flush q mem t = andthen (pq_push q mem t) (\<lambda>(q, _). Ok (q\<lparr>pq_flushed := True\<rparr>, 0))"

definition all_poped :: "'v pqueue \<Rightarrow> bool" where
  "all_poped q \<longleftrightarrow> pq_flushed q \<and> pq_size q = 1"

text \<open>\<^verbatim>\<open>try_push\<close> yields while the queue is over its length; alone it then never returns.\<close>

partial_function (option) pq_try_push ::
  "'v pqueue \<Rightarrow> bool \<Rightarrow> 'v \<Rightarrow> ('v pqueue \<times> int) result option" where
  "pq_try_push q mem x =
     (if pq_size q > pq_length q then pq_try_push q mem x else Some (pq_push q mem x))"

declare pq_try_push.simps [code]

definition pq_front :: "'v pqueue \<Rightarrow> ('v pqueue \<times> 'v option \<times> int) result" where
  "pq_front q =
     (case pq_first q of
        None \<Rightarrow> Ok (q, None, - 1)
      | Some p \<Rightarrow>
          if pq_tail q = Qn p then Ok (q, None, - 1)
          else andthen (node_at q p) (\<lambda>n.
            let q = q\<lparr>pq_first := qnext n\<rparr>
            in Ok (q\<lparr>pq_nodes := (pq_nodes q)(p := None), pq_size := fst (AtomicSub (pq_size q) 1)\<rparr>, Some (qval n), 0)))"

text \<open>The destructor.\<close>

definition pq_destroy :: "'v pqueue \<Rightarrow> 'v pqueue result" where
  "pq_destroy q =
     (case pq_first q of
        None \<Rightarrow> Ok q
      | Some a \<Rightarrow> andthen (node_at q a) (\<lambda>_. Ok (q\<lparr>pq_nodes := (pq_nodes q)(a := None)\<rparr>)))"

section \<open>The interface: a queue that keeps its newest element\<close>

locale lag_queue =
  fixes rel :: "'s \<Rightarrow> 'v list \<Rightarrow> bool"
    and push :: "'s \<Rightarrow> 'v \<Rightarrow> ('s \<times> int) result"
    and front :: "'s \<Rightarrow> ('s \<times> 'v option \<times> int) result"
  assumes push_ok: "rel q xs \<Longrightarrow> \<exists>q'. push q x = Ok (q', 0) \<and> rel q' (xs @ [x])"
    and front_none: "rel q xs \<Longrightarrow> length xs \<le> 1 \<Longrightarrow> front q = Ok (q, None, - 1)"
    and front_some: "rel q (x # y # xs) \<Longrightarrow> \<exists>q'. front q = Ok (q', Some x, 0) \<and> rel q' (y # xs)"
begin

lemma push_all:
  "rel q xs \<Longrightarrow> \<exists>q'. foldl (\<lambda>r x. andthen r (\<lambda>q. andthen (push q x) (\<lambda>p. Ok (fst p)))) (Ok q) ys = Ok q' \<and>
     rel q' (xs @ ys)"
proof (induction ys rule: rev_induct)
  case (snoc y ys)
  then obtain q' where "foldl (\<lambda>r x. andthen r (\<lambda>q. andthen (push q x) (\<lambda>p. Ok (fst p)))) (Ok q) ys = Ok q'"
    "rel q' (xs @ ys)" by blast
  then show ?case using push_ok[of q' "xs @ ys" y] by auto
qed simp

text \<open>An element comes out once another was pushed behind it.\<close>

lemma push_front:
  assumes "rel q (x # xs)"
  shows "\<exists>q' q''. push q y = Ok (q', 0) \<and> front q' = Ok (q'', Some x, 0) \<and> rel q'' (xs @ [y])"
proof -
  obtain q' where q': "push q y = Ok (q', 0)" "rel q' (x # xs @ [y])" using push_ok[OF assms, of y] by auto
  obtain z zs where z: "xs @ [y] = z # zs" by (cases "xs @ [y]") auto
  show ?thesis using q' front_some[of q' x z zs] z by auto
qed

end

definition qlinks :: "(nat \<rightharpoonup> 'v qnode) \<Rightarrow> nat \<Rightarrow> ptr option" where
  "qlinks ns a = map_option qnext (ns a)"

definition qvals :: "(nat \<rightharpoonup> 'v qnode) \<Rightarrow> nat list \<Rightarrow> 'v list" where
  "qvals ns as = map (\<lambda>a. qval (the (ns a))) as"

definition pq_shape :: "'v pqueue \<Rightarrow> nat list \<Rightarrow> bool" where
  "pq_shape q as \<longleftrightarrow> chain (qlinks (pq_nodes q)) (pq_first q) as \<and>
     pq_tail q = (if as = [] then Head else Qn (last as)) \<and> dom (pq_nodes q) = set as \<and>
     (\<forall>a\<ge>pq_fresh q. pq_nodes q a = None) \<and> pq_size q = of_nat (length as)"

definition pq_rel :: "'v pqueue \<Rightarrow> 'v list \<Rightarrow> bool" where
  "pq_rel q xs \<longleftrightarrow> (\<exists>as. pq_shape q as \<and> qvals (pq_nodes q) as = xs)"

lemma qlinks_upd [simp]: "qlinks (ns(a := r)) = (qlinks ns)(a := map_option qnext r)"
  by (auto simp: qlinks_def)

lemma qlinks_Some [simp]: "qlinks ns a = Some r \<longleftrightarrow> (\<exists>n. ns a = Some n \<and> qnext n = r)"
  by (auto simp: qlinks_def)

lemma qvals_upd [simp]: "a \<notin> set as \<Longrightarrow> qvals (ns(a := r)) as = qvals ns as"
  by (simp add: qvals_def)

lemma qvals_simps [simp]:
  "qvals ns [] = []"
  "qvals ns (a # as) = qval (the (ns a)) # qvals ns as"
  "qvals ns (as @ bs) = qvals ns as @ qvals ns bs"
  by (simp_all add: qvals_def)

lemma length_qvals [simp]: "length (qvals ns as) = length as"
  by (simp add: qvals_def)

lemma pq_shape_distinct: "pq_shape q as \<Longrightarrow> distinct as"
  unfolding pq_shape_def by (blast intro: chain_distinct)

lemma pq_push_rel:
  assumes "pq_rel q xs"
  shows "\<exists>q'. pq_push q True x = Ok (q', 0) \<and> pq_rel q' (xs @ [x])"
proof -
  obtain as where sh: "pq_shape q as" "qvals (pq_nodes q) as = xs" using assms by (auto simp: pq_rel_def)
  let ?n = "pq_fresh q"
  have n: "?n \<notin> set as" "pq_nodes q ?n = None" using sh(1) by (auto simp: pq_shape_def)
  show ?thesis
  proof (cases as rule: rev_cases)
    case Nil
    let ?q = "q\<lparr>pq_nodes := (pq_nodes q)(?n \<mapsto> \<lparr>qval = x, qnext = None\<rparr>), pq_fresh := Suc ?n,
      pq_first := Some ?n, pq_tail := Qn ?n, pq_size := pq_size q + 1\<rparr>"
    have "pq_push q True x = Ok (?q, 0)"
      using sh(1) Nil by (simp add: pq_push_def new_node_def link_tail_def pq_shape_def)
    moreover have "pq_shape ?q [?n]" using sh(1) Nil by (auto simp: pq_shape_def)
    ultimately show ?thesis using sh(2) Nil by (fastforce simp: pq_rel_def)
  next
    case (snoc bs b)
    then obtain m where m: "pq_nodes q b = Some m" "qnext m = None"
      using sh(1) by (auto simp: pq_shape_def)
    have bn: "b \<noteq> ?n" using n m by auto
    let ?ns = "(pq_nodes q)(?n \<mapsto> \<lparr>qval = x, qnext = None\<rparr>, b \<mapsto> m\<lparr>qnext := Some ?n\<rparr>)"
    let ?q = "q\<lparr>pq_nodes := ?ns, pq_fresh := Suc ?n, pq_tail := Qn ?n, pq_size := pq_size q + 1\<rparr>"
    have "pq_push q True x = Ok (?q, 0)"
      using sh(1) snoc m bn by (simp add: pq_push_def new_node_def link_tail_def pq_shape_def node_at_def)
    moreover have "chain (qlinks ?ns) (pq_first q) (bs @ [b, ?n])"
      using chain_snoc[of "qlinks (pq_nodes q)" "pq_first q" bs b ?n] sh(1) snoc n
      by (simp add: pq_shape_def)
    then have "pq_shape ?q (as @ [?n])" using sh(1) snoc by (auto simp: pq_shape_def)
    moreover have "b \<notin> set bs"
      using chain_distinct[of "qlinks (pq_nodes q)" "pq_first q" as] sh(1) snoc by (simp add: pq_shape_def)
    then have "qvals ?ns (as @ [?n]) = xs @ [x]" using sh(2) n m snoc bn by auto
    ultimately show ?thesis by (fastforce simp: pq_rel_def)
  qed
qed

lemma pq_front_none:
  assumes "pq_rel q xs" and "length xs \<le> 1"
  shows "pq_front q = Ok (q, None, - 1)"
proof -
  obtain as where sh: "pq_shape q as" "qvals (pq_nodes q) as = xs" using assms by (auto simp: pq_rel_def)
  then have "length as \<le> 1" using assms(2) by auto
  then consider "as = []" | a where "as = [a]" by (cases as) auto
  then show ?thesis using sh(1) by cases (auto simp: pq_shape_def pq_front_def)
qed

lemma pq_front_some:
  assumes "pq_rel q (x # y # xs)"
  shows "\<exists>q'. pq_front q = Ok (q', Some x, 0) \<and> pq_rel q' (y # xs)"
proof -
  obtain a b as where sh: "pq_shape q (a # b # as)" and v: "qvals (pq_nodes q) (a # b # as) = x # y # xs"
    using assms by (auto simp: pq_rel_def qvals_def)
  have d: "distinct (a # b # as)" by (rule pq_shape_distinct[OF sh])
  obtain n where n: "pq_nodes q a = Some n" "qnext n = Some b" "qval n = x"
    using sh v by (auto simp: pq_shape_def)
  have "last (b # as) \<in> set (b # as)" by (rule last_in_set) simp
  moreover have "a \<notin> set (b # as)" using d by simp
  ultimately have tl: "last (b # as) \<noteq> a" by metis
  have "pq_tail q = Qn (last (a # b # as))" using sh unfolding pq_shape_def by (simp only: if_False list.simps)
  then have tq: "pq_tail q = Qn (last (b # as))" by simp
  let ?q = "q\<lparr>pq_first := Some b, pq_nodes := (pq_nodes q)(a := None), pq_size := pq_size q - 1\<rparr>"
  have "pq_front q = Ok (?q, Some x, 0)"
    using sh n tl tq by (simp add: pq_shape_def pq_front_def node_at_def Let_def del: last.simps)
  moreover have "pq_shape ?q (b # as)" using sh d n by (auto simp: pq_shape_def)
  moreover have "qvals (pq_nodes ?q) (b # as) = y # xs" using v d by (auto simp: qvals_def)
  ultimately show ?thesis by (fastforce simp: pq_rel_def)
qed

interpretation pq: lag_queue pq_rel "\<lambda>q. pq_push q True" pq_front
  by unfold_locales (fact pq_push_rel pq_front_none pq_front_some)+

section \<open>One thread\<close>

datatype 'v pq_op = Enq 'v | Deq

fun pq_run :: "'v pqueue \<Rightarrow> 'v pq_op list \<Rightarrow> ('v pqueue \<times> 'v option list) result" where
  "pq_run q [] = Ok (q, [])"
| "pq_run q (Enq x # ops) = andthen (pq_push q True x) (\<lambda>(q, _). pq_run q ops)"
| "pq_run q (Deq # ops) =
     andthen (pq_front q) (\<lambda>(q, v, _). andthen (pq_run q ops) (\<lambda>(q, vs). Ok (q, v # vs)))"

fun lag_run :: "'v list \<Rightarrow> 'v pq_op list \<Rightarrow> 'v list \<times> 'v option list" where
  "lag_run xs [] = (xs, [])"
| "lag_run xs (Enq x # ops) = lag_run (xs @ [x]) ops"
| "lag_run (x # y # xs) (Deq # ops) = (case lag_run (y # xs) ops of (zs, vs) \<Rightarrow> (zs, Some x # vs))"
| "lag_run [] (Deq # ops) = (case lag_run [] ops of (zs, vs) \<Rightarrow> (zs, None # vs))"
| "lag_run [x] (Deq # ops) = (case lag_run [x] ops of (zs, vs) \<Rightarrow> (zs, None # vs))"

lemma pq_run_deq:
  assumes "pq_front q = Ok (q', v, r)" and "pq_run q' ops = Ok (q'', vs)"
  shows "pq_run q (Deq # ops) = Ok (q'', v # vs)"
  using assms by simp

lemma pq_run_rel:
  "pq_rel q xs \<Longrightarrow> lag_run xs ops = (ys, vs) \<Longrightarrow> \<exists>q'. pq_run q ops = Ok (q', vs) \<and> pq_rel q' ys"
proof (induction xs ops arbitrary: q vs rule: lag_run.induct)
  case (2 xs x ops)
  obtain q1 where q1: "pq_push q True x = Ok (q1, 0)" "pq_rel q1 (xs @ [x])"
    using pq.push_ok[OF "2.prems"(1)] by blast
  from "2.IH"[OF q1(2)] "2.prems"(2) q1(1) show ?case by simp
next
  case (3 x y xs ops)
  obtain vs' where vs: "lag_run (y # xs) ops = (ys, vs')" "vs = Some x # vs'"
    using "3.prems"(2) by (auto split: prod.splits)
  obtain q1 where q1: "pq_front q = Ok (q1, Some x, 0)" "pq_rel q1 (y # xs)"
    using pq.front_some[OF "3.prems"(1)] by blast
  show ?case using "3.IH"[OF q1(2) vs(1)] pq_run_deq[OF q1(1)] vs(2) by blast
next
  case (4 ops)
  obtain vs' where vs: "lag_run [] ops = (ys, vs')" "vs = None # vs'"
    using "4.prems"(2) by (auto split: prod.splits)
  have "pq_front q = Ok (q, None, - 1)" using pq.front_none[OF "4.prems"(1)] by simp
  from pq_run_deq[OF this] show ?case using "4.IH"[OF "4.prems"(1) vs(1)] vs(2) by blast
next
  case (5 v ops)
  obtain vs' where vs: "lag_run [v] ops = (ys, vs')" "vs = None # vs'"
    using "5.prems"(2) by (auto split: prod.splits)
  have "pq_front q = Ok (q, None, - 1)" using pq.front_none[OF "5.prems"(1)] by simp
  from pq_run_deq[OF this] show ?case using "5.IH"[OF "5.prems"(1) vs(1)] vs(2) by blast
qed auto

lemma pq_create_rel: "pq_rel (pq_create len) []"
  by (auto simp: pq_rel_def pq_shape_def pq_create_def)

lemma pq_rel_size: "pq_rel q xs \<Longrightarrow> pq_size q = of_nat (length xs)"
  by (auto simp: pq_rel_def pq_shape_def)

text \<open>
  C27. Used by one thread, the queue is first in, first out and keeps its newest element:
  under any sequence of \<^verbatim>\<open>push\<close> and \<^verbatim>\<open>front\<close> calls no freed node is touched, \<^verbatim>\<open>front\<close> returns
  the oldest element as long as a newer one is behind it and fails otherwise, and \<^verbatim>\<open>size\<close>
  counts all elements, the kept one included.
\<close>

theorem pqueue_fifo:
  assumes "lag_run [] ops = (xs, vs)"
  shows "\<exists>q. pq_run (pq_create len) ops = Ok (q, vs) \<and> pq_size q = of_nat (length xs) \<and>
     length xs = card (dom (pq_nodes q))"
proof -
  obtain q where q: "pq_run (pq_create len) ops = Ok (q, vs)" "pq_rel q xs"
    using pq_run_rel[OF pq_create_rel assms] by blast
  then obtain as where sh: "pq_shape q as" "length as = length xs" by (auto simp: pq_rel_def)
  then have "dom (pq_nodes q) = set as" by (simp add: pq_shape_def)
  then have "length xs = card (dom (pq_nodes q))"
    using distinct_card[OF pq_shape_distinct[OF sh(1)]] sh(2) by simp
  then show ?thesis using q pq_rel_size[OF q(2)] by blast
qed

theorem pqueue_fifo_witness:
  "\<exists>q. pq_run (pq_create 10) [Deq, Enq (1 :: nat), Deq, Enq 2, Enq 3, Deq, Deq, Deq] =
     Ok (q, [None, None, Some 1, Some 2, None]) \<and> pq_size q = 1"
  using pqueue_fifo[where len = 10, of "[Deq, Enq (1 :: nat), Deq, Enq 2, Enq 3, Deq, Deq, Deq]" "[3]"
      "[None, None, Some 1, Some 2, None]"]
  by (simp del: pq_run.simps) blast

text \<open>
  The destructor leaks: it deletes the oldest node only, so a queue destroyed with
  \<open>n\<close> elements leaves \<open>n - 1\<close> nodes allocated.
\<close>

theorem pqueue_destructor_leaks:
  assumes "lag_run [] ops = (xs, vs)"
  shows "\<exists>q q'. pq_run (pq_create len) ops = Ok (q, vs) \<and> pq_destroy q = Ok q' \<and>
     card (dom (pq_nodes q')) = length xs - 1"
proof -
  obtain q where q: "pq_run (pq_create len) ops = Ok (q, vs)" "pq_rel q xs"
    using pq_run_rel[OF pq_create_rel assms] by blast
  then obtain as where sh: "pq_shape q as" "length as = length xs"
    by (auto simp: pq_rel_def)
  have "\<exists>q'. pq_destroy q = Ok q' \<and> card (dom (pq_nodes q')) = length as - 1"
  proof (cases as)
    case Nil
    then show ?thesis using sh(1) by (auto simp: pq_shape_def pq_destroy_def)
  next
    case (Cons a bs)
    then have "pq_first q = Some a" "pq_nodes q a \<noteq> None" and dom: "dom (pq_nodes q) = set (a # bs)"
      using sh(1) by (auto simp: pq_shape_def)
    then have "pq_destroy q = Ok (q\<lparr>pq_nodes := (pq_nodes q)(a := None)\<rparr>)"
      by (auto simp: pq_destroy_def node_at_def)
    moreover have "dom ((pq_nodes q)(a := None)) = set bs" and "distinct bs"
      using dom pq_shape_distinct[OF sh(1)] Cons by auto
    ultimately show ?thesis using Cons distinct_card[of bs] by simp
  qed
  then show ?thesis using q(1) sh(2) by auto
qed

theorem pqueue_destructor_leaks_witness:
  "\<exists>q q'. pq_run (pq_create 10) [Enq (1 :: nat), Enq 2, Enq 3] = Ok (q, []) \<and> pq_destroy q = Ok q' \<and>
     card (dom (pq_nodes q')) = 2"
  using pqueue_destructor_leaks[of "[Enq (1 :: nat), Enq 2, Enq 3]" "[1, 2, 3]" "[]" 10]
  by (auto simp del: pq_run.simps)

section \<open>Readers and writers\<close>

text \<open>
  The places of \<^verbatim>\<open>push\<close> and \<^verbatim>\<open>front\<close> between two accesses to what threads share. Each call
  of \<^verbatim>\<open>front\<close> is split at its reads of \<^verbatim>\<open>head.next\<close>, \<^verbatim>\<open>tail\<close> and \<^verbatim>\<open>p->next\<close>, at its write
  of \<^verbatim>\<open>head.next\<close> and at its use of the node; each \<^verbatim>\<open>push\<close> between its two writes.
\<close>

datatype 'v pq_pc =
    Q_Idle
  | W_Wait nat              \<comment> \<open>the node is filled, the write lock not yet taken\<close>
  | W_In nat
  | W_Linked nat            \<comment> \<open>\<^verbatim>\<open>tail->next = qn\<close> is done, \<^verbatim>\<open>tail = qn\<close> is not\<close>
  | W_Count
  | R_Wait
  | R_In
  | R_Got ptr               \<comment> \<open>\<^verbatim>\<open>p\<close> is read, \<^verbatim>\<open>tail\<close> is not\<close>
  | R_Pop nat
  | R_Write nat ptr
  | R_Val nat               \<comment> \<open>the read lock is given back\<close>
  | R_Del nat 'v
  | R_Count 'v
  | Q_Crashed               \<comment> \<open>a deleted node was followed\<close>

text \<open>
  The two mutexes by their holders; \<open>pushed\<close> and \<open>popped\<close> list the values in the order of
  the writes that link and unlink their nodes.
\<close>

record 'v pq_sys =
  queue :: "'v pqueue"
  qpc :: "nat \<Rightarrow> 'v pq_pc"
  wlock :: "nat option"
  rlock :: "nat option"
  pushed :: "'v list"
  popped :: "(nat \<times> 'v) list"

abbreviation qat :: "'v pq_sys \<Rightarrow> nat \<Rightarrow> 'v pq_pc \<Rightarrow> 'v pq_sys" where
  "qat s t c \<equiv> s\<lparr>qpc := (qpc s)(t := c)\<rparr>"

definition node_val :: "'v pqueue \<Rightarrow> nat \<Rightarrow> 'v" where
  "node_val q a = qval (the (pq_nodes q a))"

inductive pq_step :: "'v pq_sys \<Rightarrow> 'v pq_sys \<Rightarrow> bool" where
  w_new: "qpc s t = Q_Idle \<Longrightarrow> new_node (queue s) x = (q, n) \<Longrightarrow>
    pq_step s ((qat s t (W_Wait n))\<lparr>queue := q\<rparr>)"
| w_lock: "qpc s t = W_Wait n \<Longrightarrow> wlock s = None \<Longrightarrow>
    pq_step s ((qat s t (W_In n))\<lparr>wlock := Some t\<rparr>)"
| w_link: "qpc s t = W_In n \<Longrightarrow> link_tail (queue s) n = Ok q \<Longrightarrow>
    pq_step s ((qat s t (W_Linked n))\<lparr>queue := q, pushed := pushed s @ [node_val q n]\<rparr>)"
| w_link_dead: "qpc s t = W_In n \<Longrightarrow> link_tail (queue s) n = Fault e \<Longrightarrow>
    pq_step s (qat s t Q_Crashed)"
| w_tail: "qpc s t = W_Linked n \<Longrightarrow>
    pq_step s ((qat s t W_Count)\<lparr>queue := (queue s)\<lparr>pq_tail := Qn n\<rparr>, wlock := None\<rparr>)"
| w_count: "qpc s t = W_Count \<Longrightarrow>
    pq_step s ((qat s t Q_Idle)\<lparr>queue := (queue s)\<lparr>pq_size := fst (AtomicAdd (pq_size (queue s)) 1)\<rparr>\<rparr>)"
| r_call: "qpc s t = Q_Idle \<Longrightarrow> pq_step s (qat s t R_Wait)"
| r_lock: "qpc s t = R_Wait \<Longrightarrow> rlock s = None \<Longrightarrow>
    pq_step s ((qat s t R_In)\<lparr>rlock := Some t\<rparr>)"
| r_first: "qpc s t = R_In \<Longrightarrow> pq_step s (qat s t (R_Got (pq_first (queue s))))"
| r_none: "qpc s t = R_Got p \<Longrightarrow> p = None \<or> (\<exists>a. p = Some a \<and> pq_tail (queue s) = Qn a) \<Longrightarrow>
    pq_step s ((qat s t Q_Idle)\<lparr>rlock := None\<rparr>)"
| r_some: "qpc s t = R_Got (Some a) \<Longrightarrow> pq_tail (queue s) \<noteq> Qn a \<Longrightarrow>
    pq_step s (qat s t (R_Pop a))"
| r_next: "qpc s t = R_Pop a \<Longrightarrow> node_at (queue s) a = Ok m \<Longrightarrow>
    pq_step s (qat s t (R_Write a (qnext m)))"
| r_next_dead: "qpc s t = R_Pop a \<Longrightarrow> node_at (queue s) a = Fault e \<Longrightarrow>
    pq_step s (qat s t Q_Crashed)"
| r_write: "qpc s t = R_Write a r \<Longrightarrow>
    pq_step s ((qat s t (R_Val a))\<lparr>queue := (queue s)\<lparr>pq_first := r\<rparr>, rlock := None,
      popped := popped s @ [(t, node_val (queue s) a)]\<rparr>)"
| r_val: "qpc s t = R_Val a \<Longrightarrow> node_at (queue s) a = Ok m \<Longrightarrow>
    pq_step s (qat s t (R_Del a (qval m)))"
| r_val_dead: "qpc s t = R_Val a \<Longrightarrow> node_at (queue s) a = Fault e \<Longrightarrow>
    pq_step s (qat s t Q_Crashed)"
| r_delete: "qpc s t = R_Del a v \<Longrightarrow> pq_nodes (queue s) a \<noteq> None \<Longrightarrow>
    pq_step s ((qat s t (R_Count v))\<lparr>queue :=
      (queue s)\<lparr>pq_nodes := (pq_nodes (queue s))(a := None)\<rparr>\<rparr>)"
| r_delete_dead: "qpc s t = R_Del a v \<Longrightarrow> pq_nodes (queue s) a = None \<Longrightarrow>
    pq_step s (qat s t Q_Crashed)"
| r_count: "qpc s t = R_Count v \<Longrightarrow>
    pq_step s ((qat s t Q_Idle)\<lparr>queue := (queue s)\<lparr>pq_size := fst (AtomicSub (pq_size (queue s)) 1)\<rparr>\<rparr>)"

abbreviation pq_steps :: "'v pq_sys \<Rightarrow> 'v pq_sys \<Rightarrow> bool" where
  "pq_steps s \<equiv> reaches (\<lambda>x. x = s) pq_step"

definition pq_sys_of :: "'v pqueue \<Rightarrow> 'v list \<Rightarrow> 'v pq_sys" where
  "pq_sys_of q xs = \<lparr>queue = q, qpc = (\<lambda>_. Q_Idle), wlock = None, rlock = None, pushed = xs,
     popped = []\<rparr>"

subsection \<open>The invariant of a queue that has had an element\<close>

fun in_write :: "'v pq_pc \<Rightarrow> bool" where
  "in_write (W_In n) = True"
| "in_write (W_Linked n) = True"
| "in_write _ = False"

fun in_read :: "'v pq_pc \<Rightarrow> bool" where
  "in_read R_In = True"
| "in_read (R_Got p) = True"
| "in_read (R_Pop a) = True"
| "in_read (R_Write a r) = True"
| "in_read _ = False"

text \<open>A node that only this thread can reach.\<close>

fun mine :: "'v pq_pc \<Rightarrow> ptr" where
  "mine (W_Wait n) = Some n"
| "mine (W_In n) = Some n"
| "mine (R_Val n) = Some n"
| "mine (R_Del n v) = Some n"
| "mine _ = None"

definition last_popped :: "nat \<Rightarrow> (nat \<times> 'v) list \<Rightarrow> 'v option" where
  "last_popped t ps = (case filter (\<lambda>p. fst p = t) (rev ps) of [] \<Rightarrow> None | p # _ \<Rightarrow> Some (snd p))"

fun qpc_fine :: "'v pq_sys \<Rightarrow> nat \<Rightarrow> 'v pq_pc \<Rightarrow> bool" where
  "qpc_fine s t (W_Wait n) = (\<exists>m. pq_nodes (queue s) n = Some m \<and> qnext m = None)"
| "qpc_fine s t (W_In n) = (\<exists>m. pq_nodes (queue s) n = Some m \<and> qnext m = None)"
| "qpc_fine s t (R_Got p) = (p = pq_first (queue s))"
| "qpc_fine s t (R_Pop a) = (pq_first (queue s) = Some a \<and> pq_tail (queue s) \<noteq> Qn a)"
| "qpc_fine s t (R_Write a r) = (pq_first (queue s) = Some a \<and> pq_tail (queue s) \<noteq> Qn a \<and>
     (\<exists>m. pq_nodes (queue s) a = Some m \<and> qnext m = r))"
| "qpc_fine s t (R_Val a) = (\<exists>m. pq_nodes (queue s) a = Some m \<and>
     last_popped t (popped s) = Some (qval m))"
| "qpc_fine s t (R_Del a v) =
     (pq_nodes (queue s) a \<noteq> None \<and> last_popped t (popped s) = Some v)"
| "qpc_fine s t (R_Count v) = (last_popped t (popped s) = Some v)"
| "qpc_fine s t Q_Crashed = False"
| "qpc_fine s t _ = True"

text \<open>The nodes from the first to the tail, and the one that is linked behind the tail.\<close>

definition tail_fine :: "'v pq_sys \<Rightarrow> nat list \<Rightarrow> bool" where
  "tail_fine s as \<longleftrightarrow>
     (\<forall>t n. qpc s t = W_Linked n \<longrightarrow> (\<exists>bs b. as = bs @ [b, n] \<and> pq_tail (queue s) = Qn b)) \<and>
     ((\<forall>t n. qpc s t \<noteq> W_Linked n) \<longrightarrow> as \<noteq> [] \<and> pq_tail (queue s) = Qn (last as))"

definition pq_good :: "'v pq_sys \<Rightarrow> nat list \<Rightarrow> bool" where
  "pq_good s as \<longleftrightarrow> chain (qlinks (pq_nodes (queue s))) (pq_first (queue s)) as \<and>
     tail_fine s as \<and> map snd (popped s) @ qvals (pq_nodes (queue s)) as = pushed s \<and>
     (\<forall>t. in_write (qpc s t) \<longleftrightarrow> wlock s = Some t) \<and> (\<forall>t. in_read (qpc s t) \<longleftrightarrow> rlock s = Some t) \<and>
     (\<forall>t n. mine (qpc s t) = Some n \<longrightarrow> n \<notin> set as \<and> pq_nodes (queue s) n \<noteq> None \<and>
        (\<forall>u. mine (qpc s u) = Some n \<longrightarrow> u = t)) \<and>
     (\<forall>n\<ge>pq_fresh (queue s). pq_nodes (queue s) n = None) \<and> (\<forall>t. qpc_fine s t (qpc s t))"

lemma pq_goodD:
  assumes "pq_good s as"
  shows "chain (qlinks (pq_nodes (queue s))) (pq_first (queue s)) as" and "tail_fine s as"
    and "map snd (popped s) @ qvals (pq_nodes (queue s)) as = pushed s"
    and "in_write (qpc s t) \<longleftrightarrow> wlock s = Some t" and "in_read (qpc s t) \<longleftrightarrow> rlock s = Some t"
    and "mine (qpc s t) = Some n \<Longrightarrow> n \<notin> set as \<and> pq_nodes (queue s) n \<noteq> None"
    and "mine (qpc s t) = Some n \<Longrightarrow> mine (qpc s u) = Some n \<Longrightarrow> u = t"
    and "n \<ge> pq_fresh (queue s) \<Longrightarrow> pq_nodes (queue s) n = None"
    and "qpc_fine s t (qpc s t)"
  using assms unfolding pq_good_def by blast+

lemma pq_good_distinct: "pq_good s as \<Longrightarrow> distinct as"
  unfolding pq_good_def by (blast intro: chain_distinct)

lemma pq_good_live: "pq_good s as \<Longrightarrow> a \<in> set as \<Longrightarrow> \<exists>m. pq_nodes (queue s) a = Some m"
  using path_live[OF pq_goodD(1)] by (fastforce simp: qlinks_def)

lemma pq_goodI:
  assumes "chain (qlinks (pq_nodes (queue s))) (pq_first (queue s)) as" and "tail_fine s as"
    and "map snd (popped s) @ qvals (pq_nodes (queue s)) as = pushed s"
    and "\<And>t. in_write (qpc s t) \<longleftrightarrow> wlock s = Some t" and "\<And>t. in_read (qpc s t) \<longleftrightarrow> rlock s = Some t"
    and "\<And>t n. mine (qpc s t) = Some n \<Longrightarrow> n \<notin> set as \<and> pq_nodes (queue s) n \<noteq> None"
    and "\<And>t u n. mine (qpc s t) = Some n \<Longrightarrow> mine (qpc s u) = Some n \<Longrightarrow> u = t"
    and "\<And>n. n \<ge> pq_fresh (queue s) \<Longrightarrow> pq_nodes (queue s) n = None"
    and "\<And>t. qpc_fine s t (qpc s t)"
  shows "pq_good s as"
  using assms unfolding pq_good_def by blast

lemma tail_fineD:
  assumes "tail_fine s as"
  shows "qpc s t = W_Linked n \<Longrightarrow> \<exists>bs b. as = bs @ [b, n] \<and> pq_tail (queue s) = Qn b"
    and "(\<And>t n. qpc s t \<noteq> W_Linked n) \<Longrightarrow> as \<noteq> [] \<and> pq_tail (queue s) = Qn (last as)"
  using assms unfolding tail_fine_def by blast+

lemma qpc_fine_keep:
  assumes "qpc_fine s t c" and "last_popped t (popped s') = last_popped t (popped s)"
    and "\<And>n. mine c = Some n \<Longrightarrow> pq_nodes (queue s') n = pq_nodes (queue s) n"
    and "in_read c \<Longrightarrow> pq_first (queue s') = pq_first (queue s) \<and>
      (\<forall>a. pq_first (queue s) = Some a \<longrightarrow> pq_tail (queue s) \<noteq> Qn a \<longrightarrow>
         pq_tail (queue s') \<noteq> Qn a \<and> pq_nodes (queue s') a = pq_nodes (queue s) a)"
  shows "qpc_fine s' t c"
  using assms by (cases c) auto

lemma last_popped_snoc [simp]:
  "last_popped t (ps @ [(u, v)]) = (if u = t then Some v else last_popped t ps)"
  by (simp add: last_popped_def)

text \<open>Steps that touch only registers, locks and the counter.\<close>

lemma pq_good_local:
  assumes g: "pq_good s as"
    and s': "s' = (qat s t c)\<lparr>queue := (queue s)\<lparr>pq_size := k\<rparr>, wlock := w, rlock := r\<rparr>"
    and "mine c = mine (qpc s t)" and "\<And>n. c \<noteq> W_Linked n \<and> qpc s t \<noteq> W_Linked n"
    and "in_write c \<longleftrightarrow> w = Some t" and "\<And>u. u \<noteq> t \<Longrightarrow> w = Some u \<longleftrightarrow> wlock s = Some u"
    and "in_read c \<longleftrightarrow> r = Some t" and "\<And>u. u \<noteq> t \<Longrightarrow> r = Some u \<longleftrightarrow> rlock s = Some u"
    and "qpc_fine s' t c"
  shows "pq_good s' as"
proof (rule pq_goodI)
  show "qpc_fine s' u (qpc s' u)" for u
  proof (cases "u = t")
    case False
    have "qpc_fine s' u (qpc s u)" by (rule qpc_fine_keep[OF pq_goodD(9)[OF g]]) (auto simp: s')
    then show ?thesis using False by (simp add: s')
  qed (simp add: s' assms(9)[unfolded s'])
  have eq: "qpc s' u = W_Linked n \<longleftrightarrow> qpc s u = W_Linked n" for u n using assms(4) by (simp add: s')
  show "tail_fine s' as"
    using pq_goodD(2)[OF g] unfolding tail_fine_def eq by (simp add: s')
  show "mine (qpc s' u) = Some n \<Longrightarrow> n \<notin> set as \<and> pq_nodes (queue s') n \<noteq> None" for u n
    using pq_goodD(6)[OF g, of u n] assms(3) by (cases "u = t") (simp_all add: s')
  show "mine (qpc s' u) = Some n \<Longrightarrow> mine (qpc s' v) = Some n \<Longrightarrow> v = u" for u v n
    using pq_goodD(7)[OF g, of u n v] assms(3) by (auto simp: s' split: if_splits)
qed (use pq_goodD[OF g] assms(5-8) in \<open>auto simp: s'\<close>)

lemma pq_good_new:
  assumes g: "pq_good s as" and pc: "qpc s t = Q_Idle" and new: "new_node (queue s) x = (q, n)"
  shows "pq_good ((qat s t (W_Wait n))\<lparr>queue := q\<rparr>) as" (is "pq_good ?s' as")
proof -
  have n: "pq_nodes (queue s) n = None" and q: "q = (queue s)\<lparr>pq_nodes :=
      (pq_nodes (queue s))(n \<mapsto> \<lparr>qval = x, qnext = None\<rparr>), pq_fresh := Suc n\<rparr>" "n = pq_fresh (queue s)"
    using new pq_goodD(8)[OF g] by (auto simp: new_node_def)
  have as: "n \<notin> set as" using n pq_good_live[OF g, of n] by auto
  have other: "mine (qpc s u) \<noteq> Some n" for u using pq_goodD(6)[OF g, of u n] n by auto
  show ?thesis
  proof (rule pq_goodI)
    show "qpc_fine ?s' u (qpc ?s' u)" for u
    proof (cases "u = t")
      case False
      have "qpc_fine ?s' u (qpc s u)"
      proof (rule qpc_fine_keep[OF pq_goodD(9)[OF g]])
        show "mine (qpc s u) = Some m \<Longrightarrow> pq_nodes (queue ?s') m = pq_nodes (queue s) m" for m
          using other[of u] by (auto simp: q)
        have "pq_first (queue s) = Some a \<Longrightarrow> a \<noteq> n" for a
          using pq_goodD(1)[OF g] as pq_goodD(2)[OF g]
          by (cases as) (auto simp: tail_fine_def split: if_splits)
        then show "in_read (qpc s u) \<Longrightarrow> pq_first (queue ?s') = pq_first (queue s) \<and>
            (\<forall>a. pq_first (queue s) = Some a \<longrightarrow> pq_tail (queue s) \<noteq> Qn a \<longrightarrow>
               pq_tail (queue ?s') \<noteq> Qn a \<and> pq_nodes (queue ?s') a = pq_nodes (queue s) a)"
          by (auto simp: q)
      qed simp
      then show ?thesis using False by simp
    qed (simp add: q)
    have eq: "qpc ?s' u = W_Linked m \<longleftrightarrow> qpc s u = W_Linked m" for u m using pc by simp
    show "tail_fine ?s' as" using pq_goodD(2)[OF g] unfolding tail_fine_def eq by (simp add: q)
    show "mine (qpc ?s' u) = Some m \<Longrightarrow> m \<notin> set as \<and> pq_nodes (queue ?s') m \<noteq> None" for u m
      using pq_goodD(6)[OF g, of u m] as by (auto simp: q split: if_splits)
    show "mine (qpc ?s' u) = Some m \<Longrightarrow> mine (qpc ?s' v) = Some m \<Longrightarrow> v = u" for u v m
      using pq_goodD(7)[OF g, of u m v] other by (auto split: if_splits)
    show "chain (qlinks (pq_nodes (queue ?s'))) (pq_first (queue ?s')) as"
      using pq_goodD(1)[OF g] as by (simp add: q)
    show "map snd (popped ?s') @ qvals (pq_nodes (queue ?s')) as = pushed ?s'"
      using pq_goodD(3)[OF g] as by (simp add: q)
    show "in_write (qpc ?s' u) \<longleftrightarrow> wlock ?s' = Some u" "in_read (qpc ?s' u) \<longleftrightarrow> rlock ?s' = Some u" for u
      using pq_goodD(4,5)[OF g, of u] pc by auto
    show "m \<ge> pq_fresh (queue ?s') \<Longrightarrow> pq_nodes (queue ?s') m = None" for m
      using pq_goodD(8)[OF g, of m] by (simp add: q)
  qed
qed

lemma in_write_only:
  "pq_good s as \<Longrightarrow> in_write (qpc s t) \<Longrightarrow> in_write (qpc s u) \<Longrightarrow> u = t"
  using pq_goodD(4) by (metis option.inject)

lemma in_read_only:
  "pq_good s as \<Longrightarrow> in_read (qpc s t) \<Longrightarrow> in_read (qpc s u) \<Longrightarrow> u = t"
  using pq_goodD(5) by (metis option.inject)

lemma pq_good_link:
  assumes g: "pq_good s as" and pc: "qpc s t = W_In n"
  shows "\<exists>q. link_tail (queue s) n = Ok q \<and> pq_good ((qat s t (W_Linked n))\<lparr>queue := q,
      pushed := pushed s @ [node_val q n]\<rparr>) (as @ [n])"
proof -
  have not: "qpc s u \<noteq> W_Linked k" for u k
    using in_write_only[OF g, of t u] pc by (cases "u = t") auto
  obtain bs b where as: "as = bs @ [b]" and tl: "pq_tail (queue s) = Qn b"
    using tail_fineD(2)[OF pq_goodD(2)[OF g] not] by (metis append_butlast_last_id)
  obtain mb where mb: "pq_nodes (queue s) b = Some mb" using pq_good_live[OF g, of b] as by auto
  obtain mn where mn: "pq_nodes (queue s) n = Some mn" "qnext mn = None"
    using pq_goodD(9)[OF g, of t] pc by auto
  have n: "n \<notin> set as" using pq_goodD(6)[OF g, of t n] pc by simp
  have d: "b \<notin> set bs" "b \<noteq> n" using pq_good_distinct[OF g] as n by auto
  let ?ns = "(pq_nodes (queue s))(b \<mapsto> mb\<lparr>qnext := Some n\<rparr>)"
  let ?q = "(queue s)\<lparr>pq_nodes := ?ns\<rparr>"
  let ?s' = "(qat s t (W_Linked n))\<lparr>queue := ?q, pushed := pushed s @ [node_val ?q n]\<rparr>"
  have link: "link_tail (queue s) n = Ok ?q" by (simp add: link_tail_def node_at_def tl mb)
  have b: "mine (qpc s u) \<noteq> Some b" for u using pq_goodD(6)[OF g, of u b] as by auto
  have "mine (qpc s t) = Some n" using pc by simp
  then have other: "u \<noteq> t \<Longrightarrow> mine (qpc s u) \<noteq> Some n" for u using pq_goodD(7)[OF g] by blast
  have "pq_good ?s' (as @ [n])"
  proof (rule pq_goodI)
    have idem: "(qlinks (pq_nodes (queue s)))(n \<mapsto> None) = qlinks (pq_nodes (queue s))"
      using mn by (simp add: fun_upd_idem)
    have "chain ((qlinks (pq_nodes (queue s)))(n \<mapsto> None, b \<mapsto> Some n)) (pq_first (queue s)) (bs @ [b, n])"
      by (rule chain_snoc) (use pq_goodD(1)[OF g] n as in simp_all)
    moreover have "qlinks (pq_nodes (queue ?s')) = (qlinks (pq_nodes (queue s)))(b \<mapsto> Some n)" by simp
    moreover have "pq_first (queue ?s') = pq_first (queue s)" "as @ [n] = bs @ [b, n]"
      using as by simp_all
    ultimately show "chain (qlinks (pq_nodes (queue ?s'))) (pq_first (queue ?s')) (as @ [n])"
      by (simp only: idem)
    show "tail_fine ?s' (as @ [n])"
      using tl as not by (auto simp: tail_fine_def split: if_splits)
    show "map snd (popped ?s') @ qvals (pq_nodes (queue ?s')) (as @ [n]) = pushed ?s'"
      using pq_goodD(3)[OF g] d as mb n by (auto simp: node_val_def)
    show "in_write (qpc ?s' u) \<longleftrightarrow> wlock ?s' = Some u" "in_read (qpc ?s' u) \<longleftrightarrow> rlock ?s' = Some u" for u
      using pq_goodD(4,5)[OF g, of u] pc by auto
    show "mine (qpc ?s' u) = Some m \<Longrightarrow> m \<notin> set (as @ [n]) \<and> pq_nodes (queue ?s') m \<noteq> None" for u m
      using pq_goodD(6)[OF g, of u m] other[of u] mb by (cases "u = t") auto
    show "mine (qpc ?s' u) = Some m \<Longrightarrow> mine (qpc ?s' v) = Some m \<Longrightarrow> v = u" for u v m
      using pq_goodD(7)[OF g, of u m v] by (auto split: if_splits)
    show "m \<ge> pq_fresh (queue ?s') \<Longrightarrow> pq_nodes (queue ?s') m = None" for m
      using pq_goodD(8)[OF g, of m] mb by auto
    show "qpc_fine ?s' u (qpc ?s' u)" for u
    proof (cases "u = t")
      case False
      have "qpc_fine ?s' u (qpc s u)"
        by (rule qpc_fine_keep[OF pq_goodD(9)[OF g]]) (use b[of u] tl in auto)
      then show ?thesis using False by simp
    qed simp
  qed
  then show ?thesis using link by blast
qed

lemma pq_good_tail:
  assumes g: "pq_good s as" and pc: "qpc s t = W_Linked n"
  shows "pq_good ((qat s t W_Count)\<lparr>queue := (queue s)\<lparr>pq_tail := Qn n\<rparr>, wlock := None\<rparr>) as"
    (is "pq_good ?s' as")
proof -
  obtain bs b where as: "as = bs @ [b, n]" using tail_fineD(1)[OF pq_goodD(2)[OF g] pc] by blast
  have "pq_first (queue s) \<noteq> Some n"
    using pq_goodD(1)[OF g] pq_good_distinct[OF g] as by (cases bs) auto
  then have fine: "qpc_fine ?s' u (qpc s u)" if "u \<noteq> t" for u
    by (intro qpc_fine_keep[OF pq_goodD(9)[OF g]]) auto
  have only: "in_write (qpc s u) \<Longrightarrow> u = t" for u using in_write_only[OF g, of t u] pc by simp
  show ?thesis
  proof (rule pq_goodI)
    have "qpc s u \<noteq> W_Linked k" if "u \<noteq> t" for u k using only[of u] that by auto
    then show "tail_fine ?s' as" using as by (auto simp: tail_fine_def)
    show "in_write (qpc ?s' u) \<longleftrightarrow> wlock ?s' = Some u" for u using only[of u] by auto
    show "in_read (qpc ?s' u) \<longleftrightarrow> rlock ?s' = Some u" for u
      using pq_goodD(5)[OF g, of u] pc by auto
    show "mine (qpc ?s' u) = Some m \<Longrightarrow> m \<notin> set as \<and> pq_nodes (queue ?s') m \<noteq> None" for u m
      using pq_goodD(6)[OF g, of u m] by (auto split: if_splits)
    show "mine (qpc ?s' u) = Some m \<Longrightarrow> mine (qpc ?s' v) = Some m \<Longrightarrow> v = u" for u v m
      using pq_goodD(7)[OF g, of u m v] by (auto split: if_splits)
    show "qpc_fine ?s' u (qpc ?s' u)" for u using fine[of u] by simp
  qed (use pq_goodD[OF g] in auto)
qed

lemma pq_good_write:
  assumes g: "pq_good s as" and pc: "qpc s t = R_Write a r"
  shows "pq_good ((qat s t (R_Val a))\<lparr>queue := (queue s)\<lparr>pq_first := r\<rparr>, rlock := None,
      popped := popped s @ [(t, node_val (queue s) a)]\<rparr>) (tl as)" (is "pq_good ?s' (tl as)")
proof -
  obtain m where m: "pq_nodes (queue s) a = Some m" "qnext m = r"
    and a: "pq_first (queue s) = Some a" "pq_tail (queue s) \<noteq> Qn a"
    using pq_goodD(9)[OF g, of t] pc by auto
  obtain cs where as: "as = a # cs" "chain (qlinks (pq_nodes (queue s))) r cs"
    using pq_goodD(1)[OF g] a(1) m by (auto simp: chain_Some)
  have d: "a \<notin> set cs" using pq_good_distinct[OF g] as(1) by simp
  have only: "in_read (qpc s u) \<Longrightarrow> u = t" for u using in_read_only[OF g, of t u] pc by simp
  have mine: "mine (qpc s u) \<noteq> Some a" for u using pq_goodD(6)[OF g, of u a] as(1) by auto
  show ?thesis
  proof (rule pq_goodI)
    show "tail_fine ?s' (tl as)"
      unfolding tail_fine_def
    proof (intro conjI allI impI)
      fix u n assume "qpc ?s' u = W_Linked n"
      then have "qpc s u = W_Linked n" by (simp split: if_splits)
      then obtain bs b where "as = bs @ [b, n]" "pq_tail (queue s) = Qn b"
        using tail_fineD(1)[OF pq_goodD(2)[OF g]] by blast
      then show "\<exists>bs b. tl as = bs @ [b, n] \<and> pq_tail (queue ?s') = Qn b"
        using as(1) a(2) by (cases bs) auto
    next
      assume "\<forall>u n. qpc ?s' u \<noteq> W_Linked n"
      then have "\<forall>u n. (if u = t then R_Val a else qpc s u) \<noteq> W_Linked n" by simp
      then have "\<And>u n. qpc s u \<noteq> W_Linked n" using pc by (metis pq_pc.simps)
      then have "pq_tail (queue s) = Qn (last as)" using tail_fineD(2)[OF pq_goodD(2)[OF g]] by blast
      then show "tl as \<noteq> []" "pq_tail (queue ?s') = Qn (last (tl as))"
        using as(1) a(2) by (cases cs; simp)+
    qed
    show "map snd (popped ?s') @ qvals (pq_nodes (queue ?s')) (tl as) = pushed ?s'"
      using pq_goodD(3)[OF g] as by (simp add: node_val_def)
    show "in_read (qpc ?s' u) \<longleftrightarrow> rlock ?s' = Some u" for u using only[of u] by auto
    show "in_write (qpc ?s' u) \<longleftrightarrow> wlock ?s' = Some u" for u
      using pq_goodD(4)[OF g, of u] pc by auto
    show "mine (qpc ?s' u) = Some k \<Longrightarrow> k \<notin> set (tl as) \<and> pq_nodes (queue ?s') k \<noteq> None" for u k
      using pq_goodD(6)[OF g, of u k] as d m by (auto split: if_splits)
    show "mine (qpc ?s' u) = Some k \<Longrightarrow> mine (qpc ?s' v) = Some k \<Longrightarrow> v = u" for u v k
      using pq_goodD(7)[OF g, of u k v] mine by (auto split: if_splits)
    show "qpc_fine ?s' u (qpc ?s' u)" for u
    proof (cases "u = t")
      case False
      have "qpc_fine ?s' u (qpc s u)"
        by (rule qpc_fine_keep[OF pq_goodD(9)[OF g]]) (use only[of u] False in auto)
      then show ?thesis using False by simp
    qed (simp add: m node_val_def)
  qed (use pq_goodD[OF g] as in auto)
qed

lemma pq_good_delete:
  assumes g: "pq_good s as" and pc: "qpc s t = R_Del a v"
  shows "pq_good ((qat s t (R_Count v))\<lparr>queue :=
      (queue s)\<lparr>pq_nodes := (pq_nodes (queue s))(a := None)\<rparr>\<rparr>) as" (is "pq_good ?s' as")
proof -
  have a: "a \<notin> set as" using pq_goodD(6)[OF g, of t a] pc by simp
  have mine: "mine (qpc s u) = Some a \<Longrightarrow> u = t" for u using pq_goodD(7)[OF g, of t a u] pc by simp
  show ?thesis
  proof (rule pq_goodI)
    show "chain (qlinks (pq_nodes (queue ?s'))) (pq_first (queue ?s')) as"
      using pq_goodD(1)[OF g] a by simp
    have eq: "qpc ?s' u = W_Linked m \<longleftrightarrow> qpc s u = W_Linked m" for u m using pc by simp
    show "tail_fine ?s' as" using pq_goodD(2)[OF g] unfolding tail_fine_def eq by simp
    show "map snd (popped ?s') @ qvals (pq_nodes (queue ?s')) as = pushed ?s'"
      using pq_goodD(3)[OF g] a by simp
    show "in_write (qpc ?s' u) \<longleftrightarrow> wlock ?s' = Some u" "in_read (qpc ?s' u) \<longleftrightarrow> rlock ?s' = Some u" for u
      using pq_goodD(4,5)[OF g, of u] pc by auto
    show "mine (qpc ?s' u) = Some k \<Longrightarrow> k \<notin> set as \<and> pq_nodes (queue ?s') k \<noteq> None" for u k
      using pq_goodD(6)[OF g, of u k] mine[of u] by (auto split: if_splits)
    show "mine (qpc ?s' u) = Some k \<Longrightarrow> mine (qpc ?s' v) = Some k \<Longrightarrow> v = u" for u v k
      using pq_goodD(7)[OF g, of u k v] by (auto split: if_splits)
    show "m \<ge> pq_fresh (queue ?s') \<Longrightarrow> pq_nodes (queue ?s') m = None" for m
      using pq_goodD(8)[OF g, of m] by simp
    show "qpc_fine ?s' u (qpc ?s' u)" for u
    proof (cases "u = t")
      case False
      have hd: "pq_first (queue s) = Some k \<Longrightarrow> k \<noteq> a" for k
        using pq_goodD(1)[OF g] a pq_goodD(2)[OF g] by (cases as) (auto simp: tail_fine_def)
      have "qpc_fine ?s' u (qpc s u)"
        by (rule qpc_fine_keep[OF pq_goodD(9)[OF g]]) (use mine[of u] False hd in auto)
      then show ?thesis using False by simp
    qed (use pq_goodD(9)[OF g, of t] pc in simp)
  qed
qed

lemma pq_step_good: "pq_step s s' \<Longrightarrow> pq_good s as \<Longrightarrow> \<exists>as'. pq_good s' as'"
proof (induction rule: pq_step.induct)
  case (w_new s t x q n)
  show ?case by (intro exI) (rule pq_good_new[OF w_new(3,1,2)])
next
  case (w_lock s t n)
  have "qpc_fine s t (W_In n)" using pq_goodD(9)[OF w_lock(3), of t] w_lock(1) by simp
  then show ?case using w_lock
    by (intro exI[of _ as] pq_good_local[OF w_lock(3), where c = "W_In n" and t = t and w = "Some t" and
          r = "rlock s" and k = "pq_size (queue s)"]) (auto simp: pq_goodD(5)[OF w_lock(3), symmetric])
next
  case (w_link s t n q)
  then show ?case using pq_good_link[of s as t n] by auto
next
  case (w_link_dead s t n e)
  then show ?case using pq_good_link[of s as t n] by auto
next
  case (w_tail s t n)
  then show ?case using pq_good_tail by blast
next
  case (w_count s t)
  show ?case
    by (intro exI[of _ as] pq_good_local[OF w_count(2), where c = Q_Idle and t = t and w = "wlock s" and
          r = "rlock s" and k = "pq_size (queue s) + 1"])
      (use w_count(1) in \<open>auto simp: pq_goodD(4,5)[OF w_count(2), symmetric]\<close>)
next
  case (r_call s t)
  show ?case
    by (intro exI[of _ as] pq_good_local[OF r_call(2), where c = R_Wait and t = t and w = "wlock s" and
          r = "rlock s" and k = "pq_size (queue s)"])
      (use r_call(1) in \<open>auto simp: pq_goodD(4,5)[OF r_call(2), symmetric]\<close>)
next
  case (r_lock s t)
  show ?case
    by (intro exI[of _ as] pq_good_local[OF r_lock(3), where c = R_In and t = t and w = "wlock s" and
          r = "Some t" and k = "pq_size (queue s)"])
      (use r_lock(1,2) in \<open>auto simp: pq_goodD(4)[OF r_lock(3), symmetric]\<close>)
next
  case (r_first s t)
  show ?case
    by (intro exI[of _ as] pq_good_local[OF r_first(2), where c = "R_Got (pq_first (queue s))" and t = t
          and w = "wlock s" and r = "rlock s" and k = "pq_size (queue s)"])
      (use r_first(1) in \<open>auto simp: pq_goodD(4,5)[OF r_first(2), symmetric]\<close>)
next
  case (r_none s t p)
  have rl: "rlock s = Some t" using pq_goodD(5)[OF r_none(3), of t] r_none(1) by simp
  show ?case
    by (intro exI[of _ as] pq_good_local[OF r_none(3), where c = Q_Idle and t = t
          and w = "wlock s" and r = None and k = "pq_size (queue s)"])
      (use r_none(1) rl in \<open>auto simp: pq_goodD(4)[OF r_none(3), symmetric]\<close>)
next
  case (r_some s t a)
  have "Some a = pq_first (queue s)" using pq_goodD(9)[OF r_some(3), of t] r_some(1) by simp
  then show ?case
    by (intro exI[of _ as] pq_good_local[OF r_some(3), where c = "R_Pop a" and t = t
          and w = "wlock s" and r = "rlock s" and k = "pq_size (queue s)"])
      (use r_some(1,2) in \<open>auto simp: pq_goodD(4,5)[OF r_some(3), symmetric]\<close>)
next
  case (r_next s t a m)
  have "qpc_fine s t (R_Pop a)" using pq_goodD(9)[OF r_next(3), of t] r_next(1) by simp
  then show ?case
    by (intro exI[of _ as] pq_good_local[OF r_next(3), where c = "R_Write a (qnext m)" and t = t
          and w = "wlock s" and r = "rlock s" and k = "pq_size (queue s)"])
      (use r_next(1,2) in \<open>auto simp: node_at_def pq_goodD(4,5)[OF r_next(3), symmetric]
        split: option.splits\<close>)
next
  case (r_next_dead s t a e)
  have "pq_first (queue s) = Some a" using pq_goodD(9)[OF r_next_dead(3), of t] r_next_dead(1) by simp
  then have "a \<in> set as"
    using pq_goodD(1,2)[OF r_next_dead(3)] by (cases as) (auto simp: tail_fine_def)
  then show ?case
    using pq_good_live[OF r_next_dead(3), of a] r_next_dead(2) by (auto simp: node_at_def)
next
  case (r_write s t a r)
  then show ?case using pq_good_write by blast
next
  case (r_val s t a m)
  have "qpc_fine s t (R_Val a)" using pq_goodD(9)[OF r_val(3), of t] r_val(1) by simp
  then show ?case
    by (intro exI[of _ as] pq_good_local[OF r_val(3), where c = "R_Del a (qval m)" and t = t
          and w = "wlock s" and r = "rlock s" and k = "pq_size (queue s)"])
      (use r_val(1,2) in \<open>auto simp: node_at_def pq_goodD(4,5)[OF r_val(3), symmetric]
        split: option.splits\<close>)
next
  case (r_val_dead s t a e)
  then show ?case using pq_goodD(9)[OF r_val_dead(3), of t] by (auto simp: node_at_def)
next
  case (r_delete s t a v)
  show ?case by (intro exI) (rule pq_good_delete[OF r_delete(3,1)])
next
  case (r_delete_dead s t a v)
  then show ?case using pq_goodD(9)[OF r_delete_dead(3), of t] by auto
next
  case (r_count s t v)
  show ?case
    by (intro exI[of _ as] pq_good_local[OF r_count(2), where c = Q_Idle and t = t and w = "wlock s" and
          r = "rlock s" and k = "pq_size (queue s) - 1"])
      (use r_count(1) in \<open>auto simp: pq_goodD(4,5)[OF r_count(2), symmetric]\<close>)
qed

interpretation pqs: step_invariant "\<lambda>s. \<exists>as. pq_good s as" pq_step "\<lambda>s. \<exists>as. pq_good s as"
  by unfold_locales (auto dest: pq_step_good)

lemma pq_steps_good: "pq_steps s s' \<Longrightarrow> pq_good s as \<Longrightarrow> \<exists>as'. pq_good s' as'"
  using pqs.reaches_from_inv by blast

lemma pq_sys_of_good:
  assumes "pq_shape q as" and "as \<noteq> []"
  shows "pq_good (pq_sys_of q (qvals (pq_nodes q) as)) as"
  by (rule pq_goodI) (use assms in \<open>auto simp: pq_sys_of_def pq_shape_def tail_fine_def\<close>)

subsection \<open>Schedules\<close>

text \<open>
  The next step of thread \<open>t\<close>, for running a given interleaving; an idle thread pushes
  \<open>x\<close> or calls \<^verbatim>\<open>front\<close>. \<open>None\<close>: the thread waits for a lock.
\<close>

definition pq_next :: "'v option \<Rightarrow> nat \<Rightarrow> 'v pq_sys \<Rightarrow> 'v pq_sys option" where
  "pq_next act t s =
     (case qpc s t of
        Q_Idle \<Rightarrow>
          (case act of None \<Rightarrow> Some (qat s t R_Wait)
           | Some x \<Rightarrow> (case new_node (queue s) x of (q, n) \<Rightarrow> Some ((qat s t (W_Wait n))\<lparr>queue := q\<rparr>)))
      | W_Wait n \<Rightarrow> if wlock s = None then Some ((qat s t (W_In n))\<lparr>wlock := Some t\<rparr>) else None
      | W_In n \<Rightarrow>
          (case link_tail (queue s) n of Inl e \<Rightarrow> Some (qat s t Q_Crashed)
           | Inr q \<Rightarrow> Some ((qat s t (W_Linked n))\<lparr>queue := q, pushed := pushed s @ [node_val q n]\<rparr>))
      | W_Linked n \<Rightarrow> Some ((qat s t W_Count)\<lparr>queue := (queue s)\<lparr>pq_tail := Qn n\<rparr>, wlock := None\<rparr>)
      | W_Count \<Rightarrow> Some ((qat s t Q_Idle)\<lparr>queue := (queue s)\<lparr>pq_size := fst (AtomicAdd (pq_size (queue s)) 1)\<rparr>\<rparr>)
      | R_Wait \<Rightarrow> if rlock s = None then Some ((qat s t R_In)\<lparr>rlock := Some t\<rparr>) else None
      | R_In \<Rightarrow> Some (qat s t (R_Got (pq_first (queue s))))
      | R_Got p \<Rightarrow>
          (case p of None \<Rightarrow> Some ((qat s t Q_Idle)\<lparr>rlock := None\<rparr>)
           | Some a \<Rightarrow> if pq_tail (queue s) = Qn a then Some ((qat s t Q_Idle)\<lparr>rlock := None\<rparr>)
               else Some (qat s t (R_Pop a)))
      | R_Pop a \<Rightarrow>
          (case node_at (queue s) a of Inl e \<Rightarrow> Some (qat s t Q_Crashed)
           | Inr m \<Rightarrow> Some (qat s t (R_Write a (qnext m))))
      | R_Write a r \<Rightarrow> Some ((qat s t (R_Val a))\<lparr>queue := (queue s)\<lparr>pq_first := r\<rparr>, rlock := None,
          popped := popped s @ [(t, node_val (queue s) a)]\<rparr>)
      | R_Val a \<Rightarrow>
          (case node_at (queue s) a of Inl e \<Rightarrow> Some (qat s t Q_Crashed)
           | Inr m \<Rightarrow> Some (qat s t (R_Del a (qval m))))
      | R_Del a v \<Rightarrow>
          if pq_nodes (queue s) a = None then Some (qat s t Q_Crashed)
          else Some ((qat s t (R_Count v))\<lparr>queue :=
            (queue s)\<lparr>pq_nodes := (pq_nodes (queue s))(a := None)\<rparr>\<rparr>)
      | R_Count v \<Rightarrow> Some ((qat s t Q_Idle)\<lparr>queue := (queue s)\<lparr>pq_size := fst (AtomicSub (pq_size (queue s)) 1)\<rparr>\<rparr>)
      | Q_Crashed \<Rightarrow> None)"

lemma pq_next_step: "pq_next act t s = Some s' \<Longrightarrow> pq_step s s'"
  by (auto simp: pq_next_def simp del: atomic_contents
      split: pq_pc.splits option.splits sum.splits prod.splits if_splits intro: pq_step.intros)

fun pq_sched :: "(nat \<times> 'v option) list \<Rightarrow> 'v pq_sys \<Rightarrow> 'v pq_sys option" where
  "pq_sched [] s = Some s"
| "pq_sched ((t, act) # acts) s =
     (case pq_next act t s of None \<Rightarrow> None | Some s' \<Rightarrow> pq_sched acts s')"

lemma pq_sched_steps: "pq_sched acts s = Some s' \<Longrightarrow> pq_steps s s'"
proof (induction acts s rule: pq_sched.induct)
  case (2 t act acts s)
  then obtain s1 where "pq_next act t s = Some s1" "pq_sched acts s1 = Some s'"
    by (auto split: option.splits)
  then show ?case using "2.IH" reaches_front[where step = pq_step] pq_next_step by blast
qed (simp add: reaches_init)

subsection \<open>The properties\<close>

text \<open>
  C8. Once a first push into the empty queue is complete, any number of readers and writers
  can interleave freely: no thread ever follows a deleted node, the values come out in the
  order in which they went in, none lost and none twice, and each \<^verbatim>\<open>front\<close> returns the value
  of the node it unlinked.
\<close>

theorem pqueue_concurrent_fifo:
  assumes "pq_run (pq_create len) (map Enq (x # xs)) = Ok (q, vs)"
    and "pq_steps (pq_sys_of q (x # xs)) s"
  shows "(\<forall>t. qpc s t \<noteq> Q_Crashed) \<and> (\<exists>rest. pushed s = map snd (popped s) @ rest \<and> rest \<noteq> []) \<and>
     (\<forall>t v. qpc s t = R_Count v \<longrightarrow> last_popped t (popped s) = Some v)"
proof -
  have "lag_run ys (map Enq zs) = (ys @ zs, [])" for ys zs :: "'a list"
    by (induction zs arbitrary: ys) auto
  from this[of "[]" "x # xs"] have "lag_run [] (map Enq (x # xs)) = (x # xs, [])"
    by (simp only: append_Nil)
  from pq_run_rel[OF pq_create_rel this] obtain q' where
    q': "pq_run (pq_create len) (map Enq (x # xs)) = Ok (q', [])" "pq_rel q' (x # xs)"
    by blast
  have "Ok (q', []) = Ok (q, vs)" using q'(1) assms(1) by metis
  then have "pq_rel q (x # xs)" using q'(2) by simp
  then obtain as where as: "pq_shape q as" "qvals (pq_nodes q) as = x # xs"
    by (auto simp: pq_rel_def)
  then have "as \<noteq> []" by auto
  from pq_sys_of_good[OF as(1) this] obtain as' where g: "pq_good s as'"
    using pq_steps_good[OF assms(2)] as(2) by auto
  have "qpc s t \<noteq> Q_Crashed" for t using pq_goodD(9)[OF g, of t] by auto
  moreover have "last_popped t (popped s) = Some v" if "qpc s t = R_Count v" for t v
    using pq_goodD(9)[OF g, of t] that by simp
  moreover have "as' \<noteq> []" using pq_goodD(2)[OF g] by (auto simp: tail_fine_def)
  then have "qvals (pq_nodes (queue s)) as' \<noteq> []" by (cases as') simp_all
  ultimately show ?thesis using pq_goodD(3)[OF g] by metis
qed

text \<open>Thread 1 pops while thread 0 is in the middle of the next push.\<close>

definition overlap :: "(nat \<times> nat option) list" where
  "overlap = [(0, Some 8), (0, None), (0, None), (1, None), (1, None), (1, None), (0, None), (1, None),
     (1, None), (1, None), (1, None), (1, None)]"

theorem pqueue_concurrent_fifo_witness:
  "\<exists>q s. pq_run (pq_create 10) (map Enq [7 :: nat]) = Ok (q, []) \<and>
     pq_sched overlap (pq_sys_of q [7]) = Some s \<and> popped s = [(1, 7)] \<and> qpc s 1 = R_Count 7 \<and>
     (\<forall>t. qpc s t \<noteq> Q_Crashed)"
proof -
  define q :: "nat pqueue" where "q = \<lparr>pq_first = Some 0, pq_tail = Qn 0, pq_size = 1, pq_length = 10,
     pq_flushed = False, pq_nodes = [0 \<mapsto> \<lparr>qval = 7, qnext = None\<rparr>], pq_fresh = 1\<rparr>"
  have run: "pq_run (pq_create 10) (map Enq [7 :: nat]) = Ok (q, [])"
    by (simp add: pq_create_def pq_push_def new_node_def link_tail_def q_def)
  obtain s where s: "pq_sched overlap (pq_sys_of q [7]) = Some s" "popped s = [(1, 7)]"
    "qpc s 1 = R_Count 7"
    by (simp add: overlap_def pq_next_def pq_sys_of_def q_def new_node_def link_tail_def node_at_def
        node_val_def)
  have "\<forall>t. qpc s t \<noteq> Q_Crashed"
    using pqueue_concurrent_fifo[OF run pq_sched_steps[OF s(1)]] by blast
  then show ?thesis using run s by blast
qed

text \<open>
  The first push into an empty queue is not safe. While it has linked its node behind
  the head but not yet moved \<^verbatim>\<open>tail\<close>, a reader finds \<^verbatim>\<open>tail\<close> different from that node, pops
  and deletes it; the writer then makes \<^verbatim>\<open>tail\<close> point to the deleted node, and the next push
  writes through it.
\<close>

theorem pqueue_first_push_race:
  "\<exists>s1 s2. pq_steps (pq_sys_of (pq_create len) []) s1 \<and> pq_tail (queue s1) = Qn 0 \<and>
     pq_nodes (queue s1) 0 = None \<and> popped s1 = [(1, x)] \<and>
     pq_steps s1 s2 \<and> qpc s2 0 = Q_Crashed"
proof -
  let ?acts = "[(0, Some x), (0, None), (0, None), (1, None), (1, None), (1, None), (1, None),
     (1, None), (1, None), (1, None), (1, None), (0, None), (0, None)]"
  obtain s1 where 1: "pq_sched ?acts (pq_sys_of (pq_create len) []) = Some s1"
    "pq_tail (queue s1) = Qn 0" "pq_nodes (queue s1) 0 = None" "popped s1 = [(1, x)]"
    "qpc s1 0 = Q_Idle" "wlock s1 = None" "pq_fresh (queue s1) = 1"
    by (simp add: pq_next_def pq_sys_of_def pq_create_def new_node_def link_tail_def node_at_def
        node_val_def)
  have "\<exists>s2. pq_sched [(0, Some x), (0, None), (0, None)] s1 = Some s2 \<and> qpc s2 0 = Q_Crashed"
    using 1(2,3,5-7) by (simp add: pq_next_def new_node_def link_tail_def node_at_def)
  then show ?thesis using pq_sched_steps[OF 1(1)] 1(2-4) pq_sched_steps by blast
qed

end
