(* ===== verification/Circle_Cache.thy ===== *)
theory Circle_Cache
  imports Selib_Prelude
begin

text \<open>
  \<^verbatim>\<open>container/circle_cache.h\<close>: \<^verbatim>\<open>LruCache\<close>, a cache whose entries are the nodes of a circular
  list in order of use and are found through a hash table with quadratic probing. A value is
  a pointer the cache does not own (\<open>None\<close> is null).
\<close>

section \<open>The state\<close>

definition INVALID_INDEX :: u32 where
  "INVALID_INDEX = 0xFFFFFFFF"

record hash_node =
  hkey :: u64
  hindex :: u32
  hraw :: string

record 'v list_node =
  lkey :: u64
  lnext :: u32
  llast :: u32
  lbucket :: u32
  lv :: "'v option"

record 'v lru =
  lr_hash :: "hash_node list"
  lr_list :: "'v list_node list"
  lr_head :: u32
  lr_tail :: u32
  lr_hash_size :: u32
  lr_capacity :: u32
  lr_max_probing :: u32

definition hash_node_new :: hash_node where
  "hash_node_new = \<lparr>hkey = 0, hindex = INVALID_INDEX, hraw = ''''\<rparr>"

definition list_node_new :: "'v list_node" where
  "list_node_new = \<lparr>lkey = 0, lnext = INVALID_INDEX, llast = INVALID_INDEX,
     lbucket = INVALID_INDEX, lv = None\<rparr>"

text \<open>One field of one array element is written.\<close>

definition upd :: "'a list \<Rightarrow> u32 \<Rightarrow> ('a \<Rightarrow> 'a) \<Rightarrow> 'a list result" where
  "upd xs i f = andthen (rd xs (unat i)) (\<lambda>x. wr xs (unat i) (f x))"

section \<open>The operations\<close>

function bit_pos_loop :: "u32 \<Rightarrow> nat \<Rightarrow> nat" where
  "bit_pos_loop v r = (let v = drop_bit 1 v in if v = 0 then r else bit_pos_loop v (Suc r))"
  by pat_completeness auto
termination
proof (relation "measure (\<lambda>(v, r). unat v)")
  fix v x :: u32 and r :: nat
  assume x: "x = drop_bit 1 v" and "x \<noteq> 0"
  then have "unat x = unat v div 2" by (simp add: drop_bit_Suc unat_div)
  moreover have "unat x \<noteq> 0" using \<open>x \<noteq> 0\<close> by (simp add: unat_eq_zero)
  ultimately show "((x, Suc r), v, r) \<in> measure (\<lambda>(v, r). unat v)" by simp
qed simp

declare bit_pos_loop.simps [simp del]

definition get_bit_pos :: "u32 \<Rightarrow> nat" where
  "get_bit_pos v = bit_pos_loop v 0"

text \<open>
  \<^verbatim>\<open>static_cast<uint32_t>\<close> of a \<^verbatim>\<open>double\<close> that does not fit is undefined. Up to that point the
  doubles here are whole or half numbers below \<open>2 ^ 53\<close>, computed exactly.
\<close>

definition to_uint32 :: "nat \<Rightarrow> u32 result" where
  "to_uint32 d = (if d < 2 ^ 32 then Ok (of_nat d) else Fault Int_Overflow)"

lemma to_uint32_code [code]: "to_uint32 d = (if int d < 2 ^ 32 then Ok (of_nat d) else Fault Int_Overflow)"
  by (simp add: to_uint32_def)

text \<open>The loop of \<^verbatim>\<open>init\<close> that links the nodes between the first and the last.\<close>

fun link_loop :: "'v list_node list \<Rightarrow> u32 list \<Rightarrow> 'v list_node list result" where
  "link_loop xs [] = Ok xs"
| "link_loop xs (i # is) =
     andthen (upd xs i (\<lambda>n. n\<lparr>lnext := i + 1, llast := i - 1\<rparr>)) (\<lambda>xs. link_loop xs is)"

definition lru_init :: "'v lru \<Rightarrow> bool \<Rightarrow> bool \<Rightarrow> u32 \<Rightarrow> u32 \<Rightarrow> ('v lru \<times> int) result" where
  "lru_init m mem_hash mem_list capacity max_probing =
     (let hs = capacity * 2
      in andthen (to_uint32 (2 ^ (get_bit_pos hs + 1))) (\<lambda>hash_size.
        let m = m\<lparr>lr_max_probing := max_probing, lr_hash_size := hash_size\<rparr>
        in if \<not> mem_hash then Ok (m, - 1)
           else let m = m\<lparr>lr_hash := replicate (unat hash_size) hash_node_new, lr_capacity := capacity\<rparr>
           in if \<not> mem_list then Ok (m, - 1)
              else let xs = replicate (unat capacity) list_node_new
              in andthen (upd xs 0 (\<lambda>n. n\<lparr>lnext := 1, llast := capacity - 1\<rparr>)) (\<lambda>xs.
                 andthen (link_loop xs (map of_nat [1..<unat (capacity - 1)])) (\<lambda>xs.
                 andthen (upd xs (capacity - 1) (\<lambda>n. n\<lparr>lnext := 0, llast := capacity - 2\<rparr>)) (\<lambda>xs.
                   Ok (m\<lparr>lr_head := 0, lr_tail := 0, lr_list := xs\<rparr>, 0))))))"

definition quadratic_probing :: "'v lru \<Rightarrow> u64 \<Rightarrow> nat \<Rightarrow> u32 result" where
  "quadratic_probing m key i =
     andthen (to_uint32 (i * (i + 1) div 2)) (\<lambda>off.
       let mask = ucast (lr_hash_size m - 1) :: u64
       in Ok (ucast (((key AND mask) + ucast off) AND mask)))"

text \<open>The loops of the two searches at round \<open>i\<close>, with the rounds left.\<close>

fun get_probe :: "'v lru \<Rightarrow> u64 \<Rightarrow> string \<Rightarrow> nat \<Rightarrow> nat \<Rightarrow> u32 result" where
  "get_probe m key raw i 0 = Ok INVALID_INDEX"
| "get_probe m key raw i (Suc n) =
     andthen (quadratic_probing m key i) (\<lambda>p.
     andthen (rd (lr_hash m) (unat p)) (\<lambda>h.
       if hkey h = key \<and> hraw h = raw then Ok p else get_probe m key raw (Suc i) n))"

fun put_probe :: "'v lru \<Rightarrow> u64 \<Rightarrow> string \<Rightarrow> bool \<Rightarrow> nat \<Rightarrow> nat \<Rightarrow> u32 result" where
  "put_probe m key raw overwrite i 0 = Ok INVALID_INDEX"
| "put_probe m key raw overwrite i (Suc n) =
     andthen (quadratic_probing m key i) (\<lambda>p.
     andthen (rd (lr_hash m) (unat p)) (\<lambda>h.
       if hkey h = 0 then Ok p
       else if hkey h = key \<and> hraw h = raw \<and> overwrite then Ok p
       else put_probe m key raw overwrite (Suc i) n))"

definition probes :: "'v lru \<Rightarrow> nat" where
  "probes m = min (unat (lr_hash_size m)) (unat (lr_max_probing m))"

definition get_probing_bucket :: "'v lru \<Rightarrow> u64 \<Rightarrow> string \<Rightarrow> u32 result" where
  "get_probing_bucket m key raw = get_probe m key raw 0 (probes m)"

definition put_probing_bucket :: "'v lru \<Rightarrow> u64 \<Rightarrow> string \<Rightarrow> bool \<Rightarrow> u32 result" where
  "put_probing_bucket m key raw overwrite = put_probe m key raw overwrite 0 (probes m)"

text \<open>\<^verbatim>\<open>_list[i]\<close> and \<^verbatim>\<open>_hash[i]\<close>, read and written.\<close>

definition lnode :: "'v lru \<Rightarrow> u32 \<Rightarrow> 'v list_node result" where
  "lnode m i = rd (lr_list m) (unat i)"

definition set_lnode :: "'v lru \<Rightarrow> u32 \<Rightarrow> ('v list_node \<Rightarrow> 'v list_node) \<Rightarrow> 'v lru result" where
  "set_lnode m i f = andthen (upd (lr_list m) i f) (\<lambda>xs. Ok (m\<lparr>lr_list := xs\<rparr>))"

definition set_hnode :: "'v lru \<Rightarrow> u32 \<Rightarrow> (hash_node \<Rightarrow> hash_node) \<Rightarrow> 'v lru result" where
  "set_hnode m i f = andthen (upd (lr_hash m) i f) (\<lambda>xs. Ok (m\<lparr>lr_hash := xs\<rparr>))"

definition write_adjust :: "'v lru \<Rightarrow> 'v lru result" where
  "write_adjust m =
     andthen (lnode m (lr_head m)) (\<lambda>h.
       if lr_tail m = lnext h then
         andthen (set_lnode m (lr_tail m) (\<lambda>n. n\<lparr>lkey := 0, lv := None\<rparr>)) (\<lambda>m.
         andthen (lnode m (lr_tail m)) (\<lambda>t.
         andthen (set_hnode m (lbucket t) (\<lambda>n. n\<lparr>hkey := 0, hindex := INVALID_INDEX, hraw := ''''\<rparr>)) (\<lambda>m.
           let m = m\<lparr>lr_head := lr_tail m\<rparr>
           in andthen (lnode m (lr_tail m)) (\<lambda>t. Ok (m\<lparr>lr_tail := lnext t\<rparr>)))))
       else Ok (m\<lparr>lr_head := lnext h\<rparr>))"

definition read_adjust :: "'v lru \<Rightarrow> u32 \<Rightarrow> 'v lru result" where
  "read_adjust m index =
     andthen (lnode m index) (\<lambda>n.
     andthen (set_lnode m (llast n) (\<lambda>p. p\<lparr>lnext := lnext n\<rparr>)) (\<lambda>m.
     andthen (lnode m index) (\<lambda>n.
     andthen (set_lnode m (lnext n) (\<lambda>p. p\<lparr>llast := llast n\<rparr>)) (\<lambda>m.
     andthen (lnode m (lr_head m)) (\<lambda>h.
     andthen (set_lnode m (llast h) (\<lambda>p. p\<lparr>lnext := index\<rparr>)) (\<lambda>m.
     andthen (lnode m (lr_head m)) (\<lambda>h.
     andthen (set_lnode m index (\<lambda>p. p\<lparr>llast := llast h\<rparr>)) (\<lambda>m.
     andthen (lnode m index) (\<lambda>n.
       let m = (if lr_tail m = index \<and> lr_head m \<noteq> lnext n then m\<lparr>lr_tail := lnext n\<rparr> else m)
       in andthen (set_lnode m index (\<lambda>p. p\<lparr>lnext := lr_head m\<rparr>)) (\<lambda>m.
          set_lnode m (lr_head m) (\<lambda>p. p\<lparr>llast := index\<rparr>)))))))))))"

definition lru_put ::
  "'v lru \<Rightarrow> u64 \<Rightarrow> 'v option \<Rightarrow> string \<Rightarrow> bool \<Rightarrow> ('v lru \<times> int) result" where
  "lru_put m k v raw overwrite =
     andthen (put_probing_bucket m k raw overwrite) (\<lambda>bucket.
       if bucket = INVALID_INDEX \<or> bucket \<ge> lr_hash_size m then Ok (m, - 1)
       else
         andthen (set_hnode m bucket (\<lambda>h. h\<lparr>hkey := k, hraw := raw\<rparr>)) (\<lambda>m.
         andthen (rd (lr_hash m) (unat bucket)) (\<lambda>h.
         andthen (if hindex h = INVALID_INDEX then Ok False
                  else andthen (lnode m (hindex h)) (\<lambda>n. Ok (lkey n = k))) (\<lambda>found.
         let index = (if found then hindex h else lr_head m)
         in andthen (set_hnode m bucket (\<lambda>h. h\<lparr>hindex := index\<rparr>)) (\<lambda>m.
            andthen (set_lnode m index (\<lambda>n. n\<lparr>lkey := k, lv := v, lbucket := bucket\<rparr>)) (\<lambda>m.
            andthen (if index = lr_head m then write_adjust m else read_adjust m index) (\<lambda>m.
              Ok (m, 0))))))))"

definition lru_get :: "'v lru \<Rightarrow> u64 \<Rightarrow> string \<Rightarrow> ('v lru \<times> 'v option) result" where
  "lru_get m k raw =
     andthen (get_probing_bucket m k raw) (\<lambda>bucket.
       if bucket = INVALID_INDEX \<or> bucket \<ge> lr_hash_size m then Ok (m, None)
       else
         andthen (rd (lr_hash m) (unat bucket)) (\<lambda>h.
         andthen (lnode m (hindex h)) (\<lambda>n.
         andthen (read_adjust m (hindex h)) (\<lambda>m. Ok (m, lv n)))))"

text \<open>\<^verbatim>\<open>debug_print\<close>, with the keys it prints; the loop need not end on a broken list.\<close>

partial_function (option) debug_loop ::
  "'v lru \<Rightarrow> u32 \<Rightarrow> u64 list \<Rightarrow> (u64 list \<times> int) result option" where
  "debug_loop m i printed =
     (if i = lr_head m then Some (Inr (printed, 0))
      else case lnode m i of Inl e \<Rightarrow> Some (Inl e)
        | Inr n \<Rightarrow> debug_loop m (lnext n) (printed @ [lkey n]))"

declare debug_loop.simps [code]

definition debug_print :: "'v lru \<Rightarrow> (u64 list \<times> int) result option" where
  "debug_print m = debug_loop m (lr_tail m) []"

section \<open>Rings\<close>

text \<open>\<open>seg nx ls xs\<close>: each element of \<open>xs\<close> links forward to the next and the next back to it.\<close>

fun seg :: "('a \<Rightarrow> 'a) \<Rightarrow> ('a \<Rightarrow> 'a) \<Rightarrow> 'a list \<Rightarrow> bool" where
  "seg nx ls (a # b # xs) = (nx a = b \<and> ls b = a \<and> seg nx ls (b # xs))"
| "seg nx ls xs = True"

definition ring :: "('a \<Rightarrow> 'a) \<Rightarrow> ('a \<Rightarrow> 'a) \<Rightarrow> 'a list \<Rightarrow> bool" where
  "ring nx ls xs = seg nx ls (xs @ [hd xs])"

lemma seg_split: "seg nx ls (xs @ a # ys) \<longleftrightarrow> seg nx ls (xs @ [a]) \<and> seg nx ls (a # ys)"
proof (induction xs)
  case (Cons x xs)
  then show ?case by (cases xs) auto
qed simp

lemma seg_cong:
  "(\<And>x. x \<in> set (butlast xs) \<Longrightarrow> nx' x = nx x) \<Longrightarrow> (\<And>x. x \<in> set (tl xs) \<Longrightarrow> ls' x = ls x) \<Longrightarrow>
     seg nx' ls' xs = seg nx ls xs"
  by (induction nx ls xs rule: seg.induct) auto

lemma seg_nth_last: "seg nx ls (xs @ [a, b]) \<Longrightarrow> nx a = b \<and> ls b = a"
  using seg_split[of nx ls xs a "[b]"] by simp

lemma ring_rotate: "ring nx ls (xs @ ys) \<longleftrightarrow> ring nx ls (ys @ xs)"
proof (cases "xs = [] \<or> ys = []")
  case False
  then obtain x xs' y ys' where "xs = x # xs'" "ys = y # ys'" by (metis neq_Nil_conv)
  then show ?thesis
    using seg_split[of nx ls "x # xs'" y "ys' @ [x]"] seg_split[of nx ls "y # ys'" x "xs' @ [y]"]
    by (auto simp: ring_def)
qed auto

lemma ring_next:
  assumes "ring nx ls (i # zs)"
  shows "nx i = (if zs = [] then i else hd zs)" and "ls i = last (i # zs)"
proof -
  show "nx i = (if zs = [] then i else hd zs)" using assms by (cases zs) (auto simp: ring_def)
  obtain ws w where w: "i # zs = ws @ [w]" by (cases "i # zs" rule: rev_cases) auto
  have "seg nx ls ((i # zs) @ [i])" using assms by (simp add: ring_def)
  then have "seg nx ls (ws @ [w, i])" unfolding w by simp
  from seg_nth_last[OF this] show "ls i = last (i # zs)" unfolding w by simp
qed

lemma ring_remove:
  assumes "ring nx ls (i # zs)" and "distinct (i # zs)" and "zs \<noteq> []"
  shows "ring (nx(last zs := hd zs)) (ls(hd zs := last zs)) zs"
proof -
  obtain z zs' where z: "zs = z # zs'" using assms(3) by (cases zs) auto
  obtain ws w where w: "zs = ws @ [w]" using assms(3) by (cases zs rule: rev_cases) auto
  have "seg nx ls ((i # zs) @ [i])" using assms(1) by (simp add: ring_def)
  then have "seg nx ls ((i # ws) @ w # [i])" unfolding w by simp
  then have "seg nx ls ((i # ws) @ [w])" using seg_split[of nx ls "i # ws" w "[i]"] by blast
  then have "seg nx ls (i # zs)" unfolding w by simp
  then have "seg nx ls zs" using z by simp
  moreover have "w \<notin> set (butlast zs)" using w assms(2) by simp
  moreover have "z \<notin> set (tl zs)" using z assms(2) by simp
  ultimately have "seg (nx(w := z)) (ls(z := w)) zs"
    by (subst seg_cong[of _ _ nx _ ls]) auto
  then have "seg (nx(w := z)) (ls(z := w)) (ws @ [w])" using w by simp
  then have "seg (nx(w := z)) (ls(z := w)) (ws @ w # [z])"
    using seg_split[of "nx(w := z)" "ls(z := w)" ws w "[z]"] by simp
  then have "seg (nx(w := z)) (ls(z := w)) (zs @ [z])" unfolding w by simp
  moreover have "last zs = w" unfolding w by simp
  moreover have "hd zs = z" using z by simp
  ultimately show ?thesis by (simp only: ring_def)
qed

lemma ring_insert:
  assumes "ring nx ls (h # ws)" and "distinct (i # h # ws)"
  shows "ring (nx(last (h # ws) := i, i := h)) (ls(i := last (h # ws), h := i)) (h # ws @ [i])"
proof -
  obtain vs v where v: "h # ws = vs @ [v]" by (cases "h # ws" rule: rev_cases) auto
  let ?nx = "nx(v := i, i := h)" and ?ls = "ls(i := v, h := i)"
  have d: "distinct (i # vs @ [v])" using assms(2) unfolding v .
  have "seg nx ls ((h # ws) @ [h])" using assms(1) by (simp add: ring_def)
  then have "seg nx ls (vs @ v # [h])" unfolding v by simp
  then have "seg nx ls (vs @ [v])" using seg_split[of nx ls vs v "[h]"] by blast
  moreover have "v \<notin> set vs" "i \<notin> set (vs @ [v])" using d by auto
  moreover have "h \<notin> set (tl (vs @ [v]))" using assms(2) unfolding v[symmetric] by simp
  moreover have "set (tl (vs @ [v])) \<subseteq> set (vs @ [v])" by (cases vs) auto
  ultimately have "seg ?nx ?ls (vs @ [v])"
    by (subst seg_cong[of _ _ nx _ ls]) auto
  moreover have "v \<noteq> i" "h \<noteq> i" using d assms(2) by auto
  ultimately have "seg ?nx ?ls (vs @ v # [i, h])"
    using seg_split[of ?nx ?ls vs v "[i, h]"] by simp
  then have "seg ?nx ?ls ((vs @ [v]) @ [i, h])" by simp
  then have "seg ?nx ?ls ((h # ws) @ [i, h])" unfolding v .
  moreover have "last (h # ws) = v" unfolding v by simp
  ultimately show ?thesis by (simp add: ring_def del: last.simps)
qed

section \<open>The shape of a cache\<close>

definition node :: "'v lru \<Rightarrow> u32 \<Rightarrow> 'v list_node" where
  "node m i = lr_list m ! unat i"

definition hnode :: "'v lru \<Rightarrow> u32 \<Rightarrow> hash_node" where
  "hnode m b = lr_hash m ! unat b"

definition set_node :: "'v lru \<Rightarrow> u32 \<Rightarrow> ('v list_node \<Rightarrow> 'v list_node) \<Rightarrow> 'v lru" where
  "set_node m i f = m\<lparr>lr_list := (lr_list m)[unat i := f (lr_list m ! unat i)]\<rparr>"

definition set_hash :: "'v lru \<Rightarrow> u32 \<Rightarrow> (hash_node \<Rightarrow> hash_node) \<Rightarrow> 'v lru" where
  "set_hash m b f = m\<lparr>lr_hash := (lr_hash m)[unat b := f (lr_hash m ! unat b)]\<rparr>"

named_theorems lru_simps

lemma set_node_fields [simp]:
  "lr_hash (set_node m i f) = lr_hash m" "lr_head (set_node m i f) = lr_head m"
  "lr_tail (set_node m i f) = lr_tail m" "lr_hash_size (set_node m i f) = lr_hash_size m"
  "lr_capacity (set_node m i f) = lr_capacity m" "lr_max_probing (set_node m i f) = lr_max_probing m"
  "length (lr_list (set_node m i f)) = length (lr_list m)" "hnode (set_node m i f) = hnode m"
  by (auto simp: set_node_def hnode_def)

lemma set_hash_fields [simp]:
  "lr_list (set_hash m i g) = lr_list m" "lr_head (set_hash m i g) = lr_head m"
  "lr_tail (set_hash m i g) = lr_tail m" "lr_hash_size (set_hash m i g) = lr_hash_size m"
  "lr_capacity (set_hash m i g) = lr_capacity m" "lr_max_probing (set_hash m i g) = lr_max_probing m"
  "length (lr_hash (set_hash m i g)) = length (lr_hash m)" "node (set_hash m i g) = node m"
  by (auto simp: set_hash_def node_def)

lemma node_set_node [simp]:
  "unat i < length (lr_list m) \<Longrightarrow> node (set_node m i f) = (node m)(i := f (node m i))"
  by (auto simp: node_def set_node_def nth_list_update word_unat_eq_iff[symmetric])

lemma hnode_set_hash [simp]:
  "unat b < length (lr_hash m) \<Longrightarrow> hnode (set_hash m b f) = (hnode m)(b := f (hnode m b))"
  by (auto simp: hnode_def set_hash_def nth_list_update word_unat_eq_iff[symmetric])

lemma lnode_ok [lru_simps]: "unat i < length (lr_list m) \<Longrightarrow> lnode m i = Ok (node m i)"
  by (simp add: lnode_def node_def)

lemma set_lnode_ok [lru_simps]:
  "unat i < length (lr_list m) \<Longrightarrow> set_lnode m i f = Ok (set_node m i f)"
  by (simp add: set_lnode_def upd_def set_node_def)

lemma set_hnode_ok [lru_simps]:
  "unat b < length (lr_hash m) \<Longrightarrow> set_hnode m b f = Ok (set_hash m b f)"
  by (simp add: set_hnode_def upd_def set_hash_def)

text \<open>
  \<open>lru_list m es fs\<close>: the nodes in use are \<open>es\<close>, least recently used first; behind them
  on the ring are the head, the next node to use, and then the unused nodes \<open>fs\<close>.
\<close>

definition lru_list :: "'v lru \<Rightarrow> u32 list \<Rightarrow> u32 list \<Rightarrow> bool" where
  "lru_list m es fs \<longleftrightarrow> 2 \<le> unat (lr_capacity m) \<and> length (lr_list m) = unat (lr_capacity m) \<and>
     distinct (es @ lr_head m # fs) \<and> set (es @ lr_head m # fs) = {i. i < lr_capacity m} \<and>
     lr_tail m = hd (es @ [lr_head m]) \<and>
     ring (\<lambda>i. lnext (node m i)) (\<lambda>i. llast (node m i)) (es @ lr_head m # fs)"

text \<open>The hash holds exactly the nodes in use.\<close>

definition lru_hash :: "'v lru \<Rightarrow> u32 list \<Rightarrow> bool" where
  "lru_hash m es \<longleftrightarrow> length (lr_hash m) = unat (lr_hash_size m) \<and> lr_hash_size m \<noteq> 0 \<and>
     (\<forall>e\<in>set es. lkey (node m e) \<noteq> 0 \<and> lbucket (node m e) < lr_hash_size m \<and>
        hkey (hnode m (lbucket (node m e))) = lkey (node m e) \<and>
        hindex (hnode m (lbucket (node m e))) = e) \<and>
     (\<forall>b<lr_hash_size m. if hkey (hnode m b) = 0 then hindex (hnode m b) = INVALID_INDEX
        else hindex (hnode m b) \<in> set es \<and> lbucket (node m (hindex (hnode m b))) = b)"

lemma lru_listD:
  assumes "lru_list m es fs"
  shows "2 \<le> unat (lr_capacity m)" and "length (lr_list m) = unat (lr_capacity m)"
    and "distinct (es @ lr_head m # fs)" and "set (es @ lr_head m # fs) = {i. i < lr_capacity m}"
    and "lr_tail m = hd (es @ [lr_head m])"
    and "ring (\<lambda>i. lnext (node m i)) (\<lambda>i. llast (node m i)) (es @ lr_head m # fs)"
  using assms unfolding lru_list_def by blast+

lemma lru_list_in:
  assumes "lru_list m es fs" and "i \<in> set (es @ lr_head m # fs)"
  shows "unat i < length (lr_list m)"
proof -
  have "i < lr_capacity m" using lru_listD(4)[OF assms(1)] assms(2) by blast
  then show ?thesis using lru_listD(2)[OF assms(1)] by (simp add: word_less_nat_alt)
qed

text \<open>\<^verbatim>\<open>read_adjust\<close> makes a node the most recently used one and changes no entry.\<close>

definition same_entry :: "'v list_node \<Rightarrow> 'v list_node \<Rightarrow> bool" where
  "same_entry n n' \<longleftrightarrow> lkey n' = lkey n \<and> lbucket n' = lbucket n \<and> lv n' = lv n"

lemma same_entry_set:
  assumes "same_entry n (node m j)" and "unat i < length (lr_list m)"
    and "\<And>p. lkey (f p) = lkey p \<and> lbucket (f p) = lbucket p \<and> lv (f p) = lv p"
  shows "same_entry n (node (set_node m i f) j)"
  using assms by (auto simp: same_entry_def)

text \<open>The links after a node is taken out of a ring and put in again before another.\<close>

lemma ring_move:
  fixes xs ys fs :: "'a list"
  assumes R: "ring nx ls ((xs @ i # ys) @ h # fs)" and d: "distinct ((xs @ i # ys) @ h # fs)"
  obtains p q r where "ls i = p" "nx i = q" "(ls(q := p)) h = r" "p \<noteq> i" "q \<noteq> i" "r \<noteq> i" "h \<noteq> i"
    "{p, q, r} \<subseteq> set ((xs @ i # ys) @ h # fs)" "q = hd (ys @ [h])"
    "ring (nx(p := q, r := i, i := h)) (ls(q := p, i := r, h := i)) ((xs @ ys @ [i]) @ h # fs)"
proof -
  let ?zs = "ys @ h # fs @ xs" and ?ws = "fs @ xs @ ys"
  have d1: "distinct (i # ?zs)" and d2: "distinct (i # h # ?ws)" using d by auto
  have "ring nx ls (xs @ (i # ys @ h # fs))" using R by simp
  then have R1: "ring nx ls (i # ?zs)" unfolding ring_rotate[of _ _ xs] by simp
  define p q where "p = last ?zs" and "q = hd ?zs"
  have pq: "ls i = p" "nx i = q" using ring_next[OF R1] by (simp_all add: p_def q_def)
  have pz: "p \<in> set ?zs" "q \<in> set ?zs"
    unfolding p_def q_def by (rule last_in_set, simp, rule hd_in_set, simp)
  have "ring (nx(p := q)) (ls(q := p)) ?zs"
    unfolding p_def q_def by (rule ring_remove[OF R1 d1]) simp
  then have R3: "ring (nx(p := q)) (ls(q := p)) (h # ?ws)" unfolding ring_rotate[of _ _ ys] by simp
  define r where "r = last (h # ?ws)"
  have r: "(ls(q := p)) h = r" using ring_next(2)[OF R3] by (simp only: r_def)
  have rz: "r \<in> set (h # ?ws)" unfolding r_def by (rule last_in_set) simp
  have "ring (nx(p := q, r := i, i := h)) (ls(q := p, i := r, h := i)) (h # ?ws @ [i])"
    using ring_insert[OF R3 d2] by (simp only: r_def)
  then have "ring (nx(p := q, r := i, i := h)) (ls(q := p, i := r, h := i)) ((h # fs) @ (xs @ ys @ [i]))" by simp
  then have "ring (nx(p := q, r := i, i := h)) (ls(q := p, i := r, h := i)) ((xs @ ys @ [i]) @ h # fs)"
    unfolding ring_rotate[of _ _ "h # fs"] .
  moreover have "p \<noteq> i" "q \<noteq> i" "r \<noteq> i" "h \<noteq> i" using pz rz d1 d2 by auto
  moreover have "{p, q, r} \<subseteq> set ((xs @ i # ys) @ h # fs)" using pz rz by auto
  moreover have "q = hd (ys @ [h])" unfolding q_def by (cases ys) auto
  ultimately show thesis using pq r by (intro that[of p q r]) auto
qed

text \<open>\<^verbatim>\<open>read_adjust\<close> makes these changes to the links, leaves the entries and may move the tail.\<close>

lemma read_adjust_links:
  assumes len: "unat i < length (lr_list m)" "unat p < length (lr_list m)" "unat q < length (lr_list m)"
      "unat r < length (lr_list m)" "unat (lr_head m) < length (lr_list m)"
    and p: "llast (node m i) = p" and q: "lnext (node m i) = q"
    and r: "((\<lambda>i. llast (node m i))(q := p)) (lr_head m) = r"
    and ne: "p \<noteq> i" "q \<noteq> i" "r \<noteq> i"
  obtains m' where "read_adjust m i = Ok m'"
    "(\<lambda>j. lnext (node m' j)) = (\<lambda>i. lnext (node m i))(p := q, r := i, i := lr_head m)"
    "(\<lambda>j. llast (node m' j)) = (\<lambda>i. llast (node m i))(q := p, i := r, lr_head m := i)"
    "\<forall>j. same_entry (node m j) (node m' j)" "length (lr_list m') = length (lr_list m)"
    "lr_tail m' = (if lr_tail m = i \<and> lr_head m \<noteq> q then q else lr_tail m)" "lr_hash m' = lr_hash m"
    "lr_head m' = lr_head m" "lr_hash_size m' = lr_hash_size m" "lr_capacity m' = lr_capacity m"
    "lr_max_probing m' = lr_max_probing m"
proof -
  let ?h = "lr_head m"
  define m1 where "m1 = set_node m p (\<lambda>n. n\<lparr>lnext := q\<rparr>)"
  define m2 where "m2 = set_node m1 q (\<lambda>n. n\<lparr>llast := p\<rparr>)"
  define m3 where "m3 = set_node m2 r (\<lambda>n. n\<lparr>lnext := i\<rparr>)"
  define m4 where "m4 = set_node m3 i (\<lambda>n. n\<lparr>llast := r\<rparr>)"
  define m5 where "m5 = (if lr_tail m = i \<and> ?h \<noteq> q then m4\<lparr>lr_tail := q\<rparr> else m4)"
  define m' where "m' = set_node (set_node m5 i (\<lambda>n. n\<lparr>lnext := ?h\<rparr>)) ?h (\<lambda>n. n\<lparr>llast := i\<rparr>)"
  note ms = m1_def m2_def m3_def m4_def
  have n5: "node m5 = node m4" and [simp]: "lr_head m5 = ?h" "length (lr_list m5) = length (lr_list m)"
    by (simp_all add: m5_def ms node_def fun_eq_iff)
  have last2: "llast (node m2 j) = ((\<lambda>i. llast (node m i))(q := p)) j"
    and last3: "llast (node m3 j) = ((\<lambda>i. llast (node m i))(q := p)) j" for j
    using len by (simp_all add: ms)
  have reads: "llast (node m i) = p" "lnext (node m1 i) = q" "llast (node m1 i) = p" "llast (node m2 ?h) = r"
    "llast (node m3 ?h) = r" "lnext (node m4 i) = q"
    using len p q last2[of ?h] last3[of ?h] r ne by (simp_all add: m1_def m4_def m3_def m2_def)
  have writes: "set_lnode m p (\<lambda>n. n\<lparr>lnext := q\<rparr>) = Ok m1"
    "set_lnode m1 q (\<lambda>n. n\<lparr>llast := p\<rparr>) = Ok m2" "set_lnode m2 r (\<lambda>n. n\<lparr>lnext := i\<rparr>) = Ok m3"
    "set_lnode m3 i (\<lambda>n. n\<lparr>llast := r\<rparr>) = Ok m4"
    using len by (simp_all add: ms lru_simps)
  have heads: "lr_head m1 = ?h" "lr_head m2 = ?h" "lr_head m3 = ?h" "lr_head m4 = ?h" "lr_tail m4 = lr_tail m"
    "length (lr_list m1) = length (lr_list m)" "length (lr_list m2) = length (lr_list m)"
    "length (lr_list m3) = length (lr_list m)" "length (lr_list m4) = length (lr_list m)"
    by (simp_all add: ms)
  have "read_adjust m i = andthen (set_lnode m5 i (\<lambda>p. p\<lparr>lnext := lr_head m5\<rparr>)) (\<lambda>m.
      set_lnode m (lr_head m) (\<lambda>p. p\<lparr>llast := i\<rparr>))"
    using len q by (simp add: read_adjust_def lnode_ok reads writes heads Let_def m5_def del: andthen_eq_Ok)
  also have "\<dots> = Ok m'" using len by (simp add: lru_simps m'_def del: andthen_eq_Ok)
  finally have "read_adjust m i = Ok m'" .
  moreover have "(\<lambda>j. lnext (node m' j)) = (\<lambda>i. lnext (node m i))(p := q, r := i, i := ?h)"
    "(\<lambda>j. llast (node m' j)) = (\<lambda>i. llast (node m i))(q := p, i := r, ?h := i)"
    using len by (auto simp: m'_def n5 ms fun_eq_iff)
  moreover have "same_entry (node m j) (node m' j)" for j
  proof -
    have "same_entry (node m j) (node m5 j)"
      unfolding n5 ms by (intro same_entry_set) (use len in \<open>simp_all add: same_entry_def\<close>)
    then show ?thesis unfolding m'_def by (intro same_entry_set) (use len in simp_all)
  qed
  ultimately show thesis by (intro that[of m']) (simp_all add: m'_def m5_def ms)
qed

lemma read_adjust_list:
  assumes L: "lru_list m (xs @ i # ys) fs"
  shows "\<exists>m'. read_adjust m i = Ok m' \<and> lru_list m' (xs @ ys @ [i]) fs \<and> lr_hash m' = lr_hash m \<and>
     lr_head m' = lr_head m \<and> lr_hash_size m' = lr_hash_size m \<and> lr_capacity m' = lr_capacity m \<and>
     lr_max_probing m' = lr_max_probing m \<and> (\<forall>j. same_entry (node m j) (node m' j))"
proof -
  let ?h = "lr_head m" and ?all = "(xs @ i # ys) @ lr_head m # fs"
  note d = lru_listD(3)[OF L]
  obtain p q r where R: "llast (node m i) = p" "lnext (node m i) = q"
    "((\<lambda>i. llast (node m i))(q := p)) ?h = r" "p \<noteq> i" "q \<noteq> i" "r \<noteq> i" "?h \<noteq> i" "{p, q, r} \<subseteq> set ?all"
    "q = hd (ys @ [?h])"
    and R5: "ring ((\<lambda>i. lnext (node m i))(p := q, r := i, i := ?h))
      ((\<lambda>i. llast (node m i))(q := p, i := r, ?h := i)) ((xs @ ys @ [i]) @ ?h # fs)"
    by (rule ring_move[OF lru_listD(6)[OF L] d])
  have "unat j < length (lr_list m)" if "j \<in> set ?all" for j using lru_list_in[OF L] that by auto
  then obtain m' where m': "read_adjust m i = Ok m'"
    "(\<lambda>j. lnext (node m' j)) = (\<lambda>i. lnext (node m i))(p := q, r := i, i := ?h)"
    "(\<lambda>j. llast (node m' j)) = (\<lambda>i. llast (node m i))(q := p, i := r, ?h := i)"
    "\<forall>j. same_entry (node m j) (node m' j)" "length (lr_list m') = length (lr_list m)"
    and tl: "lr_tail m' = (if lr_tail m = i \<and> ?h \<noteq> q then q else lr_tail m)"
    and f: "lr_hash m' = lr_hash m" "lr_head m' = ?h" "lr_hash_size m' = lr_hash_size m"
    "lr_capacity m' = lr_capacity m" "lr_max_probing m' = lr_max_probing m"
    using R by (elim read_adjust_links[where i = i and m = m and p = p and q = q and r = r, rotated -1]) auto
  have "lr_tail m' = hd ((xs @ ys @ [i]) @ [?h])"
  proof (cases xs)
    case Nil
    then show ?thesis using lru_listD(5)[OF L] d tl R(9) by (cases ys) auto
  next
    case (Cons x xs')
    then show ?thesis using lru_listD(5)[OF L] d tl by auto
  qed
  moreover have "distinct ((xs @ ys @ [i]) @ ?h # fs)" using d by auto
  moreover have "set ((xs @ ys @ [i]) @ ?h # fs) = set ?all" by auto
  ultimately have "lru_list m' (xs @ ys @ [i]) fs"
    using lru_listD(1,2,4)[OF L] m'(5) f R5 unfolding lru_list_def m'(2,3) by simp
  then show ?thesis using m' f by blast
qed

end
