(* ===== verification/Circle_Cache_Props.thy ===== *)
theory Circle_Cache_Props
  imports Circle_Cache
begin

text \<open>
  The properties of \<^verbatim>\<open>LruCache\<close>: its two searches, \<^verbatim>\<open>put\<close> and \<^verbatim>\<open>get\<close> on a well-formed
  cache, and \<^verbatim>\<open>init\<close>.
\<close>

section \<open>Searching\<close>

definition slot :: "'v lru \<Rightarrow> u64 \<Rightarrow> nat \<Rightarrow> u32" where
  "slot m key i =
     (let mask = ucast (lr_hash_size m - 1) :: u64
      in ucast (((key AND mask) + ucast (of_nat (i * (i + 1) div 2) :: u32)) AND mask))"

text \<open>Up to this round the probing offset fits into 32 bits.\<close>

definition max_rounds :: nat where
  "max_rounds = 92682"

lemma probing_fits:
  assumes "i < max_rounds"
  shows "i * (i + 1) div 2 < 2 ^ 32"
proof -
  have "i * (i + 1) \<le> 92681 * 92682" using assms by (intro mult_le_mono) (simp_all add: max_rounds_def)
  then have "i * (i + 1) div 2 \<le> 92681 * 92682 div 2" by (rule div_le_mono)
  then show ?thesis by simp
qed

lemma slot_less:
  assumes "lr_hash_size m \<noteq> 0"
  shows "slot m key i < lr_hash_size m"
proof -
  let ?w = "lr_hash_size m - 1"
  have lt: "unat ?w < 2 ^ 32" by (rule order_less_le_trans[OF unsigned_less]) simp
  have "unat (x AND ucast ?w :: u64) \<le> unat ?w" for x
  proof -
    have "x AND ucast ?w \<le> (ucast ?w :: u64)" by (rule word_and_le1)
    then have "unat (x AND ucast ?w) \<le> unat (ucast ?w :: u64)" by (simp add: word_le_nat_alt)
    also have "unat (ucast ?w :: u64) = unat ?w"
      using lt by (simp add: unsigned_ucast_eq take_bit_nat_eq_self)
    finally show ?thesis .
  qed
  then have "unat (ucast (x AND ucast ?w :: u64) :: u32) \<le> unat ?w" for x
  proof -
    have "unat (ucast (x AND ucast ?w :: u64) :: u32) = take_bit 32 (unat (x AND ucast ?w :: u64))"
      by (simp add: unsigned_ucast_eq)
    also have "\<dots> \<le> unat (x AND ucast ?w :: u64)" by (rule take_bit_nat_less_eq_self)
    finally show ?thesis using \<open>\<And>x. unat (x AND ucast ?w :: u64) \<le> unat ?w\<close> le_trans by blast
  qed
  then have "unat (slot m key i) \<le> unat ?w" unfolding slot_def Let_def .
  moreover have "unat ?w < unat (lr_hash_size m)"
    using assms by (simp add: unat_minus_one unat_gt_0)
  ultimately show ?thesis by (simp add: word_less_nat_alt)
qed

lemma quadratic_probing_ok:
  "i < max_rounds \<Longrightarrow> quadratic_probing m key i = Ok (slot m key i)"
  using probing_fits[of i] by (simp add: quadratic_probing_def to_uint32_def slot_def Let_def)

definition slots :: "'v lru \<Rightarrow> u64 \<Rightarrow> u32 list" where
  "slots m key = map (slot m key) [0..<probes m]"

lemma slots_less: "lr_hash_size m \<noteq> 0 \<Longrightarrow> b \<in> set (slots m key) \<Longrightarrow> b < lr_hash_size m"
  by (auto simp: slots_def slot_less)

lemma get_probe_find:
  assumes "length (lr_hash m) = unat (lr_hash_size m)" and "lr_hash_size m \<noteq> 0"
  shows "i + n \<le> max_rounds \<Longrightarrow> get_probe m key raw i n =
    Ok (case find (\<lambda>p. hkey (hnode m p) = key \<and> hraw (hnode m p) = raw) (map (slot m key) [i..<i + n])
        of None \<Rightarrow> INVALID_INDEX | Some p \<Rightarrow> p)"
proof (induction n arbitrary: i)
  case (Suc n)
  have lt: "unat (slot m key i) < length (lr_hash m)"
    using slot_less[OF assms(2)] assms(1) by (simp add: word_less_nat_alt)
  have up: "[i..<i + Suc n] = i # [Suc i..<Suc i + n]" by (simp add: upt_rec)
  show ?case unfolding up using Suc lt by (simp add: quadratic_probing_ok hnode_def)
qed simp

lemma put_probe_find:
  assumes "length (lr_hash m) = unat (lr_hash_size m)" and "lr_hash_size m \<noteq> 0"
  shows "i + n \<le> max_rounds \<Longrightarrow> put_probe m key raw ow i n =
    Ok (case find (\<lambda>p. hkey (hnode m p) = 0 \<or> hkey (hnode m p) = key \<and> hraw (hnode m p) = raw \<and> ow)
          (map (slot m key) [i..<i + n])
        of None \<Rightarrow> INVALID_INDEX | Some p \<Rightarrow> p)"
proof (induction n arbitrary: i)
  case (Suc n)
  have lt: "unat (slot m key i) < length (lr_hash m)"
    using slot_less[OF assms(2)] assms(1) by (simp add: word_less_nat_alt)
  have up: "[i..<i + Suc n] = i # [Suc i..<Suc i + n]" by (simp add: upt_rec)
  show ?case unfolding up using Suc lt by (simp add: quadratic_probing_ok hnode_def)
qed simp

lemma not_invalid: "b < lr_hash_size m \<Longrightarrow> b \<noteq> INVALID_INDEX"
proof
  assume b: "b < lr_hash_size m" "b = INVALID_INDEX"
  have "INVALID_INDEX = - 1" by (simp add: INVALID_INDEX_def)
  then have "lr_hash_size m \<le> b" using b(2) word_n1_ge by metis
  then show False using b(1) by simp
qed

lemma rd_hash: "unat b < length (lr_hash m) \<Longrightarrow> rd (lr_hash m) (unat b) = Ok (hnode m b)"
  by (simp add: hnode_def)

section \<open>A well-formed cache\<close>

definition lru_good :: "'v lru \<Rightarrow> u32 list \<Rightarrow> u32 list \<Rightarrow> bool" where
  "lru_good m es fs \<longleftrightarrow> lru_list m es fs \<and> lru_hash m es \<and> probes m \<le> max_rounds"

definition lru_entry :: "'v lru \<Rightarrow> u32 \<Rightarrow> u64 \<times> string \<times> 'v option" where
  "lru_entry m e = (lkey (node m e), hraw (hnode m (lbucket (node m e))), lv (node m e))"

lemma lru_hashD:
  assumes "lru_hash m es"
  shows "length (lr_hash m) = unat (lr_hash_size m)" and "lr_hash_size m \<noteq> 0"
    and "e \<in> set es \<Longrightarrow> lkey (node m e) \<noteq> 0" and "e \<in> set es \<Longrightarrow> lbucket (node m e) < lr_hash_size m"
    and "e \<in> set es \<Longrightarrow> hkey (hnode m (lbucket (node m e))) = lkey (node m e)"
    and "e \<in> set es \<Longrightarrow> hindex (hnode m (lbucket (node m e))) = e"
    and "b < lr_hash_size m \<Longrightarrow> hkey (hnode m b) = 0 \<Longrightarrow> hindex (hnode m b) = INVALID_INDEX"
    and "b < lr_hash_size m \<Longrightarrow> hkey (hnode m b) \<noteq> 0 \<Longrightarrow> hindex (hnode m b) \<in> set es"
    and "b < lr_hash_size m \<Longrightarrow> hkey (hnode m b) \<noteq> 0 \<Longrightarrow> lbucket (node m (hindex (hnode m b))) = b"
  using assms unfolding lru_hash_def by meson+

lemma lru_goodD:
  assumes "lru_good m es fs"
  shows "lru_list m es fs" and "lru_hash m es" and "probes m \<le> max_rounds"
  using assms unfolding lru_good_def by blast+

lemma get_bucket_good:
  assumes "lru_good m es fs"
  shows "get_probing_bucket m key raw =
    Ok (case find (\<lambda>p. hkey (hnode m p) = key \<and> hraw (hnode m p) = raw) (slots m key)
        of None \<Rightarrow> INVALID_INDEX | Some p \<Rightarrow> p)"
  using get_probe_find[OF lru_hashD(1,2)[OF lru_goodD(2)[OF assms]], of 0 "probes m"] lru_goodD(3)[OF assms]
  by (simp add: get_probing_bucket_def slots_def)

lemma put_bucket_good:
  assumes "lru_good m es fs"
  shows "put_probing_bucket m key raw ow =
    Ok (case find (\<lambda>p. hkey (hnode m p) = 0 \<or> hkey (hnode m p) = key \<and> hraw (hnode m p) = raw \<and> ow)
          (slots m key) of None \<Rightarrow> INVALID_INDEX | Some p \<Rightarrow> p)"
  using put_probe_find[OF lru_hashD(1,2)[OF lru_goodD(2)[OF assms]], of 0 "probes m"] lru_goodD(3)[OF assms]
  by (simp add: put_probing_bucket_def slots_def)

text \<open>Using an entry again.\<close>

lemma lru_hash_same:
  assumes "lru_hash m es" and "\<And>j. same_entry (node m j) (node m' j)" and "lr_hash m' = lr_hash m"
    and "lr_hash_size m' = lr_hash_size m" and "set es' = set es"
  shows "lru_hash m' es'"
  using assms unfolding lru_hash_def hnode_def same_entry_def by simp

lemma read_adjust_good:
  assumes "lru_good m (xs @ i # ys) fs"
  shows "\<exists>m'. read_adjust m i = Ok m' \<and> lru_good m' (xs @ ys @ [i]) fs \<and> hnode m' = hnode m \<and>
     (\<forall>j. lru_entry m' j = lru_entry m j) \<and> (\<forall>k. slots m' k = slots m k) \<and> lr_capacity m' = lr_capacity m"
proof -
  obtain m' where m': "read_adjust m i = Ok m'" "lru_list m' (xs @ ys @ [i]) fs" "lr_hash m' = lr_hash m"
    "lr_hash_size m' = lr_hash_size m" "lr_max_probing m' = lr_max_probing m"
    "\<forall>j. same_entry (node m j) (node m' j)" "lr_capacity m' = lr_capacity m"
    using read_adjust_list[OF lru_goodD(1)[OF assms]] by blast
  have "lru_hash m' (xs @ ys @ [i])"
    by (rule lru_hash_same[OF lru_goodD(2)[OF assms]]) (use m' in auto)
  then have "lru_good m' (xs @ ys @ [i]) fs"
    using m' lru_goodD(3)[OF assms] by (simp add: lru_good_def probes_def)
  moreover have "\<forall>j. lru_entry m' j = lru_entry m j" using m'(3,6) by (simp add: lru_entry_def same_entry_def hnode_def)
  moreover have "\<forall>k. slots m' k = slots m k"
    using m'(4,5) by (simp add: slots_def probes_def slot_def fun_eq_iff)
  moreover have "hnode m' = hnode m" using m'(3) by (simp add: hnode_def fun_eq_iff)
  ultimately show ?thesis using m'(1,7) by blast
qed

lemma lru_get_good:
  assumes g: "lru_good m es fs" and k: "k \<noteq> 0"
  shows "case find (\<lambda>p. hkey (hnode m p) = k \<and> hraw (hnode m p) = raw) (slots m k) of
       None \<Rightarrow> lru_get m k raw = Ok (m, None)
     | Some b \<Rightarrow> \<exists>m' xs e ys. es = xs @ e # ys \<and> hindex (hnode m b) = e \<and> lbucket (node m e) = b \<and>
         lru_get m k raw = Ok (m', lv (node m e)) \<and> lru_good m' (xs @ ys @ [e]) fs \<and>
         (\<forall>j. lru_entry m' j = lru_entry m j) \<and> lr_capacity m' = lr_capacity m \<and>
         (\<forall>k. slots m' k = slots m k)"
proof (cases "find (\<lambda>p. hkey (hnode m p) = k \<and> hraw (hnode m p) = raw) (slots m k)")
  case None
  then show ?thesis by (simp add: lru_get_def get_bucket_good[OF g])
next
  case (Some b)
  note h = lru_hashD[OF lru_goodD(2)[OF g]]
  have b: "b < lr_hash_size m" "hkey (hnode m b) = k" "hraw (hnode m b) = raw"
    using find_Some_mem[OF Some] slots_less[OF h(2)] by auto
  define e where "e = hindex (hnode m b)"
  have e: "e \<in> set es" "lbucket (node m e) = b" using h(8,9)[of b] b k by (simp_all add: e_def)
  obtain xs ys where es: "es = xs @ e # ys" using e(1) by (auto simp: in_set_conv_decomp)
  obtain m' where m': "read_adjust m e = Ok m'" "lru_good m' (xs @ ys @ [e]) fs"
    "\<forall>j. lru_entry m' j = lru_entry m j" "lr_capacity m' = lr_capacity m" "\<forall>k. slots m' k = slots m k"
    using read_adjust_good[OF g[unfolded es]] by blast
  have "unat e < length (lr_list m)" using lru_list_in[OF lru_goodD(1)[OF g]] e(1) by simp
  moreover have "unat b < length (lr_hash m)" using b(1) h(1) by (simp add: word_less_nat_alt)
  ultimately have "lru_get m k raw = Ok (m', lv (node m e))"
    using not_invalid[OF b(1)] m'(1) b(1)[unfolded not_le[symmetric]]
      e_def[unfolded hnode_def, symmetric]
    by (simp add: lru_get_def get_bucket_good[OF g] Some lnode_ok)
  then show ?thesis using Some es e m' e_def by auto
qed

section \<open>Adding an entry\<close>

text \<open>What \<^verbatim>\<open>put\<close> has written into the head node and its bucket before \<^verbatim>\<open>write_adjust\<close>.\<close>

definition filled :: "'v lru \<Rightarrow> u32 \<Rightarrow> u64 \<Rightarrow> string \<Rightarrow> 'v option \<Rightarrow> 'v lru" where
  "filled m b k raw v =
     set_node (set_hash (set_hash m b (\<lambda>h. h\<lparr>hkey := k, hraw := raw\<rparr>)) b (\<lambda>h. h\<lparr>hindex := lr_head m\<rparr>))
       (lr_head m) (\<lambda>n. n\<lparr>lkey := k, lv := v, lbucket := b\<rparr>)"

lemma lru_list_head: "lru_list m es fs \<Longrightarrow> unat (lr_head m) < length (lr_list m)"
  using lru_list_in by fastforce

lemma lru_good_bucket:
  assumes "lru_good m es fs" and "b < lr_hash_size m"
  shows "unat b < length (lr_hash m)"
  using lru_hashD(1)[OF lru_goodD(2)[OF assms(1)]] assms(2) by (simp add: word_less_nat_alt)

lemma hash_node_upd [simp]:
  "h\<lparr>hkey := k, hraw := r, hindex := i\<rparr> = \<lparr>hkey = k, hindex = i, hraw = r\<rparr>"
  "h\<lparr>hkey := k, hindex := i, hraw := r\<rparr> = \<lparr>hkey = k, hindex = i, hraw = r\<rparr>"
  by (cases h; simp)+

lemma filled_fields:
  assumes "lru_good m es fs" and "b < lr_hash_size m"
  shows "node (filled m b k raw v) =
      (node m)(lr_head m := (node m (lr_head m))\<lparr>lkey := k, lv := v, lbucket := b\<rparr>)"
    and "hnode (filled m b k raw v) =
      (hnode m)(b := \<lparr>hkey = k, hindex = lr_head m, hraw = raw\<rparr>)"
    and "lr_head (filled m b k raw v) = lr_head m" and "lr_tail (filled m b k raw v) = lr_tail m"
    and "lr_hash_size (filled m b k raw v) = lr_hash_size m"
    and "lr_capacity (filled m b k raw v) = lr_capacity m"
    and "lr_max_probing (filled m b k raw v) = lr_max_probing m"
    and "length (lr_list (filled m b k raw v)) = length (lr_list m)"
    and "length (lr_hash (filled m b k raw v)) = length (lr_hash m)"
  using lru_list_head[OF lru_goodD(1)[OF assms(1)]] lru_good_bucket[OF assms]
  by (simp_all add: filled_def)

lemma head_next:
  assumes "lru_list m es fs"
  shows "lnext (node m (lr_head m)) = hd (fs @ es @ [lr_head m])"
proof -
  have "ring (\<lambda>i. lnext (node m i)) (\<lambda>i. llast (node m i)) (es @ (lr_head m # fs))"
    using lru_listD(6)[OF assms] by simp
  then have "ring (\<lambda>i. lnext (node m i)) (\<lambda>i. llast (node m i)) (lr_head m # fs @ es)"
    unfolding ring_rotate[of _ _ es] by simp
  from ring_next(1)[OF this] show ?thesis by (cases fs; cases es) auto
qed

lemma filled_other:
  assumes "lru_good m es fs" and "b < lr_hash_size m" and "hkey (hnode m b) = 0" and "e \<in> set es"
  shows "e \<noteq> lr_head m" and "lbucket (node m e) \<noteq> b"
  using lru_listD(3)[OF lru_goodD(1)[OF assms(1)]] lru_hashD(3,5)[OF lru_goodD(2)[OF assms(1)] assms(4)]
    assms(3,4) by auto

text \<open>With a free node, the head moves on to it.\<close>

lemma add_free:
  assumes g: "lru_good m es (f # fs)" and b: "b < lr_hash_size m" "hkey (hnode m b) = 0" and k: "k \<noteq> 0"
  shows "\<exists>m'. write_adjust (filled m b k raw v) = Ok m' \<and> lru_good m' (es @ [lr_head m]) fs \<and>
     (\<forall>e\<in>set es. lru_entry m' e = lru_entry m e) \<and> lru_entry m' (lr_head m) = (k, raw, v) \<and>
     lr_capacity m' = lr_capacity m \<and> (\<forall>k. slots m' k = slots m k) \<and>
     hnode m' = (hnode m)(b := \<lparr>hkey = k, hindex = lr_head m, hraw = raw\<rparr>)"
proof -
  let ?m2 = "filled m b k raw v" and ?h = "lr_head m"
  note F = filled_fields[OF g b(1), where k = k and raw = raw and v = v]
  note L = lru_goodD(1)[OF g] and H = lru_hashD[OF lru_goodD(2)[OF g]]
  note O = filled_other[OF g b]
  have nx: "lnext (node m ?h) = f" using head_next[OF L] by simp
  have "f \<noteq> lr_tail m" using lru_listD(3,5)[OF L] by (cases es) auto
  then have w: "write_adjust ?m2 = Ok (?m2\<lparr>lr_head := f\<rparr>)"
    using nx lru_list_head[OF L] by (simp add: write_adjust_def lnode_ok F)
  let ?m' = "?m2\<lparr>lr_head := f\<rparr>"
  have n': "node ?m' = node ?m2" "hnode ?m' = hnode ?m2" by (simp_all add: node_def hnode_def fun_eq_iff)
  have links: "(\<lambda>i. lnext (node ?m' i)) = (\<lambda>i. lnext (node m i))"
    "(\<lambda>i. llast (node ?m' i)) = (\<lambda>i. llast (node m i))"
    by (simp_all add: n' F fun_eq_iff)
  have "lru_list ?m' (es @ [?h]) fs"
    using lru_listD[OF L] unfolding lru_list_def links by (cases es) (simp_all add: F)
  moreover have "lru_hash ?m' (es @ [?h])"
    unfolding lru_hash_def n'
  proof (intro conjI ballI allI impI)
    fix e assume "e \<in> set (es @ [?h])"
    then consider "e \<in> set es" | "e = ?h" by auto
    then show "lkey (node ?m2 e) \<noteq> 0" "lbucket (node ?m2 e) < lr_hash_size ?m'"
      "hkey (hnode ?m2 (lbucket (node ?m2 e))) = lkey (node ?m2 e)"
      "hindex (hnode ?m2 (lbucket (node ?m2 e))) = e"
      using O[of e] H(3-6)[of e] k b(1) by (cases; simp add: F)+
  next
    fix c assume "c < lr_hash_size ?m'"
    then have c: "c < lr_hash_size m" by (simp add: F)
    have "hindex (hnode m c) \<noteq> ?h" if "hkey (hnode m c) \<noteq> 0" using O(1)[OF H(8)[OF c that]] .
    then show "if hkey (hnode ?m2 c) = 0 then hindex (hnode ?m2 c) = INVALID_INDEX
        else hindex (hnode ?m2 c) \<in> set (es @ [?h]) \<and> lbucket (node ?m2 (hindex (hnode ?m2 c))) = c"
      using H(7-9)[OF c] k by (simp add: F)
  qed (use H(1,2) in \<open>simp_all add: F\<close>)
  ultimately have "lru_good ?m' (es @ [?h]) fs"
    using lru_goodD(3)[OF g] by (simp add: lru_good_def probes_def F)
  moreover have "\<forall>e\<in>set es. lru_entry ?m' e = lru_entry m e" using O by (simp add: lru_entry_def n' F)
  moreover have "lru_entry ?m' ?h = (k, raw, v)" by (simp add: lru_entry_def n' F)
  moreover have "\<forall>k. slots ?m' k = slots m k" by (simp add: slots_def probes_def slot_def F fun_eq_iff)
  ultimately show ?thesis using w n' by (intro exI[of _ ?m']) (simp add: F)
qed

text \<open>With none, the least recently used entry makes room.\<close>

lemma full_nonempty:
  assumes "lru_list m es []"
  shows "es \<noteq> []"
proof
  assume "es = []"
  then have "{i. i < lr_capacity m} = {lr_head m}" using lru_listD(4)[OF assms] by simp
  moreover have "0 \<in> {i. i < lr_capacity m}" "1 \<in> {i. i < lr_capacity m}"
    using lru_listD(1)[OF assms] by (auto simp: word_less_nat_alt)
  ultimately show False by (metis singletonD zero_neq_one)
qed

lemma oldest_entry:
  assumes "lru_good m (e # es) []" and "b < lr_hash_size m" "hkey (hnode m b) = 0"
  shows "e \<noteq> lr_head m" and "e \<notin> set es" and "lbucket (node m e) \<noteq> b" and "lbucket (node m e) < lr_hash_size m"
    and "hindex (hnode m (lbucket (node m e))) = e"
  using filled_other[OF assms, of e] lru_listD(3)[OF lru_goodD(1)[OF assms(1)]]
    lru_hashD(4,6)[OF lru_goodD(2)[OF assms(1)], of e] by auto

text \<open>The state after \<^verbatim>\<open>write_adjust\<close> has taken the oldest entry \<open>e\<close> out.\<close>

definition evicted :: "'v lru \<Rightarrow> 'v lru \<Rightarrow> u32 \<Rightarrow> u32 list \<Rightarrow> u32 \<Rightarrow> u64 \<Rightarrow> string \<Rightarrow> 'v option \<Rightarrow> bool" where
  "evicted m m' e es b k raw v \<longleftrightarrow>
     node m' = (node m)(lr_head m := (node m (lr_head m))\<lparr>lkey := k, lv := v, lbucket := b\<rparr>,
       e := (node m e)\<lparr>lkey := 0, lv := None\<rparr>) \<and>
     hnode m' = (hnode m)(b := \<lparr>hkey = k, hindex = lr_head m, hraw = raw\<rparr>,
       lbucket (node m e) := hash_node_new) \<and>
     lr_head m' = e \<and> lr_tail m' = hd (es @ [lr_head m]) \<and> lr_hash_size m' = lr_hash_size m \<and>
     lr_capacity m' = lr_capacity m \<and> lr_max_probing m' = lr_max_probing m \<and>
     length (lr_list m') = length (lr_list m) \<and> length (lr_hash m') = length (lr_hash m)"

lemma evictedD:
  assumes "evicted m m' e es b k raw v"
  shows "node m' = (node m)(lr_head m := (node m (lr_head m))\<lparr>lkey := k, lv := v, lbucket := b\<rparr>,
       e := (node m e)\<lparr>lkey := 0, lv := None\<rparr>)"
    and "hnode m' = (hnode m)(b := \<lparr>hkey = k, hindex = lr_head m, hraw = raw\<rparr>,
       lbucket (node m e) := hash_node_new)"
    and "lr_head m' = e" and "lr_tail m' = hd (es @ [lr_head m])" and "lr_hash_size m' = lr_hash_size m"
    and "lr_capacity m' = lr_capacity m" and "lr_max_probing m' = lr_max_probing m"
    and "length (lr_list m') = length (lr_list m)" and "length (lr_hash m') = length (lr_hash m)"
  using assms unfolding evicted_def by blast+

lemma write_adjust_evicts:
  assumes g: "lru_good m (e # es) []" and b: "b < lr_hash_size m" "hkey (hnode m b) = 0"
  shows "\<exists>m'. write_adjust (filled m b k raw v) = Ok m' \<and> evicted m m' e es b k raw v"
proof -
  let ?m2 = "filled m b k raw v" and ?h = "lr_head m" and ?t = "lbucket (node m e)"
  note F = filled_fields[OF g b(1), where k = k and raw = raw and v = v]
  note L = lru_goodD(1)[OF g] and e = oldest_entry[OF g b]
  have R: "ring (\<lambda>i. lnext (node m i)) (\<lambda>i. llast (node m i)) (e # es @ [?h])" using lru_listD(6)[OF L] by simp
  have nx: "lnext (node m ?h) = e" "lr_tail m = e" "lnext (node m e) = hd (es @ [?h])"
    using head_next[OF L] lru_listD(5)[OF L] ring_next(1)[OF R] by simp_all
  define m3 where "m3 = set_node ?m2 e (\<lambda>n. n\<lparr>lkey := 0, lv := None\<rparr>)"
  define m4 where "m4 = set_hash m3 ?t (\<lambda>n. n\<lparr>hkey := 0, hindex := INVALID_INDEX, hraw := ''''\<rparr>)"
  let ?m' = "m4\<lparr>lr_head := e, lr_tail := hd (es @ [?h])\<rparr>"
  have len: "unat e < length (lr_list m)" "unat ?h < length (lr_list m)" "unat ?t < length (lr_hash m)"
    using lru_list_in[OF L] lru_list_head[OF L] lru_good_bucket[OF g e(4)] by simp_all
  have M: "node m4 = (node m)(?h := (node m ?h)\<lparr>lkey := k, lv := v, lbucket := b\<rparr>,
      e := (node m e)\<lparr>lkey := 0, lv := None\<rparr>)"
    "hnode m4 = (hnode m)(b := \<lparr>hkey = k, hindex = ?h, hraw = raw\<rparr>, ?t := hash_node_new)"
    "lr_head m4 = ?h" "lr_tail m4 = e" "length (lr_list m4) = length (lr_list m)"
    using len e(1,3) nx(2) by (simp_all add: m4_def m3_def F hash_node_new_def)
  have 1: "lnode ?m2 ?h = Ok (node ?m2 ?h)" using len by (simp add: lnode_ok F)
  have 2: "set_lnode ?m2 e (\<lambda>n. n\<lparr>lkey := 0, lv := None\<rparr>) = Ok m3"
    using len by (simp add: set_lnode_ok F m3_def)
  have 3: "lnode m3 e = Ok (node m3 e)" "lbucket (node m3 e) = ?t" "lr_tail m3 = e"
    using len e(1) nx(2) by (simp_all add: lnode_ok m3_def F)
  have 4: "set_hnode m3 ?t (\<lambda>n. n\<lparr>hkey := 0, hindex := INVALID_INDEX, hraw := ''''\<rparr>) = Ok m4"
    using len by (simp add: set_hnode_ok F m4_def m3_def)
  have 5: "lnode (m4\<lparr>lr_head := e\<rparr>) e = Ok (node m4 e)" using len M(5) by (simp add: lnode_def node_def)
  have "write_adjust ?m2 = Ok ?m'" using 1 2 3 4 5 nx e(1) by (simp add: write_adjust_def F M)
  moreover have "node ?m' = node m4" "hnode ?m' = hnode m4" by (simp_all add: node_def hnode_def fun_eq_iff)
  then have "evicted m ?m' e es b k raw v"
    unfolding evicted_def by (simp add: M) (simp add: m4_def m3_def F)
  ultimately show ?thesis by blast
qed

lemma evicted_list:
  assumes g: "lru_good m (e # es) []" and b: "b < lr_hash_size m" "hkey (hnode m b) = 0"
    and E: "evicted m m' e es b k raw v"
  shows "lru_list m' (es @ [lr_head m]) []"
proof -
  let ?h = "lr_head m"
  note L = lru_goodD(1)[OF g] and M = evictedD[OF E]
  have "ring (\<lambda>i. lnext (node m i)) (\<lambda>i. llast (node m i)) (e # es @ [?h])" using lru_listD(6)[OF L] by simp
  then have "ring (\<lambda>i. lnext (node m i)) (\<lambda>i. llast (node m i)) ((es @ [?h]) @ [e])"
    using ring_rotate[of _ _ "[e]" "es @ [?h]"] by simp
  moreover have "(\<lambda>i. lnext (node m' i)) = (\<lambda>i. lnext (node m i))"
    "(\<lambda>i. llast (node m' i)) = (\<lambda>i. llast (node m i))"
    by (simp_all add: M fun_eq_iff)
  ultimately show ?thesis using lru_listD(1-4)[OF L] unfolding lru_list_def by (cases es) (auto simp: M)
qed

lemma evicted_entry:
  assumes g: "lru_good m (e # es) []" and b: "b < lr_hash_size m" "hkey (hnode m b) = 0" and k: "k \<noteq> 0"
    and E: "evicted m m' e es b k raw v" and d: "d \<in> set (es @ [lr_head m])"
  shows "lkey (node m' d) \<noteq> 0" and "lbucket (node m' d) < lr_hash_size m'"
    and "hkey (hnode m' (lbucket (node m' d))) = lkey (node m' d)"
    and "hindex (hnode m' (lbucket (node m' d))) = d"
proof -
  note H = lru_hashD[OF lru_goodD(2)[OF g]] and O = filled_other[OF g b] and e = oldest_entry[OF g b]
  note M = evictedD[OF E]
  consider "d \<in> set es" "d \<in> set (e # es)" "d \<noteq> e" | "d = lr_head m" using d e(2) by auto
  then have "d \<noteq> e \<and> lbucket (node m' d) \<noteq> lbucket (node m e) \<and> (d \<in> set es \<or> d = lr_head m)"
  proof cases
    case 1
    then show ?thesis using H(6)[of d] e(5) O[of d] by (auto simp: M)
  next
    case 2
    then show ?thesis using e(1,3) by (auto simp: M)
  qed
  then show "lkey (node m' d) \<noteq> 0" "lbucket (node m' d) < lr_hash_size m'"
    "hkey (hnode m' (lbucket (node m' d))) = lkey (node m' d)" "hindex (hnode m' (lbucket (node m' d))) = d"
    using O[of d] H(3-6)[of d] k b(1) by (auto simp: M)
qed

lemma evicted_hash:
  assumes g: "lru_good m (e # es) []" and b: "b < lr_hash_size m" "hkey (hnode m b) = 0" and k: "k \<noteq> 0"
    and E: "evicted m m' e es b k raw v"
  shows "lru_hash m' (es @ [lr_head m])"
  unfolding lru_hash_def
proof (intro conjI ballI allI impI)
  let ?h = "lr_head m" and ?t = "lbucket (node m e)"
  note H = lru_hashD[OF lru_goodD(2)[OF g]] and O = filled_other[OF g b] and e = oldest_entry[OF g b]
  note M = evictedD[OF E]
  fix c assume "c < lr_hash_size m'"
  then have c: "c < lr_hash_size m" by (simp add: M)
  have old: "hindex (hnode m c) \<noteq> ?h \<and> hindex (hnode m c) \<in> set es \<and> lbucket (node m (hindex (hnode m c))) = c"
    if "hkey (hnode m c) \<noteq> 0" "c \<noteq> ?t"
    using O(1)[OF H(8)[OF c that(1)]] H(8,9)[OF c that(1)] that(2) by auto
  show "if hkey (hnode m' c) = 0 then hindex (hnode m' c) = INVALID_INDEX
      else hindex (hnode m' c) \<in> set (es @ [?h]) \<and> lbucket (node m' (hindex (hnode m' c))) = c"
  proof (cases "c = ?t \<or> c = b")
    case True
    then show ?thesis using k e(1,3) by (auto simp: M hash_node_new_def)
  next
    case False
    then show ?thesis using old H(7)[OF c] e(2) by (auto simp: M)
  qed
qed (use lru_hashD(1,2)[OF lru_goodD(2)[OF g]] evicted_entry[OF g b k E] in \<open>simp_all add: evictedD(5,9)[OF E]\<close>)

lemma add_full:
  assumes g: "lru_good m es []" and b: "b < lr_hash_size m" "hkey (hnode m b) = 0" and k: "k \<noteq> 0"
  shows "\<exists>m'. write_adjust (filled m b k raw v) = Ok m' \<and> es \<noteq> [] \<and> lru_good m' (tl es @ [lr_head m]) [] \<and>
     (\<forall>e\<in>set (tl es). lru_entry m' e = lru_entry m e) \<and> lru_entry m' (lr_head m) = (k, raw, v) \<and>
     lr_capacity m' = lr_capacity m \<and> (\<forall>k. slots m' k = slots m k) \<and>
     hnode m' = (hnode m)(b := \<lparr>hkey = k, hindex = lr_head m, hraw = raw\<rparr>,
       lbucket (node m (hd es)) := hash_node_new)"
proof -
  obtain e es' where es: "es = e # es'" using full_nonempty[OF lru_goodD(1)[OF g]] by (cases es) auto
  note g' = g[unfolded es]
  note e = oldest_entry[OF g' b] and O = filled_other[OF g' b] and H = lru_hashD[OF lru_goodD(2)[OF g']]
  obtain m' where w: "write_adjust (filled m b k raw v) = Ok m'" and E: "evicted m m' e es' b k raw v"
    using write_adjust_evicts[OF g' b] by blast
  note M = evictedD[OF E]
  have "probes m' = probes m" by (simp add: probes_def M)
  then have "lru_good m' (es' @ [lr_head m]) []"
    using evicted_list[OF g' b E] evicted_hash[OF g' b k E] lru_goodD(3)[OF g] by (simp add: lru_good_def)
  moreover have "lru_entry m' d = lru_entry m d" if d: "d \<in> set es'" for d
  proof -
    have "d \<noteq> e" "d \<noteq> lr_head m" "lbucket (node m d) \<noteq> b" "lbucket (node m d) \<noteq> lbucket (node m e)"
      using e(2,5) O[of d] H(6)[of d] d by auto
    then show ?thesis by (simp add: lru_entry_def M)
  qed
  moreover have "lru_entry m' (lr_head m) = (k, raw, v)" using e(1,3) by (simp add: lru_entry_def M)
  moreover have "slots m' k = slots m k" for k by (simp add: slots_def probes_def slot_def M)
  ultimately show ?thesis using w es M(2,6) by auto
qed

section \<open>The operations on a well-formed cache\<close>

lemma card_below: "card {i :: u32. i < n} = unat n"
proof -
  have "unat ` {i :: u32. i < n} = {..<unat n}"
  proof
    show "{..<unat n} \<subseteq> unat ` {i :: u32. i < n}"
    proof
      fix j assume "j \<in> {..<unat n}"
      moreover have "unat n < 2 ^ 32" by (rule order_less_le_trans[OF unsigned_less]) simp
      ultimately have "unat (of_nat j :: u32) = j" by (simp add: unat_of_nat take_bit_nat_eq_self)
      then show "j \<in> unat ` {i :: u32. i < n}" using \<open>j \<in> {..<unat n}\<close>
        by (metis image_eqI lessThan_iff mem_Collect_eq word_less_nat_alt)
    qed
  qed (auto simp: word_less_nat_alt)
  moreover have "inj_on unat {i :: u32. i < n}" by (simp add: inj_on_def word_unat_eq_iff)
  ultimately show ?thesis by (metis card_image card_lessThan)
qed

lemma lru_list_length:
  assumes "lru_list m es fs"
  shows "Suc (length es + length fs) = unat (lr_capacity m)"
proof -
  have "length (es @ lr_head m # fs) = card (set (es @ lr_head m # fs))"
    using distinct_card[OF lru_listD(3)[OF assms]] by simp
  also have "\<dots> = unat (lr_capacity m)" unfolding lru_listD(4)[OF assms] by (rule card_below)
  finally show ?thesis by simp
qed

definition put_found :: "'v lru \<Rightarrow> u64 \<Rightarrow> string \<Rightarrow> bool \<Rightarrow> u32 option" where
  "put_found m k raw ow =
     find (\<lambda>p. hkey (hnode m p) = 0 \<or> hkey (hnode m p) = k \<and> hraw (hnode m p) = raw \<and> ow) (slots m k)"

text \<open>\<open>put_after m m' b k raw v xs\<close>: \<open>m'\<close> is \<open>m\<close> with the entry last and behind \<open>xs\<close>.\<close>

definition put_after ::
  "'v lru \<Rightarrow> 'v lru \<Rightarrow> u32 \<Rightarrow> u64 \<Rightarrow> string \<Rightarrow> 'v option \<Rightarrow> (u64 \<times> string \<times> 'v option) list \<Rightarrow> bool" where
  "put_after m m' b k raw v xs \<longleftrightarrow>
     (\<exists>es fs. lru_good m' es fs \<and> map (lru_entry m') es = xs @ [(k, raw, v)] \<and> es \<noteq> [] \<and>
        hnode m' b = \<lparr>hkey = k, hindex = last es, hraw = raw\<rparr>) \<and>
     (\<forall>c. c \<noteq> b \<longrightarrow> hnode m' c = hnode m c \<or> hnode m' c = hash_node_new) \<and>
     (\<forall>k. slots m' k = slots m k) \<and> lr_capacity m' = lr_capacity m"

lemma put_bucket_found:
  assumes "lru_good m es fs" and "put_found m k raw ow = Some b"
  shows "put_probing_bucket m k raw ow = Ok b" and "b < lr_hash_size m"
    and "(b = INVALID_INDEX \<or> b \<ge> lr_hash_size m) = False" and "unat b < length (lr_hash m)"
proof -
  show b: "b < lr_hash_size m"
    using find_Some_mem[OF assms(2)[unfolded put_found_def]]
      slots_less[OF lru_hashD(2)[OF lru_goodD(2)[OF assms(1)]]] by blast
  show "put_probing_bucket m k raw ow = Ok b"
    using put_bucket_good[OF assms(1), of k raw ow] assms(2) by (simp add: put_found_def)
  show "(b = INVALID_INDEX \<or> b \<ge> lr_hash_size m) = False" using not_invalid[OF b] b by simp
  show "unat b < length (lr_hash m)" by (rule lru_good_bucket[OF assms(1) b])
qed

text \<open>Into an empty bucket: the entry is written to the head node.\<close>

lemma put_into_empty:
  assumes g: "lru_good m es fs" and f: "put_found m k raw ow = Some b" and new: "hkey (hnode m b) = 0"
  shows "lru_put m k v raw ow = andthen (write_adjust (filled m b k raw v)) (\<lambda>m. Ok (m, 0))"
proof -
  note H = lru_hashD[OF lru_goodD(2)[OF g]] and B = put_bucket_found[OF g f]
  note head_len = lru_list_head[OF lru_goodD(1)[OF g]]
  define m1 where "m1 = set_hash m b (\<lambda>h. h\<lparr>hkey := k, hraw := raw\<rparr>)"
  define m2 where "m2 = set_hash m1 b (\<lambda>h. h\<lparr>hindex := lr_head m\<rparr>)"
  have 1: "set_hnode m b (\<lambda>h. h\<lparr>hkey := k, hraw := raw\<rparr>) = Ok m1"
    using B(4) by (simp add: set_hnode_ok m1_def)
  have 2: "rd (lr_hash m1) (unat b) = Ok (hnode m1 b)"
    by (rule rd_hash) (use B(4) in \<open>simp add: m1_def\<close>)
  have 3: "hindex (hnode m1 b) = INVALID_INDEX" using B(4) H(7)[OF B(2) new] by (simp add: m1_def)
  have 4: "set_hnode m1 b (\<lambda>h. h\<lparr>hindex := lr_head m\<rparr>) = Ok m2"
    using B(4) by (simp add: set_hnode_ok m1_def m2_def)
  have 5: "set_lnode m2 (lr_head m) (\<lambda>n. n\<lparr>lkey := k, lv := v, lbucket := b\<rparr>) = Ok (filled m b k raw v)"
    using head_len by (simp add: set_lnode_ok filled_def m1_def m2_def)
  have 6: "lr_head (filled m b k raw v) = lr_head m" "lr_head m1 = lr_head m"
    using filled_fields(3)[OF g B(2)] by (simp_all add: m1_def)
  show ?thesis
    by (simp only: lru_put_def B(1,3) andthen_simps Let_def if_True if_False 1 2 3 4 5 6 simp_thms)
qed

lemma lru_put_new:
  assumes g: "lru_good m es fs" and k: "k \<noteq> 0" and f: "put_found m k raw ow = Some b"
    and new: "hkey (hnode m b) = 0"
  shows "\<exists>m'. lru_put m k v raw ow = Ok (m', 0) \<and>
     put_after m m' b k raw v (map (lru_entry m) (if fs = [] then tl es else es))"
proof -
  note b = put_bucket_found(2)[OF g f] and put = put_into_empty[OF g f new]
  show ?thesis
  proof (cases fs)
    case Nil
    obtain m' where m': "write_adjust (filled m b k raw v) = Ok m'" "es \<noteq> []"
      "lru_good m' (tl es @ [lr_head m]) []" "\<forall>e\<in>set (tl es). lru_entry m' e = lru_entry m e"
      "lru_entry m' (lr_head m) = (k, raw, v)" "lr_capacity m' = lr_capacity m" "\<forall>k. slots m' k = slots m k"
      "hnode m' = (hnode m)(b := \<lparr>hkey = k, hindex = lr_head m, hraw = raw\<rparr>,
         lbucket (node m (hd es)) := hash_node_new)"
      using add_full[OF g[unfolded Nil] b new k] by blast
    have "hd es \<in> set es" using m'(2) by simp
    then have "lbucket (node m (hd es)) \<noteq> b" by (rule filled_other(2)[OF g b new])
    then have "put_after m m' b k raw v (map (lru_entry m) (tl es))"
      unfolding put_after_def using m'
      by (intro conjI exI[of _ "tl es @ [lr_head m]"] exI[of _ "[]"]) auto
    then show ?thesis using put m'(1) Nil by simp
  next
    case (Cons f' fs')
    obtain m' where m': "write_adjust (filled m b k raw v) = Ok m'"
      "lru_good m' (es @ [lr_head m]) fs'" "\<forall>e\<in>set es. lru_entry m' e = lru_entry m e"
      "lru_entry m' (lr_head m) = (k, raw, v)" "lr_capacity m' = lr_capacity m" "\<forall>k. slots m' k = slots m k"
      "hnode m' = (hnode m)(b := \<lparr>hkey = k, hindex = lr_head m, hraw = raw\<rparr>)"
      using add_free[OF g[unfolded Cons] b new k] by blast
    then have "put_after m m' b k raw v (map (lru_entry m) es)"
      unfolding put_after_def by (intro conjI exI[of _ "es @ [lr_head m]"] exI[of _ fs']) auto
    then show ?thesis using put m'(1) Cons by simp
  qed
qed

text \<open>Into the bucket of the key: its node \<open>e\<close> is written again.\<close>

definition rewritten :: "'v lru \<Rightarrow> u32 \<Rightarrow> u32 \<Rightarrow> u64 \<Rightarrow> string \<Rightarrow> 'v option \<Rightarrow> 'v lru" where
  "rewritten m e b k raw v =
     set_node (set_hash (set_hash m b (\<lambda>h. h\<lparr>hkey := k, hraw := raw\<rparr>)) b (\<lambda>h. h\<lparr>hindex := e\<rparr>))
       e (\<lambda>n. n\<lparr>lkey := k, lv := v, lbucket := b\<rparr>)"

lemma index_valid: "lru_list m es fs \<Longrightarrow> e \<in> set es \<Longrightarrow> e \<noteq> INVALID_INDEX"
proof
  assume "lru_list m es fs" "e \<in> set es" and e: "e = INVALID_INDEX"
  then have "e < lr_capacity m" using lru_listD(4) by fastforce
  moreover have "e = - 1" using e by (simp add: INVALID_INDEX_def)
  then have "lr_capacity m \<le> e" using word_n1_ge by metis
  ultimately show False by simp
qed

lemma found_entry:
  assumes g: "lru_good m es fs" and f: "put_found m k raw ow = Some b" and old: "hkey (hnode m b) \<noteq> 0"
  obtains xs e ys where "es = xs @ e # ys" "hnode m b = \<lparr>hkey = k, hindex = e, hraw = raw\<rparr>"
    "lbucket (node m e) = b" "lkey (node m e) = k" "e \<noteq> lr_head m" "unat e < length (lr_list m)"
    "e \<notin> set (xs @ ys)"
proof -
  note L = lru_goodD(1)[OF g] and H = lru_hashD[OF lru_goodD(2)[OF g]]
  note b = put_bucket_found(2)[OF g f]
  have key: "hkey (hnode m b) = k" "hraw (hnode m b) = raw"
    using find_Some_mem[OF f[unfolded put_found_def]] old by auto
  define e where "e = hindex (hnode m b)"
  have e: "e \<in> set es" "lbucket (node m e) = b" using H(8,9)[OF b old] by (simp_all add: e_def)
  then obtain xs ys where "es = xs @ e # ys" by (auto simp: in_set_conv_decomp)
  moreover have "hnode m b = \<lparr>hkey = k, hindex = e, hraw = raw\<rparr>" using key e_def by (cases "hnode m b") auto
  moreover have "lkey (node m e) = k" using H(5)[OF e(1)] e(2) key by simp
  ultimately show thesis
    using that[of xs e ys] e(2) lru_listD(3)[OF L] lru_list_in[OF L] e(1) by auto
qed

lemma put_into_old:
  assumes g: "lru_good m es fs" and f: "put_found m k raw ow = Some b"
    and hb: "hnode m b = \<lparr>hkey = k, hindex = e, hraw = raw\<rparr>" and ek: "lkey (node m e) = k"
    and e: "e \<noteq> lr_head m" "unat e < length (lr_list m)" "e \<noteq> INVALID_INDEX"
  shows "lru_put m k v raw ow = andthen (read_adjust (rewritten m e b k raw v) e) (\<lambda>m. Ok (m, 0))"
proof -
  note B = put_bucket_found[OF g f]
  define m1 where "m1 = set_hash m b (\<lambda>h. h\<lparr>hkey := k, hraw := raw\<rparr>)"
  define m1' where "m1' = set_hash m1 b (\<lambda>h. h\<lparr>hindex := e\<rparr>)"
  note ms = m1_def m1'_def
  have 1: "set_hnode m b (\<lambda>h. h\<lparr>hkey := k, hraw := raw\<rparr>) = Ok m1"
    using B(4) by (simp add: set_hnode_ok ms)
  have 2: "rd (lr_hash m1) (unat b) = Ok (hnode m1 b)"
    by (rule rd_hash) (use B(4) in \<open>simp add: ms\<close>)
  have 3: "hindex (hnode m1 b) = e" using B(4) hb by (simp add: ms)
  have 4: "lnode m1 e = Ok (node m e)" using e(2) by (simp add: lnode_ok ms)
  have 5: "set_hnode m1 b (\<lambda>h. h\<lparr>hindex := e\<rparr>) = Ok m1'" using B(4) by (simp add: set_hnode_ok ms)
  have 6: "set_lnode m1' e (\<lambda>n. n\<lparr>lkey := k, lv := v, lbucket := b\<rparr>) = Ok (rewritten m e b k raw v)"
    using e(2) by (simp add: set_lnode_ok ms rewritten_def)
  have 7: "lr_head (rewritten m e b k raw v) = lr_head m" by (simp add: rewritten_def)
  show ?thesis
    by (simp only: lru_put_def B(1,3) andthen_simps Let_def if_True if_False 1 2 3 4 5 6 7 ek e(1,3) simp_thms)
qed

lemma lru_put_old:
  assumes g: "lru_good m es fs" and k: "k \<noteq> 0" and f: "put_found m k raw ow = Some b"
    and old: "hkey (hnode m b) \<noteq> 0"
  shows "\<exists>m' xs e ys. lru_put m k v raw ow = Ok (m', 0) \<and> es = xs @ e # ys \<and>
     lru_entry m e = (k, raw, lv (node m e)) \<and> put_after m m' b k raw v (map (lru_entry m) (xs @ ys))"
proof -
  note L = lru_goodD(1)[OF g] and len = put_bucket_found(4)[OF g f]
  obtain xs e ys where es: "es = xs @ e # ys" and hb: "hnode m b = \<lparr>hkey = k, hindex = e, hraw = raw\<rparr>"
    and e: "lbucket (node m e) = b" "lkey (node m e) = k" "e \<noteq> lr_head m" "unat e < length (lr_list m)"
    and ne: "e \<notin> set (xs @ ys)"
    by (rule found_entry[OF g f old])
  define m2 where "m2 = rewritten m e b k raw v"
  have "e \<noteq> INVALID_INDEX" using index_valid[OF L] es by simp
  then have put: "lru_put m k v raw ow = andthen (read_adjust m2 e) (\<lambda>m. Ok (m, 0))"
    unfolding m2_def by (rule put_into_old[OF g f hb e(2-4)])
  have M: "node m2 = (node m)(e := (node m e)\<lparr>lkey := k, lv := v, lbucket := b\<rparr>)" "hnode m2 = hnode m"
    "lr_head m2 = lr_head m" "lr_tail m2 = lr_tail m" "lr_hash_size m2 = lr_hash_size m"
    "lr_capacity m2 = lr_capacity m" "lr_max_probing m2 = lr_max_probing m"
    "length (lr_list m2) = length (lr_list m)" "length (lr_hash m2) = length (lr_hash m)"
    using len e(4) hb by (simp_all add: m2_def rewritten_def fun_upd_idem)
  have links: "(\<lambda>i. lnext (node m2 i)) = (\<lambda>i. lnext (node m i))"
    "(\<lambda>i. llast (node m2 i)) = (\<lambda>i. llast (node m i))"
    by (simp_all add: M fun_eq_iff)
  have "lru_list m2 es fs" using lru_listD[OF L] unfolding lru_list_def links by (simp add: M)
  moreover have "lru_hash m2 es" using lru_goodD(2)[OF g] e(1,2) unfolding lru_hash_def M by auto
  ultimately have g2: "lru_good m2 (xs @ e # ys) fs"
    using lru_goodD(3)[OF g] es by (simp add: lru_good_def probes_def M)
  obtain m' where m': "read_adjust m2 e = Ok m'" "lru_good m' (xs @ ys @ [e]) fs" "hnode m' = hnode m2"
    "\<forall>j. lru_entry m' j = lru_entry m2 j" "\<forall>k. slots m' k = slots m2 k" "lr_capacity m' = lr_capacity m2"
    using read_adjust_good[OF g2] by blast
  have ent: "lru_entry m2 j = (if j = e then (k, raw, v) else lru_entry m j)" for j
    using hb by (simp add: lru_entry_def M)
  have "map (lru_entry m') (xs @ ys @ [e]) = map (lru_entry m) (xs @ ys) @ [(k, raw, v)]"
    using m'(4) ent ne by auto
  moreover have "\<forall>k. slots m' k = slots m k" using m'(5) by (simp add: slots_def probes_def slot_def M fun_eq_iff)
  ultimately have "put_after m m' b k raw v (map (lru_entry m) (xs @ ys))"
    unfolding put_after_def using m'(2,3,6) M hb
    by (intro conjI exI[of _ "xs @ ys @ [e]"] exI[of _ fs]) auto
  moreover have "lru_entry m e = (k, raw, lv (node m e))" using e(1,2) hb by (simp add: lru_entry_def)
  ultimately show ?thesis using put m'(1) es by auto
qed

lemma lru_put_full:
  assumes "lru_good m es fs" and "put_found m k raw ow = None"
  shows "lru_put m k v raw ow = Ok (m, - 1)"
  using assms(2) by (simp add: lru_put_def put_bucket_good[OF assms(1)] put_found_def[symmetric])

text \<open>The entries in order of use, and what the operations do to them.\<close>

definition lru_rel :: "'v lru \<Rightarrow> (u64 \<times> string \<times> 'v option) list \<Rightarrow> bool" where
  "lru_rel m xs \<longleftrightarrow> (\<exists>es fs. lru_good m es fs \<and> map (lru_entry m) es = xs)"

lemma lru_rel_length: "lru_rel m xs \<Longrightarrow> Suc (length xs) \<le> unat (lr_capacity m)"
  using lru_list_length[OF lru_goodD(1)] by (fastforce simp: lru_rel_def)

lemma put_after_rel: "put_after m m' b k raw v xs \<Longrightarrow> lru_rel m' (xs @ [(k, raw, v)])"
  by (auto simp: put_after_def lru_rel_def)

text \<open>The outcomes of \<^verbatim>\<open>put\<close>: no bucket, a new entry, or an entry written again.\<close>

lemma lru_put_cases:
  assumes "lru_rel m xs" and "k \<noteq> 0"
  obtains "lru_put m k v raw ow = Ok (m, - 1)" "put_found m k raw ow = None"
  | m' b ys where "lru_put m k v raw ow = Ok (m', 0)" "put_found m k raw ow = Some b"
      "put_after m m' b k raw v ys"
      "ys = xs \<and> Suc (length xs) < unat (lr_capacity m) \<or>
       ys = tl xs \<and> Suc (length xs) = unat (lr_capacity m) \<or>
       (\<exists>us w vs. xs = us @ (k, raw, w) # vs \<and> ys = us @ vs)"
proof -
  obtain es fs where g: "lru_good m es fs" and xs: "map (lru_entry m) es = xs"
    using assms(1) by (auto simp: lru_rel_def)
  have len: "Suc (length xs + length fs) = unat (lr_capacity m)"
    using lru_list_length[OF lru_goodD(1)[OF g]] xs by auto
  show thesis
  proof (cases "put_found m k raw ow")
    case None
    then show thesis using lru_put_full[OF g] that(1) by blast
  next
    case (Some b)
    show thesis
    proof (cases "hkey (hnode m b) = 0")
      case True
      obtain m' where "lru_put m k v raw ow = Ok (m', 0)"
        "put_after m m' b k raw v (map (lru_entry m) (if fs = [] then tl es else es))"
        using lru_put_new[OF g assms(2) Some True] by blast
      then show thesis using that(2)[OF _ Some] len xs by (cases fs) (auto simp: map_tl)
    next
      case False
      obtain m' us e vs where "lru_put m k v raw ow = Ok (m', 0)" "es = us @ e # vs"
        "lru_entry m e = (k, raw, lv (node m e))" "put_after m m' b k raw v (map (lru_entry m) (us @ vs))"
        using lru_put_old[OF g assms(2) Some False] by blast
      then show thesis using that(2)[OF _ Some] xs by force
    qed
  qed
qed

lemma lru_get_cases:
  assumes "lru_rel m xs" and "k \<noteq> 0"
  obtains "lru_get m k raw = Ok (m, None)"
  | m' us w vs where "lru_get m k raw = Ok (m', w)" "xs = us @ (k, raw, w) # vs"
      "lru_rel m' (us @ vs @ [(k, raw, w)])" "lr_capacity m' = lr_capacity m"
      "\<forall>k. slots m' k = slots m k"
proof -
  obtain es fs where g: "lru_good m es fs" and xs: "map (lru_entry m) es = xs"
    using assms(1) by (auto simp: lru_rel_def)
  note H = lru_hashD[OF lru_goodD(2)[OF g]]
  show thesis
  proof (cases "find (\<lambda>p. hkey (hnode m p) = k \<and> hraw (hnode m p) = raw) (slots m k)")
    case None
    then show thesis using lru_get_good[OF g assms(2), of raw] that(1) by simp
  next
    case (Some b)
    then obtain m' us e vs where r: "es = us @ e # vs" "lbucket (node m e) = b"
      "lru_get m k raw = Ok (m', lv (node m e))" "lru_good m' (us @ vs @ [e]) fs"
      "\<forall>j. lru_entry m' j = lru_entry m j" "lr_capacity m' = lr_capacity m" "\<forall>k. slots m' k = slots m k"
      using lru_get_good[OF g assms(2), of raw] by auto
    have "e \<in> set es" using r(1) by simp
    then have ent: "lru_entry m e = (k, raw, lv (node m e))"
      using H(5)[of e] find_Some_mem[OF Some] r(2) by (simp add: lru_entry_def)
    have "lru_rel m' (map (lru_entry m) (us @ vs @ [e]))"
      unfolding lru_rel_def using r(4,5)
      by (intro exI[of _ "us @ vs @ [e]"] exI[of _ fs]) simp
    then show thesis using that(2)[OF r(3), of "map (lru_entry m) us" "map (lru_entry m) vs"] r(1,6,7) xs ent
      by auto
  qed
qed

section \<open>The constructor\<close>

definition lru_raw :: "'v lru" where
  "lru_raw = \<lparr>lr_hash = [], lr_list = [], lr_head = 0, lr_tail = 0, lr_hash_size = 0,
     lr_capacity = 0, lr_max_probing = 0\<rparr>"

lemma bit_pos_loop_less: "unat v < 2 ^ Suc n \<Longrightarrow> bit_pos_loop v r \<le> r + n"
proof (induction n arbitrary: v r)
  case 0
  then have "unat v div 2 = 0" by simp
  then have "drop_bit 1 v = 0" by (simp add: drop_bit_Suc word_unat_eq_iff unat_div)
  then show ?case by (simp add: bit_pos_loop.simps[of v])
next
  case (Suc n)
  have "unat (drop_bit 1 v) < 2 ^ Suc n" using Suc.prems by (simp add: drop_bit_Suc unat_div)
  from Suc.IH[OF this, of "Suc r"] show ?case by (simp add: bit_pos_loop.simps[of v] Let_def)
qed

lemma link_loop_ok:
  assumes "\<forall>i\<in>set is. unat i < length xs"
  shows "\<exists>ys. link_loop xs is = Ok ys \<and> length ys = length xs \<and>
     (\<forall>j. ys ! unat j = (if j \<in> set is then (xs ! unat j)\<lparr>lnext := j + 1, llast := j - 1\<rparr> else xs ! unat j))"
  using assms
proof (induction "is" arbitrary: xs)
  case (Cons i "is")
  let ?xs = "xs[unat i := (xs ! unat i)\<lparr>lnext := i + 1, llast := i - 1\<rparr>]"
  have "upd xs i (\<lambda>n. n\<lparr>lnext := i + 1, llast := i - 1\<rparr>) = Ok ?xs" using Cons.prems by (simp add: upd_def)
  moreover obtain ys where "link_loop ?xs is = Ok ys" "length ys = length ?xs"
    "\<forall>j. ys ! unat j = (if j \<in> set is then (?xs ! unat j)\<lparr>lnext := j + 1, llast := j - 1\<rparr> else ?xs ! unat j)"
    using Cons.IH[of ?xs] Cons.prems by auto
  ultimately show ?case
    using Cons.prems by (auto simp: nth_list_update word_unat_eq_iff[symmetric])
qed simp

lemma seg_upt:
  assumes "\<And>i. a \<le> i \<Longrightarrow> Suc i < b \<Longrightarrow> nx (f i) = f (Suc i) \<and> ls (f (Suc i)) = f i"
  shows "seg nx ls (map f [a..<b])"
  using assms
proof (induction "b - a" arbitrary: a)
  case (Suc n)
  show ?case
  proof (cases "Suc a < b")
    case True
    have "seg nx ls (map f [Suc a..<b])" using Suc.hyps(1)[of "Suc a"] Suc.hyps(2) Suc.prems by simp
    moreover have "[a..<b] = a # Suc a # [Suc (Suc a)..<b]" "[Suc a..<b] = Suc a # [Suc (Suc a)..<b]"
      using True by (simp_all add: upt_rec)
    ultimately show ?thesis using Suc.prems[of a] True by simp
  next
    case False
    then have "[a..<b] = [a]" using Suc.hyps(2) by (simp add: upt_rec)
    then show ?thesis by simp
  qed
qed simp

lemma of_nat_below:
  assumes "i < unat (n :: u32)"
  shows "unat (of_nat i :: u32) = i"
proof -
  have "unat n < 2 ^ 32" by (rule order_less_le_trans[OF unsigned_less]) simp
  then show ?thesis using assms by (simp add: unat_of_nat take_bit_nat_eq_self)
qed

lemma below_eq: "{i. i < n} = of_nat ` {..<unat (n :: u32)}"
proof
  show "{i. i < n} \<subseteq> of_nat ` {..<unat n}"
  proof
    fix i assume "i \<in> {i. i < n}"
    then have "unat i \<in> {..<unat n}" by (simp add: word_less_nat_alt)
    then show "i \<in> of_nat ` {..<unat n}" by (rule rev_image_eqI) simp
  qed
qed (auto simp: word_less_nat_alt of_nat_below)

text \<open>The steps of \<^verbatim>\<open>init\<close>: the size of the hash table, and the nodes linked to a ring.\<close>

lemma hash_size_fits:
  fixes cap :: u32
  assumes "unat cap < 2 ^ 30"
  obtains hs where "to_uint32 (2 ^ (get_bit_pos (cap * 2) + 1)) = Ok hs" "hs \<noteq> 0"
    "unat hs = 2 ^ (get_bit_pos (cap * 2) + 1)"
proof -
  define p where "p = get_bit_pos (cap * 2) + 1"
  have "unat (cap * 2) < 2 ^ Suc 30" using assms by (simp add: unat_word_ariths mod_less_eq_dividend le_less_trans)
  then have "get_bit_pos (cap * 2) \<le> 30" using bit_pos_loop_less[of "cap * 2" 30 0] by (simp add: get_bit_pos_def)
  then have "(2 :: nat) ^ p \<le> 2 ^ 31" by (intro power_increasing) (simp_all add: p_def)
  then have p: "(2 :: nat) ^ p < 2 ^ 32" by simp
  then have u: "unat (of_nat (2 ^ p) :: u32) = 2 ^ p" by (simp add: unat_of_nat take_bit_nat_eq_self del: of_nat_power)
  have "(of_nat (2 ^ p) :: u32) \<noteq> 0" using u by (metis power_not_zero unat_0 zero_neq_numeral)
  then show thesis using p u unfolding p_def
    by (intro that[of "of_nat (2 ^ (get_bit_pos (cap * 2) + 1))"]) (simp_all add: to_uint32_def del: of_nat_power)
qed

lemma inner_positions:
  fixes cap j :: u32
  assumes "2 \<le> unat cap"
  shows "j \<in> set (map of_nat [1..<unat (cap - 1)]) \<longleftrightarrow> 1 \<le> unat j \<and> Suc (unat j) < unat cap"
proof -
  have c1: "unat (cap - 1) = unat cap - 1" using assms by (simp add: unat_sub word_le_nat_alt)
  show ?thesis
  proof
    assume "j \<in> set (map of_nat [1..<unat (cap - 1)])"
    then obtain i where "j = of_nat i" "1 \<le> i" "i < unat cap - 1" using c1 by auto
    moreover from this have "unat j = i" using of_nat_below[of i cap] by simp
    ultimately show "1 \<le> unat j \<and> Suc (unat j) < unat cap" by simp
  next
    assume "1 \<le> unat j \<and> Suc (unat j) < unat cap"
    then have "1 \<le> unat j" "unat j < unat cap - 1" by linarith+
    then have "unat j \<in> set [1..<unat (cap - 1)]" using c1 by simp
    then show "j \<in> set (map of_nat [1..<unat (cap - 1)])" unfolding set_map by (rule rev_image_eqI) simp
  qed
qed

text \<open>The link fields of a ring of \<open>cap\<close> nodes in the order of their positions.\<close>

definition ring_fields :: "u32 \<Rightarrow> (u32 \<Rightarrow> u32) \<Rightarrow> (u32 \<Rightarrow> u32) \<Rightarrow> bool" where
  "ring_fields cap nx ls \<longleftrightarrow> (\<forall>j. unat j < unat cap \<longrightarrow>
     nx j = (if unat j = unat cap - 1 then 0 else j + 1) \<and> ls j = (if j = 0 then cap - 1 else j - 1))"

lemma init_nodes:
  fixes cap :: u32
  assumes cap: "2 \<le> unat cap"
  obtains xs1 xs2 xs3 :: "'v list_node list" where
    "upd (replicate (unat cap) list_node_new) 0 (\<lambda>n. n\<lparr>lnext := 1, llast := cap - 1\<rparr>) = Ok xs1"
    "link_loop xs1 (map of_nat [1..<unat (cap - 1)]) = Ok xs2"
    "upd xs2 (cap - 1) (\<lambda>n. n\<lparr>lnext := 0, llast := cap - 2\<rparr>) = Ok xs3" "length xs3 = unat cap"
    "ring_fields cap (\<lambda>j. lnext (xs3 ! unat j)) (\<lambda>j. llast (xs3 ! unat j))"
proof -
  let ?n = "unat cap" and ?is = "map of_nat [1..<unat (cap - 1)] :: u32 list"
  have c1: "unat (cap - 1) = ?n - 1" using cap by (simp add: unat_sub word_le_nat_alt)
  note mem = inner_positions[OF cap]
  define xs1 :: "'v list_node list"
    where "xs1 = (replicate ?n list_node_new)[0 := list_node_new\<lparr>lnext := 1, llast := cap - 1\<rparr>]"
  have "\<forall>i\<in>set ?is. unat i < length xs1" using mem by (simp add: xs1_def)
  from link_loop_ok[OF this] obtain xs2 where 2: "link_loop xs1 ?is = Ok xs2" "length xs2 = ?n"
    "\<forall>j. xs2 ! unat j = (if j \<in> set ?is then (xs1 ! unat j)\<lparr>lnext := j + 1, llast := j - 1\<rparr> else xs1 ! unat j)"
    by (auto simp: xs1_def)
  define xs3 where "xs3 = xs2[?n - 1 := (xs2 ! (?n - 1))\<lparr>lnext := 0, llast := cap - 2\<rparr>]"
  have "lnext (xs3 ! unat j) = (if unat j = ?n - 1 then 0 else j + 1) \<and>
      llast (xs3 ! unat j) = (if j = 0 then cap - 1 else j - 1)" if jn: "unat j < ?n" for j
  proof -
    consider "j = 0" | "unat j = ?n - 1" "j \<noteq> 0" | "j \<in> set ?is"
      using mem[of j] jn cap by (cases "unat j") (auto simp: unat_eq_zero, linarith)
    then show ?thesis
    proof cases
      case 1
      then have "j \<notin> set ?is" using mem[of j] by simp
      then have "xs2 ! unat j = xs1 ! unat j" using 2(3) by (simp only: if_False)
      then show ?thesis using 1 cap 2(2) by (simp add: xs3_def xs1_def)
    next
      case j: 2
      then have "j = cap - 1" using c1 by (simp add: word_unat_eq_iff)
      then have "cap - 2 = j - 1" by auto
      then show ?thesis using j 2(2) cap by (simp add: xs3_def)
    next
      case j: 3
      then have "j \<noteq> 0" "unat j \<noteq> ?n - 1" using mem[of j] by auto
      moreover have "xs2 ! unat j = (xs1 ! unat j)\<lparr>lnext := j + 1, llast := j - 1\<rparr>" using 2(3) j by simp
      ultimately show ?thesis by (simp add: xs3_def)
    qed
  qed
  moreover have "upd (replicate ?n list_node_new) 0 (\<lambda>n. n\<lparr>lnext := 1, llast := cap - 1\<rparr>) = Ok xs1"
    "upd xs2 (cap - 1) (\<lambda>n. n\<lparr>lnext := 0, llast := cap - 2\<rparr>) = Ok xs3" "length xs3 = ?n"
    using cap 2(2) c1 by (simp_all add: upd_def xs1_def xs3_def)
  ultimately show thesis using 2(1) by (intro that[of xs1 xs2 xs3]) (simp_all add: ring_fields_def)
qed

lemma init_ring:
  fixes cap :: u32
  assumes cap: "2 \<le> unat cap" and fields: "ring_fields cap nx ls"
  shows "ring nx ls (map of_nat [0..<unat cap])"
proof -
  let ?n = "unat cap" and ?cyc = "map of_nat [0..<unat cap] :: u32 list"
  note fld = fields[unfolded ring_fields_def, rule_format]
  have hd0: "hd ?cyc = 0" using cap by (simp add: upt_rec)
  have "seg nx ls ?cyc"
  proof (rule seg_upt)
    fix i assume i: "0 \<le> i" "Suc i < ?n"
    have u: "unat (of_nat i :: u32) = i" "unat (of_nat (Suc i) :: u32) = Suc i"
      using of_nat_below[of i cap] of_nat_below[of "Suc i" cap] i by (simp_all del: of_nat_Suc)
    then have "(of_nat (Suc i) :: u32) \<noteq> 0" by (metis Zero_not_Suc unat_0)
    moreover have "i \<noteq> ?n - 1" using i by simp
    moreover have "(of_nat i :: u32) + 1 = of_nat (Suc i)" "(of_nat (Suc i) :: u32) - 1 = of_nat i" by simp_all
    ultimately show "nx (of_nat i) = of_nat (Suc i) \<and> ls (of_nat (Suc i)) = of_nat i"
      using fld[of "of_nat i"] fld[of "of_nat (Suc i)"] i u by (simp only: if_False simp_thms)
  qed
  moreover obtain n where n: "?n = Suc n" using cap by (cases ?n) auto
  moreover have "nx (of_nat n) = 0" "ls 0 = of_nat n"
    using fld[of "of_nat n"] fld[of 0] of_nat_below[of n cap] n cap
    by (auto simp: word_unat_eq_iff unat_sub word_le_nat_alt)
  ultimately show ?thesis
    unfolding ring_def hd0 using seg_split[of _ _ "map of_nat [0..<n] :: u32 list" "of_nat n" "[0]"] by simp
qed

lemma lru_init_rel:
  assumes cap: "2 \<le> unat cap" "unat cap < 2 ^ 30" and pr: "unat max_probing \<le> max_rounds"
  shows "\<exists>m. lru_init lru_raw True True cap max_probing = Ok (m, 0) \<and> lru_rel m [] \<and>
     lr_capacity m = cap \<and> lr_max_probing m = max_probing \<and> lr_hash_size m \<noteq> 0 \<and>
     unat (lr_hash_size m) = 2 ^ (get_bit_pos (cap * 2) + 1) \<and>
     (\<forall>b<lr_hash_size m. lr_hash m ! unat b = hash_node_new)"
proof -
  let ?n = "unat cap" and ?cyc = "map of_nat [0..<unat cap] :: u32 list"
  obtain hs where hs: "to_uint32 (2 ^ (get_bit_pos (cap * 2) + 1)) = Ok hs" "hs \<noteq> 0"
    "unat hs = 2 ^ (get_bit_pos (cap * 2) + 1)"
    by (rule hash_size_fits[OF cap(2)])
  obtain xs1 xs2 xs3 :: "'a list_node list" where
    xs: "upd (replicate ?n list_node_new) 0 (\<lambda>n. n\<lparr>lnext := 1, llast := cap - 1\<rparr>) = Ok xs1"
    "link_loop xs1 (map of_nat [1..<unat (cap - 1)]) = Ok xs2"
    "upd xs2 (cap - 1) (\<lambda>n. n\<lparr>lnext := 0, llast := cap - 2\<rparr>) = Ok xs3" "length xs3 = ?n"
    and fields: "ring_fields cap (\<lambda>j. lnext (xs3 ! unat j)) (\<lambda>j. llast (xs3 ! unat j))"
    by (rule init_nodes[OF cap(1)])
  define m where "m = \<lparr>lr_hash = replicate (unat hs) hash_node_new, lr_list = xs3, lr_head = 0,
     lr_tail = 0, lr_hash_size = hs, lr_capacity = cap, lr_max_probing = max_probing\<rparr>"
  have init: "lru_init lru_raw True True cap max_probing = Ok (m, 0)"
    using hs(1) xs by (simp add: lru_init_def lru_raw_def Let_def m_def)
  have cyc: "?cyc = 0 # map of_nat [1..<?n]" using cap(1) by (simp add: upt_rec)
  have "ring (\<lambda>i. lnext (node m i)) (\<lambda>i. llast (node m i)) ?cyc"
    using init_ring[OF cap(1) fields] by (simp add: node_def m_def)
  moreover have "distinct ?cyc"
    unfolding distinct_map by (auto intro!: inj_onI dest: arg_cong[of _ _ unat] simp: of_nat_below[of _ cap])
  moreover have "set ?cyc = {i. i < cap}" by (simp add: below_eq atLeast0LessThan)
  ultimately have "lru_list m [] (map of_nat [1..<?n])" using cap(1) cyc xs(4) by (simp add: lru_list_def m_def)
  moreover have hn: "hnode m b = hash_node_new" if "b < hs" for b
    using that by (simp add: hnode_def m_def word_less_nat_alt)
  then have "lru_hash m []" using hs(2) by (simp add: lru_hash_def m_def hash_node_new_def)
  moreover have "probes m \<le> max_rounds" using pr by (simp add: probes_def m_def)
  ultimately have "lru_good m [] (map of_nat [1..<?n])" by (simp add: lru_good_def)
  then have "lru_rel m []" by (auto simp: lru_rel_def)
  then show ?thesis using init hs(2,3) hn by (auto simp: m_def hnode_def)
qed

section \<open>The properties\<close>

datatype 'v lru_op = Lru_Put u64 "'v option" string bool | Lru_Get u64 string

fun op_key :: "'v lru_op \<Rightarrow> u64" where
  "op_key (Lru_Put k v raw ow) = k"
| "op_key (Lru_Get k raw) = k"

fun lru_run :: "'v lru \<Rightarrow> 'v lru_op list \<Rightarrow> 'v lru result" where
  "lru_run m [] = Ok m"
| "lru_run m (Lru_Put k v raw ow # ops) = andthen (lru_put m k v raw ow) (\<lambda>(m, _). lru_run m ops)"
| "lru_run m (Lru_Get k raw # ops) = andthen (lru_get m k raw) (\<lambda>(m, _). lru_run m ops)"

lemma lru_run_rel:
  "lru_rel m xs \<Longrightarrow> \<forall>op\<in>set ops. op_key op \<noteq> 0 \<Longrightarrow>
     \<exists>m' xs'. lru_run m ops = Ok m' \<and> lru_rel m' xs' \<and> lr_capacity m' = lr_capacity m \<and>
       (\<forall>k. slots m' k = slots m k)"
proof (induction ops arbitrary: m xs)
  case (Cons op ops)
  have "\<exists>m1 xs1. lru_run m (op # ops) = lru_run m1 ops \<and> lru_rel m1 xs1 \<and> lr_capacity m1 = lr_capacity m \<and>
      (\<forall>k. slots m1 k = slots m k)"
  proof (cases op)
    case (Lru_Put k v raw ow)
    then have "k \<noteq> 0" using Cons.prems(2) by auto
    then show ?thesis
    proof (rule lru_put_cases[OF Cons.prems(1)])
      assume "lru_put m k v raw ow = Ok (m, - 1)"
      then show ?thesis using Lru_Put Cons.prems(1) by auto
    next
      fix m' b ys assume p: "lru_put m k v raw ow = Ok (m', 0)" "put_after m m' b k raw v ys"
      have "lr_capacity m' = lr_capacity m" "\<forall>k. slots m' k = slots m k"
        using p(2) by (simp_all add: put_after_def)
      then show ?thesis using Lru_Put p(1) put_after_rel[OF p(2)]
        by (intro exI[of _ m'] exI[of _ "ys @ [(k, raw, v)]"]) simp
    qed
  next
    case (Lru_Get k raw)
    then have "k \<noteq> 0" using Cons.prems(2) by auto
    then show ?thesis
    proof (rule lru_get_cases[OF Cons.prems(1)])
      assume "lru_get m k raw = Ok (m, None)"
      then show ?thesis using Lru_Get Cons.prems(1) by auto
    next
      fix m' us w vs assume "lru_get m k raw = Ok (m', w)" "lru_rel m' (us @ vs @ [(k, raw, w)])"
        "lr_capacity m' = lr_capacity m" "\<forall>k. slots m' k = slots m k"
      then show ?thesis using Lru_Get by auto
    qed
  qed
  then obtain m1 xs1 where 1: "lru_run m (op # ops) = lru_run m1 ops" "lru_rel m1 xs1"
    "lr_capacity m1 = lr_capacity m" "\<forall>k. slots m1 k = slots m k" by blast
  from Cons.IH[OF 1(2)] Cons.prems(2) 1 show ?case by auto
qed auto

lemma debug_loop_suffix:
  assumes "lru_good m (xs @ ys) fs"
  shows "debug_loop m (hd (ys @ [lr_head m])) out = Some (Ok (out @ map (\<lambda>e. lkey (node m e)) ys, 0))"
  using assms
proof (induction ys arbitrary: xs out)
  case Nil
  then show ?case by (simp add: debug_loop.simps)
next
  case (Cons y ys)
  note L = lru_goodD(1)[OF Cons.prems]
  have "y \<noteq> lr_head m" using lru_listD(3)[OF L] by auto
  moreover have "unat y < length (lr_list m)" using lru_list_in[OF L] by simp
  moreover have "ring (\<lambda>i. lnext (node m i)) (\<lambda>i. llast (node m i)) (xs @ (y # ys @ lr_head m # fs))"
    using lru_listD(6)[OF L] by simp
  then have "ring (\<lambda>i. lnext (node m i)) (\<lambda>i. llast (node m i)) (y # ys @ lr_head m # fs @ xs)"
    unfolding ring_rotate[of _ _ xs] by simp
  from ring_next(1)[OF this] have "lnext (node m y) = hd (ys @ [lr_head m])" by (cases ys) simp_all
  moreover have "lru_good m ((xs @ [y]) @ ys) fs" using Cons.prems by simp
  ultimately show ?case using Cons.IH[of "xs @ [y]" "out @ [lkey (node m y)]"]
    by (simp add: debug_loop.simps[of m y] lnode_ok)
qed

lemma debug_print_rel:
  assumes "lru_rel m xs"
  shows "debug_print m = Some (Ok (map fst xs, 0))"
proof -
  obtain es fs where g: "lru_good m es fs" "map (lru_entry m) es = xs" using assms by (auto simp: lru_rel_def)
  have "map fst xs = map (\<lambda>e. lkey (node m e)) es" using g(2) by (auto simp: lru_entry_def)
  then show ?thesis
    using debug_loop_suffix[of m "[]" es fs "[]"] g(1) lru_listD(5)[OF lru_goodD(1)[OF g(1)]]
    by (simp add: debug_print_def)
qed

lemma slots_first:
  assumes "lr_hash_size m \<noteq> 0" and "lr_max_probing m \<noteq> 0"
  shows "\<exists>s ss. slots m k = s # ss \<and> s < lr_hash_size m"
proof -
  have "probes m \<noteq> 0" using assms by (simp add: probes_def unat_gt_0)
  then have "slots m k \<noteq> []" by (simp add: slots_def)
  then show ?thesis using slots_less[OF assms(1)] by (metis list.exhaust list.set_intros(1))
qed

lemma fresh_put:
  "\<exists>m m2 m3 :: nat lru. lru_init lru_raw True True 2 10 = Ok (m, 0) \<and> lru_rel m [] \<and>
     lru_put m 5 (Some 50) ''r'' True = Ok (m2, 0) \<and> lru_rel m2 [(5, ''r'', Some 50)] \<and>
     lru_get m2 5 ''r'' = Ok (m3, Some 50)"
proof -
  obtain m :: "nat lru" where i: "lru_init lru_raw True True 2 10 = Ok (m, 0)" and rel: "lru_rel m []"
    and fresh: "lr_hash_size m \<noteq> 0" "\<forall>b<lr_hash_size m. lr_hash m ! unat b = hash_node_new"
    and pr: "lr_max_probing m = 10"
    using lru_init_rel[of 2 10] by (auto simp: max_rounds_def)
  have "lr_max_probing m \<noteq> 0" using pr by simp
  from slots_first[OF fresh(1) this] obtain s ss where s: "slots m 5 = s # ss" "s < lr_hash_size m"
    by blast
  then have h: "hkey (hnode m s) = 0" using fresh(2) by (simp add: hnode_def hash_node_new_def)
  have f: "put_found m 5 ''r'' True = Some s" using s(1) h by (simp add: put_found_def)
  obtain es fs where g: "lru_good m es fs" "es = []" using rel by (auto simp: lru_rel_def)
  obtain m2 where p: "lru_put m 5 (Some 50) ''r'' True = Ok (m2, 0)"
    "put_after m m2 s 5 ''r'' (Some 50) []"
    using lru_put_new[OF g(1) _ f h, of "Some 50"] g(2) by (cases "fs = []") auto
  obtain es' fs' where g2: "lru_good m2 es' fs'" "map (lru_entry m2) es' = [(5, ''r'', Some 50)]"
    "hnode m2 s = \<lparr>hkey = 5, hindex = last es', hraw = ''r''\<rparr>"
    using p(2) by (auto simp: put_after_def)
  have "slots m2 5 = s # ss" using p(2) s(1) by (simp add: put_after_def)
  then have "find (\<lambda>p. hkey (hnode m2 p) = 5 \<and> hraw (hnode m2 p) = ''r'') (slots m2 5) = Some s"
    using g2(3) by simp
  then obtain m3 where "lru_get m2 5 ''r'' = Ok (m3, lv (node m2 (last es')))"
    using lru_get_good[OF g2(1), of 5 "''r''"] g2(3) by auto
  moreover have "lv (node m2 (last es')) = Some 50" using g2(2) by (cases es') (auto simp: lru_entry_def)
  ultimately show ?thesis using i rel p put_after_rel[OF p(2)] by auto
qed

text \<open>
  C23. Safety of the cache: after \<^verbatim>\<open>init\<close> with a capacity from 2 to \<open>2 ^ 30 - 1\<close>, any
  sequence of \<^verbatim>\<open>put\<close> and \<^verbatim>\<open>get\<close> calls with keys other than 0 stays inside both arrays, and
  the list from \<^verbatim>\<open>_tail\<close> to \<^verbatim>\<open>_head\<close> remains a list: \<^verbatim>\<open>debug_print\<close> ends. It prints at
  most \<open>capacity - 1\<close> keys, so a cache of capacity \<open>n\<close> holds \<open>n - 1\<close> entries.
\<close>

theorem lru_cache_safe:
  assumes "2 \<le> unat cap" and "unat cap < 2 ^ 30" and "unat max_probing \<le> max_rounds"
    and "\<forall>op\<in>set ops. op_key op \<noteq> 0"
  shows "\<exists>m m' keys. lru_init lru_raw True True cap max_probing = Ok (m, 0) \<and>
     lru_run m ops = Ok m' \<and> debug_print m' = Some (Ok (keys, 0)) \<and> length keys < unat cap"
proof -
  obtain m :: "'a lru" where m: "lru_init lru_raw True True cap max_probing = Ok (m, 0)" "lru_rel m []"
    "lr_capacity m = cap"
    using lru_init_rel[OF assms(1-3)] by blast
  obtain m' xs where m': "lru_run m ops = Ok m'" "lru_rel m' xs" "lr_capacity m' = lr_capacity m"
    using lru_run_rel[OF m(2) assms(4)] by blast
  then show ?thesis using m debug_print_rel[OF m'(2)] lru_rel_length[OF m'(2)] by fastforce
qed

theorem lru_cache_safe_witness:
  "\<exists>m m' keys. lru_init lru_raw True True 3 10 = Ok (m, 0) \<and>
     lru_run m [Lru_Put 1 (Some (10 :: nat)) '''' True, Lru_Put 2 (Some 20) '''' True, Lru_Get 1 '''',
       Lru_Put 3 (Some 30) '''' True] = Ok m' \<and>
     debug_print m' = Some (Ok (keys, 0)) \<and> length keys < 3"
  using lru_cache_safe[of 3 10 "[Lru_Put 1 (Some (10 :: nat)) '''' True, Lru_Put 2 (Some 20) '''' True,
      Lru_Get 1 '''', Lru_Put 3 (Some 30) '''' True]"]
  by (simp add: max_rounds_def del: lru_run.simps)

text \<open>
  C22. What was put is found: in any cache reached from \<^verbatim>\<open>init\<close>, a \<^verbatim>\<open>put\<close> that overwrites and
  returns 0 is followed by a \<^verbatim>\<open>get\<close> of the same key and raw key that returns the value put,
  whatever entries collide with it and even when an older entry of the key is still in the
  table.
\<close>

theorem lru_cache_get_put:
  fixes m :: "'v lru"
  assumes "2 \<le> unat cap" and "unat cap < 2 ^ 30" and "unat max_probing \<le> max_rounds"
    and "\<forall>op\<in>set ops. op_key op \<noteq> 0" and "k \<noteq> 0"
    and "lru_init lru_raw True True cap max_probing = Ok (m, 0)" and "lru_run m ops = Ok m1"
    and "lru_put m1 k v raw True = Ok (m2, 0)"
  shows "\<exists>m3. lru_get m2 k raw = Ok (m3, v)"
proof -
  obtain m0 :: "'v lru" where "lru_init lru_raw True True cap max_probing = Ok (m0, 0)" "lru_rel m0 []"
    using lru_init_rel[OF assms(1-3)] by blast
  then have "lru_rel m []" using assms(6) by simp
  from lru_run_rel[OF this assms(4)] obtain xs where rel: "lru_rel m1 xs" using assms(7) by auto
  obtain b ys where f: "put_found m1 k raw True = Some b" and a: "put_after m1 m2 b k raw v ys"
    by (rule lru_put_cases[OF rel assms(5), of v raw True]) (use assms(8) in auto)
  obtain es fs where g: "lru_good m2 es fs" "map (lru_entry m2) es = ys @ [(k, raw, v)]" "es \<noteq> []"
    "hnode m2 b = \<lparr>hkey = k, hindex = last es, hraw = raw\<rparr>"
    using a by (auto simp: put_after_def)
  have sl: "slots m2 k = slots m1 k" using a by (simp add: put_after_def)
  have "find (\<lambda>p. hkey (hnode m2 p) = k \<and> hraw (hnode m2 p) = raw) (slots m2 k) = Some b"
  proof -
    obtain i where i: "i < length (slots m1 k)" "b = slots m1 k ! i"
      and old: "\<forall>j<i. \<not> (hkey (hnode m1 (slots m1 k ! j)) = 0 \<or> hkey (hnode m1 (slots m1 k ! j)) = k \<and>
        hraw (hnode m1 (slots m1 k ! j)) = raw \<and> True)"
      and hit: "hkey (hnode m1 b) = 0 \<or> hkey (hnode m1 b) = k \<and> hraw (hnode m1 b) = raw \<and> True"
      using f unfolding put_found_def find_Some_iff by blast
    have "\<not> (hkey (hnode m2 (slots m1 k ! j)) = k \<and> hraw (hnode m2 (slots m1 k ! j)) = raw)" if "j < i" for j
    proof -
      have "slots m1 k ! j \<noteq> b" using old hit that by metis
      then have "hnode m2 (slots m1 k ! j) = hnode m1 (slots m1 k ! j) \<or>
          hnode m2 (slots m1 k ! j) = hash_node_new"
        using a by (simp add: put_after_def)
      then show ?thesis using old that assms(5) by (auto simp: hash_node_new_def)
    qed
    then show ?thesis unfolding find_Some_iff sl by (intro exI[of _ i]) (use i g(4) in auto)
  qed
  then obtain m3 where "lru_get m2 k raw = Ok (m3, lv (node m2 (last es)))"
    using lru_get_good[OF g(1) assms(5), of raw] g(4) by auto
  moreover have "map (lru_entry m2) es = map (lru_entry m2) (butlast es) @ [lru_entry m2 (last es)]"
    using g(3) by (metis append_butlast_last_id list.simps(8,9) map_append)
  then have "lru_entry m2 (last es) = (k, raw, v)" using g(2) by simp
  ultimately show ?thesis by (simp add: lru_entry_def)
qed

theorem lru_cache_get_put_witness:
  "\<exists>m1 m2 m3. lru_put (m1 :: nat lru) 5 (Some 50) ''r'' True = Ok (m2, 0) \<and>
     lru_get m2 5 ''r'' = Ok (m3, Some 50)"
proof -
  obtain m m2 :: "nat lru" where i: "lru_init lru_raw True True 2 10 = Ok (m, 0)"
    and p: "lru_put m 5 (Some 50) ''r'' True = Ok (m2, 0)"
    using fresh_put by blast
  obtain m3 where "lru_get m2 5 ''r'' = Ok (m3, Some 50)"
    using lru_cache_get_put[of 2 10 "[]" 5 m m "Some 50" "''r''" m2] i p by (auto simp: max_rounds_def)
  with p show ?thesis by blast
qed

text \<open>
  C7. Least recently used goes first. With \<open>xs\<close> the entries in order of use, a \<^verbatim>\<open>put\<close>
  that succeeds makes its entry the newest and either replaces the entry of the same key,
  or adds one to a cache that has room, or drops exactly the oldest entry of a full one;
  a \<^verbatim>\<open>get\<close> that finds an entry returns its value and makes it the newest.
\<close>

theorem lru_cache_order:
  assumes "lru_rel m xs" and "k \<noteq> 0"
  shows "(lru_put m k v raw ow = Ok (m', 0) \<longrightarrow> (\<exists>ys. lru_rel m' (ys @ [(k, raw, v)]) \<and>
       (ys = xs \<and> Suc (length xs) < unat (lr_capacity m) \<or>
        ys = tl xs \<and> Suc (length xs) = unat (lr_capacity m) \<or>
        (\<exists>us w vs. xs = us @ (k, raw, w) # vs \<and> ys = us @ vs)))) \<and>
     (lru_get m k raw = Ok (m', Some w) \<longrightarrow>
       (\<exists>us vs. xs = us @ (k, raw, Some w) # vs \<and> lru_rel m' (us @ vs @ [(k, raw, Some w)])))"
proof (intro conjI impI)
  assume p: "lru_put m k v raw ow = Ok (m', 0)"
  show "\<exists>ys. lru_rel m' (ys @ [(k, raw, v)]) \<and>
       (ys = xs \<and> Suc (length xs) < unat (lr_capacity m) \<or>
        ys = tl xs \<and> Suc (length xs) = unat (lr_capacity m) \<or>
        (\<exists>us w vs. xs = us @ (k, raw, w) # vs \<and> ys = us @ vs))"
  proof (rule lru_put_cases[OF assms, of v raw ow])
    assume "lru_put m k v raw ow = Ok (m, - 1)"
    then show ?thesis using p by simp
  next
    fix m'' b ys
    assume "lru_put m k v raw ow = Ok (m'', 0)" and a: "put_after m m'' b k raw v ys"
      and y: "ys = xs \<and> Suc (length xs) < unat (lr_capacity m) \<or>
        ys = tl xs \<and> Suc (length xs) = unat (lr_capacity m) \<or>
        (\<exists>us w vs. xs = us @ (k, raw, w) # vs \<and> ys = us @ vs)"
    then have "lru_rel m' (ys @ [(k, raw, v)])" using p put_after_rel[OF a] by simp
    then show ?thesis using y by blast
  qed
next
  assume "lru_get m k raw = Ok (m', Some w)"
  then have g: "lru_get m k raw = Ok (m', Some w)" .
  show "\<exists>us vs. xs = us @ (k, raw, Some w) # vs \<and> lru_rel m' (us @ vs @ [(k, raw, Some w)])"
  proof (rule lru_get_cases[OF assms, of raw])
    assume "lru_get m k raw = Ok (m, None)"
    then show ?thesis using g by simp
  next
    fix m'' us w' vs assume "xs = us @ (k, raw, w') # vs" "lru_get m k raw = Ok (m'', w')"
      "lru_rel m'' (us @ vs @ [(k, raw, w')])"
    then show ?thesis using g by auto
  qed
qed

theorem lru_cache_order_witness:
  "\<exists>m m1 m2 ys. lru_rel (m :: nat lru) [] \<and> lru_put m 5 (Some 50) ''r'' True = Ok (m1, 0) \<and>
     lru_rel m1 (ys @ [(5, ''r'', Some 50)]) \<and> lru_get m1 5 ''r'' = Ok (m2, Some 50) \<and>
     (\<exists>us vs. lru_rel m2 (us @ vs @ [(5, ''r'', Some 50)]))"
proof -
  obtain m m1 m2 :: "nat lru" where f: "lru_rel m []" "lru_put m 5 (Some 50) ''r'' True = Ok (m1, 0)"
    "lru_rel m1 [(5, ''r'', Some 50)]" "lru_get m1 5 ''r'' = Ok (m2, Some 50)"
    using fresh_put by blast
  have "\<exists>ys. lru_rel m1 (ys @ [(5, ''r'', Some 50)])"
    using lru_cache_order[OF f(1), of 5 "Some 50" "''r''" True m1 0] f(2) by auto
  moreover have "\<exists>us vs. lru_rel m2 (us @ vs @ [(5, ''r'', Some 50)])"
    using lru_cache_order[OF f(3), of 5 None "''r''" True m2 50] f(4) by auto
  ultimately show ?thesis using f by blast
qed

text \<open>
  The key 0 marks an empty bucket, so it cannot be looked up: \<^verbatim>\<open>get(0, "")\<close> on a fresh
  cache takes an empty bucket for a hit and reads \<^verbatim>\<open>_list\<close> at \<^verbatim>\<open>INVALID_INDEX\<close>.
\<close>

theorem lru_cache_key_zero:
  assumes "2 \<le> unat cap" and "unat cap < 2 ^ 30" and "0 < unat max_probing"
    and "unat max_probing \<le> max_rounds"
  shows "\<exists>m :: 'v lru. lru_init lru_raw True True cap max_probing = Ok (m, 0) \<and>
     lru_get m 0 '''' = Fault Out_Of_Bounds"
proof -
  obtain m :: "'v lru" where i: "lru_init lru_raw True True cap max_probing = Ok (m, 0)"
    and rel: "lru_rel m []" and cap: "lr_capacity m = cap"
    and fresh: "lr_hash_size m \<noteq> 0" "\<forall>b<lr_hash_size m. lr_hash m ! unat b = hash_node_new"
    and pr: "lr_max_probing m = max_probing"
    using lru_init_rel[OF assms(1,2,4)] by blast
  obtain es fs where g: "lru_good m es fs" using rel by (auto simp: lru_rel_def)
  have "lr_max_probing m \<noteq> 0" using pr assms(3) by auto
  from slots_first[OF fresh(1) this] obtain s ss where s: "slots m 0 = s # ss" "s < lr_hash_size m"
    by blast
  then have h: "lr_hash m ! unat s = hash_node_new" using fresh(2) by blast
  then have "get_probing_bucket m 0 '''' = Ok s"
    using get_bucket_good[OF g, of 0 "''''"] s(1) by (simp add: hnode_def hash_node_new_def)
  moreover have "unat s < length (lr_hash m)" using lru_good_bucket[OF g s(2)] .
  moreover have "\<not> unat INVALID_INDEX < length (lr_list m)"
    using lru_listD(2)[OF lru_goodD(1)[OF g]] cap assms(2) by (simp add: INVALID_INDEX_def)
  ultimately have "lru_get m 0 '''' = Fault Out_Of_Bounds"
    using not_invalid[OF s(2)] s(2)[unfolded not_le[symmetric]] h
    by (simp add: lru_get_def lnode_def hash_node_new_def)
  then show ?thesis using i by blast
qed

theorem lru_cache_key_zero_witness:
  "\<exists>m :: nat lru. lru_init lru_raw True True 2 10 = Ok (m, 0) \<and> lru_get m 0 '''' = Fault Out_Of_Bounds"
  using lru_cache_key_zero[of 2 10] by (simp add: max_rounds_def)

end
