(* ===== verification/Circle_Cache_Probing.thy ===== *)
theory Circle_Cache_Probing
  imports Circle_Cache_Props
begin

text \<open>
  The quadratic probing of \<^verbatim>\<open>container/circle_cache.h\<close>: its offsets are the triangular numbers
  and the table has a power of two of buckets, so the buckets of one search are all different.
  A \<^verbatim>\<open>put\<close> that may look at as many buckets as the cache has nodes therefore finds a free one.
\<close>

section \<open>Triangular numbers\<close>

abbreviation triangle :: "nat \<Rightarrow> nat" where
  "triangle i \<equiv> i * (i + 1) div 2"

lemma triangle_double: "2 * triangle i = i * (i + 1)"
  by simp

lemma triangle_diff:
  assumes "i \<le> j"
  shows "2 * (triangle j - triangle i) = (j - i) * (i + j + 1)"
proof -
  obtain d where "j = i + d" using assms le_Suc_ex by blast
  then show ?thesis unfolding diff_mult_distrib2 triangle_double by (simp add: algebra_simps)
qed

lemma triangle_mono: "i \<le> j \<Longrightarrow> triangle i \<le> triangle j"
  by (intro div_le_mono mult_le_mono) simp_all

lemma triangle_distinct:
  assumes "i < j" and "j < 2 ^ p"
  shows "\<not> 2 ^ p dvd triangle j - triangle i"
proof
  assume "2 ^ p dvd triangle j - triangle i"
  then have "2 * 2 ^ p dvd 2 * (triangle j - triangle i)" by (rule mult_dvd_mono[OF dvd_refl])
  then have d: "2 ^ Suc p dvd (j - i) * (i + j + 1)" using assms(1) by (simp only: triangle_diff[of i j] power_Suc less_imp_le)
  have "odd (j - i) \<or> odd (i + j + 1)" using assms(1) by auto
  then show False
  proof
    assume "odd (j - i)"
    then have "coprime (2 ^ Suc p) (j - i)" by (simp only: coprime_power_left_iff coprime_left_2_iff_odd) simp
    then have "2 ^ Suc p dvd i + j + 1" using d coprime_dvd_mult_right_iff by blast
    then have "2 ^ Suc p \<le> i + j + 1" by (rule dvd_imp_le) simp
    then show False using assms by simp
  next
    assume "odd (i + j + 1)"
    then have "coprime (2 ^ Suc p) (i + j + 1)" by (simp only: coprime_power_left_iff coprime_left_2_iff_odd) simp
    then have "2 ^ Suc p dvd j - i" using d coprime_dvd_mult_left_iff by blast
    then have "2 ^ Suc p \<le> j - i" using assms(1) by (intro dvd_imp_le) simp_all
    then show False using assms by simp
  qed
qed

lemma triangle_inj:
  assumes "(a + triangle i) mod 2 ^ p = (a + triangle j) mod 2 ^ p" and "i < 2 ^ p" and "j < 2 ^ p"
  shows "i = j"
proof -
  have less: False if "i < j" "j < 2 ^ p" "(a + triangle i) mod 2 ^ p = (a + triangle j) mod 2 ^ p" for i j
  proof -
    have "2 ^ p dvd (a + triangle j) - (a + triangle i)"
      using that(3) triangle_mono[of i j] that(1) by (metis add_le_mono le_refl less_imp_le mod_eq_dvd_iff_nat)
    then show False using triangle_distinct[OF that(1,2)] by simp
  qed
  show ?thesis using less[of i j] less[of j i] assms by (metis linorder_neqE_nat)
qed

section \<open>The buckets of a search\<close>

lemma mask_widened: "p < 32 \<Longrightarrow> ucast (2 ^ p - 1 :: u32) = (mask p :: u64)"
  by (rule bit_word_eqI) (auto simp: mask_eq_exp_minus_1[symmetric] bit_simps)

lemma unat_narrowed: "p < 32 \<Longrightarrow> unat (ucast (take_bit p x :: u64) :: u32) = take_bit p (unat x)"
  by (simp add: unsigned_ucast_eq unsigned_take_bit_eq)

lemma slot_unat:
  assumes "lr_hash_size m = 2 ^ p" and "p < 32"
  shows "unat (slot m key i) = (unat key + triangle i) mod 2 ^ p"
proof -
  have "slot m key i = ucast (take_bit p (take_bit p key + ucast (of_nat (triangle i) :: u32)))"
    using assms by (simp add: slot_def Let_def mask_widened take_bit_eq_mask)
  then have "unat (slot m key i) = take_bit p (unat (take_bit p key + ucast (of_nat (triangle i) :: u32)))"
    using assms(2) by (simp only: unat_narrowed)
  also have "\<dots> = take_bit p (take_bit 64 (unat (take_bit p key) + unat (ucast (of_nat (triangle i) :: u32) :: u64)))"
    by (simp add: unat_word_ariths take_bit_eq_mod)
  also have "\<dots> = take_bit p (unat (take_bit p key) + unat (ucast (of_nat (triangle i) :: u32) :: u64))"
    using assms(2) by (simp add: min.absorb1)
  also have "unat (ucast (of_nat (triangle i) :: u32) :: u64) = take_bit 32 (triangle i)"
    using take_bit_take_bit[of 64 32 "triangle i"] by (simp only: unsigned_ucast_eq unsigned_of_nat) simp
  also have "take_bit p (unat (take_bit p key) + take_bit 32 (triangle i)) = take_bit p (unat key + triangle i)"
    using assms(2) take_bit_add[of p "take_bit p (unat key)" "take_bit 32 (triangle i)"]
      take_bit_add[of p "unat key" "triangle i"]
    by (simp only: unsigned_take_bit_eq take_bit_take_bit min.idem min.absorb1 less_imp_le)
  finally show ?thesis by (simp add: take_bit_eq_mod)
qed

lemma slots_distinct:
  assumes "unat (lr_hash_size m) = 2 ^ p"
  shows "distinct (slots m key)"
proof -
  have "unat (lr_hash_size m) < 2 ^ 32" by (rule order_less_le_trans[OF unsigned_less]) simp
  then have "(2 :: nat) ^ p < 2 ^ 32" using assms by simp
  then have p: "p < 32" by (rule power_less_imp_less_exp[rotated]) simp
  have "of_nat (unat (lr_hash_size m)) = (of_nat (2 ^ p) :: u32)" using assms by simp
  then have size: "lr_hash_size m = 2 ^ p" by simp
  have "i < 2 ^ p" if "i < probes m" for i using that assms by (simp add: probes_def)
  then have "inj_on (slot m key) {0..<probes m}"
    by (intro inj_onI) (metis atLeastLessThan_iff slot_unat[OF size p] triangle_inj)
  then show ?thesis by (simp add: slots_def distinct_map)
qed

section \<open>A free bucket\<close>

text \<open>The buckets of a search that are in use belong to different entries.\<close>

lemma used_buckets:
  assumes "lru_good m es fs"
  shows "card {b \<in> set (slots m k). hkey (hnode m b) \<noteq> 0} \<le> length es"
proof -
  note H = lru_hashD[OF lru_goodD(2)[OF assms]]
  let ?B = "{b \<in> set (slots m k). hkey (hnode m b) \<noteq> 0}"
  have used: "hindex (hnode m b) \<in> set es \<and> lbucket (node m (hindex (hnode m b))) = b" if "b \<in> ?B" for b
    using that H(8,9)[of b] slots_less[OF H(2), of b k] by simp
  then have "inj_on (\<lambda>b. hindex (hnode m b)) ?B"
    by (intro inj_on_inverseI[of _ "\<lambda>e. lbucket (node m e)"]) blast
  moreover have "(\<lambda>b. hindex (hnode m b)) ` ?B \<subseteq> set es" using used by blast
  ultimately have "card ?B \<le> card (set es)" by (intro card_inj_on_le) simp_all
  then show ?thesis using card_length[of es] by (rule le_trans)
qed

lemma put_finds:
  assumes "lru_good m es fs" and "distinct (slots m k)" and "unat (lr_capacity m) \<le> length (slots m k)"
  shows "put_found m k raw ow \<noteq> None"
proof -
  have "length es < length (slots m k)"
    using lru_list_length[OF lru_goodD(1)[OF assms(1)]] assms(3) by linarith
  then have "{b \<in> set (slots m k). hkey (hnode m b) \<noteq> 0} \<noteq> set (slots m k)"
    using used_buckets[OF assms(1), of k] distinct_card[OF assms(2)] by auto
  then show ?thesis by (auto simp: put_found_def find_None_iff)
qed

lemma bit_pos_loop_exact:
  "2 ^ n \<le> unat v \<Longrightarrow> unat v < 2 ^ Suc n \<Longrightarrow> bit_pos_loop v r = r + n"
proof (induction n arbitrary: v r)
  case 0
  then have "unat v div 2 = 0" by simp
  then have "drop_bit 1 v = 0" by (simp add: drop_bit_Suc word_unat_eq_iff unat_div)
  then show ?case by (simp add: bit_pos_loop.simps[of v])
next
  case (Suc n)
  have half: "unat (drop_bit 1 v) = unat v div 2" by (simp add: drop_bit_Suc unat_div)
  then have "2 ^ n \<le> unat (drop_bit 1 v)" "unat (drop_bit 1 v) < 2 ^ Suc n" using Suc.prems by simp_all
  moreover from this(1) have "drop_bit 1 v \<noteq> 0" by (metis not_one_le_zero one_le_numeral one_le_power order_trans unat_0)
  ultimately show ?case using Suc.IH[of "drop_bit 1 v" "Suc r"] by (simp add: bit_pos_loop.simps[of v] Let_def)
qed

text \<open>With at least as many buckets to look at as nodes, a cache made by \<^verbatim>\<open>init\<close> has room.\<close>

lemma init_slots:
  assumes "2 \<le> unat cap" and "unat cap < 2 ^ 30" and "unat cap \<le> unat max_probing"
    and "unat max_probing \<le> max_rounds"
  obtains m :: "'v lru" where "lru_init lru_raw True True cap max_probing = Ok (m, 0)" "lru_rel m []"
    "lr_capacity m = cap" "\<forall>k. distinct (slots m k) \<and> unat cap \<le> length (slots m k)"
proof -
  obtain m :: "'v lru" where m: "lru_init lru_raw True True cap max_probing = Ok (m, 0)" "lru_rel m []"
    "lr_capacity m = cap" "lr_max_probing m = max_probing"
    "unat (lr_hash_size m) = 2 ^ (get_bit_pos (cap * 2) + 1)"
    using lru_init_rel[OF assms(1,2,4)] by blast
  obtain n where n: "2 ^ n \<le> 2 * unat cap" "2 * unat cap < 2 ^ (n + 1)"
    using ex_power_ivl1[of 2 "2 * unat cap"] assms(1) by auto
  have "unat (cap * 2) = 2 * unat cap" using assms(2) by (simp add: unat_word_ariths)
  then have "get_bit_pos (cap * 2) = n" using bit_pos_loop_exact[of n "cap * 2" 0] n by (simp add: get_bit_pos_def)
  then have "unat cap \<le> probes m" using m(4,5) n(2) assms(3) by (simp add: probes_def)
  then show thesis using that[OF m(1-3)] slots_distinct[OF m(5)] by (simp add: slots_def)
qed

text \<open>
  C24. A \<^verbatim>\<open>put\<close> never fails for want of a bucket: when \<^verbatim>\<open>max_probing\<close> is at least the capacity,
  every \<^verbatim>\<open>put\<close> with a key other than 0, after any sequence of \<^verbatim>\<open>put\<close> and \<^verbatim>\<open>get\<close> calls and
  however the keys collide, returns 0, and its key is the newest in the list that
  \<^verbatim>\<open>debug_print\<close> prints.
\<close>

theorem lru_cache_put_never_fails:
  fixes m :: "'v lru"
  assumes "2 \<le> unat cap" and "unat cap \<le> unat max_probing" and "unat max_probing \<le> max_rounds"
    and "\<forall>op\<in>set ops. op_key op \<noteq> 0" and "k \<noteq> 0"
    and "lru_init lru_raw True True cap max_probing = Ok (m, 0)" and "lru_run m ops = Ok m1"
  shows "\<exists>m2 keys. lru_put m1 k v raw ow = Ok (m2, 0) \<and> debug_print m2 = Some (Ok (keys @ [k], 0))"
proof -
  have "unat cap < 2 ^ 30" using assms(2,3) by (simp add: max_rounds_def)
  then obtain m0 :: "'v lru" where
    m0: "lru_init lru_raw True True cap max_probing = Ok (m0, 0)" "lru_rel m0 []" "lr_capacity m0 = cap"
    "\<forall>k. distinct (slots m0 k) \<and> unat cap \<le> length (slots m0 k)"
    by (rule init_slots[OF assms(1) _ assms(2,3)])
  then have "m0 = m" using assms(6) by simp
  from lru_run_rel[OF m0(2) assms(4)] obtain xs where xs: "lru_rel m1 xs" "lr_capacity m1 = cap"
    "slots m1 k = slots m0 k"
    using assms(7) m0(3) unfolding \<open>m0 = m\<close> by auto
  then have found: "put_found m1 k raw ow \<noteq> None"
    using put_finds[of m1 _ _ k raw ow] m0(4) by (auto simp: lru_rel_def)
  show ?thesis
  proof (rule lru_put_cases[OF xs(1) assms(5), of v raw ow])
    assume "put_found m1 k raw ow = None"
    then show ?thesis using found by simp
  next
    fix m2 b ys assume "lru_put m1 k v raw ow = Ok (m2, 0)" "put_after m1 m2 b k raw v ys"
    then show ?thesis using debug_print_rel[OF put_after_rel] by fastforce
  qed
qed

theorem lru_cache_put_never_fails_witness:
  "\<exists>m m1 m2 keys. lru_init lru_raw True True 3 3 = Ok (m :: nat lru, 0) \<and>
     lru_run m [Lru_Put 1 (Some 10) '''' False, Lru_Put 9 (Some 20) '''' False, Lru_Get 1 ''''] = Ok m1 \<and>
     lru_put m1 17 (Some 30) '''' False = Ok (m2, 0) \<and> debug_print m2 = Some (Ok (keys @ [17], 0))"
proof -
  let ?ops = "[Lru_Put 1 (Some 10) '''' False, Lru_Put 9 (Some 20) '''' False, Lru_Get 1 ''''] :: nat lru_op list"
  obtain m :: "nat lru" where m: "lru_init lru_raw True True 3 3 = Ok (m, 0)" "lru_rel m []"
    by (rule init_slots[of 3 3]) (simp_all add: max_rounds_def)
  have keys: "\<forall>op\<in>set ?ops. op_key op \<noteq> 0" by simp
  from lru_run_rel[OF m(2) keys] obtain m1 where m1: "lru_run m ?ops = Ok m1" by blast
  have "\<exists>m2 keys. lru_put m1 17 (Some 30) '''' False = Ok (m2, 0) \<and> debug_print m2 = Some (Ok (keys @ [17], 0))"
    by (rule lru_cache_put_never_fails[OF _ _ _ keys _ m(1) m1]) (simp_all add: max_rounds_def)
  then show ?thesis using m(1) m1 by blast
qed

end
