(* ===== verification/Sequence_Recorder.thy ===== *)
theory Sequence_Recorder
  imports Selib_Prelude "HOL-Library.Signed_Division"
begin

text \<open>
  \<^verbatim>\<open>container/sequence_recorder.h\<close>: \<^verbatim>\<open>SequenceRecorder\<close>, the last \<^verbatim>\<open>LEN\<close> of a sequence of
  numbers in a circular buffer. The buffer is not initialised by the constructor, so an
  element is \<open>None\<close> until it is written. \<^verbatim>\<open>_beg\<close> and \<^verbatim>\<open>_cur\<close> start at 0 and move by
  \<open>+ 1 mod LEN\<close>; every increment of an \<^verbatim>\<open>int\<close> is checked for overflow.
\<close>

section \<open>The recorder\<close>

record 'v recorder =
  sr_buf :: "'v option list"
  sr_beg :: nat
  sr_cur :: nat
  sr_len :: nat
  sr_started :: bool

definition sr_LEN :: "'v recorder \<Rightarrow> nat" where
  "sr_LEN r = length (sr_buf r)"

definition sr_new :: "nat \<Rightarrow> 'v recorder" where
  "sr_new LEN = \<lparr>sr_buf = replicate LEN None, sr_beg = 0, sr_cur = 0, sr_len = 0, sr_started = False\<rparr>"

definition inc :: "nat \<Rightarrow> nat result" where
  "inc n = (if n + 1 < 2 ^ 31 then Ok (n + 1) else Fault Int_Overflow)"

text \<open>\<open>(n + 1) % LEN\<close>, where a \<^verbatim>\<open>LEN\<close> of 0 divides by zero.\<close>

definition modulo_len :: "'v recorder \<Rightarrow> nat \<Rightarrow> nat result" where
  "modulo_len r n = (if sr_LEN r = 0 then Fault Div_By_Zero else Ok (n mod sr_LEN r))"

definition sr_append :: "'v recorder \<Rightarrow> 'v \<Rightarrow> 'v recorder result" where
  "sr_append r x =
     andthen
       (if sr_started r then
          andthen (andthen (inc (sr_cur r)) (modulo_len r)) (\<lambda>cur.
          andthen (wr (sr_buf r) cur (Some x)) (\<lambda>buf.
            let r = r\<lparr>sr_cur := cur, sr_buf := buf\<rparr>
            in if sr_beg r = sr_cur r then
                 andthen (andthen (inc (sr_beg r)) (modulo_len r)) (\<lambda>beg. Ok (r\<lparr>sr_beg := beg\<rparr>))
               else Ok r))
        else
          andthen (wr (sr_buf r) (sr_cur r) (Some x)) (\<lambda>buf.
            Ok (r\<lparr>sr_buf := buf, sr_started := True\<rparr>)))
       (\<lambda>r. andthen (inc (sr_len r)) (\<lambda>len. Ok (r\<lparr>sr_len := len\<rparr>)))"

definition sr_clear :: "'v recorder \<Rightarrow> 'v recorder" where
  "sr_clear r = r\<lparr>sr_beg := sr_cur r, sr_len := 0, sr_started := False\<rparr>"

definition get_len :: "'v recorder \<Rightarrow> nat" where
  "get_len r = (if sr_len r \<ge> sr_LEN r then sr_LEN r else sr_len r)"

text \<open>\<^verbatim>\<open>_buf[j % LEN]\<close>, which must have been written.\<close>

definition buf_at :: "'v recorder \<Rightarrow> nat \<Rightarrow> 'v result" where
  "buf_at r j =
     andthen (modulo_len r j) (\<lambda>i.
     andthen (rd (sr_buf r) i) (\<lambda>x.
       case x of None \<Rightarrow> Fault Uninitialised | Some v \<Rightarrow> Ok v))"

text \<open>The loops at \<open>j\<close>, with the rounds left.\<close>

fun every_loop :: "'v recorder \<Rightarrow> 'v list \<Rightarrow> nat \<Rightarrow> nat \<Rightarrow> nat \<Rightarrow> 'v list result" where
  "every_loop r out i j 0 = Ok out"
| "every_loop r out i j (Suc n) =
     andthen (buf_at r j) (\<lambda>v.
     andthen (wr out i v) (\<lambda>out.
     andthen (inc j) (\<lambda>j. every_loop r out (Suc i) j n)))"

definition get_every :: "'v recorder \<Rightarrow> 'v list \<Rightarrow> int \<Rightarrow> ('v list \<times> nat) result" where
  "get_every r out len =
     andthen (every_loop r out 0 (sr_beg r) (min (nat len) (get_len r))) (\<lambda>out. Ok (out, get_len r))"

text \<open>With \<^verbatim>\<open>int\<close> for the number type, the sum must stay in its range.\<close>

definition int_add :: "int \<Rightarrow> int \<Rightarrow> int result" where
  "int_add a b = (if - (2 ^ 31) \<le> a + b \<and> a + b < 2 ^ 31 then Ok (a + b) else Fault Int_Overflow)"

fun sum_loop :: "int recorder \<Rightarrow> int \<Rightarrow> nat \<Rightarrow> nat \<Rightarrow> int result" where
  "sum_loop r s j 0 = Ok s"
| "sum_loop r s j (Suc n) =
     andthen (buf_at r j) (\<lambda>v.
     andthen (int_add s v) (\<lambda>s.
     andthen (inc j) (\<lambda>j. sum_loop r s j n)))"

definition get_sum :: "int recorder \<Rightarrow> int result" where
  "get_sum r = sum_loop r 0 (sr_beg r) (get_len r)"

definition get_avg :: "int recorder \<Rightarrow> int result" where
  "get_avg r =
     (if get_len r = 0 then Ok 0 else andthen (get_sum r) (\<lambda>s. Ok (s sdiv int (get_len r))))"

fun count_loop :: "'v recorder \<Rightarrow> 'v \<Rightarrow> nat \<Rightarrow> nat \<Rightarrow> nat \<Rightarrow> nat result" where
  "count_loop r e c j 0 = Ok c"
| "count_loop r e c j (Suc n) =
     andthen (buf_at r j) (\<lambda>v.
     andthen (if e = v then inc c else Ok c) (\<lambda>c.
     andthen (inc j) (\<lambda>j. count_loop r e c j n)))"

definition get_count :: "'v recorder \<Rightarrow> 'v \<Rightarrow> nat result" where
  "get_count r e = count_loop r e 0 (sr_beg r) (get_len r)"

text \<open>\<open>fdiv a b\<close>: the \<^verbatim>\<open>double\<close> quotient of two \<^verbatim>\<open>int\<close>s.\<close>

definition get_density :: "(int \<Rightarrow> int \<Rightarrow> 'd :: zero) \<Rightarrow> 'v recorder \<Rightarrow> 'v \<Rightarrow> 'd result" where
  "get_density fdiv r e =
     (if get_len r = 0 then Ok 0
      else andthen (get_count r e) (\<lambda>c. Ok (fdiv (int c) (int (get_len r)))))"

section \<open>The window on the sequence\<close>

definition last_of :: "nat \<Rightarrow> 'v list \<Rightarrow> 'v list" where
  "last_of n h = drop (length h - n) h"

lemma length_last_of [simp]: "length (last_of n h) = min n (length h)"
  by (simp add: last_of_def)

lemma last_of_snoc:
  "last_of n (h @ [x]) =
     (if n = 0 then [] else if length h < n then h @ [x] else tl (last_of n h) @ [x])"
proof (cases "n = 0 \<or> length h < n")
  case False
  then have "length h - (n - 1) = Suc (length h - n)" by (simp add: Suc_diff_le)
  then have "drop (length h - (n - 1)) h = tl (drop (length h - n) h)" by (simp add: drop_Suc tl_drop)
  then show ?thesis using False by (cases n) (simp_all add: last_of_def)
qed (auto simp: last_of_def)

text \<open>
  \<open>sr_rel r h\<close>: the recorder after the values \<open>h\<close> were appended since the last
  \<^verbatim>\<open>clear\<close>; the last of them are in the buffer from \<^verbatim>\<open>_beg\<close> on.
\<close>

definition sr_rel :: "'v recorder \<Rightarrow> 'v list \<Rightarrow> bool" where
  "sr_rel r h \<longleftrightarrow> 0 < sr_LEN r \<and> sr_LEN r \<le> 2 ^ 30 \<and> sr_beg r < sr_LEN r \<and>
     sr_len r = length h \<and> sr_started r = (h \<noteq> []) \<and>
     sr_cur r = (sr_beg r + (length (last_of (sr_LEN r) h) - 1)) mod sr_LEN r \<and>
     (\<forall>k<length (last_of (sr_LEN r) h).
        sr_buf r ! ((sr_beg r + k) mod sr_LEN r) = Some (last_of (sr_LEN r) h ! k))"

lemma sr_relD:
  assumes "sr_rel r h"
  shows "0 < sr_LEN r" "sr_LEN r \<le> 2 ^ 30" "sr_beg r < sr_LEN r" "sr_len r = length h"
    "sr_started r = (h \<noteq> [])"
    "sr_cur r = (sr_beg r + (length (last_of (sr_LEN r) h) - 1)) mod sr_LEN r"
    "\<And>k. k < length (last_of (sr_LEN r) h) \<Longrightarrow>
       sr_buf r ! ((sr_beg r + k) mod sr_LEN r) = Some (last_of (sr_LEN r) h ! k)"
  using assms by (auto simp: sr_rel_def)

lemma sr_new_rel: "0 < LEN \<Longrightarrow> LEN \<le> 2 ^ 30 \<Longrightarrow> sr_rel (sr_new LEN) []"
  by (simp add: sr_rel_def sr_new_def sr_LEN_def last_of_def)

lemma sr_clear_rel: "sr_rel r h \<Longrightarrow> sr_rel (sr_clear r) []"
  by (auto simp: sr_rel_def sr_clear_def sr_LEN_def last_of_def)

lemma get_len_rel: "sr_rel r h \<Longrightarrow> get_len r = length (last_of (sr_LEN r) h)"
  by (auto simp: get_len_def sr_rel_def)

lemma ring_shift_eq:
  fixes b j k n :: nat
  assumes "j < n" and "k < n"
  shows "(b + j) mod n = (b + k) mod n \<longleftrightarrow> j = k"
proof -
  have "j' = k'" if "(b + j') mod n = (b + k') mod n" "j' \<le> k'" "k' < n" for j' k'
  proof -
    have "n dvd k' - j'" using mod_eq_dvd_iff_nat[of "b + j'" "b + k'" n] that by simp
    then show ?thesis using that by (auto dest: dvd_imp_le)
  qed
  then show ?thesis using assms by (metis nle_le)
qed

lemma sr_append_first:
  assumes "sr_rel r []"
  shows "\<exists>r'. sr_append r x = Ok r' \<and> sr_rel r' [x] \<and> sr_LEN r' = sr_LEN r"
proof -
  note D = sr_relD[OF assms]
  have "sr_cur r = sr_beg r" using D(3,6) by (simp add: last_of_def)
  then show ?thesis using D(1-5) by (auto simp: sr_append_def inc_def sr_rel_def sr_LEN_def last_of_def)
qed

text \<open>The buffer has room: the value goes behind the last one.\<close>

lemma sr_append_room:
  assumes rel: "sr_rel r h" and len: "length h + 1 < 2 ^ 31" and h: "h \<noteq> []" "length h < sr_LEN r"
  shows "\<exists>r'. sr_append r x = Ok r' \<and> sr_rel r' (h @ [x]) \<and> sr_LEN r' = sr_LEN r"
proof -
  note D = sr_relD[OF rel]
  let ?n = "sr_LEN r" and ?m = "length h" and ?b = "sr_beg r"
  let ?c = "(?b + ?m) mod ?n"
  have cur: "sr_cur r = (?b + (?m - 1)) mod ?n" using D(6) h(2) by simp
  have small: "sr_cur r < ?n" using cur D(1) by simp
  have next_cur: "(sr_cur r + 1) mod ?n = ?c" using cur h(1) by (cases h) (simp_all add: mod_Suc_eq)
  have c: "?c < ?n" using D(1) by simp
  have ne: "?b \<noteq> ?c" using ring_shift_eq[of 0 ?n ?m ?b] h D(1,3) by simp
  have w: "wr (sr_buf r) ?c (Some x) = Ok ((sr_buf r)[?c := Some x])"
    using c by (simp add: sr_LEN_def)
  have i: "inc (sr_cur r) = Ok (sr_cur r + 1)" "inc (sr_len r) = Ok (?m + 1)"
    using small D(2,4) len by (auto simp: inc_def)
  let ?r = "r\<lparr>sr_cur := ?c, sr_buf := (sr_buf r)[?c := Some x], sr_len := ?m + 1\<rparr>"
  have "sr_append r x = Ok ?r"
    using i w next_cur ne D(1,5) h(1) by (simp add: sr_append_def modulo_len_def Let_def)
  moreover have "sr_rel ?r (h @ [x])"
    unfolding sr_rel_def
  proof (intro conjI allI impI)
    fix k assume k: "k < length (last_of (sr_LEN ?r) (h @ [x]))"
    show "sr_buf ?r ! ((sr_beg ?r + k) mod sr_LEN ?r) = Some (last_of (sr_LEN ?r) (h @ [x]) ! k)"
    proof (cases "k = ?m")
      case True
      then show ?thesis using c k h(2) by (simp add: sr_LEN_def last_of_def)
    next
      case False
      then have "k < ?m" using k by (simp add: sr_LEN_def)
      moreover from this have "(?b + k) mod ?n \<noteq> ?c" using ring_shift_eq[of k ?n ?m ?b] h(2) by simp
      ultimately show ?thesis using D(7)[of k] h(2) by (simp add: sr_LEN_def last_of_def nth_append)
    qed
  qed (use D h in \<open>auto simp: sr_LEN_def\<close>)
  ultimately show ?thesis by (auto simp: sr_LEN_def)
qed

text \<open>The buffer is full: the value replaces the oldest one.\<close>

lemma full_window:
  assumes rel: "sr_rel r h" and h: "h \<noteq> []" "sr_LEN r \<le> length h"
  shows "sr_rel (r\<lparr>sr_cur := sr_beg r, sr_buf := (sr_buf r)[sr_beg r := Some x],
     sr_beg := (sr_beg r + 1) mod sr_LEN r, sr_len := length h + 1\<rparr>) (h @ [x])" (is "sr_rel ?r _")
  unfolding sr_rel_def
proof (intro conjI allI impI)
  note D = sr_relD[OF rel]
  let ?n = "sr_LEN r" and ?b = "sr_beg r" and ?b' = "(sr_beg r + 1) mod sr_LEN r"
  have last: "last_of ?n (h @ [x]) = tl (last_of ?n h) @ [x]" using h(2) D(1) by (simp add: last_of_snoc)
  have ll: "length (last_of ?n h) = ?n" using h(2) by simp
  have at_k: "(?b' + k) mod ?n = (?b + Suc k) mod ?n" for k by (simp add: mod_add_left_eq)
  show "sr_cur ?r = (sr_beg ?r + (length (last_of (sr_LEN ?r) (h @ [x])) - 1)) mod sr_LEN ?r"
    using at_k[of "?n - 1"] h(2) D(1,3) by (simp add: sr_LEN_def)
  fix k assume "k < length (last_of (sr_LEN ?r) (h @ [x]))"
  then have k: "k < ?n" by (simp add: sr_LEN_def)
  show "sr_buf ?r ! ((sr_beg ?r + k) mod sr_LEN ?r) = Some (last_of (sr_LEN ?r) (h @ [x]) ! k)"
  proof (cases "Suc k = ?n")
    case True
    then have "(?b + Suc k) mod ?n = ?b" "k = ?n - 1" using D(3) by simp_all
    then show ?thesis using at_k[of k] last ll True D(1,3) by (simp add: sr_LEN_def nth_append)
  next
    case False
    then have k': "Suc k < ?n" "k < ?n - 1" using k by simp_all
    moreover have "(?b + Suc k) mod ?n \<noteq> ?b" using k' ring_shift_eq[of "Suc k" ?n 0 ?b] D(3) by simp
    ultimately show ?thesis using at_k[of k] last ll D(7)[of "Suc k"] by (simp add: sr_LEN_def nth_append nth_tl)
  qed
qed (use sr_relD[OF rel] h in \<open>auto simp: sr_LEN_def\<close>)

lemma sr_append_full:
  assumes rel: "sr_rel r h" and len: "length h + 1 < 2 ^ 31" and h: "h \<noteq> []" "sr_LEN r \<le> length h"
  shows "\<exists>r'. sr_append r x = Ok r' \<and> sr_rel r' (h @ [x]) \<and> sr_LEN r' = sr_LEN r"
proof -
  note D = sr_relD[OF rel]
  let ?n = "sr_LEN r" and ?b = "sr_beg r"
  have cur: "sr_cur r = (?b + (?n - 1)) mod ?n" using D(6) h(2) by simp
  have small: "sr_cur r < ?n" using cur D(1) by simp
  have "(sr_cur r + 1) mod ?n = (?b + ?n) mod ?n" using cur D(1) by (simp add: mod_Suc_eq)
  then have next_cur: "(sr_cur r + 1) mod ?n = ?b" using D(3) by simp
  have w: "wr (sr_buf r) ?b (Some x) = Ok ((sr_buf r)[?b := Some x])" using D(3) by (simp add: sr_LEN_def)
  have i: "inc (sr_cur r) = Ok (sr_cur r + 1)" "inc (sr_len r) = Ok (length h + 1)" "inc ?b = Ok (?b + 1)"
    using small D(2-4) len by (auto simp: inc_def)
  let ?r = "r\<lparr>sr_cur := ?b, sr_buf := (sr_buf r)[?b := Some x], sr_beg := (?b + 1) mod ?n, sr_len := length h + 1\<rparr>"
  have "sr_append r x = Ok ?r"
    using i w next_cur D(1,5) h(1) by (simp add: sr_append_def modulo_len_def Let_def sr_LEN_def)
  then show ?thesis using full_window[OF rel h] by (auto simp: sr_LEN_def)
qed

lemma sr_append_rel:
  assumes "sr_rel r h" and "length h + 1 < 2 ^ 31"
  shows "\<exists>r'. sr_append r x = Ok r' \<and> sr_rel r' (h @ [x]) \<and> sr_LEN r' = sr_LEN r"
proof (cases "h = []")
  case True
  then show ?thesis using sr_append_first[of r x] assms(1) by simp
next
  case False
  then show ?thesis using sr_append_room[OF assms] sr_append_full[OF assms]
    by (cases "length h < sr_LEN r") auto
qed

section \<open>The queries\<close>

lemma buf_at_rel:
  assumes "sr_rel r h" and "k < get_len r"
  shows "buf_at r (sr_beg r + k) = Ok (last_of (sr_LEN r) h ! k)"
proof -
  note D = sr_relD[OF assms(1)]
  have "(sr_beg r + k) mod sr_LEN r < length (sr_buf r)" using D(1) by (simp add: sr_LEN_def)
  then show ?thesis using D(1) D(7)[of k] assms by (simp add: buf_at_def modulo_len_def get_len_rel)
qed

text \<open>One round of a loop: \<open>ys\<close> is the part of the window still to be read.\<close>

lemma round_rel:
  assumes "sr_rel r h" and "last_of (sr_LEN r) h = xs @ y # ys"
  shows "buf_at r (sr_beg r + length xs) = Ok y"
    and "inc (sr_beg r + length xs) = Ok (sr_beg r + length (xs @ [y]))"
proof -
  have len: "get_len r = Suc (length xs + length ys)" using get_len_rel[OF assms(1)] assms(2) by simp
  then have "length xs < get_len r" by simp
  then show "buf_at r (sr_beg r + length xs) = Ok y"
    using buf_at_rel[OF assms(1), of "length xs"] assms(2) by simp
  have "length xs < sr_LEN r" using len get_len_rel[OF assms(1)] by simp
  then show "inc (sr_beg r + length xs) = Ok (sr_beg r + length (xs @ [y]))"
    using sr_relD(2,3)[OF assms(1)] by (simp add: inc_def)
qed

lemma every_loop_rel:
  assumes "sr_rel r h" and "last_of (sr_LEN r) h = xs @ ys" and "n \<le> length ys"
    and "length xs + n \<le> length out"
  shows "every_loop r out (length xs) (sr_beg r + length xs) n =
    Ok (take (length xs) out @ take n ys @ drop (length xs + n) out)"
  using assms
proof (induction n arbitrary: xs ys out)
  case (Suc n)
  then obtain y ys' where y: "ys = y # ys'" by (cases ys) auto
  note R = round_rel[OF Suc.prems(1), of xs y ys']
  have l: "length xs < length out" using Suc.prems(4) by simp
  have "every_loop r out (length xs) (sr_beg r + length xs) (Suc n) =
      every_loop r (out[length xs := y]) (length (xs @ [y])) (sr_beg r + length (xs @ [y])) n"
    using R Suc.prems(2) y l by simp
  also have "\<dots> = Ok (take (length (xs @ [y])) (out[length xs := y]) @ take n ys' @
      drop (length (xs @ [y]) + n) (out[length xs := y]))"
    by (rule Suc.IH) (use Suc.prems y in auto)
  also have "\<dots> = Ok (take (length xs) out @ take (Suc n) ys @ drop (length xs + Suc n) out)"
    using l y by (simp add: take_Suc_conv_app_nth)
  finally show ?case .
qed simp

lemma get_every_rel:
  assumes "sr_rel r h" and "min (nat len) (get_len r) \<le> length out"
  shows "get_every r out len =
    Ok (take (nat len) (last_of (sr_LEN r) h) @ drop (min (nat len) (get_len r)) out, get_len r)"
proof -
  let ?w = "last_of (sr_LEN r) h" and ?n = "min (nat len) (get_len r)"
  have "every_loop r out 0 (sr_beg r) ?n = Ok (take ?n ?w @ drop ?n out)"
  proof -
    have "?n \<le> length ?w" by (simp only: get_len_rel[OF assms(1)] min.cobounded2)
    from every_loop_rel[OF assms(1) _ this, of "[]" out] show ?thesis using assms(2) by simp
  qed
  moreover have "take ?n ?w = take (nat len) ?w"
    using get_len_rel[OF assms(1)] by (simp add: take_all_iff min_def)
  ultimately show ?thesis by (simp add: get_every_def)
qed

lemma count_loop_rel:
  assumes "sr_rel r h" and "last_of (sr_LEN r) h = xs @ ys" and "c \<le> length xs"
  shows "count_loop r e c (sr_beg r + length xs) (length ys) = Ok (c + count_list ys e)"
  using assms
proof (induction ys arbitrary: xs c)
  case (Cons y ys)
  note R = round_rel[OF Cons.prems(1,2)]
  have "length xs < sr_LEN r" using arg_cong[OF Cons.prems(2), of length] by simp
  then have "inc c = Ok (c + 1)" using Cons.prems(3) sr_relD(2)[OF Cons.prems(1)] by (simp add: inc_def)
  then show ?case using R Cons.IH[of "xs @ [y]" c] Cons.IH[of "xs @ [y]" "c + 1"] Cons.prems by auto
qed simp

lemma get_count_rel:
  "sr_rel r h \<Longrightarrow> get_count r e = Ok (count_list (last_of (sr_LEN r) h) e)"
  using count_loop_rel[of r h "[]" "last_of (sr_LEN r) h" 0 e] by (simp add: get_count_def get_len_rel)

text \<open>The sum of numbers of at most \<open>b\<close> in absolute value cannot overflow if \<open>b * LEN\<close> does not.\<close>

lemma sum_loop_rel:
  assumes "sr_rel r h" and "last_of (sr_LEN r) h = xs @ ys" and "\<forall>v\<in>set (xs @ ys). \<bar>v\<bar> \<le> b"
    and "b * int (length (xs @ ys)) < 2 ^ 31"
  shows "sum_loop r (sum_list xs) (sr_beg r + length xs) (length ys) = Ok (sum_list (xs @ ys))"
  using assms
proof (induction ys arbitrary: xs)
  case (Cons y ys)
  note R = round_rel[OF Cons.prems(1,2)]
  have "\<bar>sum_list zs\<bar> \<le> b * int (length zs)" if "\<forall>v\<in>set zs. \<bar>v\<bar> \<le> b" for zs :: "int list"
    using that by (induction zs) (auto simp: algebra_simps)
  from this[of "xs @ [y]"] have s: "\<bar>sum_list xs + y\<bar> \<le> b * int (length xs + 1)"
    using Cons.prems(3) by (simp add: algebra_simps)
  have "0 \<le> b" using Cons.prems(3) by (force simp: abs_le_iff)
  then have "b * int (length xs + 1) \<le> b * int (length (xs @ y # ys))" by (intro mult_left_mono) auto
  then have "int_add (sum_list xs) y = Ok (sum_list (xs @ [y]))"
    using order.strict_trans1[OF order_trans[OF s] Cons.prems(4)] by (simp add: int_add_def abs_less_iff)
  then show ?case using R Cons.IH[of "xs @ [y]"] Cons.prems by simp
qed simp

lemma get_sum_rel:
  assumes "sr_rel r h" and "\<forall>v\<in>set (last_of (sr_LEN r) h). \<bar>v\<bar> \<le> b"
    and "b * int (length (last_of (sr_LEN r) h)) < 2 ^ 31"
  shows "get_sum r = Ok (sum_list (last_of (sr_LEN r) h))"
  using sum_loop_rel[OF assms(1), of "[]" "last_of (sr_LEN r) h" b] assms(2,3)
  by (simp add: get_sum_def get_len_rel[OF assms(1)])

section \<open>The properties\<close>

datatype 'v sr_op = Append 'v | Clear

fun sr_run :: "'v recorder \<Rightarrow> 'v sr_op list \<Rightarrow> 'v recorder result" where
  "sr_run r [] = Ok r"
| "sr_run r (Append x # ops) = andthen (sr_append r x) (\<lambda>r. sr_run r ops)"
| "sr_run r (Clear # ops) = sr_run (sr_clear r) ops"

text \<open>The values appended since the last \<^verbatim>\<open>clear\<close>.\<close>

fun recorded :: "'v list \<Rightarrow> 'v sr_op list \<Rightarrow> 'v list" where
  "recorded h [] = h"
| "recorded h (Append x # ops) = recorded (h @ [x]) ops"
| "recorded h (Clear # ops) = recorded [] ops"

lemma sr_run_rel:
  assumes "sr_rel r h" and "length h + length ops < 2 ^ 31"
  shows "\<exists>r'. sr_run r ops = Ok r' \<and> sr_rel r' (recorded h ops) \<and> sr_LEN r' = sr_LEN r"
  using assms
proof (induction ops arbitrary: r h)
  case (Cons op ops)
  show ?case
  proof (cases op)
    case (Append x)
    obtain r1 where "sr_append r x = Ok r1" "sr_rel r1 (h @ [x])" "sr_LEN r1 = sr_LEN r"
      using sr_append_rel[OF Cons.prems(1), of x] Cons.prems(2) by auto
    then show ?thesis using Cons.IH[of r1 "h @ [x]"] Cons.prems(2) Append by auto
  next
    case Clear
    have "sr_LEN (sr_clear r) = sr_LEN r" by (simp add: sr_clear_def sr_LEN_def)
    then show ?thesis using Cons.IH[OF sr_clear_rel[OF Cons.prems(1)]] Cons.prems(2) Clear by simp
  qed
qed simp

lemma sr_run_new:
  assumes "0 < LEN" and "LEN \<le> 2 ^ 30" and "length ops < 2 ^ 31"
  obtains r where "sr_run (sr_new LEN) ops = Ok r" "sr_rel r (recorded [] ops)" "sr_LEN r = LEN"
proof -
  have "sr_LEN (sr_new LEN) = LEN" by (simp add: sr_LEN_def sr_new_def)
  then show ?thesis using sr_run_rel[OF sr_new_rel[OF assms(1,2)], of ops] assms(3) that by auto
qed

text \<open>
  C28. The recorder keeps a window: after any \<^verbatim>\<open>append\<close> and \<^verbatim>\<open>clear\<close> calls the queries see
  exactly the last \<^verbatim>\<open>LEN\<close> values appended since the last \<^verbatim>\<open>clear\<close>, oldest first. \<^verbatim>\<open>get_every\<close>
  copies as many of them as \<^verbatim>\<open>len\<close> allows and leaves the rest of the output alone, and
  \<^verbatim>\<open>get_count\<close> counts the occurrences of its argument; no element is read before it is
  written.
\<close>

theorem sequence_recorder_window:
  assumes "0 < LEN" and "LEN \<le> 2 ^ 30" and "length ops < 2 ^ 31"
  shows "\<exists>r. sr_run (sr_new LEN) ops = Ok r \<and>
     (let w = last_of LEN (recorded [] ops)
      in get_len r = length w \<and> get_count r e = Ok (count_list w e) \<and>
         (min (nat len) (length w) \<le> length out \<longrightarrow>
            get_every r out len =
              Ok (take (nat len) w @ drop (min (nat len) (length w)) out, length w)))"
proof -
  obtain r where r: "sr_run (sr_new LEN) ops = Ok r" "sr_rel r (recorded [] ops)" "sr_LEN r = LEN"
    using sr_run_new[OF assms] .
  then show ?thesis using get_len_rel[OF r(2)] get_count_rel[OF r(2)] get_every_rel[OF r(2)]
    by (auto simp: Let_def)
qed

theorem sequence_recorder_window_witness:
  "\<exists>r. sr_run (sr_new 2) [Append 7, Append 8, Clear, Append 1, Append 2, Append (3 :: int)] = Ok r \<and>
     get_len r = 2 \<and> get_count r 3 = Ok 1 \<and> get_every r [0, 0, 0] 5 = Ok ([2, 3, 0], 2)"
  using sequence_recorder_window[of 2
      "[Append 7, Append 8, Clear, Append 1, Append 2, Append (3 :: int)]" 3 5 "[0, 0, 0]"]
  by (auto simp: last_of_def Let_def simp del: sr_run.simps)

lemma sdiv_between:
  fixes s lo hi n :: int
  assumes "0 < n" and "lo * n \<le> s" and "s \<le> hi * n"
  shows "lo \<le> s sdiv n" and "s sdiv n \<le> hi"
proof -
  have "s sdiv n = (if 0 \<le> s then s div n else - (- s div n))"
    using assms(1) by (simp add: signed_divide_int_def sgn_if)
  moreover have "lo \<le> s div n" "s div n \<le> hi" "- s div n \<le> - lo" "- hi \<le> - s div n"
    using zdiv_mono1[OF assms(2,1)] zdiv_mono1[OF assms(3,1)] assms(1)
      zdiv_mono1[of "- s" "- lo * n" n] zdiv_mono1[of "- hi * n" "- s" n] assms(2,3)
      nonzero_mult_div_cancel_right[of n "- lo"] nonzero_mult_div_cancel_right[of n "- hi"] by simp_all
  ultimately show "lo \<le> s sdiv n" and "s sdiv n \<le> hi" by simp_all
qed

lemma sum_list_between:
  fixes xs :: "int list"
  assumes "\<forall>v\<in>set xs. lo \<le> v \<and> v \<le> hi"
  shows "lo * int (length xs) \<le> sum_list xs" and "sum_list xs \<le> hi * int (length xs)"
  using assms by (induction xs) (auto simp: algebra_simps)

text \<open>
  Sum and average of a window of \<^verbatim>\<open>int\<close>s whose absolute values are at most \<open>b\<close>, when
  \<open>b * LEN\<close> fits into an \<^verbatim>\<open>int\<close>: \<^verbatim>\<open>get_sum\<close> is the exact sum, and \<^verbatim>\<open>get_avg\<close> is the quotient
  rounded towards zero, so it lies between any bounds \<open>lo\<close> and \<open>hi\<close> of the window; an empty
  window has average 0.
\<close>

theorem sequence_recorder_average:
  assumes "0 < LEN" and "LEN \<le> 2 ^ 30" and "length ops < 2 ^ 31"
    and "\<forall>v\<in>set (last_of LEN (recorded [] ops)). lo \<le> v \<and> v \<le> hi \<and> \<bar>v\<bar> \<le> b"
    and "0 \<le> b" and "b * int LEN < 2 ^ 31"
  shows "\<exists>r. sr_run (sr_new LEN) ops = Ok r \<and>
     get_sum r = Ok (sum_list (last_of LEN (recorded [] ops))) \<and>
     (if recorded [] ops = [] then get_avg r = Ok 0
      else \<exists>avg. get_avg r = Ok avg \<and> lo \<le> avg \<and> avg \<le> hi)"
proof -
  let ?w = "last_of LEN (recorded [] ops)"
  obtain r where r: "sr_run (sr_new LEN) ops = Ok r" "sr_rel r (recorded [] ops)" "sr_LEN r = LEN"
    using sr_run_new[OF assms(1-3)] .
  have "b * int (length ?w) \<le> b * int LEN" using assms(5) by (intro mult_left_mono) auto
  then have s: "get_sum r = Ok (sum_list ?w)"
    using get_sum_rel[OF r(2), of b] r(3) assms(4,6) by auto
  have l: "get_len r = length ?w" using get_len_rel[OF r(2)] r(3) by simp
  have "\<forall>v\<in>set ?w. lo \<le> v \<and> v \<le> hi" using assms(4) by blast
  note B = sum_list_between[OF this]
  show ?thesis
  proof (cases "recorded [] ops = []")
    case True
    then show ?thesis using r(1) s l by (simp add: get_avg_def last_of_def)
  next
    case False
    then have pos: "0 < int (length ?w)" using assms(1) by simp
    then have "get_avg r = Ok (sum_list ?w sdiv int (length ?w))" using s by (simp add: get_avg_def l)
    then show ?thesis using False r(1) s sdiv_between[OF pos B] by simp
  qed
qed

theorem sequence_recorder_average_witness:
  "\<exists>r avg. sr_run (sr_new 2) [Append 7, Append (- 4), Append (- 1)] = Ok r \<and> get_sum r = Ok (- 5) \<and>
     get_avg r = Ok avg \<and> - 4 \<le> avg \<and> avg \<le> - 1"
  using sequence_recorder_average[of 2 "[Append 7, Append (- 4), Append (- 1)]" "- 4" "- 1" 4]
  by (auto simp: last_of_def simp del: sr_run.simps)

text \<open>
  \<^verbatim>\<open>_len\<close> counts on past \<^verbatim>\<open>LEN\<close>, so the append number \<open>2 ^ 31\<close> without a \<^verbatim>\<open>clear\<close> overflows it.
\<close>

lemma sr_append_overflow:
  assumes "sr_rel r h" and "length h = 2 ^ 31 - 1"
  shows "sr_append r x = Fault Int_Overflow"
proof -
  note D = sr_relD[OF assms(1)]
  have "h \<noteq> []" using assms(2) by auto
  moreover have "sr_cur r < length (sr_buf r)" using D(1,6) by (simp add: sr_LEN_def)
  ultimately show ?thesis using D(1-5) assms(2)
    by (simp add: sr_append_def modulo_len_def Let_def inc_def sr_LEN_def)
qed

end
