(* ===== verification/Hash_Fun.thy ===== *)
theory Hash_Fun
  imports Selib_Prelude
begin

text \<open>
  \<^verbatim>\<open>util/hash_fun.h\<close>: the Fowler/Noll/Vo hashes of C strings and of buffers. A byte is a
  \<^verbatim>\<open>char\<close>, signed as on the platforms the library is written for, so that \<^verbatim>\<open>hash ^= *s\<close>
  first extends its sign. A string is the list of the bytes from its address on, and the
  loop runs to the first zero byte.
\<close>

section \<open>The functions\<close>

definition FNV_32_HASH_START :: u32 where
  "FNV_32_HASH_START = 2166136261"

definition FNV_64_HASH_START :: u64 where
  "FNV_64_HASH_START = 14695981039346656037"

text \<open>One round of the two loops.\<close>

definition fnv32_step :: "u32 \<Rightarrow> u8 \<Rightarrow> u32" where
  "fnv32_step hash c =
     (let hash = hash + (push_bit 1 hash + push_bit 4 hash + push_bit 7 hash +
        push_bit 8 hash + push_bit 24 hash)
      in hash XOR scast c)"

definition fnv64_step :: "u64 \<Rightarrow> u8 \<Rightarrow> u64" where
  "fnv64_step hash c =
     (let hash = hash + (push_bit 1 hash + push_bit 4 hash + push_bit 5 hash + push_bit 7 hash +
        push_bit 8 hash + push_bit 40 hash)
      in hash XOR scast c)"

fun fnv32 :: "u8 list \<Rightarrow> u32 \<Rightarrow> u32 result" where
  "fnv32 [] hash = Fault Out_Of_Bounds"
| "fnv32 (c # s) hash = (if c = 0 then Ok hash else fnv32 s (fnv32_step hash c))"

fun fnv64 :: "u8 list \<Rightarrow> u64 \<Rightarrow> u64 result" where
  "fnv64 [] hash = Fault Out_Of_Bounds"
| "fnv64 (c # s) hash = (if c = 0 then Ok hash else fnv64 s (fnv64_step hash c))"

text \<open>The loops over a buffer at \<open>i\<close>, with the rounds left.\<close>

fun buf32_loop :: "u8 list \<Rightarrow> nat \<Rightarrow> nat \<Rightarrow> u32 \<Rightarrow> u32 result" where
  "buf32_loop buf i 0 hash = Ok hash"
| "buf32_loop buf i (Suc n) hash =
     andthen (rd buf i) (\<lambda>c. buf32_loop buf (Suc i) n (fnv32_step hash c))"

definition fnv32_buf :: "u8 list \<Rightarrow> int \<Rightarrow> u32 \<Rightarrow> u32 result" where
  "fnv32_buf buf n hash = buf32_loop buf 0 (nat n) hash"

fun buf64_loop :: "u8 list \<Rightarrow> nat \<Rightarrow> nat \<Rightarrow> u64 \<Rightarrow> u64 result" where
  "buf64_loop buf i 0 hash = Ok hash"
| "buf64_loop buf i (Suc n) hash =
     andthen (rd buf i) (\<lambda>c. buf64_loop buf (Suc i) n (fnv64_step hash c))"

definition fnv64_buf :: "u8 list \<Rightarrow> int \<Rightarrow> u64 \<Rightarrow> u64 result" where
  "fnv64_buf buf n hash = buf64_loop buf 0 (nat n) hash"

section \<open>The loops are folds\<close>

lemma fnv32_foldl: "0 \<notin> set s \<Longrightarrow> fnv32 (s @ 0 # r) hash = Ok (foldl fnv32_step hash s)"
  by (induction s arbitrary: hash) auto

lemma fnv64_foldl: "0 \<notin> set s \<Longrightarrow> fnv64 (s @ 0 # r) hash = Ok (foldl fnv64_step hash s)"
  by (induction s arbitrary: hash) auto

lemma buf32_loop_foldl:
  "buf32_loop (xs @ ys @ zs) (length xs) (length ys) hash = Ok (foldl fnv32_step hash ys)"
proof (induction ys arbitrary: xs hash)
  case (Cons y ys)
  from Cons.IH[of "xs @ [y]"] show ?case by simp
qed simp

lemma buf64_loop_foldl:
  "buf64_loop (xs @ ys @ zs) (length xs) (length ys) hash = Ok (foldl fnv64_step hash ys)"
proof (induction ys arbitrary: xs hash)
  case (Cons y ys)
  from Cons.IH[of "xs @ [y]"] show ?case by simp
qed simp

lemma fnv32_buf_foldl: "fnv32_buf (s @ r) (int (length s)) hash = Ok (foldl fnv32_step hash s)"
  using buf32_loop_foldl[of "[]" s r] by (simp add: fnv32_buf_def)

lemma fnv64_buf_foldl: "fnv64_buf (s @ r) (int (length s)) hash = Ok (foldl fnv64_step hash s)"
  using buf64_loop_foldl[of "[]" s r] by (simp add: fnv64_buf_def)

section \<open>The hashes of Fowler, Noll and Vo\<close>

text \<open>The published definition: multiply by the prime, then exclusive-or with the byte.\<close>

definition fnv1_32 :: "u32 \<Rightarrow> u8 list \<Rightarrow> u32" where
  "fnv1_32 = foldl (\<lambda>hash c. (hash * 16777619) XOR ucast c)"

definition fnv1_64 :: "u64 \<Rightarrow> u8 list \<Rightarrow> u64" where
  "fnv1_64 = foldl (\<lambda>hash c. (hash * 1099511628211) XOR ucast c)"

lemma fnv32_step_mult: "fnv32_step hash c = (hash * 16777619) XOR scast c"
  by (simp add: fnv32_step_def push_bit_eq_mult mult.commute)

lemma fnv64_step_mult: "fnv64_step hash c = (hash * 1099511628211) XOR scast c"
  by (simp add: fnv64_step_def push_bit_eq_mult mult.commute)

text \<open>A byte below 128 is not negative as a \<^verbatim>\<open>char\<close>.\<close>

lemma scast_ascii:
  assumes "c < 128"
  shows "(scast (c :: u8) :: 'w :: len word) = ucast c"
proof (rule bit_word_eqI)
  fix n assume n: "n < LENGTH('w)"
  have b7: "\<not> bit c 7" using assms by (simp add: bit_iff_odd drop_bit_eq_div div_word_less)
  have "bit c (min 7 n) = bit c n"
  proof (cases "n \<le> 7")
    case False
    then have "\<not> bit c n" using bit_imp_le_length[of c n] by auto
    then show ?thesis using b7 False by (simp add: min_def)
  qed (simp add: min_def)
  then show "bit (scast c :: 'w word) n = bit (ucast c :: 'w word) n" using n by (simp add: bit_simps)
qed

lemma fold_ascii_32: "\<forall>c\<in>set s. c < 128 \<Longrightarrow> foldl fnv32_step hash s = fnv1_32 hash s"
  by (induction s arbitrary: hash) (auto simp: fnv1_32_def fnv32_step_mult scast_ascii)

lemma fold_ascii_64: "\<forall>c\<in>set s. c < 128 \<Longrightarrow> foldl fnv64_step hash s = fnv1_64 hash s"
  by (induction s arbitrary: hash) (auto simp: fnv1_64_def fnv64_step_mult scast_ascii)

section \<open>The properties\<close>

text \<open>
  C39. On bytes below 128 the four functions compute the FNV-1 hash, one multiplication by the
  FNV prime and one exclusive-or per byte: \<^verbatim>\<open>fnv32\<close> and \<^verbatim>\<open>fnv64\<close> of a string up to its
  terminator, \<^verbatim>\<open>fnv32_buf\<close> and \<^verbatim>\<open>fnv64_buf\<close> of the first \<open>n\<close> bytes of a buffer.
\<close>

theorem hash_fun_is_fnv1:
  assumes "\<forall>c\<in>set s. 0 < c \<and> c < 128" and "n = int (length s)"
  shows "fnv32 (s @ 0 # rest) hash = Ok (fnv1_32 hash s) \<and>
     fnv32_buf (s @ rest) n hash = Ok (fnv1_32 hash s) \<and>
     fnv64 (s @ 0 # rest) hash' = Ok (fnv1_64 hash' s) \<and>
     fnv64_buf (s @ rest) n hash' = Ok (fnv1_64 hash' s)"
proof -
  have "0 \<notin> set s" "\<forall>c\<in>set s. c < 128" using assms(1) by auto
  then show ?thesis unfolding assms(2)
    by (simp add: fnv32_foldl fnv64_foldl fnv32_buf_foldl fnv64_buf_foldl fold_ascii_32 fold_ascii_64)
qed

theorem hash_fun_is_fnv1_witness:
  "fnv32 [97, 98, 0] FNV_32_HASH_START = Ok (fnv1_32 FNV_32_HASH_START [97, 98]) \<and>
   fnv64_buf [97, 98, 0] 2 FNV_64_HASH_START = Ok (fnv1_64 FNV_64_HASH_START [97, 98])"
  using hash_fun_is_fnv1[of "[97, 98]" 2 "[]" FNV_32_HASH_START FNV_64_HASH_START]
    hash_fun_is_fnv1[of "[97, 98]" 2 "[0]" FNV_32_HASH_START FNV_64_HASH_START] by simp

text \<open>
  A byte from 128 on is negative as a \<^verbatim>\<open>char\<close>; its sign is extended over the whole hash, which
  FNV does not do.
\<close>

lemma fnv32_high_byte:
  "fnv32 [128, 0] FNV_32_HASH_START \<noteq> Ok (fnv1_32 FNV_32_HASH_START [128])"
  by (simp add: fnv32_step_def fnv1_32_def FNV_32_HASH_START_def)

text \<open>The primes are odd, so a round can be undone, whatever its byte.\<close>

lemma fnv32_step_inj: "fnv32_step hash c = fnv32_step hash' c \<longleftrightarrow> hash = hash'"
proof
  assume "fnv32_step hash c = fnv32_step hash' c"
  then have "(hash * 16777619 XOR scast c) XOR scast c = (hash' * 16777619 XOR scast c) XOR scast c"
    by (simp add: fnv32_step_mult)
  then have "hash * 16777619 * 899433627 = hash' * 16777619 * 899433627" by (simp add: xor.assoc)
  moreover have "(16777619 :: u32) * 899433627 = 1" by simp
  ultimately show "hash = hash'" by (simp only: mult.assoc mult_1_right)
qed simp

lemma fnv64_step_inj: "fnv64_step hash c = fnv64_step hash' c \<longleftrightarrow> hash = hash'"
proof
  assume "fnv64_step hash c = fnv64_step hash' c"
  then have "(hash * 1099511628211 XOR scast c) XOR scast c = (hash' * 1099511628211 XOR scast c) XOR scast c"
    by (simp add: fnv64_step_mult)
  then have "hash * 1099511628211 * 14886173955864302971 = hash' * 1099511628211 * 14886173955864302971"
    by (simp add: xor.assoc)
  moreover have "(1099511628211 :: u64) * 14886173955864302971 = 1" by simp
  ultimately show "hash = hash'" by (simp only: mult.assoc mult_1_right)
qed simp

lemma foldl_inj:
  assumes "\<And>a b c. f a c = f b c \<longleftrightarrow> a = b"
  shows "foldl f a cs = foldl f b cs \<longleftrightarrow> a = b"
  using assms by (induction cs arbitrary: a b) auto

text \<open>
  Hashing in pieces: for all bytes, the hash of a buffer is the hash of its second part
  started with the hash of its first part, a string hashes as the buffer of its bytes, and
  two different start values never lead to the same hash of the same bytes.
\<close>

theorem hash_fun_streams:
  assumes "fnv32_buf (xs @ ys) (int (length xs)) a = Ok a'" and "0 \<notin> set ys"
  shows "fnv32_buf (xs @ ys) (int (length (xs @ ys))) a = fnv32 (ys @ 0 # rest) a' \<and>
     fnv32 (ys @ 0 # rest) a' = fnv32_buf ys (int (length ys)) a' \<and>
     (fnv32 (ys @ 0 # rest) a' = fnv32 (ys @ 0 # rest) b \<longleftrightarrow> a' = b) \<and>
     (fnv64 (ys @ 0 # rest) c = fnv64 (ys @ 0 # rest) d \<longleftrightarrow> c = d)"
proof -
  have "a' = foldl fnv32_step a xs" using assms(1) by (simp add: fnv32_buf_foldl)
  then show ?thesis
    using fnv32_buf_foldl[of "xs @ ys" "[]" a] fnv32_buf_foldl[of ys "[]" a'] assms(2)
      foldl_inj[of fnv32_step, OF fnv32_step_inj] foldl_inj[of fnv64_step, OF fnv64_step_inj]
    by (simp add: fnv32_foldl fnv64_foldl)
qed

theorem hash_fun_streams_witness:
  "\<exists>a'. fnv32_buf [1, 200] 1 7 = Ok a' \<and> fnv32_buf [1, 200] 2 7 = fnv32 [200, 0] a' \<and>
     fnv32 [200, 0] a' \<noteq> fnv32 [200, 0] (a' + 1)"
proof -
  obtain a' where "fnv32_buf [1, 200] 1 7 = Ok a'" using fnv32_buf_foldl[of "[1]" "[200]" 7] by auto
  then show ?thesis using hash_fun_streams[of "[1]" "[200]" 7 a' "[]" "a' + 1" 0 0] by simp
qed

end
