(* ===== verification/Algo_Sort.thy ===== *)
theory Algo_Sort
  imports Selib_Prelude
begin

text \<open>
  \<^verbatim>\<open>algorithm/algo_sort.h\<close>: insertion sort, merge sort, two quicksorts and binary search. An
  array from a pointer on, of the length passed with it, is a list; the call on
  \<^verbatim>\<open>ar + mid\<close> works on the rest of the list, and every access is checked against the
  list. Indices that the code keeps at 0 or above are natural numbers.
\<close>

section \<open>The interface: a function that sorts\<close>

text \<open>\<open>ok\<close>: the arrays the function accepts.\<close>

locale sorter =
  fixes srt :: "'a :: linorder list \<Rightarrow> 'a list result"
    and ok :: "'a list \<Rightarrow> bool"
  assumes sorts: "ok xs \<Longrightarrow> \<exists>ys. srt xs = Ok ys \<and> sorted ys \<and> mset ys = mset xs"
begin

lemma srt_is_sort: "ok xs \<Longrightarrow> srt xs = Ok (sort xs)"
  using sorts[of xs] by (metis properties_for_sort)

lemma srt_perm: "ok xs \<Longrightarrow> ok ys \<Longrightarrow> mset xs = mset ys \<Longrightarrow> srt xs = srt ys"
  by (metis srt_is_sort properties_for_sort mset_sort sorted_sort)

lemma srt_again: "ok xs \<Longrightarrow> ok (sort xs) \<Longrightarrow> srt xs = Ok ys \<Longrightarrow> srt ys = Ok ys"
  using srt_is_sort[of "sort xs"] by (auto simp: srt_is_sort sorted_sort_id[OF sorted_sort])

end

section \<open>Insertion sort\<close>

text \<open>
  The inner loop moves greater elements up; its argument is \<open>j + 1\<close>, so the round for
  \<open>j \<ge> 0\<close> is that of a successor. The result is \<open>j + 1\<close> where the loop ended.
\<close>

fun ins_loop :: "'a :: linorder list \<Rightarrow> 'a \<Rightarrow> nat \<Rightarrow> ('a list \<times> nat) result" where
  "ins_loop arr key 0 = Ok (arr, 0)"
| "ins_loop arr key (Suc j) =
     andthen (rd arr j) (\<lambda>x.
       if key < x then andthen (wr arr (j + 1) x) (\<lambda>arr. ins_loop arr key j) else Ok (arr, Suc j))"

fun ins_outer :: "'a :: linorder list \<Rightarrow> nat list \<Rightarrow> 'a list result" where
  "ins_outer arr [] = Ok arr"
| "ins_outer arr (i # is) =
     andthen (rd arr i) (\<lambda>key.
     andthen (ins_loop arr key i) (\<lambda>(arr, pos).
     andthen (wr arr pos key) (\<lambda>arr. ins_outer arr is)))"

definition insert_sort :: "'a :: linorder list \<Rightarrow> 'a list result" where
  "insert_sort arr = ins_outer arr [1..<length arr]"

lemma ins_loop_sorted:
  assumes "sorted xs" and "length zs > 0"
  shows "\<exists>us vs. xs = us @ vs \<and> (\<forall>u\<in>set us. u \<le> key) \<and> (\<forall>v\<in>set vs. key < v) \<and>
     ins_loop (xs @ zs) key (length xs) =
       Ok (us @ (if vs = [] then zs else hd (vs @ zs) # vs @ tl zs), length us)"
  using assms
proof (induction xs arbitrary: zs rule: rev_induct)
  case (snoc x xs)
  show ?case
  proof (cases "key < x")
    case False
    then have "\<forall>u\<in>set (xs @ [x]). u \<le> key" using snoc.prems(1) by (auto simp: sorted_append)
    then show ?thesis using False
      by (intro exI[of _ "xs @ [x]"] exI[of _ "[]"]) (simp add: nth_append)
  next
    case True
    obtain z zs' where zs: "zs = z # zs'" using snoc.prems(2) by (cases zs) auto
    have "sorted xs" using snoc.prems(1) by (simp add: sorted_append)
    from snoc.IH[OF this, of "x # x # zs'"] obtain us vs where IH: "xs = us @ vs"
      "\<forall>u\<in>set us. u \<le> key" "\<forall>v\<in>set vs. key < v"
      "ins_loop (xs @ x # x # zs') key (length xs) =
        Ok (us @ (if vs = [] then x # x # zs' else hd (vs @ x # x # zs') # vs @ x # zs'), length us)"
      by auto
    have "ins_loop ((xs @ [x]) @ zs) key (length (xs @ [x])) = ins_loop (xs @ x # x # zs') key (length xs)"
      using True zs by (simp add: nth_append list_update_append)
    also note IH(4)
    finally show ?thesis using IH(1-3) True zs
      by (intro exI[of _ us] exI[of _ "vs @ [x]"]) (cases vs; simp)
  qed
qed simp

lemma ins_outer_sorted:
  assumes "sorted xs" and "xs \<noteq> [] \<or> zs = []"
  shows "\<exists>ys. ins_outer (xs @ zs) [length xs..<length xs + length zs] = Ok ys \<and> sorted ys \<and>
     mset ys = mset (xs @ zs)"
  using assms
proof (induction zs arbitrary: xs)
  case (Cons z zs)
  obtain us vs where u: "xs = us @ vs" "\<forall>u\<in>set us. u \<le> z" "\<forall>v\<in>set vs. z < v"
    "ins_loop (xs @ z # zs) z (length xs) =
       Ok (us @ (if vs = [] then z # zs else hd (vs @ z # zs) # vs @ zs), length us)"
    using ins_loop_sorted[OF Cons.prems(1), of "z # zs" z] by auto
  let ?xs = "us @ z # vs"
  have "(us @ (if vs = [] then z # zs else hd (vs @ z # zs) # vs @ zs))[length us := z] = ?xs @ zs"
    by simp
  moreover have "[length xs..<length xs + length (z # zs)] =
      length xs # [length ?xs..<length ?xs + length zs]"
    by (subst upt_conv_Cons) (simp_all add: u(1))
  ultimately have "ins_outer (xs @ z # zs) [length xs..<length xs + length (z # zs)] =
      ins_outer (?xs @ zs) [length ?xs..<length ?xs + length zs]"
    using u(4) by simp
  moreover have "sorted ?xs" using Cons.prems(1) u(1-3) by (auto simp: sorted_append less_imp_le)
  from Cons.IH[OF this] have "\<exists>ys. ins_outer (?xs @ zs) [length ?xs..<length ?xs + length zs] = Ok ys \<and>
      sorted ys \<and> mset ys = mset (?xs @ zs)" by simp
  ultimately show ?case using u(1) by auto
qed simp

lemma insert_sort_sorts: "\<exists>ys. insert_sort xs = Ok ys \<and> sorted ys \<and> mset ys = mset xs"
proof (cases xs)
  case (Cons x zs)
  then show ?thesis using ins_outer_sorted[of "[x]" zs] by (simp add: insert_sort_def)
qed (simp add: insert_sort_def)

interpretation ins: sorter insert_sort "\<lambda>_. True"
  by unfold_locales (rule insert_sort_sorts)

section \<open>Merge sort\<close>

text \<open>The number type needs \<^verbatim>\<open>^\<close>: an unsigned integer of any width.\<close>

function merge_loop :: "'a :: linorder list \<Rightarrow> 'a list \<Rightarrow> 'a list \<Rightarrow> nat \<Rightarrow> nat \<Rightarrow> nat \<Rightarrow>
    ('a list \<times> nat \<times> nat \<times> nat) result" where
  "merge_loop arr a1 a2 i j k =
     (if i < length a1 \<and> j < length a2 then
        if a1 ! i < a2 ! j then andthen (wr arr k (a1 ! i)) (\<lambda>arr. merge_loop arr a1 a2 (i + 1) j (k + 1))
        else andthen (wr arr k (a2 ! j)) (\<lambda>arr. merge_loop arr a1 a2 i (j + 1) (k + 1))
      else Ok (arr, i, j, k))"
  by pat_completeness auto
termination
  by (relation "measure (\<lambda>(arr, a1, a2, i, j, k). (length a1 - i) + (length a2 - j))") auto

declare merge_loop.simps [simp del]

text \<open>The loops that copy the rest of one half.\<close>

function copy_loop :: "'a list \<Rightarrow> 'a list \<Rightarrow> nat \<Rightarrow> nat \<Rightarrow> ('a list \<times> nat) result" where
  "copy_loop arr src i k =
     (if i < length src then andthen (wr arr k (src ! i)) (\<lambda>arr. copy_loop arr src (i + 1) (k + 1))
      else Ok (arr, k))"
  by pat_completeness auto
termination
  by (relation "measure (\<lambda>(arr, src, i, k). length src - i)") auto

declare copy_loop.simps [simp del]

definition merge_from ::
  "'a :: linorder list \<Rightarrow> 'a list \<Rightarrow> 'a list \<Rightarrow> nat \<Rightarrow> nat \<Rightarrow> nat \<Rightarrow> 'a list result" where
  "merge_from arr a1 a2 i j k =
     andthen (merge_loop arr a1 a2 i j k) (\<lambda>(arr, i, j, k).
     andthen (copy_loop arr a1 i k) (\<lambda>(arr, k).
     andthen (copy_loop arr a2 j k) (\<lambda>(arr, k). Ok arr)))"

definition xor_swap :: "'w :: len word \<Rightarrow> 'w word \<Rightarrow> 'w word list" where
  "xor_swap x y = (let x = x XOR y; y = x XOR y; x = x XOR y in [x, y])"

function merge_sort :: "'w :: len word list \<Rightarrow> 'w word list result" where
  "merge_sort arr =
     (if length arr = 2 then
        Ok (if arr ! 0 > arr ! 1 then xor_swap (arr ! 0) (arr ! 1) else arr)
      else if length arr < 2 then Ok arr
      else
        let mid = length arr div 2
        in andthen (merge_sort (take mid arr)) (\<lambda>l.
           andthen (merge_sort (drop mid arr)) (\<lambda>r. merge_from (l @ r) l r 0 0 0)))"
  by pat_completeness auto
termination by (relation "measure length") auto

declare merge_sort.simps [simp del]

lemma copy_loop_ok:
  assumes "length zs = length ys"
  shows "copy_loop (out @ zs @ rest) (xs @ ys) (length xs) (length out) = Ok (out @ ys @ rest, length out + length ys)"
  using assms
proof (induction ys arbitrary: xs zs out)
  case Nil
  then show ?case by (simp add: copy_loop.simps[of _ xs])
next
  case (Cons y ys)
  then obtain z zs' where z: "zs = z # zs'" "length zs' = length ys" by (cases zs) auto
  have "copy_loop (out @ zs @ rest) (xs @ y # ys) (length xs) (length out) =
      copy_loop ((out @ [y]) @ zs' @ rest) ((xs @ [y]) @ ys) (length (xs @ [y])) (length (out @ [y]))"
    using z(1) by (subst copy_loop.simps) simp
  also have "\<dots> = Ok ((out @ [y]) @ ys @ rest, length (out @ [y]) + length ys)" by (rule Cons.IH[OF z(2)])
  finally show ?case by simp
qed

text \<open>The three loops together merge two lists; of equal elements the second list's comes first.\<close>

fun mrg :: "'a :: linorder list \<Rightarrow> 'a list \<Rightarrow> 'a list" where
  "mrg (x # xs) (y # ys) = (if x < y then x # mrg xs (y # ys) else y # mrg (x # xs) ys)"
| "mrg [] ys = ys"
| "mrg xs [] = xs"

lemma mset_mrg [simp]: "mset (mrg xs ys) = mset xs + mset ys"
  by (induction xs ys rule: mrg.induct) auto

lemma sorted_mrg: "sorted xs \<Longrightarrow> sorted ys \<Longrightarrow> sorted (mrg xs ys)"
proof (induction xs ys rule: mrg.induct)
  case (1 x xs y ys)
  have "set (mrg us vs) = set us \<union> set vs" for us vs :: "'a list"
    by (metis mset_mrg set_mset_mset set_mset_union)
  then show ?case using 1 by (auto simp: less_imp_le)
qed auto

lemma merge_from_ok:
  assumes "length zs = length ys1 + length ys2"
  shows "merge_from (out @ zs) (xs1 @ ys1) (xs2 @ ys2) (length xs1) (length xs2) (length out) =
    Ok (out @ mrg ys1 ys2)"
  using assms
proof (induction ys1 ys2 arbitrary: xs1 xs2 out zs rule: mrg.induct)
  case (1 y1 ys1 y2 ys2)
  obtain z zs' where z: "zs = z # zs'" using 1(3) by (cases zs) auto
  let ?m = "merge_from (out @ zs) (xs1 @ y1 # ys1) (xs2 @ y2 # ys2) (length xs1) (length xs2) (length out)"
  show ?case
  proof (cases "y1 < y2")
    case True
    then have "?m = merge_from ((out @ [y1]) @ zs') ((xs1 @ [y1]) @ ys1) (xs2 @ y2 # ys2)
        (length (xs1 @ [y1])) (length xs2) (length (out @ [y1]))"
      unfolding merge_from_def by (subst merge_loop.simps) (simp add: z)
    also have "\<dots> = Ok ((out @ [y1]) @ mrg ys1 (y2 # ys2))"
      by (rule 1(1)[OF True]) (use 1(3) z in simp)
    finally show ?thesis using True by simp
  next
    case False
    then have "?m = merge_from ((out @ [y2]) @ zs') (xs1 @ y1 # ys1) ((xs2 @ [y2]) @ ys2)
        (length xs1) (length (xs2 @ [y2])) (length (out @ [y2]))"
      unfolding merge_from_def by (subst merge_loop.simps) (simp add: z)
    also have "\<dots> = Ok ((out @ [y2]) @ mrg (y1 # ys1) ys2)"
      by (rule 1(2)[OF False]) (use 1(3) z in simp)
    finally show ?thesis using False by simp
  qed
next
  case (2 ys2)
  then show ?case using copy_loop_ok[of zs ys2 out "[]" xs2]
    by (simp add: merge_from_def merge_loop.simps[of _ xs1] copy_loop.simps[of _ xs1])
next
  case (3 y ys1)
  then show ?case using copy_loop_ok[of zs "y # ys1" out "[]" xs1]
    by (simp add: merge_from_def merge_loop.simps[of _ _ xs2] copy_loop.simps[of _ xs2])
qed

lemma xor_swap_swaps: "xor_swap x y = [y, x]"
proof -
  have "(x XOR y) XOR y = x" by (simp add: xor.assoc)
  moreover have "(x XOR y) XOR x = y" by (simp add: xor.commute[of x y] xor.assoc)
  ultimately show ?thesis by (simp add: xor_swap_def Let_def)
qed

lemma merge_sort_sorts: "\<exists>ys. merge_sort xs = Ok ys \<and> sorted ys \<and> mset ys = mset xs"
proof (induction xs rule: merge_sort.induct)
  case (1 xs)
  consider "length xs = 2" | "length xs < 2" | "length xs > 2" by linarith
  then show ?case
  proof cases
    case 1
    then obtain x y where xs: "xs = [x, y]" by (auto simp: length_Suc_conv numeral_2_eq_2)
    then show ?thesis by (auto simp: merge_sort.simps[of "[x, y]"] xor_swap_swaps)
  next
    case 2
    then show ?thesis by (cases xs) (auto simp: merge_sort.simps)
  next
    case 3
    let ?mid = "length xs div 2"
    obtain l where l: "merge_sort (take ?mid xs) = Ok l" "sorted l" "mset l = mset (take ?mid xs)"
      using "1.IH"(1) 3 by auto
    obtain r where r: "merge_sort (drop ?mid xs) = Ok r" "sorted r" "mset r = mset (drop ?mid xs)"
      using "1.IH"(2) 3 l(1) by auto
    have "merge_sort xs = merge_from (l @ r) l r 0 0 0"
      using 3 l(1) r(1) by (subst merge_sort.simps) simp
    also have "\<dots> = Ok (mrg l r)" using merge_from_ok[of "l @ r" l r "[]" "[]" "[]"] by simp
    finally show ?thesis using sorted_mrg[OF l(2) r(2)] l(3) r(3)
      by (simp flip: mset_append)
  qed
qed

interpretation mrg: sorter merge_sort "\<lambda>_. True"
  by unfold_locales (rule merge_sort_sorts)

section \<open>Quicksort, first version\<close>

text \<open>The partition loop, with the rounds left; then the pivot is put into the hole.\<close>

fun part_loop :: "'a :: linorder \<Rightarrow> 'a list \<Rightarrow> nat \<Rightarrow> nat \<Rightarrow> bool \<Rightarrow> nat \<Rightarrow>
    ('a list \<times> nat \<times> nat \<times> bool) result" where
  "part_loop pivot ar low high on_high 0 = Ok (ar, low, high, on_high)"
| "part_loop pivot ar low high on_high (Suc n) =
     (if on_high then
        let high = high - 1
        in andthen (rd ar high) (\<lambda>x.
             if x < pivot then andthen (wr ar low x) (\<lambda>ar. part_loop pivot ar low high False n)
             else part_loop pivot ar low high True n)
      else
        let low = low + 1
        in andthen (rd ar low) (\<lambda>x.
             if x > pivot then andthen (wr ar high x) (\<lambda>ar. part_loop pivot ar low high True n)
             else part_loop pivot ar low high False n))"

definition partition_v1 :: "'a :: linorder list \<Rightarrow> ('a list \<times> nat) result" where
  "partition_v1 ar =
     andthen (rd ar 0) (\<lambda>pivot.
     andthen (part_loop pivot ar 0 (length ar) True (length ar - 1)) (\<lambda>(ar, low, high, on_high).
       if on_high then andthen (wr ar low pivot) (\<lambda>ar. Ok (ar, low))
       else andthen (wr ar high pivot) (\<lambda>ar. Ok (ar, high))))"

text \<open>
  Between two rounds: the hole is at \<open>low\<close> or at \<open>high\<close>; what lies left of \<open>low\<close> is not
  greater than the pivot, what lies right of \<open>high\<close> not smaller, and so is the one of the two
  positions that is not the hole. The first array \<open>xs\<close> is the present one with the pivot in
  the hole, in another order.
\<close>

definition part_inv :: "'a :: linorder \<Rightarrow> 'a list \<Rightarrow> 'a list \<Rightarrow> nat \<Rightarrow> nat \<Rightarrow> bool \<Rightarrow> bool" where
  "part_inv pivot xs ar low high on_high \<longleftrightarrow>
     length ar = length xs \<and> low < high \<and> high \<le> length ar \<and> (\<not> on_high \<longrightarrow> high < length ar) \<and>
     mset (ar[(if on_high then low else high) := pivot]) = mset xs \<and>
     (\<forall>i<low. ar ! i \<le> pivot) \<and> (\<forall>i<length ar. high < i \<longrightarrow> pivot \<le> ar ! i) \<and>
     (on_high \<and> high < length ar \<longrightarrow> pivot \<le> ar ! high) \<and> (\<not> on_high \<longrightarrow> ar ! low \<le> pivot)"

lemma mset_move_hole:
  assumes "i < length xs" and "j < length xs" and "i \<noteq> j"
  shows "mset (xs[i := xs ! j, j := p]) = mset (xs[i := p])"
proof -
  have "xs[i := xs ! j, j := p] = (xs[i := p])[j := (xs[i := p]) ! i, i := (xs[i := p]) ! j]"
    using assms by (simp add: list_update_swap[of i j xs])
  then show ?thesis using assms mset_swap[of i "xs[i := p]" j] by (simp only: length_list_update)
qed

lemma part_loop_ok:
  assumes "part_inv pivot xs ar low high on_high" and "high = low + Suc n"
    and "(if on_high then high else Suc high) \<le> b"
  shows "\<exists>ar' low' high' on_high'. part_loop pivot ar low high on_high n = Ok (ar', low', high', on_high') \<and>
    part_inv pivot xs ar' low' high' on_high' \<and> high' = Suc low' \<and>
    (if on_high' then low' else high') < b"
  using assms
proof (induction n arbitrary: ar low high on_high)
  case (Suc n)
  note I = Suc.prems(1)[unfolded part_inv_def]
  show ?case
  proof (cases on_high)
    case on: True
    let ?h = "high - 1"
    have h: "?h < length ar" "low < ?h" "?h = low + Suc n" using I Suc.prems(2) on by auto
    have above: "\<forall>i<length ar. ?h < i \<longrightarrow> pivot \<le> ar ! i"
    proof (intro allI impI)
      fix i assume "i < length ar" "?h < i"
      then show "pivot \<le> ar ! i" using I on by (cases "i = high") auto
    qed
    show ?thesis
    proof (cases "ar ! ?h < pivot")
      case True
      have "mset (ar[low := ar ! ?h, ?h := pivot]) = mset (ar[low := pivot])"
        using mset_move_hole[of low ar ?h pivot] h by simp
      then have inv: "part_inv pivot xs (ar[low := ar ! ?h]) low ?h False"
        using I on h True above unfolding part_inv_def by (simp add: nth_list_update)
      have "part_loop pivot ar low high on_high (Suc n) =
          part_loop pivot (ar[low := ar ! ?h]) low ?h False n"
        using on h True by (simp add: Let_def)
      then show ?thesis using Suc.IH[OF inv h(3)] Suc.prems(2,3) on by simp
    next
      case False
      then have inv: "part_inv pivot xs ar low ?h True"
        using I on h above unfolding part_inv_def by simp
      have "part_loop pivot ar low high on_high (Suc n) = part_loop pivot ar low ?h True n"
        using on h False by (simp add: Let_def)
      then show ?thesis using Suc.IH[OF inv h(3)] Suc.prems(2,3) on by simp
    qed
  next
    case off: False
    let ?l = "low + 1"
    have l: "?l < high" "high < length ar" "high = ?l + Suc n" using I Suc.prems(2) off by auto
    have below: "\<forall>i<?l. ar ! i \<le> pivot" using I off by (auto simp: less_Suc_eq)
    show ?thesis
    proof (cases "ar ! ?l > pivot")
      case True
      have "mset (ar[high := ar ! ?l, ?l := pivot]) = mset (ar[high := pivot])"
        using mset_move_hole[of high ar ?l pivot] l by simp
      then have inv: "part_inv pivot xs (ar[high := ar ! ?l]) ?l high True"
        using I off l True below by (auto simp: part_inv_def nth_list_update)
      have "part_loop pivot ar low high on_high (Suc n) =
          part_loop pivot (ar[high := ar ! ?l]) ?l high True n"
        using off l True by (simp add: Let_def)
      then show ?thesis using Suc.IH[OF inv l(3)] Suc.prems(2,3) off by simp
    next
      case False
      then have inv: "part_inv pivot xs ar ?l high False"
        using I off l below by (auto simp: part_inv_def)
      have "part_loop pivot ar low high on_high (Suc n) = part_loop pivot ar ?l high False n"
        using off l False by (simp add: Let_def)
      then show ?thesis using Suc.IH[OF inv l(3)] Suc.prems(2,3) off by simp
    qed
  qed
qed auto

definition parted :: "'a :: linorder list \<Rightarrow> 'a list \<Rightarrow> nat \<Rightarrow> bool" where
  "parted xs ys mid \<longleftrightarrow> mid < length xs \<and> mset ys = mset xs \<and>
     (\<forall>i<mid. ys ! i \<le> ys ! mid) \<and> (\<forall>i<length ys. mid < i \<longrightarrow> ys ! mid \<le> ys ! i)"

lemma part_end:
  assumes "part_inv pivot xs ar low high on_high" and "high = Suc low"
  shows "parted xs (ar[(if on_high then low else high) := pivot]) (if on_high then low else high)"
proof -
  note I = assms(1)[unfolded part_inv_def]
  show ?thesis
  proof (cases on_high)
    case True
    have "pivot \<le> ar ! i" if "i < length ar" "low < i" for i
      using I True that assms(2) by (cases "i = high") auto
    then show ?thesis using I True by (simp add: parted_def)
  next
    case False
    have "ar ! i \<le> pivot" if "i < high" for i using I False that assms(2) by (cases "i = low") auto
    then show ?thesis using I False by (simp add: parted_def)
  qed
qed

text \<open>The pivot ends up last only if the last element was smaller.\<close>

lemma partition_v1_ok:
  assumes "xs \<noteq> []"
  shows "\<exists>ys mid. partition_v1 xs = Ok (ys, mid) \<and> parted xs ys mid \<and>
    (1 < length xs \<and> Suc mid = length xs \<longrightarrow> last xs < ys ! mid)"
proof -
  let ?n = "length xs" and ?p = "xs ! 0"
  define b where "b = (if 1 < ?n \<and> ?p \<le> last xs then ?n - 1 else ?n)"
  have start: "part_inv ?p xs xs 0 ?n True" using assms by (simp add: part_inv_def)
  obtain ar low high on where r: "part_loop ?p xs 0 ?n True (?n - 1) = Ok (ar, low, high, on)"
    "part_inv ?p xs ar low high on" "high = Suc low" "(if on then low else high) < b"
  proof (cases "1 < ?n \<and> ?p \<le> last xs")
    case True
    then have l: "?p \<le> xs ! (?n - 1)" using assms by (simp add: last_conv_nth)
    have inv: "part_inv ?p xs xs 0 (?n - 1) True"
    proof -
      have "\<forall>i<?n. ?n - 1 < i \<longrightarrow> ?p \<le> xs ! i" by auto
      moreover have "0 < ?n - 1" using conjunct1[OF True] by linarith
      moreover have "?n - 1 \<le> ?n" by (rule diff_le_self)
      moreover have "mset (xs[0 := ?p]) = mset xs" by (simp only: list_update_id)
      ultimately show ?thesis unfolding part_inv_def if_True using l by blast
    qed
    obtain n where n: "?n = Suc (Suc n)" using less_imp_Suc_add[OF conjunct1[OF True]] by auto
    have "part_loop ?p xs 0 ?n True (?n - 1) = part_loop ?p xs 0 (?n - 1) True n"
      using leD[OF l] n by (simp add: Let_def)
    moreover have "?n - 1 = 0 + Suc n" "b = ?n - 1" using n True by (simp_all add: b_def)
    ultimately show thesis using that part_loop_ok[OF inv, of n b] by auto
  next
    case False
    then show thesis using that part_loop_ok[OF start, of "?n - 1" b] assms by (auto simp: b_def)
  qed
  let ?h = "if on then low else high"
  have "?h < length ar" using r(2) by (auto simp: part_inv_def)
  then have "partition_v1 xs = Ok (ar[?h := ?p], ?h)" using r(1) assms by (auto simp: partition_v1_def)
  moreover have "1 < ?n \<and> Suc ?h = ?n \<longrightarrow> last xs < (ar[?h := ?p]) ! ?h"
    using r(4) \<open>?h < length ar\<close> by (auto simp: b_def split: if_splits)
  ultimately show ?thesis using part_end[OF r(2,3)] by blast
qed

text \<open>
  The recursion on the left part includes the pivot, so it may be on an array of the same
  length, and that only if its last element is its greatest and this call's is not: the
  measure counts this as half an element.
\<close>

definition last_greatest :: "'a :: linorder list \<Rightarrow> bool" where
  "last_greatest xs \<longleftrightarrow> (\<forall>x\<in>set xs. x \<le> last xs)"

lemma partition_v1_Ok_parted:
  assumes "partition_v1 xs = Ok (ys, mid)"
  shows "parted xs ys mid \<and> (1 < length xs \<and> Suc mid = length xs \<longrightarrow> last xs < ys ! mid)"
proof (cases "xs = []")
  case True
  then show ?thesis using assms by (simp add: partition_v1_def)
next
  case False
  then show ?thesis using partition_v1_ok[OF False] assms by auto
qed

lemma parted_length: "parted xs ys mid \<Longrightarrow> length ys = length xs \<and> set ys = set xs"
  by (auto simp: parted_def dest: mset_eq_length mset_eq_setD)

lemma parted_whole:
  assumes "partition_v1 xs = Ok (ys, mid)" and "Suc mid = length xs" and "0 < mid"
  shows "last_greatest ys" and "\<not> last_greatest xs"
proof -
  have P: "parted xs ys mid" "last xs < ys ! mid" using partition_v1_Ok_parted[OF assms(1)] assms(2,3) by auto
  note L = parted_length[OF P(1)]
  have last: "last ys = ys ! mid" using L assms(2) by (metis diff_Suc_1 last_conv_nth length_0_conv nat.distinct(1))
  have "\<forall>i<length ys. ys ! i \<le> ys ! mid"
  proof (intro allI impI)
    fix i assume "i < length ys"
    then show "ys ! i \<le> ys ! mid" using P(1) L assms(2) by (cases "i = mid") (auto simp: parted_def)
  qed
  then show "last_greatest ys" by (auto simp: last_greatest_def last in_set_conv_nth)
  have "ys ! mid \<in> set xs" using L assms(2) by (metis lessI nth_mem)
  then show "\<not> last_greatest xs" using P(2) by (auto simp: last_greatest_def not_le)
qed

function quick_sort_v1 :: "'a :: linorder list \<Rightarrow> 'a list result" where
  "quick_sort_v1 ar =
     (case partition_v1 ar of Inl e \<Rightarrow> Inl e
      | Inr (ys, mid) \<Rightarrow>
          (case (if mid + 1 > 1 then quick_sort_v1 (take (mid + 1) ys) else Ok (take (mid + 1) ys)) of
             Inl e \<Rightarrow> Inl e
           | Inr l \<Rightarrow>
               (case (if length ys - mid - 1 > 1 then quick_sort_v1 (drop (mid + 1) ys)
                      else Ok (drop (mid + 1) ys)) of
                  Inl e \<Rightarrow> Inl e | Inr r \<Rightarrow> Ok (l @ r))))"
  by pat_completeness auto
termination
proof (relation "measure (\<lambda>ar. 2 * length ar + (if last_greatest ar then 0 else 1))", simp_all only: wf_measure)
  fix ar ys :: "'a list" and p mid
  assume p: "partition_v1 ar = Inr p" "(ys, mid) = p"
  then have p': "partition_v1 ar = Ok (ys, mid)" by simp
  then have P: "parted ar ys mid" using partition_v1_Ok_parted by blast
  note L = parted_length[OF P]
  {
    assume "mid + 1 > 1"
    show "(take (mid + 1) ys, ar) \<in> measure (\<lambda>ar. 2 * length ar + (if last_greatest ar then 0 else 1))"
    proof (cases "Suc mid = length ar")
      case True
      then show ?thesis using parted_whole[OF p'] \<open>mid + 1 > 1\<close> L by simp
    next
      case False
      then show ?thesis using P L by (simp add: parted_def)
    qed
  }
  show "(drop (mid + 1) ys, ar) \<in> measure (\<lambda>ar. 2 * length ar + (if last_greatest ar then 0 else 1))"
  proof -
    have "mid < length ar" using P by (simp add: parted_def)
    then show ?thesis using L by auto
  qed
qed

declare quick_sort_v1.simps [simp del]

lemma sorted_around:
  assumes "sorted l" and "sorted r" and "\<And>x. x \<in> set l \<Longrightarrow> x \<le> p" and "\<And>x. x \<in> set r \<Longrightarrow> p \<le> x"
  shows "sorted (l @ r)"
  using assms by (auto simp: sorted_append intro: order_trans)

lemma quick_sort_v1_sorts:
  "xs \<noteq> [] \<Longrightarrow> \<exists>ys. quick_sort_v1 xs = Ok ys \<and> sorted ys \<and> mset ys = mset xs"
proof (induction xs rule: quick_sort_v1.induct)
  case (1 xs)
  obtain ys mid where p: "partition_v1 xs = Ok (ys, mid)" "parted xs ys mid"
    using partition_v1_ok[OF "1.prems"] by blast
  note L = parted_length[OF p(2)]
  let ?l = "take (mid + 1) ys" and ?r = "drop (mid + 1) ys"
  have mid: "mid < length ys" using p(2) L by (simp add: parted_def)
  have low: "x \<le> ys ! mid" if x: "x \<in> set ?l" for x
  proof -
    obtain i where "i < length ?l" "?l ! i = x" using x[unfolded in_set_conv_nth] by blast
    then have "x = ys ! i" "i \<le> mid" by auto
    then show ?thesis using p(2) by (cases "i = mid") (auto simp: parted_def)
  qed
  have high: "ys ! mid \<le> x" if x: "x \<in> set ?r" for x
  proof -
    obtain i where "i < length ?r" "?r ! i = x" using x[unfolded in_set_conv_nth] by blast
    then have "x = ys ! (mid + 1 + i)" "mid + 1 + i < length ys" using mid by auto
    then show ?thesis using p(2) by (simp add: parted_def)
  qed
  have small: "\<exists>zs. Ok us = Ok zs \<and> sorted zs \<and> mset zs = mset us"
    if "length us \<le> 1" for us :: "'a list"
    using that by (cases us) auto
  obtain l where l: "(if mid + 1 > 1 then quick_sort_v1 ?l else Ok ?l) = Ok l" "sorted l" "mset l = mset ?l"
    using "1.IH"(1)[OF p(1) refl] small[of ?l] mid by (cases "mid + 1 > 1") force+
  obtain r where r: "(if length ys - mid - 1 > 1 then quick_sort_v1 ?r else Ok ?r) = Ok r" "sorted r"
    "mset r = mset ?r"
    using "1.IH"(2)[OF p(1) refl l(1)] small[of ?r] by (cases "length ys - mid - 1 > 1") force+
  have "quick_sort_v1 xs = Ok (l @ r)" using p(1) l(1) r(1) by (subst quick_sort_v1.simps) simp
  moreover have "set l = set ?l" "set r = set ?r" using l(3) r(3) mset_eq_setD by blast+
  then have "sorted (l @ r)" using sorted_around[OF l(2) r(2), of "ys ! mid"] low high by blast
  moreover have "mset (l @ r) = mset (?l @ ?r)" using l(3) r(3) by (simp only: mset_append)
  then have "mset (l @ r) = mset xs" using p(2) by (simp add: parted_def)
  ultimately show ?case by blast
qed

interpretation qs1: sorter quick_sort_v1 "\<lambda>xs. xs \<noteq> []"
  by unfold_locales (rule quick_sort_v1_sorts)

section \<open>Quicksort, second version\<close>

text \<open>
  Here the array is the whole memory and a call works from \<open>b\<close> on, because the code goes
  below its part of the array. \<^verbatim>\<open>tmp\<close> is an \<^verbatim>\<open>int\<close>, and so are the elements here.
\<close>

definition elem :: "int list \<Rightarrow> int \<Rightarrow> int \<Rightarrow> int result" where
  "elem ar b i = (if 0 \<le> b + i then rd ar (nat (b + i)) else Fault Out_Of_Bounds)"

function scan_low :: "int list \<Rightarrow> int \<Rightarrow> int \<Rightarrow> int \<Rightarrow> int \<Rightarrow> int result" where
  "scan_low ar b pivot low high =
     andthen (elem ar b low) (\<lambda>x.
       if x < pivot \<and> low < high then scan_low ar b pivot (low + 1) high else Ok low)"
  by pat_completeness auto
termination by (relation "measure (\<lambda>(ar, b, pivot, low, high). nat (high - low))") auto

function scan_high :: "int list \<Rightarrow> int \<Rightarrow> int \<Rightarrow> int \<Rightarrow> int \<Rightarrow> int result" where
  "scan_high ar b pivot low high =
     andthen (elem ar b high) (\<lambda>x.
       if x > pivot \<and> low < high then scan_high ar b pivot low (high - 1) else Ok high)"
  by pat_completeness auto
termination by (relation "measure (\<lambda>(ar, b, pivot, low, high). nat (high - low))") auto

declare scan_low.simps [simp del] scan_high.simps [simp del]

definition swap_elems :: "int list \<Rightarrow> int \<Rightarrow> int \<Rightarrow> int \<Rightarrow> int list result" where
  "swap_elems ar b i j =
     andthen (elem ar b i) (\<lambda>tmp.
     andthen (elem ar b j) (\<lambda>y.
     andthen (wr ar (nat (b + i)) y) (\<lambda>ar. wr ar (nat (b + j)) tmp)))"

partial_function (option) part2_loop ::
  "int list \<Rightarrow> int \<Rightarrow> int \<Rightarrow> int \<Rightarrow> int \<Rightarrow> (int list \<times> int \<times> int) result option" where
  "part2_loop ar b pivot low high =
     (if low < high then
        (case andthen (scan_low ar b pivot low high) (\<lambda>low.
           andthen (scan_high ar b pivot low high) (\<lambda>high.
           andthen (swap_elems ar b low high) (\<lambda>ar.
             let low = (if low + 1 \<le> high then low + 1 else low);
                 high = (if high - 1 \<ge> low then high - 1 else high)
             in Ok (ar, low, high)))) of
           Inl e \<Rightarrow> Some (Inl e)
         | Inr (ar, low, high) \<Rightarrow> part2_loop ar b pivot low high)
      else Some (Inr (ar, low, high)))"

declare part2_loop.simps [code]

definition mid_v2 :: "int list \<Rightarrow> int \<Rightarrow> int \<Rightarrow> int \<Rightarrow> int \<Rightarrow> int result" where
  "mid_v2 ar b pivot low high =
     andthen (elem ar b low) (\<lambda>x.
       if x > pivot then Ok low
       else andthen (elem ar b high) (\<lambda>y. if y < pivot then Ok (high + 1) else Ok low))"

partial_function (option) quick_sort_v2 :: "int list \<Rightarrow> int \<Rightarrow> int \<Rightarrow> int list result option" where
  "quick_sort_v2 ar b len =
     runs (Some (elem ar b 0)) (\<lambda>pivot.
     runs (part2_loop ar b pivot 0 (len - 1)) (\<lambda>(ar, low, high).
     runs (Some (mid_v2 ar b pivot low high)) (\<lambda>mid.
     runs (quick_sort_v2 ar b mid) (\<lambda>ar. quick_sort_v2 ar (b + mid) (len - mid)))))"

declare quick_sort_v2.simps [code]

lemma runs_eq_Some:
  "runs m f = Some y \<longleftrightarrow> (\<exists>e. m = Some (Inl e) \<and> y = Inl e) \<or> (\<exists>x. m = Some (Inr x) \<and> f x = Some y)"
  by (auto simp: runs_def split: option.splits sum.splits)

lemma quick_sort_v2_no_result:
  assumes "quick_sort_v2 ar b len = Some y"
  shows "\<exists>e. y = Inl e"
proof (rule quick_sort_v2.raw_induct[of "\<lambda>ar b len y. \<exists>e. y = Inl e", OF _ assms])
  fix f :: "int list \<Rightarrow> int \<Rightarrow> int \<Rightarrow> int list result option" and ar b len y
  assume IH: "\<And>ar b len y. f ar b len = Some y \<Longrightarrow> \<exists>e. y = Inl e"
    and body: "runs (Some (elem ar b 0)) (\<lambda>pivot.
      runs (part2_loop ar b pivot 0 (len - 1)) (\<lambda>(ar, low, high).
      runs (Some (mid_v2 ar b pivot low high)) (\<lambda>mid.
      runs (f ar b mid) (\<lambda>ar. f ar (b + mid) (len - mid))))) = Some y"
  have "f ar b len \<noteq> Some (Inr r)" for ar b len r using IH by blast
  then show "\<exists>e. y = Inl e" using body IH by (force simp: runs_eq_Some split: prod.splits)
qed

section \<open>Binary search\<close>

function bin_find :: "int list \<Rightarrow> int \<Rightarrow> int" where
  "bin_find arr val =
     (let mid = length arr div 2
      in if length arr < 1 then - 1
         else if val = arr ! mid then int mid
         else if val > arr ! mid then int mid + 1 + bin_find (drop (mid + 1) arr) val
         else bin_find (take mid arr) val)"
  by pat_completeness auto
termination by (relation "measure (\<lambda>(arr, val). length arr)") auto

declare bin_find.simps [simp del]

text \<open>What is searched lies, if anywhere, in the half that the search goes on with.\<close>

lemma sorted_halves:
  assumes "sorted arr" and "mid < length arr"
  shows "\<forall>x\<in>set (take (mid + 1) arr). x \<le> arr ! mid" and "\<forall>x\<in>set (drop mid arr). arr ! mid \<le> x"
proof -
  have "arr = take mid arr @ arr ! mid # drop (Suc mid) arr" by (rule id_take_nth_drop[OF assms(2)])
  then have "sorted (take mid arr @ arr ! mid # drop (Suc mid) arr)" using assms(1) by simp
  then show "\<forall>x\<in>set (take (mid + 1) arr). x \<le> arr ! mid" and "\<forall>x\<in>set (drop mid arr). arr ! mid \<le> x"
    using assms(2) by (auto simp: sorted_append take_Suc_conv_app_nth Cons_nth_drop_Suc[symmetric])
qed

text \<open>\<open>search_result arr val k\<close>: what the index \<open>k\<close> tells of \<open>val\<close>.\<close>

definition search_result :: "'a :: linorder list \<Rightarrow> 'a \<Rightarrow> int \<Rightarrow> bool" where
  "search_result arr val k \<longleftrightarrow>
     (val \<in> set arr \<longrightarrow> 0 \<le> k \<and> k < int (length arr) \<and> arr ! nat k = val) \<and>
     (val \<notin> set arr \<longrightarrow> k = int (length (filter (\<lambda>x. x < val) arr)) - 1)"

lemma search_right:
  assumes srt: "sorted arr" and mid: "mid < length arr" and less: "arr ! mid < val"
    and k: "search_result (drop (mid + 1) arr) val k"
  shows "search_result arr val (int mid + 1 + k)"
proof -
  let ?r = "drop (mid + 1) arr"
  have low: "\<forall>x\<in>set (take (mid + 1) arr). x < val"
    using sorted_halves(1)[OF srt mid] less by (meson le_less_trans)
  have arr: "arr = take (mid + 1) arr @ ?r" by simp
  have mem: "val \<in> set arr \<longleftrightarrow> val \<in> set ?r"
    using low arr by (metis Un_iff less_irrefl set_append)
  have "filter (\<lambda>x. x < val) arr = take (mid + 1) arr @ filter (\<lambda>x. x < val) ?r"
    using low arr by (metis filter_True filter_append)
  then have count: "length (filter (\<lambda>x. x < val) arr) = mid + 1 + length (filter (\<lambda>x. x < val) ?r)"
    using mid by simp
  have nth: "arr ! nat (int mid + 1 + k) = ?r ! nat k" if "0 \<le> k" "k < int (length ?r)"
    using that mid by (simp add: nat_add_distrib)
  have len: "int (length arr) = int mid + 1 + int (length ?r)" using mid by simp
  show ?thesis
  proof (cases "val \<in> set ?r")
    case True
    then have "0 \<le> k" "k < int (length ?r)" "?r ! nat k = val" using k by (simp_all add: search_result_def)
    then show ?thesis using True mem nth len by (simp add: search_result_def del: length_drop)
  next
    case False
    then have "k = int (length (filter (\<lambda>x. x < val) ?r)) - 1" using k by (simp add: search_result_def)
    then show ?thesis using False mem count by (simp add: search_result_def)
  qed
qed

lemma search_left:
  assumes srt: "sorted arr" and mid: "mid < length arr" and less: "val < arr ! mid"
    and k: "search_result (take mid arr) val k"
  shows "search_result arr val k"
proof -
  let ?l = "take mid arr"
  have high: "\<forall>x\<in>set (drop mid arr). val < x"
    using sorted_halves(2)[OF srt mid] less by (meson less_le_trans)
  have arr: "arr = ?l @ drop mid arr" by simp
  have mem: "val \<in> set arr \<longleftrightarrow> val \<in> set ?l"
    using high arr by (metis Un_iff less_irrefl set_append)
  have "filter (\<lambda>x. x < val) (drop mid arr) = []" using high by (auto simp: filter_empty_conv)
  then have count: "filter (\<lambda>x. x < val) arr = filter (\<lambda>x. x < val) ?l"
    using arr by (metis append_Nil2 filter_append)
  have "arr ! nat k = ?l ! nat k" if "0 \<le> k" "k < int (length ?l)" using that by auto
  moreover have "length ?l \<le> length arr" by simp
  ultimately show ?thesis using k mem count unfolding search_result_def by (cases "val \<in> set ?l") auto
qed

lemma bin_find_result: "sorted arr \<Longrightarrow> search_result arr val (bin_find arr val)"
proof (induction arr val rule: bin_find.induct)
  case (1 arr val)
  let ?mid = "length arr div 2"
  consider "arr = []" | "arr \<noteq> []" "val = arr ! ?mid" | "arr \<noteq> []" "val > arr ! ?mid"
    | "arr \<noteq> []" "val < arr ! ?mid" by linarith
  then show ?case
  proof cases
    case 1
    then show ?thesis by (simp add: bin_find.simps search_result_def)
  next
    case 2
    then have "?mid < length arr" by (cases arr) auto
    moreover have "bin_find arr val = int ?mid" using 2 by (subst bin_find.simps) (simp add: Let_def)
    ultimately show ?thesis using 2(2) nth_mem[of ?mid arr] by (simp add: search_result_def)
  next
    case 3
    then have mid: "?mid < length arr" by (cases arr) auto
    have ne: "\<not> length arr < 1" "val \<noteq> arr ! ?mid" using 3 by auto
    have "bin_find arr val = int ?mid + 1 + bin_find (drop (?mid + 1) arr) val"
      using 3 by (subst bin_find.simps) (simp add: Let_def)
    then show ?thesis
      using search_right[OF "1.prems" mid 3(2) "1.IH"(1)[OF refl ne 3(2) sorted_wrt_drop[OF "1.prems"]]] by simp
  next
    case 4
    then have mid: "?mid < length arr" by (cases arr) auto
    have ne: "\<not> length arr < 1" "val \<noteq> arr ! ?mid" "\<not> arr ! ?mid < val" using 4 by auto
    have "bin_find arr val = bin_find (take ?mid arr) val" using 4 by (subst bin_find.simps) (simp add: Let_def)
    then show ?thesis
      using search_left[OF "1.prems" mid 4(2) "1.IH"(2)[OF refl ne sorted_wrt_take[OF "1.prems"]]] by simp
  qed
qed

section \<open>The properties\<close>

text \<open>
  C29. Insertion sort and merge sort are the sorting function of the library: on every array
  they return its elements in order, without leaving the array, and so they agree with each
  other on every array of unsigned numbers, whatever their width.
\<close>

theorem algo_sort_insert_merge:
  "insert_sort xs = Ok (sort xs) \<and> merge_sort ws = Ok (sort ws) \<and> insert_sort ws = merge_sort ws"
  using ins.srt_is_sort[of xs] ins.srt_is_sort[of ws] mrg.srt_is_sort[of ws] by simp

text \<open>
  C30. The first quicksort returns on every array and sorts it, although its recursion on the
  left part includes the pivot and can be on an array of the same length; on an empty array
  it reads an element that is not there.
\<close>

theorem quick_sort_v1_total:
  "quick_sort_v1 xs = (if xs = [] then Fault Out_Of_Bounds else Ok (sort xs))"
proof (cases "xs = []")
  case True
  then show ?thesis by (simp add: quick_sort_v1.simps partition_v1_def)
qed (simp add: qs1.srt_is_sort)

text \<open>
  The second quicksort never returns: its recursion has no base case, so a call either
  runs forever or leaves the array, as it does on an array of one element.
\<close>

theorem quick_sort_v2_never_returns:
  "quick_sort_v2 ar b len \<noteq> Some (Ok ar') \<and> quick_sort_v2 [x] 0 1 = Some (Fault Out_Of_Bounds)"
proof
  show "quick_sort_v2 ar b len \<noteq> Some (Ok ar')" using quick_sort_v2_no_result by blast
  have loop: "part2_loop [x] 0 x 0 0 = Some (Ok ([x], 0, 0))"
    and loop': "part2_loop [x] 0 x 0 (- 1) = Some (Ok ([x], 0, - 1))"
    by (simp_all add: part2_loop.simps[of _ _ _ 0])
  have "quick_sort_v2 [x] 0 0 = Some (Fault Out_Of_Bounds)"
    by (simp add: quick_sort_v2.simps[of _ _ 0] elem_def loop' mid_v2_def)
  then show "quick_sort_v2 [x] 0 1 = Some (Fault Out_Of_Bounds)"
    by (simp add: quick_sort_v2.simps[of _ _ 1] elem_def loop mid_v2_def)
qed

text \<open>
  Binary search of a sorted array finds an element that is there. An element that is not
  there gives the number of smaller elements minus 1, which is the error value -1 only when
  it is smaller than all others: a miss to the right looks like a hit.
\<close>

theorem bin_find_finds:
  assumes "insert_sort xs = Ok arr"
  shows "if val \<in> set xs
     then \<exists>i<length xs. bin_find arr val = int i \<and> arr ! i = val
     else bin_find arr val = int (length (filter (\<lambda>x. x < val) xs)) - 1"
proof -
  have arr: "arr = sort xs" using ins.srt_is_sort[of xs] assms by simp
  have "mset (filter (\<lambda>x. x < val) (sort xs)) = mset (filter (\<lambda>x. x < val) xs)" by simp
  then have "length (filter (\<lambda>x. x < val) (sort xs)) = length (filter (\<lambda>x. x < val) xs)"
    by (rule mset_eq_length)
  moreover have "\<exists>i<length xs. bin_find arr val = int i \<and> arr ! i = val" if "val \<in> set arr"
    using bin_find_result[of arr val] that arr by (unfold search_result_def, intro exI[of _ "nat (bin_find arr val)"]) (simp add: nat_less_iff)
  ultimately show ?thesis using bin_find_result[of arr val] arr by (simp add: search_result_def)
qed

theorem bin_find_finds_witness:
  "bin_find [1, 3, 5] 9 = 2 \<and> (\<exists>i<3. bin_find [1, 3, 5] 3 = int i \<and> [1, 3, 5 :: int] ! i = 3)"
proof -
  have s: "insert_sort [5, 1, 3 :: int] = Ok [1, 3, 5]" using ins.srt_is_sort[of "[5, 1, 3 :: int]"] by simp
  show ?thesis using bin_find_finds[OF s, of 9] bin_find_finds[OF s, of 3]
    by (simp add: eval_nat_numeral)
qed

end
