(* ===== verification/Kmp.thy ===== *)
theory Kmp
  imports Selib_Prelude
begin

text \<open>
  \<^verbatim>\<open>algorithm/kmp.cpp\<close>: the table that the search of Knuth, Morris and Pratt goes by. Entry
  \<open>i\<close> is where the pattern is to go on when its character \<open>i\<close> does not match. \<^verbatim>\<open>main\<close> is in
  theory \<open>Programs\<close>.
\<close>

section \<open>The function\<close>

record 'a pattern_t =
  pt_pattern :: "'a list"   \<comment> \<open>128 characters\<close>
  pt_skip :: "int list"     \<comment> \<open>128 entries\<close>
  pt_len :: int

text \<open>The inner loop at \<open>j\<close>; it need not end on a table with arbitrary entries.\<close>

partial_function (option) skip_loop :: "'a list \<Rightarrow> int list \<Rightarrow> nat \<Rightarrow> int \<Rightarrow> int result option" where
  "skip_loop pattern skip i j =
     (if j \<ge> 0 then
        runs (Some (andthen (rd pattern (nat j)) (\<lambda>x. andthen (rd pattern (i - 1)) (\<lambda>y. Ok (x = y)))))
          (\<lambda>hit. if hit then Some (Inr j)
             else runs (Some (rd skip (nat j))) (\<lambda>j. skip_loop pattern skip i j))
      else Some (Inr j))"

declare skip_loop.simps [code]

text \<open>The outer loop over the positions still to fill.\<close>

fun skip_outer :: "'a list \<Rightarrow> int list \<Rightarrow> nat list \<Rightarrow> int list result option" where
  "skip_outer pattern skip [] = Some (Ok skip)"
| "skip_outer pattern skip (i # is) =
     runs (Some (rd skip (i - 1))) (\<lambda>j.
     runs (skip_loop pattern skip i j) (\<lambda>j.
     runs (Some (wr skip i (j + 1))) (\<lambda>skip. skip_outer pattern skip is)))"

text \<open>A null pointer is \<open>None\<close>.\<close>

definition make_skip :: "'a pattern_t option \<Rightarrow> ('a pattern_t option \<times> int) result option" where
  "make_skip p =
     (case p of
        None \<Rightarrow> Some (Ok (None, - 1))
      | Some pat \<Rightarrow>
          runs (Some (wr (pt_skip pat) 0 (- 1))) (\<lambda>skip.
          runs (skip_outer (pt_pattern pat) skip [1..<nat (pt_len pat)]) (\<lambda>skip.
            Some (Ok (Some (pat\<lparr>pt_skip := skip\<rparr>), 0)))))"

section \<open>Borders\<close>

text \<open>
  \<open>border p k i\<close>: the first \<open>i\<close> characters of \<open>p\<close> end with their own first \<open>k\<close>, and
  \<open>k < i\<close>. The table is to hold the greatest such \<open>k\<close>.
\<close>

definition border :: "'a list \<Rightarrow> nat \<Rightarrow> nat \<Rightarrow> bool" where
  "border p k i \<longleftrightarrow> k < i \<and> (\<forall>t<k. p ! t = p ! (i - k + t))"

definition longest_border :: "'a list \<Rightarrow> nat \<Rightarrow> nat \<Rightarrow> bool" where
  "longest_border p k i \<longleftrightarrow> border p k i \<and> (\<forall>k'. border p k' i \<longrightarrow> k' \<le> k)"

lemma border_0 [simp]: "border p 0 i \<longleftrightarrow> 0 < i"
  by (simp add: border_def)

lemma border_less: "border p k i \<Longrightarrow> k < i"
  by (simp add: border_def)

lemma border_nth: "border p k i \<Longrightarrow> t < k \<Longrightarrow> p ! t = p ! (i - k + t)"
  by (simp add: border_def)

lemma border_Suc: "border p (Suc k) (Suc i) \<longleftrightarrow> border p k i \<and> p ! k = p ! i"
  by (auto simp: border_def less_Suc_eq)

lemma border_of_border:
  assumes "border p j i" and "border p k i" and "k < j"
  shows "border p k j"
  unfolding border_def
proof (intro conjI allI impI)
  fix t assume t: "t < k"
  have "p ! (j - k + t) = p ! (i - j + (j - k + t))"
    by (rule border_nth[OF assms(1)]) (use assms(3) t in simp)
  also have "i - j + (j - k + t) = i - k + t" using border_less[OF assms(1)] assms(3) by simp
  also have "p ! (i - k + t) = p ! t" using border_nth[OF assms(2) t] by simp
  finally show "p ! t = p ! (j - k + t)" by simp
qed (rule assms(3))

lemma border_trans:
  assumes "border p j i" and "border p k j"
  shows "border p k i"
  unfolding border_def
proof (intro conjI allI impI)
  show "k < i" using border_less[OF assms(1)] border_less[OF assms(2)] by simp
  fix t assume t: "t < k"
  have "p ! t = p ! (j - k + t)" by (rule border_nth[OF assms(2) t])
  also have "\<dots> = p ! (i - j + (j - k + t))"
    by (rule border_nth[OF assms(1)]) (use border_less[OF assms(2)] t in simp)
  also have "i - j + (j - k + t) = i - k + t" using border_less[OF assms(1)] border_less[OF assms(2)] by simp
  finally show "p ! t = p ! (i - k + t)" .
qed

lemma longest_1: "longest_border p 0 1"
  by (auto simp: longest_border_def border_def)

text \<open>The table up to \<open>i\<close>.\<close>

definition table_ok :: "'a list \<Rightarrow> int list \<Rightarrow> nat \<Rightarrow> bool" where
  "table_ok p sk i \<longleftrightarrow> 0 < length sk \<and> sk ! 0 = - 1 \<and>
     (\<forall>m. 0 < m \<and> m < i \<longrightarrow> 0 \<le> sk ! m \<and> longest_border p (nat (sk ! m)) m)"

text \<open>
  Inside the loop for the position \<open>i + 1\<close>: \<open>j\<close> is a border of the prefix \<open>i\<close>, or -1, and no
  border of the prefix \<open>i + 1\<close> is longer than \<open>j + 1\<close>.
\<close>

definition skip_inv :: "'a list \<Rightarrow> nat \<Rightarrow> int \<Rightarrow> bool" where
  "skip_inv p i j \<longleftrightarrow> - 1 \<le> j \<and> (0 \<le> j \<longrightarrow> border p (nat j) i) \<and>
     (\<forall>k. border p (Suc k) (Suc i) \<longrightarrow> int k \<le> j)"

lemma skip_inv_next:
  assumes "skip_inv p i (int j)" and "p ! j \<noteq> p ! i" and "table_ok p sk i"
  shows "skip_inv p i (sk ! j) \<and> sk ! j < int j"
proof -
  have j: "border p j i" using assms(1) by (simp add: skip_inv_def)
  have below: "k < j" if "border p (Suc k) (Suc i)" for k
  proof -
    have "k \<le> j" using assms(1) that by (force simp: skip_inv_def)
    moreover have "k \<noteq> j" using that assms(2) by (auto simp: border_Suc)
    ultimately show ?thesis by simp
  qed
  show ?thesis
  proof (cases "j = 0")
    case True
    then show ?thesis using assms(3) below by (auto simp: table_ok_def skip_inv_def)
  next
    case False
    moreover have "j < i" using j by (rule border_less)
    ultimately have sk: "0 \<le> sk ! j" "longest_border p (nat (sk ! j)) j"
      using assms(3) by (auto simp: table_ok_def)
    have "int k \<le> sk ! j" if "border p (Suc k) (Suc i)" for k
    proof -
      have "border p k j" using border_of_border[OF j _ below[OF that]] that by (simp add: border_Suc)
      then show ?thesis using sk by (force simp: longest_border_def)
    qed
    moreover have "border p (nat (sk ! j)) j" using sk(2) by (simp add: longest_border_def)
    then have "border p (nat (sk ! j)) i" "sk ! j < int j"
      using border_trans[OF j] border_less[of p "nat (sk ! j)" j] sk(1) by simp_all
    ultimately show ?thesis using sk(1) by (simp add: skip_inv_def)
  qed
qed

lemma skip_loop_ok:
  assumes "skip_inv p i j" and "table_ok p sk i" and "i < length p" and "i \<le> length sk"
  shows "\<exists>j'. skip_loop p sk (Suc i) j = Some (Ok j') \<and> - 1 \<le> j' \<and> longest_border p (nat (j' + 1)) (Suc i)"
  using assms(1)
proof (induction "nat (j + 1)" arbitrary: j rule: less_induct)
  case less
  note J = less.prems[unfolded skip_inv_def]
  show ?case
  proof (cases "0 \<le> j")
    case False
    then have "j = - 1" using J by simp
    moreover have "k = 0" if "border p k (Suc i)" for k using that J False by (cases k) auto
    ultimately show ?thesis by (simp add: skip_loop.simps[of p] longest_border_def)
  next
    case True
    then obtain m where m: "j = int m" using nonneg_int_cases by blast
    have lt: "m < i" using J m border_less by auto
    show ?thesis
    proof (cases "p ! m = p ! i")
      case eq: True
      then have "border p (Suc m) (Suc i)" using J m by (simp add: border_Suc)
      moreover have "k \<le> Suc m" if "border p k (Suc i)" for k using that J m by (cases k) auto
      ultimately have "longest_border p (Suc m) (Suc i)" by (simp add: longest_border_def)
      moreover have "nat (int m + 1) = Suc m" by simp
      ultimately show ?thesis using eq lt assms(3) m
        by (simp add: skip_loop.simps[of p])
    next
      case False
      have N: "skip_inv p i (sk ! m)" "sk ! m < int m"
        using skip_inv_next[OF _ False assms(2)] less.prems m by auto
      have "skip_loop p sk (Suc i) j = skip_loop p sk (Suc i) (sk ! m)"
        using False lt assms(3,4) m by (subst skip_loop.simps) simp
      then show ?thesis using less.hyps[OF _ N(1)] N m by (simp add: skip_inv_def)
    qed
  qed
qed

lemma skip_start:
  assumes "table_ok p sk (Suc i)"
  shows "skip_inv p i (sk ! i)"
proof (cases "i = 0")
  case True
  then show ?thesis using assms by (auto simp: table_ok_def skip_inv_def border_def)
next
  case False
  then have "0 \<le> sk ! i" "longest_border p (nat (sk ! i)) i" using assms by (auto simp: table_ok_def)
  moreover have "border p k i" if "border p (Suc k) (Suc i)" for k using that by (simp add: border_Suc)
  ultimately show ?thesis by (force simp: skip_inv_def longest_border_def)
qed

lemma skip_outer_ok:
  assumes "table_ok p sk i" and "0 < i" and "i \<le> n" and "n \<le> length p" and "n \<le> length sk"
  shows "\<exists>sk'. skip_outer p sk [i..<n] = Some (Ok sk') \<and> table_ok p sk' n \<and> length sk' = length sk"
  using assms
proof (induction "n - i" arbitrary: i sk)
  case 0
  then show ?case by simp
next
  case (Suc d)
  obtain i' where i: "i = Suc i'" using Suc.prems(2) by (cases i) auto
  have lt: "i < n" using Suc.hyps(2) by simp
  have "table_ok p sk i'" using Suc.prems(1) i by (simp add: table_ok_def)
  from skip_loop_ok[OF skip_start this] obtain j where j: "skip_loop p sk i (sk ! i') = Some (Ok j)"
    "- 1 \<le> j" "longest_border p (nat (j + 1)) i"
    using Suc.prems i lt by auto
  let ?sk = "sk[i := j + 1]"
  have "skip_outer p sk [i..<n] = skip_outer p ?sk [Suc i..<n]"
    using j(1) i lt Suc.prems by (simp add: upt_conv_Cons)
  moreover have "table_ok p ?sk (Suc i)"
    unfolding table_ok_def
  proof (intro conjI allI impI)
    fix m assume m: "0 < m \<and> m < Suc i"
    show "0 \<le> ?sk ! m" "longest_border p (nat (?sk ! m)) m"
      using m j Suc.prems(1,5) lt by (cases "m = i"; simp add: table_ok_def)+
  qed (use Suc.prems(1,2) in \<open>auto simp: table_ok_def\<close>)
  ultimately show ?case using Suc.hyps(1)[of "Suc i" ?sk] Suc.hyps(2) Suc.prems lt by simp
qed

section \<open>The property\<close>

text \<open>
  C19. The table is that of Knuth, Morris and Pratt: for a pattern of at least one character
  that fits the arrays, \<^verbatim>\<open>make_skip\<close> returns, and entry \<open>i > 0\<close> is the length of the longest
  proper border of the first \<open>i\<close> characters; entry 0 is -1. For a null pointer it returns -1.
\<close>

theorem make_skip_longest_border:
  assumes "length (pt_pattern pat) = 128" and "length (pt_skip pat) = 128"
    and "1 \<le> pt_len pat" and "pt_len pat \<le> 128"
  shows "make_skip (None :: 'a pattern_t option) = Some (Ok (None, - 1)) \<and>
    (\<exists>pat'. make_skip (Some (pat :: 'a pattern_t)) = Some (Ok (Some pat', 0)) \<and>
      pt_pattern pat' = pt_pattern pat \<and> pt_skip pat' ! 0 = - 1 \<and>
      (\<forall>i. 0 < i \<and> int i < pt_len pat \<longrightarrow>
         (\<exists>k. pt_skip pat' ! i = int k \<and> longest_border (pt_pattern pat) k i)))"
proof -
  let ?sk = "(pt_skip pat)[0 := - 1]" and ?n = "nat (pt_len pat)"
  have "table_ok (pt_pattern pat) ?sk 1" using assms(2) by (auto simp: table_ok_def)
  moreover have "1 \<le> ?n" "?n \<le> 128" using assms(3,4) by auto
  ultimately obtain sk where sk:
    "skip_outer (pt_pattern pat) ?sk [1..<?n] = Some (Ok sk)" "table_ok (pt_pattern pat) sk ?n"
    using skip_outer_ok[of "pt_pattern pat" ?sk 1 ?n] assms(1,2) by auto
  have "\<exists>k. sk ! i = int k \<and> longest_border (pt_pattern pat) k i"
    if "0 < i \<and> int i < pt_len pat" for i
  proof -
    have "0 \<le> sk ! i" "longest_border (pt_pattern pat) (nat (sk ! i)) i"
      using sk(2) that by (auto simp: table_ok_def)
    then show ?thesis by (intro exI[of _ "nat (sk ! i)"]) simp
  qed
  then show ?thesis using sk assms(2) by (simp add: make_skip_def table_ok_def)
qed

theorem make_skip_longest_border_witness:
  "\<exists>pat'. make_skip (Some \<lparr>pt_pattern = ''ABAC'' @ replicate 124 CHR 0x00,
       pt_skip = replicate 128 0, pt_len = 4\<rparr>) = Some (Ok (Some pat', 0)) \<and>
     (\<exists>k. pt_skip pat' ! 3 = int k \<and> longest_border (''ABAC'' @ replicate 124 CHR 0x00) k 3)"
  using make_skip_longest_border[of "\<lparr>pt_pattern = ''ABAC'' @ replicate 124 CHR 0x00,
       pt_skip = replicate 128 0, pt_len = 4\<rparr>"]
  by (auto simp del: replicate.simps)

end
