(* ===== verification/Reverse_Words.thy ===== *)
theory Reverse_Words
  imports Selib_Prelude
begin

text \<open>
  \<^verbatim>\<open>algorithm/pro.cpp\<close>: reversing the order of the words of a string in place, by reversing the
  whole string and then each word. A string is a list of characters without its terminator.
  \<^verbatim>\<open>main\<close> is in theory \<open>Programs\<close>.
\<close>

section \<open>The functions\<close>

text \<open>The loop of \<^verbatim>\<open>swap\<close>; \<open>en\<close> is \<^verbatim>\<open>end\<close> after its first decrement and may be -1.\<close>

function swap_loop :: "string \<Rightarrow> int \<Rightarrow> int \<Rightarrow> string result" where
  "swap_loop p beg en =
     (if beg \<le> en then
        andthen (rdi p en) (\<lambda>tmp.
        andthen (rdi p beg) (\<lambda>x.
        andthen (wri p en x) (\<lambda>p.
        andthen (wri p beg tmp) (\<lambda>p. swap_loop p (beg + 1) (en - 1)))))
      else Ok p)"
  by pat_completeness auto
termination by (relation "measure (\<lambda>(p, beg, en). nat (en - beg + 1))") auto

declare swap_loop.simps [simp del]

definition swap_chars :: "string \<Rightarrow> int \<Rightarrow> int \<Rightarrow> string result" where
  "swap_chars p beg en = swap_loop p beg (en - 1)"

text \<open>The loop of \<^verbatim>\<open>reverse_string\<close> over the positions still to visit.\<close>

fun rev_loop :: "string \<Rightarrow> int \<Rightarrow> nat list \<Rightarrow> (string \<times> int) result" where
  "rev_loop p last_pos [] = Ok (p, last_pos)"
| "rev_loop p last_pos (beg # begs) =
     andthen (rd p beg) (\<lambda>c.
       if c = CHR '' '' \<and> last_pos \<noteq> int beg then
         andthen (swap_chars p last_pos (int beg)) (\<lambda>p. rev_loop p (int beg + 1) begs)
       else if c = CHR '' '' \<and> last_pos = int beg then rev_loop p (int beg + 1) begs
       else rev_loop p last_pos begs)"

text \<open>The loop ends with \<^verbatim>\<open>beg\<close> equal to \<^verbatim>\<open>end\<close>, the test behind it is for greater.\<close>

definition reverse_string :: "string \<Rightarrow> (string \<times> int) result" where
  "reverse_string p =
     (let en = int (length p)
      in andthen (swap_chars p 0 en) (\<lambda>p.
         andthen (rev_loop p 0 [0..<length p]) (\<lambda>(p, last_pos).
           let beg = en
           in if beg > en then andthen (swap_chars p last_pos beg) (\<lambda>p. Ok (p, 0)) else Ok (p, 0))))"

section \<open>What the loops do\<close>

lemma swap_loop_step:
  assumes "i < j" and "j < length p"
  shows "swap_loop p (int i) (int j) = swap_loop (p[j := p ! i, i := p ! j]) (int i + 1) (int j - 1)"
  using assms by (subst swap_loop.simps) (simp add: rdi_def wri_def)

lemma swap_loop_ok:
  "swap_loop (us @ ms @ vs) (int (length us)) (int (length us + length ms) - 1) = Ok (us @ rev ms @ vs)"
proof (induction "length ms" arbitrary: us ms vs rule: less_induct)
  case less
  consider "ms = []" | x where "ms = [x]" | x y ns where "ms = x # ns @ [y]"
    by (metis append_butlast_last_id neq_Nil_conv)
  then show ?case
  proof cases
    case 1
    then show ?thesis by (simp add: swap_loop.simps)
  next
    case 2
    then show ?thesis
      by (subst swap_loop.simps) (simp add: swap_loop.simps[of _ "_ + 1"] rdi_def wri_def)
  next
    case 3
    define n where "n = length us + length ms - 1"
    have n: "int (length us + length ms) - 1 = int n" "n < length (us @ ms @ vs)" "length us < n"
      "n = Suc (length us + length ns)"
      using 3 by (auto simp: n_def)
    have "(us @ ms @ vs) ! n = y" "(us @ ms @ vs) ! length us = x" using 3 n(4) by (simp_all add: nth_append)
    then have "swap_loop (us @ ms @ vs) (int (length us)) (int n) =
        swap_loop ((us @ ms @ vs)[n := x, length us := y]) (int (length us) + 1) (int n - 1)"
      using swap_loop_step[OF n(3,2)] by simp
    also have "(us @ ms @ vs)[n := x, length us := y] = (us @ [y]) @ ns @ (x # vs)"
      using 3 n(4) by (simp add: list_update_append)
    also have "swap_loop ((us @ [y]) @ ns @ (x # vs)) (int (length us) + 1) (int n - 1) =
        swap_loop ((us @ [y]) @ ns @ (x # vs)) (int (length (us @ [y]))) (int (length (us @ [y]) + length ns) - 1)"
      using n(4) by (simp add: algebra_simps)
    also have "\<dots> = Ok ((us @ [y]) @ rev ns @ (x # vs))" by (rule less.hyps) (use 3 in simp)
    finally show ?thesis using 3 n(1) by simp
  qed
qed

lemma swap_chars_ok:
  "swap_chars (us @ ms @ vs) (int (length us)) (int (length us + length ms)) = Ok (us @ rev ms @ vs)"
  unfolding swap_chars_def by (rule swap_loop_ok)

text \<open>\<open>unrev w s\<close>: every word of \<open>w @ s\<close> that a space ends is reversed.\<close>

fun unrev :: "string \<Rightarrow> string \<Rightarrow> string" where
  "unrev w [] = w"
| "unrev w (c # s) = (if c = CHR '' '' then rev w @ c # unrev [] s else unrev (w @ [c]) s)"

lemma rev_loop_ok:
  "\<exists>l. rev_loop (us @ w @ s) (int (length us)) [length us + length w..<length us + length w + length s] =
     Ok (us @ unrev w s, l)"
proof (induction s arbitrary: us w)
  case (Cons c s)
  let ?b = "length us + length w"
  have upt: "[?b..<?b + length (c # s)] = ?b # [Suc ?b..<Suc ?b + length s]"
    by (subst upt_conv_Cons) simp_all
  have nth: "(us @ w @ c # s) ! ?b = c" by (simp add: nth_append)
  show ?case
  proof (cases "c = CHR '' ''")
    case False
    then show ?thesis using Cons.IH[of us "w @ [c]"] nth unfolding upt by simp
  next
    case True
    have "rev_loop (us @ w @ c # s) (int (length us)) (?b # [Suc ?b..<Suc ?b + length s]) =
        rev_loop ((us @ rev w @ [c]) @ [] @ s) (int (length (us @ rev w @ [c])))
          [length (us @ rev w @ [c]) + length ''''..<length (us @ rev w @ [c]) + length '''' + length s]"
    proof (cases "w = []")
      case True
      then show ?thesis using \<open>c = CHR '' ''\<close> nth by (simp add: add.commute)
    next
      case False
      then show ?thesis using \<open>c = CHR '' ''\<close> nth swap_chars_ok[of us w "c # s"]
        by (simp add: algebra_simps)
    qed
    then show ?thesis using Cons.IH[of "us @ rev w @ [c]" "''''"] True unfolding upt by simp
  qed
qed simp

section \<open>Words\<close>

fun unwords :: "string list \<Rightarrow> string" where
  "unwords [] = ''''"
| "unwords [w] = w"
| "unwords (w # ws) = w @ '' '' @ unwords ws"

lemma unwords_Cons: "ws \<noteq> [] \<Longrightarrow> unwords (w # ws) = w @ '' '' @ unwords ws"
  by (cases ws) auto

lemma unwords_snoc: "ws \<noteq> [] \<Longrightarrow> unwords (ws @ [w]) = unwords ws @ '' '' @ w"
proof (induction ws)
  case (Cons v ws)
  then show ?case by (cases "ws = []") (auto simp: unwords_Cons)
qed simp

lemma rev_unwords: "rev (unwords ws) = unwords (map rev (rev ws))"
proof (induction ws)
  case (Cons w ws)
  then show ?case by (cases "ws = []") (auto simp: unwords_Cons unwords_snoc)
qed simp

lemma unrev_word: "CHR '' '' \<notin> set v \<Longrightarrow> unrev w (v @ s) = unrev (w @ v) s"
  by (induction v arbitrary: w) auto

lemma unrev_unwords:
  assumes "ws \<noteq> []" and "\<forall>w\<in>set ws. CHR '' '' \<notin> set w"
  shows "unrev [] (unwords ws) = unwords (map rev (butlast ws) @ [last ws])"
  using assms
proof (induction ws)
  case (Cons w ws)
  then show ?case using unrev_word[of w "[]" "[]"]
    by (cases "ws = []") (auto simp: unwords_Cons unrev_word)
qed simp

section \<open>The property\<close>

text \<open>
  \<^verbatim>\<open>reverse_string\<close> puts the words into the opposite order but leaves the one that was
  first reversed: its test for the end of the string behind the loop is never true, so the
  last word is not reversed back. (The program's example hides this, its first word being
  \<^verbatim>\<open>i\<close>.)
\<close>

theorem reverse_string_words:
  assumes "\<forall>w\<in>set (w0 # ws). CHR '' '' \<notin> set w"
  shows "reverse_string (unwords (w0 # ws)) = Ok (unwords (rev ws @ [rev w0]), 0)"
proof -
  let ?p = "unwords (w0 # ws)"
  have s: "swap_chars ?p 0 (int (length ?p)) = Ok (rev ?p)"
    using swap_chars_ok[of "[]" ?p "[]"] by simp
  obtain l where "rev_loop (rev ?p) 0 [0..<length (rev ?p)] = Ok (unrev [] (rev ?p), l)"
    using rev_loop_ok[of "[]" "[]" "rev ?p"] by auto
  moreover have "unrev [] (rev ?p) = unwords (rev ws @ [rev w0])"
    unfolding rev_unwords using assms unrev_unwords[of "map rev (rev (w0 # ws))"]
    by (simp add: rev_map comp_def)
  ultimately show ?thesis using s by (simp add: reverse_string_def Let_def)
qed

theorem reverse_string_words_witness:
  "reverse_string ''my cat'' = Ok (''cat ym'', 0)"
  using reverse_string_words[of "''my''" "[''cat'']"] by simp

end
