(* ===== verification/File_Watcher.thy ===== *)
theory File_Watcher
  imports Selib_Prelude
begin

text \<open>
  \<^verbatim>\<open>util/file_watcher.h\<close>: has a file been modified since it was last looked at? \<open>stat f\<close> is what
  the system call answers for the path \<open>f\<close> at the time of the call: the time of the last
  modification, or \<open>None\<close> when the call fails.
\<close>

section \<open>The watcher\<close>

record watcher =
  fw_path :: string
  fw_last_ts :: int

definition fw_new :: watcher where
  "fw_new = \<lparr>fw_path = '''', fw_last_ts = 0\<rparr>"

definition fw_create :: "(string \<Rightarrow> int option) \<Rightarrow> watcher \<Rightarrow> string option \<Rightarrow> watcher \<times> int" where
  "fw_create stat w file_path =
     (case file_path of
        None \<Rightarrow> (w, - 1)
      | Some f \<Rightarrow>
          let w = w\<lparr>fw_path := f\<rparr>
          in case stat (fw_path w) of
               None \<Rightarrow> (w, - 1)
             | Some mtime \<Rightarrow> (w\<lparr>fw_last_ts := mtime\<rparr>, 0))"

definition fw_check :: "(string \<Rightarrow> int option) \<Rightarrow> watcher \<Rightarrow> watcher \<times> bool" where
  "fw_check stat w =
     (case stat (fw_path w) of
        None \<Rightarrow> (w, False)
      | Some mtime \<Rightarrow>
          if mtime > fw_last_ts w then (w\<lparr>fw_last_ts := mtime\<rparr>, True)
          else (w\<lparr>fw_last_ts := mtime\<rparr>, False))"

definition filepath :: "watcher \<Rightarrow> string" where
  "filepath w = fw_path w"

section \<open>What a sequence of checks reports\<close>

text \<open>The answers of \<^verbatim>\<open>check_and_update_timestamp\<close> to a sequence of looks at the file.\<close>

fun fw_checks :: "watcher \<Rightarrow> int option list \<Rightarrow> watcher \<times> bool list" where
  "fw_checks w [] = (w, [])"
| "fw_checks w (m # ms) =
     (case fw_check (\<lambda>_. m) w of (w, b) \<Rightarrow> case fw_checks w ms of (w, bs) \<Rightarrow> (w, b # bs))"

text \<open>A look reports a change if the file is there and newer than when it was last there.\<close>

fun newer :: "int \<Rightarrow> int option list \<Rightarrow> bool list" where
  "newer t [] = []"
| "newer t (None # ms) = False # newer t ms"
| "newer t (Some m # ms) = (m > t) # newer m ms"

lemma fw_checks_newer: "snd (fw_checks w ms) = newer (fw_last_ts w) ms \<and> fw_path (fst (fw_checks w ms)) = fw_path w"
proof (induction ms arbitrary: w)
  case (Cons m ms)
  then show ?case by (cases m) (auto simp: fw_check_def split_beta)
qed simp

text \<open>Looking twice at an unchanged file reports a change at most once.\<close>

lemma fw_check_twice:
  assumes "fw_check stat w = (w', b)" and "fw_check stat w' = (w'', b')"
  shows "\<not> b'" and "w'' = w'"
  using assms by (auto simp: fw_check_def split: option.splits if_splits)

end
