(* ===== verification/Path.thy ===== *)
theory Path
  imports Selib_Prelude
begin

text \<open>
  \<^verbatim>\<open>util/path.h\<close>: splitting a path into directory and file name, and joining them. A C string
  is a list of characters without its terminator; a null pointer is \<open>None\<close>.
\<close>

section \<open>The functions\<close>

text \<open>\<^verbatim>\<open>strrchr\<close> as an index.\<close>

definition strrchr :: "string \<Rightarrow> char \<Rightarrow> nat option" where
  "strrchr s c = find (\<lambda>i. s ! i = c) (rev [0..<length s])"

text \<open>
  The flags tell which of the two output pointers are given; \<open>None\<close> in the result means that
  the string was not written.
\<close>

definition path_split :: "string option \<Rightarrow> bool \<Rightarrow> bool \<Rightarrow> bool \<times> string option \<times> string option" where
  "path_split p dir name =
     (case p of
        None \<Rightarrow> (False, None, None)
      | Some s \<Rightarrow>
          let base = (case strrchr s CHR ''/'' of None \<Rightarrow> 0 | Some sep \<Rightarrow> sep + 1)
          in (True,
              if dir then Some (if base = 0 then ''.'' else take base s) else None,
              if name then Some (drop base s) else None))"

definition path_join :: "string option \<Rightarrow> string option \<Rightarrow> string result" where
  "path_join dir child =
     (let pth = (case dir of None \<Rightarrow> '''' | Some d \<Rightarrow> d); s = length pth
      in if (case child of None \<Rightarrow> False | Some c \<Rightarrow> c \<noteq> [] \<and> c ! 0 = CHR ''/'') then Ok (the child)
         else if s = 0 \<or> pth ! (s - 1) = CHR ''/'' then
           (case child of None \<Rightarrow> Fault Null_Deref | Some c \<Rightarrow> Ok (pth @ c))
         else if child \<noteq> None then Ok (pth @ ''/'' @ the child)
         else Ok pth)"

section \<open>The last separator\<close>

lemma strrchr_None: "strrchr s c = None \<longleftrightarrow> c \<notin> set s"
  by (auto simp: strrchr_def find_None_iff in_set_conv_nth)

lemma strrchr_Some:
  assumes "c \<notin> set v"
  shows "strrchr (u @ c # v) c = Some (length u)"
proof -
  let ?s = "u @ c # v"
  have "rev [0..<length ?s] = rev [Suc (length u)..<length ?s] @ length u # rev [0..<length u]"
  proof -
    have "[0..<length u + Suc (length v)] = [0..<length u] @ [length u..<length u + Suc (length v)]"
      by (rule upt_add_eq_append) simp
    moreover have "[length u..<length u + Suc (length v)] =
        length u # [Suc (length u)..<length u + Suc (length v)]"
      by (rule upt_conv_Cons) simp
    moreover have "length ?s = length u + Suc (length v)" by simp
    ultimately show ?thesis by (simp only: rev_append rev.simps append_assoc append.simps)
  qed
  moreover have "find (\<lambda>i. ?s ! i = c) (rev [Suc (length u)..<length ?s]) = None"
  proof -
    have "?s ! i \<noteq> c" if i: "Suc (length u) \<le> i" "i < length ?s" for i
    proof -
      have "?s ! i = v ! (i - Suc (length u))" "i - Suc (length u) < length v"
        using i by (auto simp: nth_append nth_Cons')
      then show ?thesis using assms by (metis nth_mem)
    qed
    then show ?thesis unfolding find_None_iff set_rev set_upt atLeastLessThan_iff by blast
  qed
  ultimately show ?thesis by (simp add: strrchr_def find_append del: upt_Suc length_append)
qed

lemma split_last_sep:
  assumes "c \<in> set s"
  obtains u v where "s = u @ c # v" "c \<notin> set v"
  using split_list_last[OF assms] by blast

lemma path_split_sep:
  assumes "CHR ''/'' \<notin> set v"
  shows "path_split (Some (u @ CHR ''/'' # v)) True True = (True, Some (u @ ''/''), Some v)"
  by (simp add: path_split_def strrchr_Some[OF assms] Let_def)

lemma path_split_plain:
  "CHR ''/'' \<notin> set s \<Longrightarrow> path_split (Some s) True True = (True, Some ''.'', Some s)"
  using strrchr_None[of s "CHR ''/''"] by (simp add: path_split_def)

lemma path_join_relative:
  assumes "d \<noteq> []" and "CHR ''/'' \<notin> set c"
  shows "path_join (Some d) (Some c) = Ok (if last d = CHR ''/'' then d @ c else d @ ''/'' @ c)"
proof -
  have "\<not> (c \<noteq> [] \<and> c ! 0 = CHR ''/'')" using assms(2) by (cases c) auto
  then show ?thesis using assms(1) by (auto simp: path_join_def last_conv_nth Let_def)
qed

section \<open>The properties\<close>



text \<open>
  A null \<^verbatim>\<open>child\<close> is tested before it is used, but not in the branch for an empty directory or
  one that ends with a separator.
\<close>

lemma path_join_null_child: "path_join None None = Fault Null_Deref"
  "path_join (Some ''foo/'') None = Fault Null_Deref" "path_join (Some ''foo'') None = Ok ''foo''"
  by (simp_all add: path_join_def)

end
