(* ===== verification/Dict_Container.thy ===== *)
theory Dict_Container
  imports File_Watcher Path
begin

text \<open>
  \<^verbatim>\<open>container/dict_container.h\<close>: \<^verbatim>\<open>DictContainer\<close>, a dictionary loaded from a file and loaded anew
  when the file changes. The header it includes for \<^verbatim>\<open>PointerFlipper\<close> is not part of the
  repository, so the double pointer is a parameter: its five functions in the record
  \<open>flipper\<close>, and \<open>flips\<close> for what the container relies on. The virtual functions \<^verbatim>\<open>load\<close> and
  \<^verbatim>\<open>release\<close> belong to the derived class: \<open>load f\<close> is what a call of \<^verbatim>\<open>load\<close> returns at the time,
  and the calls of \<^verbatim>\<open>release\<close> are a list. The timer around the load is only logged.
\<close>

section \<open>The double pointer\<close>

record 'pf flipper =
  bp_create :: "ptr \<Rightarrow> ptr \<Rightarrow> 'pf"
  bp_set_back :: "'pf \<Rightarrow> ptr \<Rightarrow> 'pf"
  bp_flip :: "'pf \<Rightarrow> 'pf"
  bp_fore :: "'pf \<Rightarrow> ptr"
  bp_back :: "'pf \<Rightarrow> ptr"

definition flips :: "'pf flipper \<Rightarrow> bool" where
  "flips fl \<longleftrightarrow>
     (\<forall>p q. bp_fore fl (bp_create fl p q) = p \<and> bp_back fl (bp_create fl p q) = q) \<and>
     (\<forall>s q. bp_fore fl (bp_set_back fl s q) = bp_fore fl s \<and> bp_back fl (bp_set_back fl s q) = q) \<and>
     (\<forall>s. bp_fore fl (bp_flip fl s) = bp_back fl s \<and> bp_back fl (bp_flip fl s) = bp_fore fl s)"

section \<open>The container\<close>

record ('pf, 'par) dict_container =
  dc_bp :: 'pf
  dc_fw :: watcher
  dc_file :: string
  dc_para :: 'par
  dc_has_para :: bool
  dc_initialized :: bool

text \<open>The members \<^verbatim>\<open>_bp\<close> and \<^verbatim>\<open>_para\<close> start as their own constructors leave them.\<close>

definition dc_new :: "'pf \<Rightarrow> 'par \<Rightarrow> ('pf, 'par) dict_container" where
  "dc_new bp par = \<lparr>dc_bp = bp, dc_fw = fw_new, dc_file = '''', dc_para = par, dc_has_para = False,
     dc_initialized = False\<rparr>"

definition dc_init ::
  "'pf flipper \<Rightarrow> (string \<Rightarrow> int option) \<Rightarrow> (string \<Rightarrow> ptr) \<Rightarrow> ('pf, 'par) dict_container \<Rightarrow>
   string option \<Rightarrow> 'par option \<Rightarrow> ('pf, 'par) dict_container \<times> int" where
  "dc_init fl stat load d file para =
     (case file of
        None \<Rightarrow> (d, - 1)
      | Some f \<Rightarrow>
          let d = (case para of None \<Rightarrow> d | Some p \<Rightarrow> d\<lparr>dc_para := p, dc_has_para := True\<rparr>);
              d = d\<lparr>dc_file := f\<rparr>;
              dict = load f
          in if dict = None then (d, - 1)
             else (d\<lparr>dc_bp := bp_create fl dict None,
                     dc_fw := fst (fw_create stat (dc_fw d) (Some (dc_file d))),
                     dc_initialized := True\<rparr>, 0))"

definition dc_init_in ::
  "'pf flipper \<Rightarrow> (string \<Rightarrow> int option) \<Rightarrow> (string \<Rightarrow> ptr) \<Rightarrow> ('pf, 'par) dict_container \<Rightarrow>
   string option \<Rightarrow> string option \<Rightarrow> 'par option \<Rightarrow> (('pf, 'par) dict_container \<times> int) result" where
  "dc_init_in fl stat load d dir name para =
     (if dir = None \<or> name = None then Ok (d, - 1)
      else andthen (path_join dir name) (\<lambda>file. Ok (dc_init fl stat load d (Some file) para)))"

definition dc_reload ::
  "'pf flipper \<Rightarrow> (string \<Rightarrow> int option) \<Rightarrow> (string \<Rightarrow> ptr) \<Rightarrow> ('pf, 'par) dict_container \<Rightarrow>
   ('pf, 'par) dict_container \<times> int" where
  "dc_reload fl stat load d =
     (case fw_check stat (dc_fw d) of
        (w, changed) \<Rightarrow>
          let d = d\<lparr>dc_fw := w\<rparr>
          in if changed then
               let b_f = load (dc_file d)
               in if b_f = None then (d, - 1)
                  else (d\<lparr>dc_bp := bp_flip fl (bp_set_back fl (dc_bp d) b_f)\<rparr>, 0)
             else (d, 0))"

definition dc_get :: "'pf flipper \<Rightarrow> ('pf, 'par) dict_container \<Rightarrow> ptr" where
  "dc_get fl d = (if dc_initialized d then bp_fore fl (dc_bp d) else None)"

definition dc_get_back :: "'pf flipper \<Rightarrow> ('pf, 'par) dict_container \<Rightarrow> ptr" where
  "dc_get_back fl d = (if dc_initialized d then bp_back fl (dc_bp d) else None)"

text \<open>The handles given to \<^verbatim>\<open>release\<close>.\<close>

definition dc_release_all :: "'pf flipper \<Rightarrow> ('pf, 'par) dict_container \<Rightarrow> nat list" where
  "dc_release_all fl d =
     (case bp_fore fl (dc_bp d) of None \<Rightarrow> [] | Some p \<Rightarrow> [p]) @
     (case bp_back fl (dc_bp d) of None \<Rightarrow> [] | Some p \<Rightarrow> [p])"

section \<open>A sequence of reloads\<close>

text \<open>Each with what \<^verbatim>\<open>stat\<close> says of the file and what \<^verbatim>\<open>load\<close> would return.\<close>

fun dc_reloads ::
  "'pf flipper \<Rightarrow> ('pf, 'par) dict_container \<Rightarrow> (int option \<times> ptr) list \<Rightarrow> ('pf, 'par) dict_container" where
  "dc_reloads fl d [] = d"
| "dc_reloads fl d ((m, l) # es) = dc_reloads fl (fst (dc_reload fl (\<lambda>_. m) (\<lambda>_. l) d)) es"

text \<open>The dictionaries that the file, last seen with the time \<open>t\<close>, has then been loaded into.\<close>

fun loads :: "int \<Rightarrow> (int option \<times> ptr) list \<Rightarrow> nat list" where
  "loads t [] = []"
| "loads t ((None, l) # es) = loads t es"
| "loads t ((Some m, l) # es) =
     (if m > t then (case l of None \<Rightarrow> [] | Some p \<Rightarrow> [p]) else []) @ loads m es"

text \<open>\<open>dc_holds fl d ds\<close>: the container was loaded into the dictionaries \<open>ds\<close>, the newest last.\<close>

definition dc_holds :: "'pf flipper \<Rightarrow> ('pf, 'par) dict_container \<Rightarrow> nat list \<Rightarrow> bool" where
  "dc_holds fl d ds \<longleftrightarrow> ds \<noteq> [] \<and> dc_initialized d \<and> bp_fore fl (dc_bp d) = Some (last ds) \<and>
     bp_back fl (dc_bp d) = (if butlast ds = [] then None else Some (last (butlast ds)))"

lemma dc_reload_holds:
  assumes "flips fl" and "dc_holds fl d ds"
  shows "dc_holds fl (fst (dc_reload fl (\<lambda>_. m) (\<lambda>_. l) d))
      (ds @ loads (fw_last_ts (dc_fw d)) [(m, l)]) \<and>
    fw_last_ts (dc_fw (fst (dc_reload fl (\<lambda>_. m) (\<lambda>_. l) d))) =
      (case m of None \<Rightarrow> fw_last_ts (dc_fw d) | Some v \<Rightarrow> v)"
  using assms by (cases m; cases l) (auto simp: dc_reload_def fw_check_def dc_holds_def flips_def Let_def)

lemma loads_Cons:
  "loads t ((m, l) # es) = loads t [(m, l)] @ loads (case m of None \<Rightarrow> t | Some v \<Rightarrow> v) es"
  by (cases m) auto

lemma dc_reloads_holds:
  assumes "flips fl" and "dc_holds fl d ds"
  shows "dc_holds fl (dc_reloads fl d es) (ds @ loads (fw_last_ts (dc_fw d)) es)"
  using assms(2)
proof (induction es arbitrary: d ds)
  case (Cons e es)
  obtain m l where e: "e = (m, l)" by (cases e)
  show ?case
    using Cons.IH[OF conjunct1[OF dc_reload_holds[OF assms(1) Cons.prems, of m l]]]
      dc_reload_holds[OF assms(1) Cons.prems, of m l] loads_Cons[of _ m l es] e by simp
qed simp

lemma dc_init_holds:
  assumes "flips fl" and "dc_init fl stat load d (Some f) para = (d', 0)"
  shows "\<exists>p. load f = Some p \<and> dc_holds fl d' [p] \<and> dc_file d' = f \<and> fw_path (dc_fw d') = f"
proof -
  obtain p where p: "load f = Some p" using assms(2) by (auto simp: dc_init_def Let_def split: if_splits)
  then show ?thesis using assms
    by (cases para; cases "stat f") (auto simp: dc_init_def Let_def dc_holds_def flips_def fw_create_def)
qed

section \<open>The properties\<close>

text \<open>
  C31. The container serves the newest dictionary. After an \<^verbatim>\<open>init\<close> with directory and name that
  succeeded and any sequence of \<^verbatim>\<open>reload\<close> calls, whatever the file system and \<^verbatim>\<open>load\<close> answer,
  \<^verbatim>\<open>get_dict\<close> is the dictionary loaded last and \<^verbatim>\<open>get_back_dict\<close> the one before it. \<^verbatim>\<open>release_all\<close>
  releases just these two: the older ones, which each further reload displaced, are never
  released.
\<close>

theorem dict_container_serves_newest:
  assumes "flips fl" and "dc_init_in fl stat load d (Some dir) (Some name) para = Ok (d0, 0)"
    and "path_join (Some dir) (Some name) = Ok f" and "load f = Some p"
  shows "let ds = p # loads (fw_last_ts (dc_fw d0)) es; d' = dc_reloads fl d0 es
     in dc_get fl d' = Some (last ds) \<and>
        dc_get_back fl d' = (if length ds = 1 then None else Some (ds ! (length ds - 2))) \<and>
        dc_release_all fl d' = take 2 (rev ds)"
proof -
  let ?ds = "p # loads (fw_last_ts (dc_fw d0)) es" and ?d = "dc_reloads fl d0 es"
  have "dc_init fl stat load d (Some f) para = (d0, 0)" using assms(2,3) by (simp add: dc_init_in_def)
  from dc_init_holds[OF assms(1) this] assms(4) have "dc_holds fl d0 [p]" by auto
  from dc_reloads_holds[OF assms(1) this] have H: "dc_holds fl ?d ?ds" by simp
  show ?thesis
  proof (cases "butlast ?ds = []")
    case True
    then have "loads (fw_last_ts (dc_fw d0)) es = []" by (simp split: if_splits)
    then show ?thesis using H by (simp add: dc_holds_def dc_get_def dc_get_back_def dc_release_all_def Let_def)
  next
    case False
    obtain us v w where ds: "?ds = us @ [v, w]"
      using False by (metis append.assoc append_Cons append_Nil append_butlast_last_id list.discI)
    then have "length ?ds = length us + 2" by simp
    then show ?thesis using H unfolding ds
      by (simp add: dc_holds_def dc_get_def dc_get_back_def dc_release_all_def Let_def nth_append butlast_append)
  qed
qed

text \<open>A double pointer that keeps the laws.\<close>

definition pair_flipper :: "(ptr \<times> ptr) flipper" where
  "pair_flipper = \<lparr>bp_create = Pair, bp_set_back = (\<lambda>s q. (fst s, q)), bp_flip = prod.swap,
     bp_fore = fst, bp_back = snd\<rparr>"

lemma pair_flipper_flips: "flips pair_flipper"
  by (simp add: flips_def pair_flipper_def)

theorem dict_container_serves_newest_witness:
  "\<exists>d0 :: (ptr \<times> ptr, nat) dict_container.
     dc_init_in pair_flipper (\<lambda>_. Some 5) (\<lambda>_. Some 1) (dc_new (None, None) 0) (Some ''d'') (Some ''f'') None =
       Ok (d0, 0) \<and>
     dc_get pair_flipper (dc_reloads pair_flipper d0 [(Some 6, Some 2), (Some 6, Some 3), (Some 7, Some 4)]) = Some 4 \<and>
     dc_release_all pair_flipper
       (dc_reloads pair_flipper d0 [(Some 6, Some 2), (Some 6, Some 3), (Some 7, Some 4)]) = [4, 2]"
proof -
  have j: "path_join (Some ''d'') (Some ''f'') = Ok ''d/f''" by (simp add: path_join_def Let_def)
  then obtain d0 :: "(ptr \<times> ptr, nat) dict_container" where d0:
    "dc_init_in pair_flipper (\<lambda>_. Some 5) (\<lambda>_. Some 1) (dc_new (None, None) 0) (Some ''d'') (Some ''f'') None =
       Ok (d0, 0)" "fw_last_ts (dc_fw d0) = 5"
    by (simp add: dc_init_in_def dc_init_def Let_def fw_create_def)
  show ?thesis
    using dict_container_serves_newest[OF pair_flipper_flips d0(1) j refl,
        of "[(Some 6, Some 2), (Some 6, Some 3), (Some 7, Some 4)]"] d0
    by (auto simp: Let_def simp del: dc_reloads.simps)
qed

text \<open>
  A failed reload is not tried again: the watcher has taken note of the new modification
  time before \<^verbatim>\<open>load\<close> fails, so while the file stays as it is every further \<^verbatim>\<open>reload\<close> returns 0
  without loading, and the old dictionary stays in use.
\<close>

theorem dict_container_failed_reload_lost:
  assumes "dc_reload fl stat load d = (d', - 1)"
  shows "dc_reload fl stat load' d' = (d', 0) \<and> dc_get fl d' = dc_get fl d \<and>
     dc_get_back fl d' = dc_get_back fl d \<and> load (dc_file d) = None"
  using assms
  by (cases "stat (fw_path (dc_fw d))")
    (auto simp: dc_reload_def fw_check_def Let_def dc_get_def dc_get_back_def split: if_splits)

theorem dict_container_failed_reload_lost_witness:
  "\<exists>d d' :: (ptr \<times> ptr, nat) dict_container. dc_reload pair_flipper (\<lambda>_. Some 6) (\<lambda>_. None) d = (d', - 1) \<and>
     dc_reload pair_flipper (\<lambda>_. Some 6) (\<lambda>_. Some 9) d' = (d', 0)"
proof -
  define d :: "(ptr \<times> ptr, nat) dict_container" where "d = dc_new (None, None) 0"
  obtain d' where d': "dc_reload pair_flipper (\<lambda>_. Some 6) (\<lambda>_. None) d = (d', - 1)"
    by (simp add: d_def dc_new_def dc_reload_def fw_check_def fw_new_def Let_def)
  then show ?thesis using dict_container_failed_reload_lost[OF d', of "\<lambda>_. Some 9"] by blast
qed

end
