(* ===== verification/Dict_Manager.thy ===== *)
theory Dict_Manager
  imports Path
begin

text \<open>
  \<^verbatim>\<open>framework/dict_manager.h\<close> and \<^verbatim>\<open>.cpp\<close>: \<^verbatim>\<open>DictManager\<close>, the dictionaries of a process by key. The
  objects it allocates are in an explicit heap: the property records, the actions that call
  into a dictionary, and the dictionaries, of which it only knows that they have an \<^verbatim>\<open>init\<close> and
  a \<^verbatim>\<open>reload\<close>; the calls of these are recorded. Their results are ignored by the code. A member
  that may be uninitialised is \<open>None\<close> until it is written.
\<close>

section \<open>The manager\<close>

record dict_info =
  di_path :: string
  di_with_reload :: bool
  di_instance :: "ptr option"
  di_action :: "ptr option"
  di_valid :: bool

record 'par action =
  ac_dict :: ptr
  ac_par :: "'par option"

datatype 'par call = Inited nat string "'par option" | Reloaded nat

record 'par dict_mgr =
  dm_index :: "string \<rightharpoonup> nat"
  dm_keys :: "string list"
  dm_loaded :: bool
  dm_infos :: "nat \<rightharpoonup> dict_info"
  dm_actions :: "nat \<rightharpoonup> 'par action"
  dm_dicts :: "nat set"
  dm_fresh :: nat
  dm_calls :: "'par call list"

definition dm_new :: "'par dict_mgr" where
  "dm_new = \<lparr>dm_index = Map.empty, dm_keys = [], dm_loaded = False, dm_infos = Map.empty,
     dm_actions = Map.empty, dm_dicts = {}, dm_fresh = 0, dm_calls = []\<rparr>"

definition init_dict_property ::
  "'par dict_mgr \<Rightarrow> bool \<Rightarrow> string \<Rightarrow> string \<Rightarrow> bool \<Rightarrow> bool \<Rightarrow> 'par dict_mgr \<times> ptr" where
  "init_dict_property m mem key path_name with_reload valid =
     (if \<not> mem then (m, None)
      else let a = dm_fresh m
           in (m\<lparr>dm_infos := (dm_infos m)(a \<mapsto> \<lparr>di_path = path_name, di_with_reload = with_reload,
                   di_instance = None, di_action = None, di_valid = valid\<rparr>),
                 dm_fresh := Suc a, dm_index := (dm_index m)(key \<mapsto> a), dm_keys := dm_keys m @ [key]\<rparr>,
               Some a))"

definition set_info :: "'par dict_mgr \<Rightarrow> nat \<Rightarrow> (dict_info \<Rightarrow> dict_info) \<Rightarrow> 'par dict_mgr" where
  "set_info m a f = m\<lparr>dm_infos := (dm_infos m)(a := map_option f (dm_infos m a))\<rparr>"

text \<open>The constructor of \<^verbatim>\<open>ActionInstance\<close>: the parameter is copied, \<^verbatim>\<open>_has_par\<close> tells whether there is one.\<close>

definition action_new :: "ptr \<Rightarrow> 'par option \<Rightarrow> 'par action" where
  "action_new inst par =
     (case par of Some p \<Rightarrow> \<lparr>ac_dict = inst, ac_par = Some p\<rparr> | None \<Rightarrow> \<lparr>ac_dict = inst, ac_par = None\<rparr>)"

lemma action_new_eq [simp]: "action_new inst par = \<lparr>ac_dict = inst, ac_par = par\<rparr>"
  by (cases par) (simp_all add: action_new_def)

text \<open>The three flags: is there memory for the record, the dictionary, the action?\<close>

definition set_dict_property ::
  "'par dict_mgr \<Rightarrow> bool \<times> bool \<times> bool \<Rightarrow> string \<Rightarrow> string \<Rightarrow> bool \<Rightarrow> bool \<Rightarrow> 'par option \<Rightarrow>
   'par dict_mgr \<times> int" where
  "set_dict_property m mem key file with_reload valid par =
     (case mem of (mem_info, mem_dict, mem_action) \<Rightarrow>
      case init_dict_property m mem_info key file with_reload valid of
        (m, None) \<Rightarrow> (m, - 1)
      | (m, Some di) \<Rightarrow>
          if \<not> mem_dict then (set_info m di (\<lambda>i. i\<lparr>di_instance := Some None\<rparr>), - 1)
          else
            let d = dm_fresh m;
                m = m\<lparr>dm_dicts := insert d (dm_dicts m), dm_fresh := Suc d\<rparr>;
                m = set_info m di (\<lambda>i. i\<lparr>di_instance := Some (Some d)\<rparr>)
            in if \<not> mem_action then (set_info m di (\<lambda>i. i\<lparr>di_action := Some None\<rparr>), - 1)
               else
                 let c = dm_fresh m;
                     m = m\<lparr>dm_actions := (dm_actions m)(c \<mapsto> action_new (Some d) par),
                       dm_fresh := Suc c\<rparr>
                 in (set_info m di (\<lambda>i. i\<lparr>di_action := Some (Some c)\<rparr>), 0))"

definition set_dict_property_in ::
  "'par dict_mgr \<Rightarrow> bool \<times> bool \<times> bool \<Rightarrow> string \<Rightarrow> string \<Rightarrow> string \<Rightarrow> bool \<Rightarrow> bool \<Rightarrow> 'par option \<Rightarrow>
   ('par dict_mgr \<times> int) result" where
  "set_dict_property_in m mem key dir name with_reload valid par =
     andthen (path_join (Some dir) (Some name)) (\<lambda>file.
       Ok (set_dict_property m mem key file with_reload valid par))"

definition info_at :: "'par dict_mgr \<Rightarrow> nat \<Rightarrow> dict_info result" where
  "info_at m a = (case dm_infos m a of None \<Rightarrow> Fault Use_After_Free | Some di \<Rightarrow> Ok di)"

definition get_dict_handle :: "'par dict_mgr \<Rightarrow> string \<Rightarrow> ptr result" where
  "get_dict_handle m key =
     (case dm_index m key of
        None \<Rightarrow> Ok None
      | Some a \<Rightarrow> andthen (info_at m a) (\<lambda>di.
          case di_instance di of None \<Rightarrow> Fault Uninitialised | Some p \<Rightarrow> Ok p))"

datatype proc_type = LOAD | RELOAD | DEL

text \<open>\<^verbatim>\<open>ActionInstance::process\<close>. A dictionary that was deleted is not called or deleted again.\<close>

definition live_dict :: "'par dict_mgr \<Rightarrow> nat \<Rightarrow> nat result" where
  "live_dict m d = (if d \<in> dm_dicts m then Ok d else Fault Use_After_Free)"

definition process :: "'par dict_mgr \<Rightarrow> 'par action \<Rightarrow> proc_type \<Rightarrow> dict_info \<Rightarrow> 'par dict_mgr result" where
  "process m ac pt di =
     (case pt of
        LOAD \<Rightarrow>
          (case ac_dict ac of
             None \<Rightarrow> Ok m
           | Some d \<Rightarrow> andthen (live_dict m d) (\<lambda>d.
               Ok (m\<lparr>dm_calls := dm_calls m @ [Inited d (di_path di) (ac_par ac)]\<rparr>)))
      | RELOAD \<Rightarrow>
          if di_with_reload di then
            (case ac_dict ac of
               None \<Rightarrow> Fault Null_Deref
             | Some d \<Rightarrow> andthen (live_dict m d) (\<lambda>d.
                 Ok (m\<lparr>dm_calls := dm_calls m @ [Reloaded d]\<rparr>)))
          else Ok m
      | DEL \<Rightarrow>
          (case ac_dict ac of
             None \<Rightarrow> Ok m
           | Some d \<Rightarrow> andthen (live_dict m d) (\<lambda>d. Ok (m\<lparr>dm_dicts := dm_dicts m - {d}\<rparr>))))"

text \<open>The action of a record: its pointer may be unset, null or dangling.\<close>

definition action_of :: "'par dict_mgr \<Rightarrow> dict_info \<Rightarrow> (nat \<times> 'par action) result" where
  "action_of m di =
     (case di_action di of
        None \<Rightarrow> Fault Uninitialised
      | Some None \<Rightarrow> Fault Null_Deref
      | Some (Some c) \<Rightarrow>
          (case dm_actions m c of None \<Rightarrow> Fault Use_After_Free | Some ac \<Rightarrow> Ok (c, ac)))"

text \<open>\<^verbatim>\<open>dict_process\<close>, with the keys still to visit.\<close>

fun dict_loop :: "'par dict_mgr \<Rightarrow> proc_type \<Rightarrow> string list \<Rightarrow> 'par dict_mgr result" where
  "dict_loop m pt [] = Ok m"
| "dict_loop m pt (key # keys) =
     andthen
       (case dm_index m key of
          None \<Rightarrow> Ok m
        | Some a \<Rightarrow> andthen (info_at m a) (\<lambda>di.
            if \<not> di_valid di then Ok m
            else andthen (action_of m di) (\<lambda>(c, ac).
                 andthen (process m ac pt di) (\<lambda>m.
                   Ok (if pt = DEL
                       then m\<lparr>dm_actions := (dm_actions m)(c := None), dm_infos := (dm_infos m)(a := None)\<rparr>
                       else m)))))
       (\<lambda>m. dict_loop m pt keys)"

definition dict_process :: "'par dict_mgr \<Rightarrow> proc_type \<Rightarrow> ('par dict_mgr \<times> int) result" where
  "dict_process m pt = andthen (dict_loop m pt (dm_keys m)) (\<lambda>m. Ok (m, 0))"

definition dm_load :: "'par dict_mgr \<Rightarrow> ('par dict_mgr \<times> int) result" where
  "dm_load m =
     andthen (dict_process m LOAD) (\<lambda>(m, ret).
       if ret \<noteq> 0 then Ok (m, ret) else Ok (m\<lparr>dm_loaded := True\<rparr>, 0))"

definition dm_reload :: "'par dict_mgr \<Rightarrow> ('par dict_mgr \<times> int) result" where
  "dm_reload m = (if \<not> dm_loaded m then Ok (m, - 1) else dict_process m RELOAD)"

definition dm_destroy :: "'par dict_mgr \<Rightarrow> ('par dict_mgr \<times> int) result" where
  "dm_destroy m =
     andthen (if dm_loaded m then dict_process m DEL else Ok (m, 0)) (\<lambda>(m, _).
       Ok (m\<lparr>dm_loaded := False\<rparr>, 0))"

section \<open>Registered dictionaries\<close>

text \<open>What a successful registration has put into the heap, with the addresses of the three objects.\<close>

datatype 'par dict_entry =
  Entry (ekey: string) (epath: string) (ereload: bool) (evalid: bool) (epar: "'par option")
    (einfo: nat) (edict: nat) (eact: nat)

definition info_of :: "'par dict_entry \<Rightarrow> dict_info" where
  "info_of e = \<lparr>di_path = epath e, di_with_reload = ereload e, di_instance = Some (Some (edict e)),
     di_action = Some (Some (eact e)), di_valid = evalid e\<rparr>"

text \<open>
  \<open>dm_wf m es\<close>: the manager knows the entries \<open>es\<close>, whose keys and addresses are distinct.
  \<open>dm_heap m L\<close>: the objects of the entries \<open>L\<close> are live, and there are no others.
\<close>

definition dm_wf :: "'par dict_mgr \<Rightarrow> 'par dict_entry list \<Rightarrow> bool" where
  "dm_wf m es \<longleftrightarrow> dm_keys m = map ekey es \<and> dm_index m = map_of (map (\<lambda>e. (ekey e, einfo e)) es) \<and>
     distinct (map ekey es) \<and> distinct (map einfo es) \<and> distinct (map edict es) \<and> distinct (map eact es) \<and>
     (\<forall>e\<in>set es. einfo e < dm_fresh m \<and> edict e < dm_fresh m \<and> eact e < dm_fresh m)"

definition dm_heap :: "'par dict_mgr \<Rightarrow> 'par dict_entry set \<Rightarrow> bool" where
  "dm_heap m L \<longleftrightarrow> dm_dicts m = edict ` L \<and> dom (dm_infos m) = einfo ` L \<and> dom (dm_actions m) = eact ` L \<and>
     (\<forall>e\<in>L. dm_infos m (einfo e) = Some (info_of e) \<and>
       dm_actions m (eact e) = Some \<lparr>ac_dict = Some (edict e), ac_par = epar e\<rparr>)"

lemma dm_wf_index:
  assumes "dm_wf m es" and "e \<in> set es"
  shows "dm_index m (ekey e) = Some (einfo e)"
proof -
  have "distinct (map fst (map (\<lambda>e. (ekey e, einfo e)) es))" using assms(1) by (simp add: dm_wf_def comp_def)
  from map_of_is_SomeI[OF this, of "ekey e" "einfo e"] show ?thesis using assms by (auto simp: dm_wf_def)
qed

lemma dm_wf_inj:
  assumes "dm_wf m es"
  shows "inj_on ekey (set es)" "inj_on einfo (set es)" "inj_on edict (set es)" "inj_on eact (set es)"
  using assms by (auto simp: dm_wf_def distinct_map)

lemma dm_wf_fields:
  "dm_wf (m\<lparr>dm_calls := x\<rparr>) es = dm_wf m es" "dm_heap (m\<lparr>dm_calls := x\<rparr>) L = dm_heap m L"
  "dm_wf (m\<lparr>dm_loaded := b\<rparr>) es = dm_wf m es" "dm_heap (m\<lparr>dm_loaded := b\<rparr>) L = dm_heap m L"
  "dm_wf (m\<lparr>dm_dicts := D\<rparr>) es = dm_wf m es"
  "dm_wf (m\<lparr>dm_actions := A, dm_infos := I\<rparr>) es = dm_wf m es"
  by (simp_all add: dm_wf_def dm_heap_def)

lemma get_dict_handle_entry:
  assumes "dm_wf m es" and "dm_heap m L" and "e \<in> set es" and "e \<in> L"
  shows "get_dict_handle m (ekey e) = Ok (Some (edict e))"
  using dm_wf_index[OF assms(1,3)] assms(2,4)
  by (simp add: get_dict_handle_def info_at_def dm_heap_def info_of_def)

lemma map_of_snoc: "k \<notin> fst ` set xs \<Longrightarrow> map_of (xs @ [(k, v)]) = (map_of xs)(k \<mapsto> v)"
  by (induction xs) (auto simp: fun_upd_twist)

lemma register_wf:
  assumes "dm_wf m es" and "dm_heap m (set es)" and "key \<notin> ekey ` set es"
  shows "\<exists>m' e. set_dict_property m (True, True, True) key file rl valid par = (m', 0) \<and>
     dm_wf m' (es @ [e]) \<and> dm_heap m' (set (es @ [e])) \<and> dm_calls m' = dm_calls m \<and>
     ekey e = key \<and> epath e = file \<and> ereload e = rl \<and> evalid e = valid \<and> epar e = par \<and> edict e = Suc (dm_fresh m)"
proof -
  let ?a = "dm_fresh m"
  let ?e = "Entry key file rl valid par ?a (Suc ?a) (Suc (Suc ?a))"
  let ?m = "m\<lparr>dm_infos := (dm_infos m)(?a \<mapsto> info_of ?e), dm_index := (dm_index m)(key \<mapsto> ?a),
      dm_keys := dm_keys m @ [key], dm_dicts := insert (Suc ?a) (dm_dicts m),
      dm_actions := (dm_actions m)(Suc (Suc ?a) \<mapsto> \<lparr>ac_dict = Some (Suc ?a), ac_par = par\<rparr>),
      dm_fresh := Suc (Suc (Suc ?a))\<rparr>"
  have "set_dict_property m (True, True, True) key file rl valid par = (?m, 0)"
    by (simp add: set_dict_property_def init_dict_property_def set_info_def info_of_def Let_def)
  moreover have "dm_wf ?m (es @ [?e])"
  proof -
    have "key \<notin> fst ` set (map (\<lambda>e. (ekey e, einfo e)) es)" using assms(3) by force
    from map_of_snoc[OF this, of ?a]
    have "map_of (map (\<lambda>e. (ekey e, einfo e)) (es @ [?e])) = (dm_index m)(key \<mapsto> ?a)"
      using assms(1) by (simp add: dm_wf_def)
    then show ?thesis using assms(1,3) by (fastforce simp: dm_wf_def)
  qed
  moreover have "dm_heap ?m (set (es @ [?e]))"
    using assms(1,2) by (auto simp: dm_heap_def dm_wf_def)
  ultimately show ?thesis by (intro exI[of _ ?m] exI[of _ ?e]) simp
qed

section \<open>Processing the dictionaries\<close>

text \<open>One key: the entry is found, and skipped if it is not valid.\<close>

lemma dict_loop_entry:
  assumes "dm_wf m es" and "dm_heap m L" and "e \<in> set es" and "e \<in> L"
  shows "dict_loop m pt (ekey e # keys) =
    (if \<not> evalid e then dict_loop m pt keys
     else andthen (process m \<lparr>ac_dict = Some (edict e), ac_par = epar e\<rparr> pt (info_of e)) (\<lambda>m.
       dict_loop (if pt = DEL
         then m\<lparr>dm_actions := (dm_actions m)(eact e := None), dm_infos := (dm_infos m)(einfo e := None)\<rparr>
         else m) pt keys))"
proof -
  have i: "info_at m (einfo e) = Ok (info_of e)"
    and a: "action_of m (info_of e) = Ok (eact e, \<lparr>ac_dict = Some (edict e), ac_par = epar e\<rparr>)"
    using assms(2,4) by (auto simp: info_at_def action_of_def dm_heap_def info_of_def)
  have v: "di_valid (info_of e) = evalid e" by (simp add: info_of_def)
  show ?thesis
    by (cases "process m \<lparr>ac_dict = Some (edict e), ac_par = epar e\<rparr> pt (info_of e)")
      (simp_all add: dm_wf_index[OF assms(1,3)] i a v)
qed

definition calls_of :: "proc_type \<Rightarrow> 'par dict_entry \<Rightarrow> 'par call list" where
  "calls_of pt e =
     (case pt of LOAD \<Rightarrow> [Inited (edict e) (epath e) (epar e)]
      | RELOAD \<Rightarrow> if ereload e then [Reloaded (edict e)] else []
      | DEL \<Rightarrow> [])"

lemma live_entry: "dm_heap m L \<Longrightarrow> e \<in> L \<Longrightarrow> live_dict m (edict e) = Ok (edict e)"
  by (auto simp: live_dict_def dm_heap_def)

lemma dict_loop_calls:
  assumes "dm_wf m es" and "dm_heap m L" and "set xs \<subseteq> set es \<inter> L" and "pt \<noteq> DEL"
  shows "dict_loop m pt (map ekey xs) =
    Ok (m\<lparr>dm_calls := dm_calls m @ concat (map (calls_of pt) (filter evalid xs))\<rparr>)"
  using assms(1-3)
proof (induction xs arbitrary: m)
  case (Cons e xs)
  note E = dict_loop_entry[OF Cons.prems(1,2), of e pt "map ekey xs"]
  have e: "e \<in> set es" "e \<in> L" using Cons.prems(3) by auto
  let ?m = "m\<lparr>dm_calls := dm_calls m @ calls_of pt e\<rparr>"
  show ?case
  proof (cases "evalid e")
    case True
    have "process m \<lparr>ac_dict = Some (edict e), ac_par = epar e\<rparr> pt (info_of e) = Ok ?m"
      using live_entry[OF Cons.prems(2) e(2)] assms(4)
      by (cases pt) (auto simp: process_def calls_of_def info_of_def)
    moreover have "dict_loop ?m pt (map ekey xs) =
        Ok (?m\<lparr>dm_calls := dm_calls ?m @ concat (map (calls_of pt) (filter evalid xs))\<rparr>)"
      using Cons.IH[of ?m] Cons.prems by (simp add: dm_wf_fields)
    ultimately show ?thesis using E e True assms(4) by simp
  next
    case False
    then show ?thesis using E e Cons.IH[of m] Cons.prems by simp
  qed
qed simp

lemma dict_loop_del:
  assumes "dm_wf m es" and "dm_heap m L" and "set xs \<subseteq> set es \<inter> L" and "distinct xs" and "L \<subseteq> set es"
  shows "\<exists>m'. dict_loop m DEL (map ekey xs) = Ok m' \<and> dm_wf m' es \<and>
    dm_heap m' (L - {e \<in> set xs. evalid e}) \<and> dm_calls m' = dm_calls m"
  using assms
proof (induction xs arbitrary: m L)
  case (Cons e xs)
  note E = dict_loop_entry[OF Cons.prems(1,2), of e DEL "map ekey xs"]
  have e: "e \<in> set es" "e \<in> L" using Cons.prems(3) by auto
  show ?case
  proof (cases "evalid e")
    case False
    then have "L - {e' \<in> set (e # xs). evalid e'} = L - {e' \<in> set xs. evalid e'}" by auto
    then show ?thesis using E e False Cons.IH[of m L] Cons.prems by simp
  next
    case True
    let ?m = "m\<lparr>dm_dicts := dm_dicts m - {edict e}, dm_actions := (dm_actions m)(eact e := None),
        dm_infos := (dm_infos m)(einfo e := None)\<rparr>"
    have "process m \<lparr>ac_dict = Some (edict e), ac_par = epar e\<rparr> DEL (info_of e) =
        Ok (m\<lparr>dm_dicts := dm_dicts m - {edict e}\<rparr>)"
      using live_entry[OF Cons.prems(2) e(2)] by (simp add: process_def)
    then have step: "dict_loop m DEL (map ekey (e # xs)) = dict_loop ?m DEL (map ekey xs)"
      using E e True by simp
    note I = dm_wf_inj[OF Cons.prems(1)]
    have ne: "einfo e' \<noteq> einfo e" "edict e' \<noteq> edict e" "eact e' \<noteq> eact e" if "e' \<in> L" "e' \<noteq> e" for e'
      using that e I Cons.prems(5) unfolding inj_on_def by blast+
    have img: "edict ` L - {edict e} = edict ` (L - {e})" "einfo ` L - {einfo e} = einfo ` (L - {e})"
      "eact ` L - {eact e} = eact ` (L - {e})"
      using ne by auto
    have "dm_heap ?m (L - {e})" using Cons.prems(2) ne by (auto simp: dm_heap_def img)
    moreover have "dm_wf ?m es" using Cons.prems(1) by (simp add: dm_wf_def)
    moreover have "set xs \<subseteq> set es \<inter> (L - {e})" "distinct xs" "L - {e} \<subseteq> set es"
      using Cons.prems(3-5) by auto
    ultimately obtain m' where m': "dict_loop ?m DEL (map ekey xs) = Ok m'" "dm_wf m' es"
      "dm_heap m' (L - {e} - {e' \<in> set xs. evalid e'})" "dm_calls m' = dm_calls ?m"
      using Cons.IH[of ?m "L - {e}"] by blast
    have "L - {e} - {e' \<in> set xs. evalid e'} = L - {e' \<in> set (e # xs). evalid e'}" using True by auto
    then show ?thesis unfolding step using m' by (intro exI[of _ m']) simp
  qed
qed auto

section \<open>The properties\<close>

type_synonym 'par dict_spec = "string \<times> string \<times> bool \<times> bool \<times> 'par option"

fun dm_registers :: "'par dict_mgr \<Rightarrow> 'par dict_spec list \<Rightarrow> 'par dict_mgr" where
  "dm_registers m [] = m"
| "dm_registers m ((key, file, rl, valid, par) # ps) =
     dm_registers (fst (set_dict_property m (True, True, True) key file rl valid par)) ps"

fun dm_reloads :: "'par dict_mgr \<Rightarrow> nat \<Rightarrow> 'par dict_mgr result" where
  "dm_reloads m 0 = Ok m"
| "dm_reloads m (Suc n) = andthen (dm_reload m) (\<lambda>(m, _). dm_reloads m n)"

definition spec_of :: "'par dict_entry \<Rightarrow> 'par dict_spec" where
  "spec_of e = (ekey e, epath e, ereload e, evalid e, epar e)"

lemma registers_wf:
  assumes "dm_wf m es" and "dm_heap m (set es)" and "distinct (map ekey es @ map fst ps)"
  shows "\<exists>es'. dm_wf (dm_registers m ps) (es @ es') \<and> dm_heap (dm_registers m ps) (set (es @ es')) \<and>
     map spec_of es' = ps \<and> dm_calls (dm_registers m ps) = dm_calls m"
  using assms
proof (induction ps arbitrary: m es)
  case (Cons p ps)
  obtain key f rl valid par where p: "p = (key, f, rl, valid, par)" by (cases p)
  have "key \<notin> ekey ` set es" using Cons.prems(3) p by auto
  from register_wf[OF Cons.prems(1,2) this, of f rl valid par] obtain m' e where r:
    "set_dict_property m (True, True, True) key f rl valid par = (m', 0)" "dm_wf m' (es @ [e])"
    "dm_heap m' (set (es @ [e]))" "dm_calls m' = dm_calls m"
    "ekey e = key" "epath e = f" "ereload e = rl" "evalid e = valid" "epar e = par" by blast
  then have "spec_of e = p" by (simp add: spec_of_def p)
  note e = r(1-4) this
  have "distinct (map ekey (es @ [e]) @ map fst ps)" using Cons.prems(3) e(5) p by (auto simp: spec_of_def)
  from Cons.IH[OF e(2,3) this] obtain es' where
    "dm_wf (dm_registers m' ps) ((es @ [e]) @ es')" "dm_heap (dm_registers m' ps) (set ((es @ [e]) @ es'))"
    "map spec_of es' = ps" "dm_calls (dm_registers m' ps) = dm_calls m'" by blast
  then show ?case using e(1,4,5) p by (intro exI[of _ "e # es'"]) simp
qed (auto intro: exI[of _ "[]"])

text \<open>The calls that \<^verbatim>\<open>load\<close> and \<^verbatim>\<open>reload\<close> make, from the registrations and the dictionaries made.\<close>

definition load_calls :: "'par dict_spec list \<Rightarrow> nat list \<Rightarrow> 'par call list" where
  "load_calls ps ds =
     concat (map (\<lambda>((key, file, rl, valid, par), d). if valid then [Inited d file par] else []) (zip ps ds))"

definition reload_calls :: "'par dict_spec list \<Rightarrow> nat list \<Rightarrow> 'par call list" where
  "reload_calls ps ds =
     concat (map (\<lambda>((key, file, rl, valid, par), d). if valid \<and> rl then [Reloaded d] else []) (zip ps ds))"

lemma calls_of_entries:
  "concat (map (calls_of LOAD) (filter evalid es)) = load_calls (map spec_of es) (map edict es)"
  "concat (map (calls_of RELOAD) (filter evalid es)) = reload_calls (map spec_of es) (map edict es)"
  by (induction es) (auto simp: load_calls_def reload_calls_def calls_of_def spec_of_def)

lemma dm_reloads_calls:
  assumes "dm_wf m es" and "dm_heap m (set es)" and "dm_loaded m"
  shows "dm_reloads m n =
    Ok (m\<lparr>dm_calls := dm_calls m @ concat (replicate n (concat (map (calls_of RELOAD) (filter evalid es))))\<rparr>)"
  using assms
proof (induction n arbitrary: m)
  case (Suc n)
  let ?m = "m\<lparr>dm_calls := dm_calls m @ concat (map (calls_of RELOAD) (filter evalid es))\<rparr>"
  have "dm_keys m = map ekey es" using Suc.prems(1) by (simp add: dm_wf_def)
  then have "dm_reload m = Ok (?m, 0)"
    using dict_loop_calls[OF Suc.prems(1,2), of es RELOAD] Suc.prems(3)
    by (simp add: dm_reload_def dict_process_def)
  then show ?case using Suc.IH[of ?m] Suc.prems by (simp add: dm_wf_fields)
qed simp

text \<open>
  C10. The life of the manager. When dictionaries are registered under distinct keys, every key
  gives the handle of its own dictionary; \<^verbatim>\<open>load\<close> calls \<^verbatim>\<open>init\<close> of the valid ones once each, in the
  order of registration, with their path and parameter; each \<^verbatim>\<open>reload\<close> calls \<^verbatim>\<open>reload\<close> of those
  that are also marked for it; and the destructor deletes the valid ones, each once, and no
  others, without touching a deleted object.
\<close>

theorem dict_manager_lifecycle:
  assumes "distinct (map fst ps)"
  shows "\<exists>ds m1 m2 m3. length ds = length ps \<and> distinct ds \<and>
     (\<forall>i<length ps. get_dict_handle (dm_registers dm_new ps) (fst (ps ! i)) = Ok (Some (ds ! i))) \<and>
     dm_load (dm_registers dm_new ps) = Ok (m1, 0) \<and> dm_reloads m1 n = Ok m2 \<and>
     dm_calls m2 = load_calls ps ds @ concat (replicate n (reload_calls ps ds)) \<and>
     dm_destroy m2 = Ok (m3, 0) \<and> dm_calls m3 = dm_calls m2 \<and>
     dm_dicts m3 = {ds ! i | i. i < length ps \<and> \<not> (case ps ! i of (key, file, rl, valid, par) \<Rightarrow> valid)}"
proof -
  let ?m = "dm_registers dm_new ps"
  have "dm_wf dm_new ([] :: 'a dict_entry list)" "dm_heap dm_new (set ([] :: 'a dict_entry list))"
    by (simp_all add: dm_wf_def dm_heap_def dm_new_def)
  from registers_wf[OF this, of ps] assms obtain es where es: "dm_wf ?m es" "dm_heap ?m (set es)"
    "map spec_of es = ps" "dm_calls ?m = []"
    by (auto simp: dm_new_def)
  let ?m1 = "?m\<lparr>dm_calls := concat (map (calls_of LOAD) (filter evalid es)), dm_loaded := True\<rparr>"
  have keys: "dm_keys ?m = map ekey es" using es(1) by (simp add: dm_wf_def)
  have load: "dm_load ?m = Ok (?m1, 0)"
    using dict_loop_calls[OF es(1,2), of es LOAD] es(4) keys by (simp add: dm_load_def dict_process_def)
  have wf1: "dm_wf ?m1 es" "dm_heap ?m1 (set es)" using es(1,2) by (simp_all add: dm_wf_def dm_heap_def)
  obtain m2 where m2: "dm_reloads ?m1 n = Ok m2" "dm_wf m2 es" "dm_heap m2 (set es)" "dm_loaded m2"
    "dm_calls m2 = load_calls ps (map edict es) @ concat (replicate n (reload_calls ps (map edict es)))"
    using dm_reloads_calls[OF wf1, of n] wf1 es(3) by (simp add: dm_wf_fields calls_of_entries)
  have "distinct es" using es(1) by (simp add: dm_wf_def distinct_map)
  from dict_loop_del[OF m2(2,3) _ this] obtain m3 where m3: "dict_loop m2 DEL (map ekey es) = Ok m3"
    "dm_heap m3 (set es - {e \<in> set es. evalid e})" "dm_calls m3 = dm_calls m2" by auto
  have "dm_keys m2 = map ekey es" using m2(2) by (simp add: dm_wf_def)
  then have destroy: "dm_destroy m2 = Ok (m3\<lparr>dm_loaded := False\<rparr>, 0)"
    using m3(1) m2(4) by (simp add: dm_destroy_def dict_process_def)
  have len: "length es = length ps" using arg_cong[OF es(3), of length] by simp
  have nth: "ps ! i = spec_of (es ! i)" "es ! i \<in> set es" if "i < length ps" for i
    using that len nth_map[of i es spec_of] es(3) by simp_all
  have "dm_dicts m3 = edict ` {e \<in> set es. \<not> evalid e}"
    using m3(2) by (auto simp: dm_heap_def)
  also have "{e \<in> set es. \<not> evalid e} = {es ! i | i. i < length ps \<and> \<not> evalid (es ! i)}"
    using len by (auto simp: in_set_conv_nth)
  also have "edict ` \<dots> = {map edict es ! i | i. i < length ps \<and> \<not> evalid (es ! i)}"
    using len by (auto intro!: image_eqI) (metis nth_map)
  finally have dicts: "dm_dicts m3 = {map edict es ! i | i. i < length ps \<and>
      \<not> (case ps ! i of (key, file, rl, valid, par) \<Rightarrow> valid)}"
    using nth(1) by (auto simp: spec_of_def)
  have "get_dict_handle ?m (fst (ps ! i)) = Ok (Some (map edict es ! i))" if "i < length ps" for i
    using get_dict_handle_entry[OF es(1,2) nth(2)[OF that] nth(2)[OF that]] nth(1)[OF that] that len
    by (simp add: spec_of_def)
  moreover have "distinct (map edict es)" using es(1) by (simp add: dm_wf_def)
  moreover have "length (map edict es) = length ps" using len by simp
  ultimately show ?thesis using load m2(1,5) destroy m3(3) dicts
    by (intro exI[of _ "map edict es"] exI[of _ ?m1] exI[of _ m2] exI[of _ "m3\<lparr>dm_loaded := False\<rparr>"]) simp
qed

theorem dict_manager_lifecycle_witness:
  "\<exists>d e :: nat. \<exists>m1 m2 m3. d \<noteq> e \<and>
     dm_load (dm_registers dm_new [(''a'', ''f'', True, True, Some 7), (''b'', ''g'', True, False, None)]) = Ok (m1, 0) \<and>
     dm_reloads m1 2 = Ok m2 \<and> dm_calls m2 = [Inited d ''f'' (Some (7 :: nat)), Reloaded d, Reloaded d] \<and>
     dm_destroy m2 = Ok (m3, 0) \<and> dm_dicts m3 = {e}"
proof -
  let ?ps = "[(''a'', ''f'', True, True, Some (7 :: nat)), (''b'', ''g'', True, False, None)]"
  have "distinct (map fst ?ps)" by simp
  from dict_manager_lifecycle[OF this, of 2] obtain ds m1 m2 m3 where w: "length ds = length ?ps" "distinct ds"
    "dm_load (dm_registers dm_new ?ps) = Ok (m1, 0)" "dm_reloads m1 2 = Ok m2"
    "dm_calls m2 = load_calls ?ps ds @ concat (replicate 2 (reload_calls ?ps ds))"
    "dm_destroy m2 = Ok (m3, 0)"
    "dm_dicts m3 = {ds ! i | i. i < length ?ps \<and> \<not> (case ?ps ! i of (key, file, rl, valid, par) \<Rightarrow> valid)}"
    by blast
  obtain d e where ds: "ds = [d, e]" using w(1) by (auto simp: length_Suc_conv numeral_2_eq_2)
  have "dm_calls m2 = [Inited d ''f'' (Some 7), Reloaded d, Reloaded d]"
    using w(5) by (simp add: ds load_calls_def reload_calls_def numeral_2_eq_2)
  moreover have "dm_dicts m3 = {e}"
    unfolding w(7) ds by (auto simp: less_Suc_eq nth_Cons')
  moreover have "d \<noteq> e" using w(2) ds by simp
  ultimately show ?thesis using w(3,4,6) by blast
qed

text \<open>
  Two registrations under one key break the manager: the key is then listed twice and
  leads to the second record both times, so \<^verbatim>\<open>load\<close> calls \<^verbatim>\<open>init\<close> of the second dictionary twice
  and of the first never, and the destructor reads the second record after deleting it.
\<close>

theorem dict_manager_duplicate_key:
  "\<exists>d m1. dm_load (dm_registers dm_new [(key, f1, rl1, True, par1), (key, f2, rl2, True, par2)]) = Ok (m1, 0) \<and>
     dm_calls m1 = [Inited d f2 par2, Inited d f2 par2] \<and>
     get_dict_handle m1 key = Ok (Some d) \<and> card (dm_dicts m1) = 2 \<and>
     dm_destroy m1 = Fault Use_After_Free"
  by (simp add: set_dict_property_def init_dict_property_def set_info_def dm_new_def Let_def
      dm_load_def dict_process_def info_at_def action_of_def process_def live_dict_def
      get_dict_handle_def dm_destroy_def)

end
