(* ===== verification/Dict_Access.thy ===== *)
theory Dict_Access
  imports Dict_Container Dict_Manager
begin

text \<open>
  The dictionary manager and its containers together: \<^verbatim>\<open>get_dict\<close> of \<^verbatim>\<open>framework/dict_manager.h\<close>, and
  what the calls that the manager makes do to containers of \<^verbatim>\<open>container/dict_container.h\<close>. A
  container lives at the address the manager gave it; an environment is what \<^verbatim>\<open>stat\<close> and \<^verbatim>\<open>load\<close>
  answer for a path while one function of the manager runs.
\<close>

section \<open>The calls and their effect\<close>

type_synonym env = "(string \<Rightarrow> int option) \<times> (string \<Rightarrow> ptr)"

fun call_dict :: "'par call \<Rightarrow> nat" where
  "call_dict (Inited d f par) = d"
| "call_dict (Reloaded d) = d"

fun call_effect ::
  "'pf flipper \<Rightarrow> env \<Rightarrow> 'par call \<Rightarrow> ('pf, 'par) dict_container \<Rightarrow> ('pf, 'par) dict_container" where
  "call_effect fl (stat, load) (Inited d f par) x = fst (dc_init fl stat load x (Some f) par)"
| "call_effect fl (stat, load) (Reloaded d) x = fst (dc_reload fl stat load x)"

definition do_call ::
  "'pf flipper \<Rightarrow> env \<Rightarrow> 'par call \<Rightarrow> (nat \<Rightarrow> ('pf, 'par) dict_container) \<Rightarrow> nat \<Rightarrow> ('pf, 'par) dict_container" where
  "do_call fl env c C = C(call_dict c := call_effect fl env c (C (call_dict c)))"

definition do_calls ::
  "'pf flipper \<Rightarrow> env \<Rightarrow> 'par call list \<Rightarrow> (nat \<Rightarrow> ('pf, 'par) dict_container) \<Rightarrow> nat \<Rightarrow> ('pf, 'par) dict_container" where
  "do_calls fl env cs C = fold (do_call fl env) cs C"

text \<open>\<^verbatim>\<open>load\<close> and \<^verbatim>\<open>reload\<close> of the manager, with the calls they make carried out.\<close>

definition new_calls :: "'par dict_mgr \<Rightarrow> 'par dict_mgr \<Rightarrow> 'par call list" where
  "new_calls m m' = drop (length (dm_calls m)) (dm_calls m')"

definition sys_load ::
  "'pf flipper \<Rightarrow> env \<Rightarrow> 'par dict_mgr \<Rightarrow> (nat \<Rightarrow> ('pf, 'par) dict_container) \<Rightarrow>
   ('par dict_mgr \<times> (nat \<Rightarrow> ('pf, 'par) dict_container)) result" where
  "sys_load fl env m C = andthen (dm_load m) (\<lambda>(m', _). Ok (m', do_calls fl env (new_calls m m') C))"

fun sys_reloads ::
  "'pf flipper \<Rightarrow> env list \<Rightarrow> 'par dict_mgr \<Rightarrow> (nat \<Rightarrow> ('pf, 'par) dict_container) \<Rightarrow>
   ('par dict_mgr \<times> (nat \<Rightarrow> ('pf, 'par) dict_container)) result" where
  "sys_reloads fl [] m C = Ok (m, C)"
| "sys_reloads fl (env # envs) m C =
     andthen (dm_reload m) (\<lambda>(m', _). sys_reloads fl envs m' (do_calls fl env (new_calls m m') C))"

definition get_dict ::
  "'pf flipper \<Rightarrow> 'par dict_mgr \<Rightarrow> (nat \<Rightarrow> ('pf, 'par) dict_container) \<Rightarrow> string \<Rightarrow> ptr result" where
  "get_dict fl m C key =
     andthen (get_dict_handle m key) (\<lambda>pc.
       case pc of None \<Rightarrow> Ok None | Some d \<Rightarrow> Ok (dc_get fl (C d)))"

section \<open>One container\<close>

lemma do_calls_at:
  "do_calls fl env cs C d = fold (call_effect fl env) (filter (\<lambda>c. call_dict c = d) cs) (C d)"
proof (induction cs arbitrary: C)
  case (Cons c cs)
  have "do_calls fl env (c # cs) C d = do_calls fl env cs (do_call fl env c C) d" by (simp add: do_calls_def)
  then show ?case by (auto simp: Cons.IH do_call_def)
qed (simp add: do_calls_def)

lemma filter_calls_own: "filter (\<lambda>c. call_dict c = edict e) (calls_of pt e) = calls_of pt e"
  by (simp add: calls_of_def split: proc_type.split)

lemma filter_calls_other: "edict e' \<noteq> edict e \<Longrightarrow> filter (\<lambda>c. call_dict c = edict e) (calls_of pt e') = []"
  by (simp add: calls_of_def split: proc_type.split)

lemma filter_calls:
  assumes "distinct (map edict es)" and "e \<in> set es" and "evalid e"
  shows "filter (\<lambda>c. call_dict c = edict e) (concat (map (calls_of pt) (filter evalid es))) = calls_of pt e"
  using assms(1,2)
proof (induction es)
  case (Cons e' es)
  have none: "filter (\<lambda>c. call_dict c = edict e) (concat (map (calls_of pt) (filter evalid es))) = []"
    if "edict e \<notin> edict ` set es"
    using that by (induction es) (auto simp: filter_calls_other)
  show ?case
  proof (cases "e' = e")
    case True
    then show ?thesis using none Cons.prems(1) assms(3) by (simp add: filter_calls_own)
  next
    case False
    then have "e \<in> set es" "edict e' \<noteq> edict e" using Cons.prems by force+
    then show ?thesis using Cons by (simp add: filter_calls_other)
  qed
qed simp

text \<open>A reload depends on the environment at the path of the file only, and keeps the paths.\<close>

lemma dc_reload_env:
  assumes "dc_file x = f" and "fw_path (dc_fw x) = f"
  shows "dc_reload fl stat load x = dc_reload fl (\<lambda>_. stat f) (\<lambda>_. load f) x"
    and "dc_file (fst (dc_reload fl stat load x)) = f" and "fw_path (dc_fw (fst (dc_reload fl stat load x))) = f"
  using assms by (auto simp: dc_reload_def fw_check_def Let_def split: option.splits prod.splits)

lemma reload_chain:
  assumes "dc_file x = f" and "fw_path (dc_fw x) = f"
  shows "fold (\<lambda>(stat, load) x. fst (dc_reload fl stat load x)) envs x =
    dc_reloads fl x (map (\<lambda>(stat, load). (stat f, load f)) envs)"
  using assms
proof (induction envs arbitrary: x)
  case (Cons env envs)
  obtain stat load where env: "env = (stat, load)" by (cases env)
  note R = dc_reload_env[OF Cons.prems, where fl = fl and stat = stat and load = load]
  show ?case using Cons.IH[OF R(2,3)] R(1) by (simp add: env)
qed simp

section \<open>The whole\<close>

lemma sys_reloads_at:
  assumes "dm_wf m es" and "dm_heap m (set es)" and "dm_loaded m" and "e \<in> set es" and "evalid e"
  shows "\<exists>m' C'. sys_reloads fl envs m C = Ok (m', C') \<and> dm_wf m' es \<and> dm_heap m' (set es) \<and>
    C' (edict e) = (if ereload e then fold (\<lambda>(stat, load) x. fst (dc_reload fl stat load x)) envs (C (edict e))
      else C (edict e))"
  using assms
proof (induction envs arbitrary: m C)
  case (Cons env' envs)
  obtain stat load where env': "env' = (stat, load)" by (cases env')
  let ?env = "(stat, load)"
  let ?cs = "concat (map (calls_of RELOAD) (filter evalid es))"
  let ?m = "m\<lparr>dm_calls := dm_calls m @ ?cs\<rparr>" and ?C = "do_calls fl ?env ?cs C"
  have "dm_keys m = map ekey es" using Cons.prems(1) by (simp add: dm_wf_def)
  then have "dm_reload m = Ok (?m, 0)"
    using dict_loop_calls[OF Cons.prems(1,2), of es RELOAD] Cons.prems(3)
    by (simp add: dm_reload_def dict_process_def)
  then have run: "sys_reloads fl (env' # envs) m C = sys_reloads fl envs ?m ?C" unfolding env' by (simp add: new_calls_def)
  have d: "distinct (map edict es)" using Cons.prems(1) by (simp add: dm_wf_def)
  have "?C (edict e) = fold (call_effect fl ?env) (calls_of RELOAD e) (C (edict e))"
    unfolding do_calls_at filter_calls[OF d Cons.prems(4,5)] ..
  then have "?C (edict e) = (if ereload e then fst (dc_reload fl stat load (C (edict e))) else C (edict e))"
    by (simp add: calls_of_def)
  moreover have "dm_wf ?m es" "dm_heap ?m (set es)" "dm_loaded ?m" using Cons.prems(1-3) by (simp_all add: dm_wf_fields)
  ultimately show ?case unfolding run using Cons.IH[of ?m ?C] Cons.prems(4,5) env' by (auto split: if_splits)
qed simp

text \<open>
  C18. Dictionaries that are reloaded while the process runs. Register any dictionaries under
  distinct keys, call \<open>load\<close> and then \<open>reload\<close> any number of times, while files and \<open>load\<close> of the
  containers change as they may. After \<open>load\<close>, \<open>get_dict\<close> of a valid key whose file can be loaded
  is the dictionary loaded from that file; after the reloads it is the one loaded last from a
  newer version of that file, or still the first one when the key was registered without reload.
\<close>
theorem get_dict_newest:
  assumes "flips fl" and "distinct (map fst ps)" and "(key, file, rl, True, par) \<in> set ps"
    and "stat file = Some t" and "load file = Some p"
  shows "\<exists>m1 C1 m2 C2. sys_load fl (stat, load) (dm_registers dm_new ps) C = Ok (m1, C1) \<and>
    get_dict fl m1 C1 key = Ok (Some p) \<and> sys_reloads fl envs m1 C1 = Ok (m2, C2) \<and>
    get_dict fl m2 C2 key =
      Ok (Some (if rl then last (p # loads t (map (\<lambda>(stat, load). (stat file, load file)) envs)) else p))"
proof -
  let ?m = "dm_registers dm_new ps"
  have "dm_wf dm_new ([] :: 'b dict_entry list)" "dm_heap dm_new (set ([] :: 'b dict_entry list))"
    by (simp_all add: dm_wf_def dm_heap_def dm_new_def)
  from registers_wf[OF this, of ps] assms(2) obtain es where es: "dm_wf ?m es" "dm_heap ?m (set es)"
    "map spec_of es = ps" "dm_calls ?m = []"
    by (auto simp: dm_new_def)
  from assms(3) obtain e where e: "e \<in> set es" "spec_of e = (key, file, rl, True, par)"
    unfolding es(3)[symmetric] by auto
  then have ef: "ekey e = key" "epath e = file" "ereload e = rl" "evalid e" "epar e = par"
    by (simp_all add: spec_of_def)
  let ?cs = "concat (map (calls_of LOAD) (filter evalid es))"
  let ?m1 = "?m\<lparr>dm_calls := ?cs, dm_loaded := True\<rparr>" and ?C1 = "do_calls fl (stat, load) ?cs C"
  have keys: "dm_keys ?m = map ekey es" using es(1) by (simp add: dm_wf_def)
  have "dm_load ?m = Ok (?m1, 0)"
    using dict_loop_calls[OF es(1,2), of es LOAD] es(4) keys by (simp add: dm_load_def dict_process_def)
  then have load1: "sys_load fl (stat, load) ?m C = Ok (?m1, ?C1)"
    using es(4) by (simp add: sys_load_def new_calls_def)
  have wf1: "dm_wf ?m1 es" "dm_heap ?m1 (set es)" using es(1,2) by (simp_all add: dm_wf_def dm_heap_def)
  have d: "distinct (map edict es)" using es(1) by (simp add: dm_wf_def)
  let ?x = "?C1 (edict e)"
  have x: "?x = fst (dc_init fl stat load (C (edict e)) (Some file) par)"
    unfolding do_calls_at filter_calls[OF d e(1) ef(4)] by (simp add: calls_of_def ef)
  have "dc_init fl stat load (C (edict e)) (Some file) par = (?x, 0)"
    unfolding x using assms(5) by (simp add: dc_init_def Let_def)
  from dc_init_holds[OF assms(1) this] assms(5)
  have holds: "dc_holds fl ?x [p]" "dc_file ?x = file" "fw_path (dc_fw ?x) = file" by auto
  have ts: "fw_last_ts (dc_fw ?x) = t"
    unfolding x using assms(4,5) by (simp add: dc_init_def fw_create_def Let_def)
  have get: "get_dict fl m' C' key = Ok (dc_get fl (C' (edict e)))" if "dm_wf m' es" "dm_heap m' (set es)" for m' C'
    using get_dict_handle_entry[OF that e(1,1)] by (simp add: get_dict_def ef)
  obtain m2 C2 where m2: "sys_reloads fl envs ?m1 ?C1 = Ok (m2, C2)" "dm_wf m2 es" "dm_heap m2 (set es)"
    "C2 (edict e) = (if rl then dc_reloads fl ?x (map (\<lambda>(stat, load). (stat file, load file)) envs) else ?x)"
    using sys_reloads_at[OF wf1 _ e(1) ef(4), of fl envs ?C1] reload_chain[OF holds(2,3)] ef(3) by auto
  have serve: "dc_get fl y = Some (last ds)" if "dc_holds fl y ds" for y ds
    using that by (simp add: dc_holds_def dc_get_def)
  have "dc_get fl (C2 (edict e)) =
      Some (if rl then last (p # loads t (map (\<lambda>(stat, load). (stat file, load file)) envs)) else p)"
    using serve[OF dc_reloads_holds[OF assms(1) holds(1)]] serve[OF holds(1)] by (simp add: m2(4) ts)
  then show ?thesis using load1 m2(1) get[OF wf1] get[OF m2(2,3)] serve[OF holds(1)] by simp
qed

lemma get_dict_newest_witness:
  "\<exists>(m1 :: nat dict_mgr) C1 m2 C2.
     sys_load pair_flipper (\<lambda>_. Some 5, \<lambda>_. Some 1)
       (dm_registers dm_new [(''a'', ''x'', False, True, None), (''k'', ''f'', True, True, Some 7)])
       (\<lambda>_. dc_new (None, None) 0) = Ok (m1, C1) \<and>
     get_dict pair_flipper m1 C1 ''k'' = Ok (Some 1) \<and>
     sys_reloads pair_flipper [(\<lambda>_. Some 6, \<lambda>_. Some 2), (\<lambda>_. Some 6, \<lambda>_. Some 3)] m1 C1 = Ok (m2, C2) \<and>
     get_dict pair_flipper m2 C2 ''k'' = Ok (Some 2)"
proof -
  let ?ps = "[(''a'', ''x'', False, True, None), (''k'', ''f'', True, True, Some (7 :: nat))]"
  have "distinct (map fst ?ps)" "(''k'', ''f'', True, True, Some 7) \<in> set ?ps" by simp_all
  from get_dict_newest[OF pair_flipper_flips this, where stat = "\<lambda>_. Some 5" and load = "\<lambda>_. Some 1" and t = 5
      and p = 1 and envs = "[(\<lambda>_. Some 6, \<lambda>_. Some 2), (\<lambda>_. Some 6, \<lambda>_. Some 3)]" and C = "\<lambda>_. dc_new (None, None) 0"]
  show ?thesis by simp
qed

end
