(* ===== verification/Dict_Types.thy ===== *)
theory Dict_Types
  imports Dict_Manager
begin

text \<open>
  The type parameter of \<^verbatim>\<open>DictManager::set_dict_property\<close> and \<^verbatim>\<open>get_dict_handle\<close>
  (\<^verbatim>\<open>framework/dict_manager.h\<close>). The manager keeps every dictionary behind a \<^verbatim>\<open>void *\<close> and
  casts it back with \<^verbatim>\<open>reinterpret_cast\<close>, so the compiler checks nothing. Here every object
  that \<^verbatim>\<open>set_dict_property<TYPE>\<close> allocates is tagged with \<open>TYPE\<close>: the dictionary with the class
  it was made of, the action with the class whose \<^verbatim>\<open>init\<close> and \<^verbatim>\<open>reload\<close> it calls. The tags only
  watch; no operation reads them.
\<close>

section \<open>Operations\<close>

record ('ty, 'par) typed_mgr =
  tm_mgr :: "'par dict_mgr"
  tm_objs :: "nat \<rightharpoonup> 'ty"
  tm_acts :: "nat \<rightharpoonup> 'ty"

definition typed_new :: "('ty, 'par) typed_mgr" where
  "typed_new = \<lparr>tm_mgr = dm_new, tm_objs = Map.empty, tm_acts = Map.empty\<rparr>"

definition tagged :: "'ty \<Rightarrow> nat set \<Rightarrow> (nat \<rightharpoonup> 'ty) \<Rightarrow> nat \<rightharpoonup> 'ty" where
  "tagged T A f = (\<lambda>x. if x \<in> A then Some T else f x)"

text \<open>\<^verbatim>\<open>set_dict_property<T>\<close>: what it allocates is of type \<open>T\<close> and \<^verbatim>\<open>ActionInstance<T>\<close>.\<close>

definition set_dict_property_as ::
  "'ty \<Rightarrow> ('ty, 'par) typed_mgr \<Rightarrow> bool \<times> bool \<times> bool \<Rightarrow> string \<Rightarrow> string \<Rightarrow> bool \<Rightarrow> bool \<Rightarrow> 'par option \<Rightarrow>
   ('ty, 'par) typed_mgr \<times> int" where
  "set_dict_property_as T M mem key file with_reload valid par =
     (case set_dict_property (tm_mgr M) mem key file with_reload valid par of (m, ret) \<Rightarrow>
        (\<lparr>tm_mgr = m,
          tm_objs = tagged T (dm_dicts m - dm_dicts (tm_mgr M)) (tm_objs M),
          tm_acts = tagged T (dom (dm_actions m) - dom (dm_actions (tm_mgr M))) (tm_acts M)\<rparr>, ret))"

text \<open>\<^verbatim>\<open>get_dict_handle<T>\<close>: a pointer whose static type is \<open>T\<close>.\<close>

definition get_dict_handle_as ::
  "'ty \<Rightarrow> ('ty, 'par) typed_mgr \<Rightarrow> string \<Rightarrow> ('ty \<times> nat) option result" where
  "get_dict_handle_as T M key =
     andthen (get_dict_handle (tm_mgr M) key) (\<lambda>p. Ok (map_option (\<lambda>d. (T, d)) p))"

text \<open>Any use of the manager; a key may be registered twice and memory may run out.\<close>

datatype ('ty, 'par) dm_op =
    Register 'ty "bool \<times> bool \<times> bool" string string bool bool "'par option"
  | Load
  | Reload
  | Destroy

fun tm_do :: "('ty, 'par) typed_mgr \<Rightarrow> ('ty, 'par) dm_op \<Rightarrow> ('ty, 'par) typed_mgr result" where
  "tm_do M (Register T mem key file rl valid par) =
     Ok (fst (set_dict_property_as T M mem key file rl valid par))"
| "tm_do M Load = andthen (dm_load (tm_mgr M)) (\<lambda>(m, _). Ok (M\<lparr>tm_mgr := m\<rparr>))"
| "tm_do M Reload = andthen (dm_reload (tm_mgr M)) (\<lambda>(m, _). Ok (M\<lparr>tm_mgr := m\<rparr>))"
| "tm_do M Destroy = andthen (dm_destroy (tm_mgr M)) (\<lambda>(m, _). Ok (M\<lparr>tm_mgr := m\<rparr>))"

fun tm_run :: "('ty, 'par) typed_mgr \<Rightarrow> ('ty, 'par) dm_op list \<Rightarrow> ('ty, 'par) typed_mgr result" where
  "tm_run M [] = Ok M"
| "tm_run M (op # ops) = andthen (tm_do M op) (\<lambda>M'. tm_run M' ops)"

text \<open>The class a key was last registered with; without memory for its record it is not.\<close>

fun registered :: "(string \<rightharpoonup> 'ty) \<Rightarrow> ('ty, 'par) dm_op list \<Rightarrow> string \<rightharpoonup> 'ty" where
  "registered r [] = r"
| "registered r (Register T mem key file rl valid par # ops) =
     registered (if fst mem then r(key \<mapsto> T) else r) ops"
| "registered r (_ # ops) = registered r ops"

section \<open>Typing is preserved\<close>

text \<open>
  An action calls the members of the class its dictionary was made of, the dictionary behind a
  key is of the class of the last registration, and addresses handed out are not used again.
\<close>

definition well_typed :: "('ty, 'par) typed_mgr \<Rightarrow> (string \<rightharpoonup> 'ty) \<Rightarrow> bool" where
  "well_typed M r \<longleftrightarrow>
     (\<forall>c ac d. dm_actions (tm_mgr M) c = Some ac \<and> ac_dict ac = Some d \<longrightarrow>
        d < dm_fresh (tm_mgr M) \<and> tm_objs M d \<noteq> None \<and> tm_acts M c = tm_objs M d) \<and>
     (\<forall>key a. dm_index (tm_mgr M) key = Some a \<longrightarrow> a < dm_fresh (tm_mgr M)) \<and>
     (\<forall>key a di d. dm_index (tm_mgr M) key = Some a \<and> dm_infos (tm_mgr M) a = Some di \<and>
        di_instance di = Some (Some d) \<longrightarrow> d < dm_fresh (tm_mgr M) \<and> tm_objs M d = r key) \<and>
     (\<forall>d\<in>dm_dicts (tm_mgr M). d < dm_fresh (tm_mgr M)) \<and>
     (\<forall>c ac. dm_actions (tm_mgr M) c = Some ac \<longrightarrow> c < dm_fresh (tm_mgr M)) \<and>
     dom r = dom (dm_index (tm_mgr M))"

text \<open>\<^verbatim>\<open>dict_process\<close> allocates nothing.\<close>

definition shrinks :: "'par dict_mgr \<Rightarrow> 'par dict_mgr \<Rightarrow> bool" where
  "shrinks m m' \<longleftrightarrow> dm_index m' = dm_index m \<and> dm_fresh m' = dm_fresh m \<and>
     dm_infos m' \<subseteq>\<^sub>m dm_infos m \<and> dm_actions m' \<subseteq>\<^sub>m dm_actions m \<and> dm_dicts m' \<subseteq> dm_dicts m"

lemma shrinks_refl [simp]: "shrinks m m"
  by (simp add: shrinks_def)

lemma shrinks_trans [trans]: "shrinks m1 m2 \<Longrightarrow> shrinks m2 m3 \<Longrightarrow> shrinks m1 m3"
  unfolding shrinks_def by (auto intro: map_le_trans)

lemma shrinks_loaded: "shrinks m m' \<Longrightarrow> shrinks m (m'\<lparr>dm_loaded := b\<rparr>)"
  by (simp add: shrinks_def)

lemma process_shrinks: "process m ac pt di = Ok m' \<Longrightarrow> shrinks m m'"
  by (auto simp: process_def shrinks_def live_dict_def split: proc_type.splits option.splits if_splits)

lemma drop_shrinks:
  "shrinks m (m\<lparr>dm_actions := (dm_actions m)(c := None), dm_infos := (dm_infos m)(a := None)\<rparr>)"
  by (simp add: shrinks_def map_le_def)

lemma dict_loop_shrinks: "dict_loop m pt keys = Ok m' \<Longrightarrow> shrinks m m'"
proof (induction keys arbitrary: m)
  case (Cons key keys)
  then obtain m1 where m1: "dict_loop m1 pt keys = Ok m'" "shrinks m m1"
    by (fastforce split: option.splits if_splits prod.splits
        dest: process_shrinks intro: shrinks_trans[OF _ drop_shrinks])
  then show ?case using Cons.IH shrinks_trans by blast
qed simp

lemma map_le_Some: "g \<subseteq>\<^sub>m f \<Longrightarrow> g x = Some y \<Longrightarrow> f x = Some y"
  by (metis domI map_le_def)

lemma well_typed_shrinks:
  assumes "well_typed M r" and "shrinks (tm_mgr M) m"
  shows "well_typed (M\<lparr>tm_mgr := m\<rparr>) r"
  using assms unfolding well_typed_def shrinks_def
  by (auto dest: map_le_Some map_le_implies_dom_le)

lemma well_typedD:
  assumes "well_typed M r"
  shows "dm_actions (tm_mgr M) c = Some ac \<Longrightarrow> ac_dict ac = Some d \<Longrightarrow>
      d < dm_fresh (tm_mgr M) \<and> tm_objs M d \<noteq> None \<and> tm_acts M c = tm_objs M d"
    and "dm_index (tm_mgr M) k = Some a \<Longrightarrow> a < dm_fresh (tm_mgr M)"
    and "dm_index (tm_mgr M) k = Some a \<Longrightarrow> dm_infos (tm_mgr M) a = Some di \<Longrightarrow>
      di_instance di = Some (Some d) \<Longrightarrow> d < dm_fresh (tm_mgr M) \<and> tm_objs M d = r k"
    and "x \<in> dm_dicts (tm_mgr M) \<Longrightarrow> x < dm_fresh (tm_mgr M)"
    and "dm_actions (tm_mgr M) c = Some ac \<Longrightarrow> c < dm_fresh (tm_mgr M)"
    and "dom r = dom (dm_index (tm_mgr M))"
  using assms unfolding well_typed_def by blast+

text \<open>The addresses a registration hands out are new, so it tags them alone.\<close>

lemma set_dict_property_full:
  "fst (set_dict_property m (True, True, ma) key fl rl valid par) =
     m\<lparr>dm_infos := (dm_infos m)(dm_fresh m \<mapsto> \<lparr>di_path = fl, di_with_reload = rl,
           di_instance = Some (Some (Suc (dm_fresh m))),
           di_action = Some (if ma then Some (Suc (Suc (dm_fresh m))) else None), di_valid = valid\<rparr>),
       dm_index := (dm_index m)(key \<mapsto> dm_fresh m), dm_keys := dm_keys m @ [key],
       dm_dicts := insert (Suc (dm_fresh m)) (dm_dicts m),
       dm_actions := (if ma then (dm_actions m)(Suc (Suc (dm_fresh m)) \<mapsto>
           \<lparr>ac_dict = Some (Suc (dm_fresh m)), ac_par = par\<rparr>) else dm_actions m),
       dm_fresh := (if ma then Suc (Suc (Suc (dm_fresh m))) else Suc (Suc (dm_fresh m)))\<rparr>"
  by (simp add: set_dict_property_def init_dict_property_def set_info_def Let_def)

lemma well_typed_register:
  assumes wt: "well_typed M r"
  shows "well_typed (fst (set_dict_property_as T M mem key fl rl valid par))
     (if fst mem then r(key \<mapsto> T) else r)"
proof -
  obtain mi md ma where mem: "mem = (mi, md, ma)" by (cases mem) auto
  note D = well_typedD[OF wt]
  let ?n = "dm_fresh (tm_mgr M)"
  consider "\<not> mi" | "mi" "\<not> md" | "mi" "md" by blast
  then show ?thesis
  proof cases
    case 1
    then show ?thesis using wt mem
      by (cases M) (simp add: set_dict_property_as_def set_dict_property_def init_dict_property_def tagged_def)
  next
    case 2
    have "tagged T (dm_dicts (tm_mgr M) - dm_dicts (tm_mgr M)) (tm_objs M) = tm_objs M"
      "tagged T (dom (dm_actions (tm_mgr M)) - dom (dm_actions (tm_mgr M))) (tm_acts M) = tm_acts M"
      by (simp_all add: tagged_def)
    then show ?thesis
      using 2 mem D unfolding well_typed_def
      by (auto simp: set_dict_property_as_def set_dict_property_def init_dict_property_def
          set_info_def Let_def less_SucI)
  next
    case 3
    have new: "Suc ?n \<notin> dm_dicts (tm_mgr M)" "dm_actions (tm_mgr M) (Suc (Suc ?n)) = None"
      using D(4)[of "Suc ?n"] D(5)[of "Suc (Suc ?n)"] by (auto simp: not_less intro: ccontr)
    have objs: "tagged T (insert (Suc ?n) (dm_dicts (tm_mgr M)) - dm_dicts (tm_mgr M)) (tm_objs M)
        = (tm_objs M)(Suc ?n \<mapsto> T)"
      using new(1) by (auto simp: tagged_def fun_eq_iff)
    let ?acts = "if ma then (tm_acts M)(Suc (Suc ?n) \<mapsto> T) else tm_acts M"
    have acts: "tagged T (dom (if ma then (dm_actions (tm_mgr M))(Suc (Suc ?n) \<mapsto> x)
        else dm_actions (tm_mgr M)) - dom (dm_actions (tm_mgr M))) (tm_acts M) = ?acts" for x
      using new(2) by (auto simp: tagged_def fun_eq_iff)
    have M': "fst (set_dict_property_as T M mem key fl rl valid par) =
        \<lparr>tm_mgr = fst (set_dict_property (tm_mgr M) (True, True, ma) key fl rl valid par),
         tm_objs = (tm_objs M)(Suc ?n \<mapsto> T), tm_acts = ?acts\<rparr>"
      using 3 mem objs acts set_dict_property_full[of "tm_mgr M" ma key fl rl valid par]
      by (auto simp: set_dict_property_as_def split: prod.splits)
    show ?thesis
      unfolding M' set_dict_property_full well_typed_def using 3(1) mem
      by (auto simp: D(6) dest: D(1-5))
  qed
qed

lemma well_typed_do:
  assumes "well_typed M r" and "tm_do M op = Ok M'"
  shows "well_typed M' (registered r [op])"
proof (cases op)
  case (Register T mem key fl rl valid par)
  then show ?thesis using assms well_typed_register[OF assms(1), of T mem key fl rl valid par] by simp
next
  case Load
  note do = assms(2)[unfolded Load tm_do.simps dm_load_def dict_process_def]
  obtain m where m: "dict_loop (tm_mgr M) LOAD (dm_keys (tm_mgr M)) = Inr m"
    using do by (cases "dict_loop (tm_mgr M) LOAD (dm_keys (tm_mgr M))") simp_all
  have "M' = M\<lparr>tm_mgr := m\<lparr>dm_loaded := True\<rparr>\<rparr>" using do unfolding m by simp
  then show ?thesis
    using well_typed_shrinks[OF assms(1) shrinks_loaded[OF dict_loop_shrinks[OF m]]] Load by simp
next
  case Reload
  note do = assms(2)[unfolded Reload tm_do.simps dm_reload_def dict_process_def]
  obtain m where m: "m = tm_mgr M \<or> dict_loop (tm_mgr M) RELOAD (dm_keys (tm_mgr M)) = Inr m"
    "M' = M\<lparr>tm_mgr := m\<rparr>"
  proof (cases "dm_loaded (tm_mgr M)")
    case True
    then obtain m where "dict_loop (tm_mgr M) RELOAD (dm_keys (tm_mgr M)) = Inr m"
      using do by (cases "dict_loop (tm_mgr M) RELOAD (dm_keys (tm_mgr M))") simp_all
    with do True show ?thesis by (intro that[of m]) simp_all
  next
    case False
    then show ?thesis using do by (intro that[of "tm_mgr M"]) simp_all
  qed
  then have "shrinks (tm_mgr M) m" using dict_loop_shrinks by auto
  from well_typed_shrinks[OF assms(1) this] show ?thesis using m(2) Reload by simp
next
  case Destroy
  note do = assms(2)[unfolded Destroy tm_do.simps dm_destroy_def dict_process_def]
  obtain m where m: "m = tm_mgr M \<or> dict_loop (tm_mgr M) DEL (dm_keys (tm_mgr M)) = Inr m"
    "M' = M\<lparr>tm_mgr := m\<lparr>dm_loaded := False\<rparr>\<rparr>"
  proof (cases "dm_loaded (tm_mgr M)")
    case True
    then obtain m where "dict_loop (tm_mgr M) DEL (dm_keys (tm_mgr M)) = Inr m"
      using do by (cases "dict_loop (tm_mgr M) DEL (dm_keys (tm_mgr M))") simp_all
    with do True show ?thesis by (intro that[of m]) simp_all
  next
    case False
    then show ?thesis using do by (intro that[of "tm_mgr M"]) simp_all
  qed
  then have "shrinks (tm_mgr M) m" using dict_loop_shrinks by auto
  from well_typed_shrinks[OF assms(1) shrinks_loaded[OF this]] show ?thesis
    using m(2) Destroy by simp
qed

lemma registered_Cons: "registered r (op # ops) = registered (registered r [op]) ops"
  by (cases op) simp_all

lemma well_typed_run:
  "tm_run M ops = Ok M' \<Longrightarrow> well_typed M r \<Longrightarrow> well_typed M' (registered r ops)"
proof (induction ops arbitrary: M r)
  case (Cons op ops)
  then obtain M1 where M1: "tm_do M op = Ok M1" "tm_run M1 ops = Ok M'" by auto
  show ?case
    using Cons.IH[OF M1(2) well_typed_do[OF Cons.prems(2) M1(1)]] by (subst registered_Cons)
qed simp

lemma well_typed_new: "well_typed typed_new Map.empty"
  by (simp add: well_typed_def typed_new_def dm_new_def)

text \<open>
  C11. Type safety of the manager's casts. However dictionaries are registered, loaded, reloaded
  and destroyed - keys may repeat, memory may run out -, every action calls \<^verbatim>\<open>init\<close>, \<^verbatim>\<open>reload\<close>
  and \<^verbatim>\<open>delete\<close> of the very class its dictionary is an object of, and the pointer that
  \<^verbatim>\<open>get_dict_handle<TYPE>\<close> casts is an object of the class of the key's last registration: the
  cast is right exactly when the caller names that class, and a handle comes only from a key
  that was registered.
\<close>

theorem dict_manager_type_safe:
  assumes "tm_run typed_new ops = Ok M"
  shows "(\<forall>c ac d. dm_actions (tm_mgr M) c = Some ac \<and> ac_dict ac = Some d \<longrightarrow>
       tm_objs M d \<noteq> None \<and> tm_acts M c = tm_objs M d) \<and>
    (\<forall>T key d. get_dict_handle_as T M key = Ok (Some (T, d)) \<longrightarrow>
       (tm_objs M d = Some T \<longleftrightarrow> registered Map.empty ops key = Some T) \<and>
       registered Map.empty ops key \<noteq> None)"
proof -
  have W: "well_typed M (registered Map.empty ops)"
    using well_typed_run[OF assms well_typed_new] .
  have "tm_objs M d = registered Map.empty ops key \<and> registered Map.empty ops key \<noteq> None"
    if h: "get_dict_handle_as T M key = Ok (Some (T, d))" for T key d
  proof -
    obtain a di where "dm_index (tm_mgr M) key = Some a" "dm_infos (tm_mgr M) a = Some di"
      "di_instance di = Some (Some d)"
      using h by (auto simp: get_dict_handle_as_def get_dict_handle_def info_at_def split: option.splits)
    moreover from this have "key \<in> dom (registered Map.empty ops)"
      using W unfolding well_typed_def by (metis domI)
    ultimately show ?thesis using W unfolding well_typed_def by blast
  qed
  moreover have "tm_objs M d \<noteq> None \<and> tm_acts M c = tm_objs M d"
    if "dm_actions (tm_mgr M) c = Some ac" "ac_dict ac = Some d" for c ac d
    using W that unfolding well_typed_def by blast
  ultimately show ?thesis by metis
qed

theorem dict_manager_type_safe_witness:
  "\<exists>M. tm_run typed_new [Register ''int'' (True, True, True) ''k'' ''f'' True True (None :: nat option),
         Register ''word'' (True, True, True) ''k'' ''g'' True True None, Load] = Ok M \<and>
     get_dict_handle_as ''word'' M ''k'' = Ok (Some (''word'', 4)) \<and> tm_objs M 4 = Some ''word'' \<and>
     get_dict_handle_as ''int'' M ''k'' = Ok (Some (''int'', 4)) \<and> tm_objs M 4 \<noteq> Some ''int''"
proof -
  let ?ops = "[Register ''int'' (True, True, True) ''k'' ''f'' True True (None :: nat option),
         Register ''word'' (True, True, True) ''k'' ''g'' True True None, Load]"
  let ?R = "dm_registers (dm_new :: nat dict_mgr)
      [(''k'', ''f'', True, True, None), (''k'', ''g'', True, True, None)]"
  have reg: "set_dict_property m (True, True, True) key fl rl valid par =
      (fst (set_dict_property m (True, True, True) key fl rl valid par), 0)"
    for m :: "nat dict_mgr" and key fl rl valid par
    by (simp add: set_dict_property_def init_dict_property_def set_info_def Let_def)
  define M where "M = \<lparr>tm_mgr = ?R\<lparr>dm_calls := [Inited 4 ''g'' None, Inited 4 ''g'' None], dm_loaded := True\<rparr>,
      tm_objs = [1 \<mapsto> ''int'', 4 \<mapsto> ''word''], tm_acts = [2 \<mapsto> ''int'', 5 \<mapsto> ''word'']\<rparr>"
  have run: "tm_run typed_new ?ops = Ok M"
    by (simp add: M_def typed_new_def set_dict_property_as_def set_dict_property_def init_dict_property_def
        set_info_def dm_new_def Let_def dm_load_def dict_process_def info_at_def action_of_def process_def
        live_dict_def tagged_def fun_eq_iff)
  have get: "get_dict_handle_as T M ''k'' = Ok (Some (T, 4))" for T
    by (simp add: M_def get_dict_handle_as_def get_dict_handle_def set_dict_property_full dm_new_def info_at_def)
  have "registered Map.empty ?ops ''k'' = Some ''word''" by simp
  then show ?thesis
    using dict_manager_type_safe[OF run] run get[of "''word''"] get[of "''int''"] by auto
qed

end
