(* ===== verification/Heap_Sort.thy ===== *)
theory Heap_Sort
  imports Selib_Prelude
begin

text \<open>
  \<^verbatim>\<open>algorithm/heap_sort.h\<close>: \<^verbatim>\<open>HeapSort\<close>, a binary tree of numbers whose maximum or minimum is
  carried up to the root. A link is null, leads to a node, or was never written: a node has no
  constructor, so \<^verbatim>\<open>new\<close> leaves its links uninitialised, and reading one is a fault. No two
  links of a tree lead to the same node.
\<close>

section \<open>The tree and its construction\<close>

datatype 'a hlink = Garbage | Null | Hnode 'a "'a hlink" "'a hlink"

definition hs_new :: "'a hlink" where
  "hs_new = Garbage"

text \<open>
  \<^verbatim>\<open>_build\<close> for the node \<open>i\<close>; \<open>mem\<close> tells whether the node for a position can be allocated, since
  the recursive call writes to it without a test. The result has the position reached.
\<close>

function h_build :: "(nat \<Rightarrow> bool) \<Rightarrow> 'a list \<Rightarrow> nat \<Rightarrow> nat \<Rightarrow> ('a hlink \<times> nat) result" where
  "h_build mem arr i pos =
     (if \<not> mem pos then Fault Null_Deref
      else andthen (rd arr pos) (\<lambda>v.
        if pos + 1 < length arr \<and> 2 * i \<le> length arr then
          andthen (h_build mem arr (2 * i) (pos + 1)) (\<lambda>(l, pos).
            if pos + 1 < length arr \<and> 2 * i + 1 \<le> length arr then
              andthen (h_build mem arr (2 * i + 1) (pos + 1)) (\<lambda>(r, pos). Ok (Hnode v l r, pos))
            else Ok (Hnode v l Garbage, pos))
        else Ok (Hnode v Garbage Garbage, pos)))"
  by pat_completeness auto
termination
  by (relation "measures [\<lambda>(mem, arr, i, pos). of_bool (i = 0), \<lambda>(mem, arr, i, pos). length arr - i,
      \<lambda>(mem, arr, i, pos). length arr - pos]") auto

declare h_build.simps [simp del]

definition hs_build :: "(nat \<Rightarrow> bool) \<Rightarrow> 'a list \<Rightarrow> 'a hlink result" where
  "hs_build mem arr = andthen (h_build mem arr 1 0) (\<lambda>(root, pos). Ok root)"

section \<open>Maximum and minimum\<close>

text \<open>The value of a node and its child after the comparison \<open>lt\<close> and the swap.\<close>

definition carry :: "('a \<Rightarrow> 'a \<Rightarrow> bool) \<Rightarrow> 'a \<Rightarrow> 'a hlink \<Rightarrow> ('a \<times> 'a hlink) result" where
  "carry lt v c =
     (case c of
        Garbage \<Rightarrow> Fault Uninitialised
      | Null \<Rightarrow> Fault Null_Deref
      | Hnode w a b \<Rightarrow> Ok (if lt v w then (w, Hnode v a b) else (v, c)))"

text \<open>\<^verbatim>\<open>_max\<close> is the function for \<open><\<close>, \<^verbatim>\<open>_min\<close> the same text with \<open>></\<close> in place of \<open><\<close>.\<close>

fun h_carry :: "('a \<Rightarrow> 'a \<Rightarrow> bool) \<Rightarrow> 'a hlink \<Rightarrow> 'a hlink result" where
  "h_carry lt Garbage = Fault Uninitialised"
| "h_carry lt Null = Ok Null"
| "h_carry lt (Hnode v l r) =
     andthen (if l = Null then Ok (v, Null) else andthen (h_carry lt l) (\<lambda>l. carry lt v l)) (\<lambda>(v, l).
     andthen (if r = Null then Ok (v, Null) else andthen (h_carry lt r) (\<lambda>r. carry lt v r)) (\<lambda>(v, r).
       Ok (Hnode v l r)))"

definition root_val :: "'a hlink \<Rightarrow> 'a option" where
  "root_val t = (case t of Hnode v l r \<Rightarrow> Some v | _ \<Rightarrow> None)"

definition hs_max :: "'a :: linorder hlink \<Rightarrow> ('a hlink \<times> 'a option) result" where
  "hs_max root = andthen (h_carry (<) root) (\<lambda>root. Ok (root, root_val root))"

definition hs_min :: "'a :: linorder hlink \<Rightarrow> ('a hlink \<times> 'a option) result" where
  "hs_min root = andthen (h_carry (>) root) (\<lambda>root. Ok (root, root_val root))"

text \<open>The destructor, with the nodes it deletes.\<close>

fun h_destroy :: "'a hlink \<Rightarrow> 'a list result" where
  "h_destroy Garbage = Fault Uninitialised"
| "h_destroy Null = Ok []"
| "h_destroy (Hnode v l r) =
     andthen (h_destroy l) (\<lambda>ls. andthen (h_destroy r) (\<lambda>rs. Ok (ls @ rs @ [v])))"

section \<open>Carrying up\<close>

fun clean :: "'a hlink \<Rightarrow> bool" where
  "clean Garbage \<longleftrightarrow> False"
| "clean Null \<longleftrightarrow> True"
| "clean (Hnode v l r) \<longleftrightarrow> clean l \<and> clean r"

fun vals :: "'a hlink \<Rightarrow> 'a multiset" where
  "vals (Hnode v l r) = add_mset v (vals l + vals r)"
| "vals _ = {#}"

fun shape :: "'a hlink \<Rightarrow> unit hlink" where
  "shape Garbage = Garbage"
| "shape Null = Null"
| "shape (Hnode v l r) = Hnode () (shape l) (shape r)"

text \<open>\<open>tops lt t\<close>: nothing in the tree beats its root.\<close>

definition tops :: "('a \<Rightarrow> 'a \<Rightarrow> bool) \<Rightarrow> 'a hlink \<Rightarrow> bool" where
  "tops lt t \<longleftrightarrow> (\<forall>v l r x. t = Hnode v l r \<and> x \<in># vals t \<longrightarrow> \<not> lt v x)"

definition strict_ord :: "('a \<Rightarrow> 'a \<Rightarrow> bool) \<Rightarrow> bool" where
  "strict_ord lt \<longleftrightarrow>
     (\<forall>x y z. \<not> lt x y \<longrightarrow> \<not> lt y z \<longrightarrow> \<not> lt x z) \<and> (\<forall>x y. lt x y \<longrightarrow> \<not> lt y x)"

lemma strict_ordD:
  assumes "strict_ord lt"
  shows "\<And>x y z. \<not> lt x y \<Longrightarrow> \<not> lt y z \<Longrightarrow> \<not> lt x z" "\<And>x y. lt x y \<Longrightarrow> \<not> lt y x"
  using assms unfolding strict_ord_def by blast+

lemma strict_ord_linorder:
  "strict_ord ((<) :: 'a :: linorder \<Rightarrow> 'a \<Rightarrow> bool)" "strict_ord ((>) :: 'a \<Rightarrow> 'a \<Rightarrow> bool)"
  by (auto simp: strict_ord_def)

text \<open>One side of a node: \<open>v\<close> meets the carried-up child.\<close>

lemma carry_ok:
  assumes "c \<noteq> Null" and "clean c" and "tops lt c" and "strict_ord lt"
  shows "\<exists>v' c'. carry lt v c = Ok (v', c') \<and> clean c' \<and> shape c' = shape c \<and>
    add_mset v' (vals c') = add_mset v (vals c) \<and> (\<forall>x\<in>#add_mset v (vals c). \<not> lt v' x)"
proof -
  obtain w a b where c: "c = Hnode w a b" using assms(1,2) by (cases c) auto
  have top: "\<not> lt w x" if "x \<in># vals c" for x using assms(3) c that by (auto simp: tops_def)
  note S = strict_ordD[OF assms(4)]
  have irr: "\<not> lt x x" for x using S(2) by blast
  show ?thesis
  proof (cases "lt v w")
    case True
    then have "\<not> lt w v" using S(2) by blast
    then show ?thesis using True assms(2) top c by (auto simp: carry_def)
  next
    case False
    have "\<not> lt v x" if "x \<in># vals c" for x using S(1)[OF False top[OF that]] .
    then show ?thesis using False assms(2) c irr by (auto simp: carry_def)
  qed
qed

lemma h_carry_ok:
  assumes ord: "strict_ord lt"
  shows "clean t \<Longrightarrow> \<exists>t'. h_carry lt t = Ok t' \<and> clean t' \<and> shape t' = shape t \<and> vals t' = vals t \<and> tops lt t'"
proof (induction t)
  case (Hnode v l r)
  have irr: "\<not> lt x x" for x using strict_ordD(2)[OF ord] by blast
  have side: "\<exists>w c'. (if c = Null then Ok (u, Null) else andthen (h_carry lt c) (\<lambda>c. carry lt u c)) = Ok (w, c') \<and>
      clean c' \<and> shape c' = shape c \<and> add_mset w (vals c') = add_mset u (vals c) \<and>
      (\<forall>x\<in>#add_mset u (vals c). \<not> lt w x)"
    if c: "clean c" "\<exists>c'. h_carry lt c = Ok c' \<and> clean c' \<and> shape c' = shape c \<and> vals c' = vals c \<and> tops lt c'"
    for u c
  proof (cases "c = Null")
    case True
    then show ?thesis using irr by simp
  next
    case False
    obtain c1 where c1: "h_carry lt c = Ok c1" "clean c1" "shape c1 = shape c" "vals c1 = vals c" "tops lt c1"
      using c(2) by blast
    have "c1 \<noteq> Null" using c1(3) False by (cases c) auto
    then have "\<exists>v' c'. carry lt u c1 = Ok (v', c') \<and> clean c' \<and> shape c' = shape c1 \<and>
        add_mset v' (vals c') = add_mset u (vals c1) \<and> (\<forall>x\<in>#add_mset u (vals c1). \<not> lt v' x)"
      using c1(2,5) ord by (rule carry_ok)
    then show ?thesis using False c1 by auto
  qed
  obtain v1 l' where l: "(if l = Null then Ok (v, Null) else andthen (h_carry lt l) (\<lambda>l. carry lt v l)) = Ok (v1, l')"
    "clean l'" "shape l' = shape l" "add_mset v1 (vals l') = add_mset v (vals l)"
    "\<forall>x\<in>#add_mset v (vals l). \<not> lt v1 x"
    using side[of l v] Hnode by auto
  obtain v2 r' where r: "(if r = Null then Ok (v1, Null) else andthen (h_carry lt r) (\<lambda>r. carry lt v1 r)) = Ok (v2, r')"
    "clean r'" "shape r' = shape r" "add_mset v2 (vals r') = add_mset v1 (vals r)"
    "\<forall>x\<in>#add_mset v1 (vals r). \<not> lt v2 x"
    using side[of r v1] Hnode by auto
  have "h_carry lt (Hnode v l r) = Ok (Hnode v2 l' r')" using l(1) r(1) by simp
  moreover have vals: "vals (Hnode v2 l' r') = vals (Hnode v l r)"
  proof -
    have "vals (Hnode v2 l' r') = vals l' + add_mset v2 (vals r')" by simp
    also have "\<dots> = add_mset v1 (vals l') + vals r" using r(4) by simp
    also have "\<dots> = vals (Hnode v l r)" using l(4) by simp
    finally show ?thesis .
  qed
  moreover have "\<not> lt v2 x" if x: "x \<in># vals (Hnode v l r)" for x
  proof -
    consider "x \<in># add_mset v (vals l)" | "x \<in># vals r" using x by auto
    then show ?thesis
    proof cases
      case 1
      have "\<not> lt v2 v1" using r(5) by simp
      then show ?thesis using strict_ordD(1)[OF ord] 1 l(5) by blast
    next
      case 2
      then show ?thesis using r(5) by simp
    qed
  qed
  then have "tops lt (Hnode v2 l' r')" using vals by (auto simp: tops_def)
  ultimately show ?case using l(2,3) r(2,3) by auto
qed (auto simp: tops_def)

section \<open>Building\<close>

text \<open>The leftmost path of a built tree ends at a node whose links were never written.\<close>

fun left_garbage :: "'a hlink \<Rightarrow> bool" where
  "left_garbage (Hnode v l r) \<longleftrightarrow> l = Garbage \<or> left_garbage l"
| "left_garbage _ \<longleftrightarrow> False"

fun preord :: "'a hlink \<Rightarrow> 'a list" where
  "preord (Hnode v l r) = v # preord l @ preord r"
| "preord _ = []"

lemma take_split:
  "i \<le> j \<Longrightarrow> j \<le> k \<Longrightarrow> take (j - i) (drop i xs) @ take (k - j) (drop j xs) = take (k - i) (drop i xs)"
  using take_add[of "j - i" "k - j" "drop i xs"] by simp

text \<open>\<open>built arr pos t pos'\<close>: \<open>t\<close> is filled with the elements from \<open>pos\<close> to \<open>pos'\<close> in preorder.\<close>

definition built :: "'a list \<Rightarrow> nat \<Rightarrow> 'a hlink \<Rightarrow> nat \<Rightarrow> bool" where
  "built arr pos t pos' \<longleftrightarrow> pos \<le> pos' \<and> pos' < length arr \<and> left_garbage t \<and>
     preord t = take (Suc pos' - pos) (drop pos arr)"

lemma built_leaf: "pos < length arr \<Longrightarrow> built arr pos (Hnode (arr ! pos) Garbage Garbage) pos"
  by (simp add: built_def take_Suc_conv_app_nth)

lemma built_left:
  assumes "built arr (Suc pos) l p"
  shows "built arr pos (Hnode (arr ! pos) l Garbage) p"
proof -
  have p: "pos < length arr" "Suc pos \<le> p" "p < length arr" using assms by (auto simp: built_def)
  have "drop pos arr = arr ! pos # drop (Suc pos) arr" using p(1) by (simp add: Cons_nth_drop_Suc)
  moreover have "Suc p - pos = Suc (Suc p - Suc pos)" using p(2) by simp
  ultimately show ?thesis using assms by (simp add: built_def)
qed

lemma built_right:
  assumes "built arr (Suc pos) l p" and "built arr (Suc p) r q"
  shows "built arr pos (Hnode (arr ! pos) l r) q"
proof -
  have L: "built arr pos (Hnode (arr ! pos) l Garbage) p" by (rule built_left[OF assms(1)])
  then have "preord (Hnode (arr ! pos) l r) = take (Suc p - pos) (drop pos arr) @ take (Suc q - Suc p) (drop (Suc p) arr)"
    using assms(2) by (simp add: built_def)
  also have "\<dots> = take (Suc q - pos) (drop pos arr)"
    by (rule take_split) (use L assms(2) in \<open>auto simp: built_def\<close>)
  finally show ?thesis using L assms by (auto simp: built_def)
qed

lemma h_build_ok:
  "pos < length arr \<Longrightarrow> \<exists>t pos'. h_build (\<lambda>_. True) arr i pos = Ok (t, pos') \<and> built arr pos t pos'"
proof (induction "\<lambda>_ :: nat. True" arr i pos rule: h_build.induct)
  case (1 arr i pos)
  have rd: "rd arr pos = Ok (arr ! pos)" using "1.prems" by auto
  show ?case
  proof (cases "pos + 1 < length arr \<and> 2 * i \<le> length arr")
    case False
    then have "h_build (\<lambda>_. True) arr i pos = Ok (Hnode (arr ! pos) Garbage Garbage, pos)"
      using rd by (subst h_build.simps) auto
    then show ?thesis using built_leaf[OF "1.prems"] by blast
  next
    case left: True
    obtain l p where l: "h_build (\<lambda>_. True) arr (2 * i) (pos + 1) = Ok (l, p)" "built arr (Suc pos) l p"
      using "1.hyps"(1) left "1.prems" by auto
    show ?thesis
    proof (cases "p + 1 < length arr \<and> 2 * i + 1 \<le> length arr")
      case False
      then have "h_build (\<lambda>_. True) arr i pos = Ok (Hnode (arr ! pos) l Garbage, p)"
        using rd left l(1) by (subst h_build.simps) auto
      then show ?thesis using built_left[OF l(2)] by blast
    next
      case True
      obtain r q where r: "h_build (\<lambda>_. True) arr (2 * i + 1) (p + 1) = Ok (r, q)" "built arr (Suc p) r q"
        using "1.hyps"(2) left l(1) True by (simp, blast)
      then have "h_build (\<lambda>_. True) arr i pos = Ok (Hnode (arr ! pos) l r, q)"
        using rd left l(1) True by (subst h_build.simps) simp
      then show ?thesis using built_right[OF l(2) r(2)] by blast
    qed
  qed
qed

lemma left_garbage_faults: "left_garbage t \<Longrightarrow> h_carry lt t = Fault Uninitialised \<and> h_destroy t = Fault Uninitialised"
proof (induction t)
  case (Hnode v l r)
  then show ?case by (cases l) auto
qed auto

section \<open>The properties\<close>



text \<open>
  A tree made by \<^verbatim>\<open>build\<close> cannot be used: it holds a beginning of the array in preorder, but
  the links of its leaves were never written, and \<^verbatim>\<open>max\<close>, \<^verbatim>\<open>min\<close> and the destructor each read
  one of them.
\<close>

theorem heap_build_uninitialised:
  assumes "arr \<noteq> []"
  shows "\<exists>t n. hs_build (\<lambda>_. True) arr = Ok t \<and> 0 < n \<and> preord t = take n arr \<and> hs_max t = Fault Uninitialised \<and>
     hs_min t = Fault Uninitialised \<and> h_destroy t = Fault Uninitialised"
proof -
  have "0 < length arr" using assms by simp
  from h_build_ok[OF this, of 1] obtain t n where t: "h_build (\<lambda>_. True) arr 1 0 = Ok (t, n)" "built arr 0 t n"
    by blast
  then have "hs_build (\<lambda>_. True) arr = Ok t" "preord t = take (Suc n) arr" "left_garbage t"
    by (simp_all add: hs_build_def built_def)
  then show ?thesis using left_garbage_faults[of t]
    by (intro exI[of _ t] exI[of _ "Suc n"]) (simp add: hs_max_def hs_min_def)
qed

theorem heap_build_uninitialised_witness:
  "\<exists>t. hs_build (\<lambda>_. True) [2, 1 :: nat] = Ok t \<and> hs_max t = Fault Uninitialised"
  using heap_build_uninitialised[of "[2, 1 :: nat]"] by blast

end
