(* ===== verification/Tree_Walks.thy ===== *)
theory Tree_Walks
  imports Selib_Prelude "HOL-Library.Tree"
begin

text \<open>
  \<^verbatim>\<open>algorithm/tree.h\<close>: walks of a binary tree with an explicit stack. The file is a sketch that
  does not compile; its slips of the pen (\<^verbatim>\<open>p->rhght\<close>, \<^verbatim>\<open>p->->left\<close>, \<^verbatim>\<open>p.pop()\<close> for \<^verbatim>\<open>s.pop()\<close>) are
  read as what they stand for, its control flow is kept. The walks that only read take a tree
  whose labels are the nodes' addresses, so a pointer is a subtree; those that swap children
  work on a store. \<^verbatim>\<open>size\<close> and \<^verbatim>\<open>print_node\<close> are in theory \<open>Tree_Levels\<close>.
\<close>

section \<open>The walks in order\<close>

fun trace_tree_v1 :: "'a tree \<Rightarrow> 'a list" where
  "trace_tree_v1 Leaf = []"
| "trace_tree_v1 (Node l a r) =
     (if l \<noteq> Leaf then trace_tree_v1 l else []) @ [a] @ (if r \<noteq> Leaf then trace_tree_v1 r else [])"

text \<open>The loop of the second version: the stack, \<open>p\<close>, and what has been printed.\<close>

function in_loop :: "'a tree list \<Rightarrow> 'a tree \<Rightarrow> 'a list \<Rightarrow> 'a list result" where
  "in_loop s p out =
     (case p of
        Node l a r \<Rightarrow> in_loop (p # s) l out
      | Leaf \<Rightarrow>
          (case s of
             [] \<Rightarrow> Ok out
           | q # s' \<Rightarrow>
               (case q of
                  Leaf \<Rightarrow> Fault Null_Deref
                | Node l a r \<Rightarrow> in_loop s' r (out @ [a]))))"
  by pat_completeness auto
termination
  by (relation "measure (\<lambda>(s, p, out). 2 * size p + sum_list (map (\<lambda>q. 1 + 2 * size (right q)) s))") auto

declare in_loop.simps [simp del]

definition trace_in_order :: "'a tree \<Rightarrow> 'a list result" where
  "trace_in_order n = in_loop [] n []"

text \<open>The loop of the walk in postorder; it need not end. \<open>last_p\<close> is the node printed last.\<close>

definition addr :: "'a tree \<Rightarrow> 'a option" where
  "addr p = (case p of Leaf \<Rightarrow> None | Node l a r \<Rightarrow> Some a)"

partial_function (option) post_loop ::
  "'a tree list \<Rightarrow> 'a tree \<Rightarrow> 'a option \<Rightarrow> 'a list \<Rightarrow> 'a list result option" where
  "post_loop s p last_p out =
     (case p of
        Node l a r \<Rightarrow> post_loop (p # s) l last_p out
      | Leaf \<Rightarrow>
          (case s of
             [] \<Rightarrow> Some (Inr out)
           | q # s' \<Rightarrow>
               (case q of
                  Leaf \<Rightarrow> Some (Inl Null_Deref)
                | Node l a r \<Rightarrow>
                    if r \<noteq> Leaf \<and> last_p \<noteq> addr r then post_loop s r last_p out
                    else post_loop s' q (addr q) (out @ [a]))))"

declare post_loop.simps [code]

definition trace_post_order :: "'a tree \<Rightarrow> 'a list result option" where
  "trace_post_order n = post_loop [] n None []"

text \<open>The walk in preorder, with what it printed before a fault.\<close>

function pre_loop :: "'a tree list \<Rightarrow> 'a tree \<Rightarrow> 'a list \<Rightarrow> 'a list \<times> fault option" where
  "pre_loop s p out =
     (if s \<noteq> [] \<or> p \<noteq> Leaf then
        (case s of
           [] \<Rightarrow> (out, Some Stack_Underflow)
         | q # s' \<Rightarrow>
             (case q of
                Leaf \<Rightarrow> (out, Some Null_Deref)
              | Node l a r \<Rightarrow>
                  pre_loop ((if l \<noteq> Leaf then [l] else []) @ (if r \<noteq> Leaf then [r] else []) @ s') q (out @ [a])))
      else (out, None))"
  by pat_completeness auto
termination by (relation "measure (\<lambda>(s, p, out). sum_list (map size s))") auto

declare pre_loop.simps [simp del]

definition trace_pre_order :: "'a tree \<Rightarrow> 'a list \<times> fault option" where
  "trace_pre_order n = pre_loop [n] n []"

section \<open>Depth and search trees\<close>

function depth_loop :: "('a tree \<times> int) list \<Rightarrow> int \<Rightarrow> int result" where
  "depth_loop s md =
     (case s of
        [] \<Rightarrow> Ok md
      | (n, level) # s' \<Rightarrow>
          let md = (if level > md then level else md)
          in (case n of
                Leaf \<Rightarrow> Fault Null_Deref
              | Node l a r \<Rightarrow>
                  depth_loop ((if r \<noteq> Leaf then [(r, level + 1)] else []) @
                    (if l \<noteq> Leaf then [(l, level + 1)] else []) @ s') md))"
  by pat_completeness auto
termination by (relation "measure (\<lambda>(s, md). sum_list (map (\<lambda>(n, level). size n) s))") auto

declare depth_loop.simps [simp del]

definition max_depth :: "'a tree \<Rightarrow> int result" where
  "max_depth n = (if n = Leaf then Ok 0 else depth_loop [(n, 1)] 0)"

text \<open>
  \<^verbatim>\<open>is_bst\<close>; the labels are the values here. The test for a null pointer has no \<^verbatim>\<open>return\<close>, so the
  pointer is followed.
\<close>

fun is_bst :: "int \<Rightarrow> int \<Rightarrow> int tree \<Rightarrow> bool result" where
  "is_bst min_value max_value Leaf = Fault Null_Deref"
| "is_bst min_value max_value (Node l a r) =
     andthen (if l \<noteq> Leaf then is_bst min_value max_value l else Ok True) (\<lambda>is_left_bst.
     andthen (if r \<noteq> Leaf then is_bst min_value max_value r else Ok True) (\<lambda>is_right_bst.
       let left_val = (if l \<noteq> Leaf then value l else min_value);
           right_val = (if r \<noteq> Leaf then value r else max_value)
       in Ok (is_left_bst \<and> is_right_bst \<and> left_val < a \<and> a < right_val)))"

section \<open>Mirroring\<close>

text \<open>
  The store has the two children of every node. \<open>change\<close> is what a loop does to the children of
  a node: \<^verbatim>\<open>mirror\<close> swaps them when there are two, \<^verbatim>\<open>print_note\<close> always.
\<close>

type_synonym children = "ptr \<times> ptr"

definition swap_both :: "children \<Rightarrow> children" where
  "swap_both c = (case c of (l, r) \<Rightarrow> if l \<noteq> None \<and> r \<noteq> None then (r, l) else (l, r))"

definition swap_any :: "children \<Rightarrow> children" where
  "swap_any c = (case c of (l, r) \<Rightarrow> (r, l))"

definition push_ptr :: "ptr \<Rightarrow> nat list \<Rightarrow> nat list" where
  "push_ptr p s = (case p of None \<Rightarrow> s | Some a \<Rightarrow> a # s)"

partial_function (option) mirror_loop ::
  "(children \<Rightarrow> children) \<Rightarrow> (nat \<rightharpoonup> children) \<Rightarrow> nat list \<Rightarrow> (nat \<rightharpoonup> children) result option" where
  "mirror_loop change st s =
     (case s of
        [] \<Rightarrow> Some (Inr st)
      | a # s' \<Rightarrow>
          (case st a of
             None \<Rightarrow> Some (Inl Use_After_Free)
           | Some c \<Rightarrow>
               mirror_loop change (st(a \<mapsto> change c))
                 (push_ptr (snd (change c)) (push_ptr (fst (change c)) s'))))"

declare mirror_loop.simps [code]

definition mirror_tree :: "(nat \<rightharpoonup> children) \<Rightarrow> ptr \<Rightarrow> (nat \<rightharpoonup> children) result option" where
  "mirror_tree st n = (case n of None \<Rightarrow> Some (Ok st) | Some a \<Rightarrow> mirror_loop swap_both st [a])"

definition print_note :: "(nat \<rightharpoonup> children) \<Rightarrow> ptr \<Rightarrow> (nat \<rightharpoonup> children) result option" where
  "print_note st n = (case n of None \<Rightarrow> Some (Ok st) | Some a \<Rightarrow> mirror_loop swap_any st [a])"

section \<open>What the reading walks do\<close>

lemma trace_tree_v1_inorder: "trace_tree_v1 t = inorder t"
  by (induction t) auto

lemma in_loop_tree: "in_loop s t out = in_loop s Leaf (out @ inorder t)"
proof (induction t arbitrary: s out)
  case (Node l a r)
  have "in_loop s (Node l a r) out = in_loop (Node l a r # s) l out" by (subst in_loop.simps) simp
  also have "\<dots> = in_loop (Node l a r # s) Leaf (out @ inorder l)" by (rule Node.IH(1))
  also have "\<dots> = in_loop s r (out @ inorder l @ [a])" by (subst in_loop.simps) simp
  also have "\<dots> = in_loop s Leaf (out @ inorder l @ [a] @ inorder r)" using Node.IH(2) by simp
  finally show ?case by simp
qed simp

lemma post_loop_no_end:
  assumes "post_loop s p last_p out = Some y"
  shows "y = Inr res \<longrightarrow> s = [] \<and> p = Leaf"
proof (rule post_loop.raw_induct[of "\<lambda>s p last_p out y. y = Inr res \<longrightarrow> s = [] \<and> p = Leaf", OF _ assms])
  fix f :: "'a tree list \<Rightarrow> 'a tree \<Rightarrow> 'a option \<Rightarrow> 'a list \<Rightarrow> 'a list result option" and s p last_p out y
  assume IH: "\<And>s p last_p out y. f s p last_p out = Some y \<Longrightarrow> y = Inr res \<longrightarrow> s = [] \<and> p = Leaf"
    and body: "(case p of Leaf \<Rightarrow> (case s of [] \<Rightarrow> Some (Inr out)
      | q # s' \<Rightarrow> (case q of Leaf \<Rightarrow> Some (Inl Null_Deref)
          | Node l a r \<Rightarrow> if r \<noteq> Leaf \<and> last_p \<noteq> addr r then f s r last_p out
              else f s' q (addr q) (out @ [a])))
      | Node l a r \<Rightarrow> f (p # s) l last_p out) = Some y"
  show "y = Inr res \<longrightarrow> s = [] \<and> p = Leaf"
  proof
    assume y: "y = Inr res"
    have no: "f s p last_p out \<noteq> Some (Inr res)" if "s \<noteq> [] \<or> p \<noteq> Leaf" for s p last_p out
      using IH that by blast
    show "s = [] \<and> p = Leaf"
    proof (cases p)
      case (Node l a r)
      then show ?thesis using body y no[of "p # s" l] by simp
    next
      case Leaf
      show ?thesis
      proof (cases s)
        case (Cons q s')
        then show ?thesis using body y Leaf no[of s] no[of s' q] by (cases q) (auto split: if_splits)
      qed (use Leaf in simp)
    qed
  qed
qed

lemma pre_loop_all:
  assumes "Leaf \<notin> set s" and "p \<noteq> Leaf \<or> s = []" and "s \<noteq> [] \<or> p \<noteq> Leaf"
  shows "pre_loop s p out = (out @ concat (map preorder s), Some Stack_Underflow)"
  using assms
proof (induction s p out rule: pre_loop.induct)
  case (1 s p out)
  show ?case
  proof (cases s)
    case Nil
    then show ?thesis using "1.prems" by (simp add: pre_loop.simps)
  next
    case (Cons q s')
    then obtain l a r where q: "q = Node l a r" using "1.prems"(1) by (cases q) auto
    let ?s = "(if l \<noteq> Leaf then [l] else []) @ (if r \<noteq> Leaf then [r] else []) @ s'"
    have "pre_loop s p out = pre_loop ?s q (out @ [a])" using Cons q by (subst pre_loop.simps) simp
    also have "\<dots> = (out @ [a] @ concat (map preorder ?s), Some Stack_Underflow)"
      using "1.IH"[OF _ Cons q] "1.prems"(1) Cons q by (simp split: if_splits)
    finally show ?thesis using Cons q by (auto split: if_splits)
  qed
qed

lemma depth_loop_max:
  assumes "Leaf \<notin> fst ` set s"
  shows "depth_loop s md = Ok (fold (\<lambda>(n, level) m. max m (level + int (height n) - 1)) s md)"
  using assms
proof (induction s md rule: depth_loop.induct)
  case (1 s md)
  show ?case
  proof (cases s)
    case Nil
    then show ?thesis by (simp add: depth_loop.simps)
  next
    case (Cons e s')
    then obtain l a r level where e: "e = (Node l a r, level)" using "1.prems" by (cases e; cases "fst e") auto
    let ?f = "\<lambda>(n, level) m. max m (level + int (height n) - 1)"
    let ?md = "if level > md then level else md"
    let ?s = "(if r \<noteq> Leaf then [(r, level + 1)] else []) @ (if l \<noteq> Leaf then [(l, level + 1)] else []) @ s'"
    have "depth_loop s md = depth_loop ?s ?md" using Cons e by (subst depth_loop.simps) (simp add: Let_def)
    also have "\<dots> = Ok (fold ?f ?s ?md)"
      using "1.IH"[OF Cons _ refl] "1.prems" e Cons by auto
    also have "fold ?f ?s ?md = fold ?f s' (max md (level + int (height (Node l a r)) - 1))"
    proof -
      have "fold ?f ?s ?md = fold ?f s' (fold ?f (take (length ?s - length s') ?s) ?md)" by (auto simp: fold_append)
      moreover have "fold ?f (take (length ?s - length s') ?s) ?md = max md (level + int (height (Node l a r)) - 1)"
        by (cases l; cases r) (auto simp: max_def)
      ultimately show ?thesis by simp
    qed
    finally show ?thesis using Cons e by simp
  qed
qed

section \<open>What the mirroring loops do\<close>

text \<open>\<open>rep st p t\<close>: in the store, \<open>p\<close> leads to the tree \<open>t\<close> of addresses.\<close>

fun rep :: "(nat \<rightharpoonup> children) \<Rightarrow> ptr \<Rightarrow> nat tree \<Rightarrow> bool" where
  "rep st p Leaf \<longleftrightarrow> p = None"
| "rep st p (Node l a r) \<longleftrightarrow>
     p = Some a \<and> (\<exists>pl pr. st a = Some (pl, pr) \<and> rep st pl l \<and> rep st pr r)"

lemma rep_upd [simp]: "a \<notin> set_tree t \<Longrightarrow> rep (st(a := x)) p t = rep st p t"
  by (induction t arbitrary: p) auto

lemma rep_addr: "rep st p t \<Longrightarrow> p = addr t"
  by (cases t) (auto simp: addr_def)

text \<open>The tree that is left when children are swapped everywhere, or only where there are two.\<close>

fun turn :: "bool \<Rightarrow> 'a tree \<Rightarrow> 'a tree" where
  "turn always Leaf = Leaf"
| "turn always (Node l a r) =
     (if always \<or> l \<noteq> Leaf \<and> r \<noteq> Leaf then Node (turn always r) a (turn always l)
      else Node (turn always l) a (turn always r))"

definition change :: "bool \<Rightarrow> children \<Rightarrow> children" where
  "change always = (if always then swap_any else swap_both)"

lemma turn_mirror: "turn True t = mirror t"
  by (induction t) auto

text \<open>What the loop does to one node: it keeps two subtrees, in one order or the other.\<close>

lemma change_rep:
  assumes "rep st pl l" and "rep st pr r"
  obtains q1 q2 t1 t2 where "change always (pl, pr) = (q1, q2)" "rep st q1 t1" "rep st q2 t2"
    "turn always (Node l a r) = Node (turn always t1) a (turn always t2)"
    "t1 = l \<and> t2 = r \<or> t1 = r \<and> t2 = l"
proof (cases "always \<or> l \<noteq> Leaf \<and> r \<noteq> Leaf")
  case True
  moreover have "pl \<noteq> None" "pr \<noteq> None" if "l \<noteq> Leaf" "r \<noteq> Leaf" using assms that by (cases l; cases r; auto)+
  ultimately have "change always (pl, pr) = (pr, pl)"
    by (auto simp: change_def swap_any_def swap_both_def)
  with True assms that[of pr pl r l] show ?thesis by auto
next
  case False
  then have "change always (pl, pr) = (pl, pr)"
    using assms by (auto simp: change_def swap_any_def swap_both_def)
  with False assms that[of pl pr l r] show ?thesis by auto
qed

definition stack_of :: "'a tree list \<Rightarrow> 'a tree list" where
  "stack_of ts = filter (\<lambda>t. t \<noteq> Leaf) ts"

lemma push_ptr_stack:
  "rep st p t \<Longrightarrow> push_ptr p (map value (stack_of ts)) = map value (stack_of (t # ts))"
  by (cases t) (auto simp: push_ptr_def stack_of_def)

lemma mirror_loop_ok:
  assumes "\<forall>t\<in>set ts. rep st (addr t) t" and "distinct (concat (map inorder ts))"
  shows "\<exists>st'. mirror_loop (change always) st (map value (stack_of ts)) = Some (Ok st') \<and>
    (\<forall>t\<in>set ts. rep st' (addr t) (turn always t)) \<and>
    (\<forall>a. a \<notin> set (concat (map inorder ts)) \<longrightarrow> st' a = st a)"
  using assms
proof (induction "sum_list (map (\<lambda>t. Suc (2 * size t)) ts)" arbitrary: ts st rule: less_induct)
  case less
  show ?case
  proof (cases ts)
    case Nil
    then show ?thesis by (simp add: stack_of_def mirror_loop.simps)
  next
    case (Cons t ts')
    show ?thesis
    proof (cases t)
      case Leaf
      obtain st' where st': "mirror_loop (change always) st (map value (stack_of ts')) = Some (Ok st')"
        "\<forall>t\<in>set ts'. rep st' (addr t) (turn always t)" "\<forall>a. a \<notin> set (concat (map inorder ts')) \<longrightarrow> st' a = st a"
        using less.hyps[of ts' st] less.prems Cons Leaf by auto
      moreover have "stack_of ts = stack_of ts'" using Cons Leaf by (simp add: stack_of_def)
      ultimately show ?thesis using Cons Leaf by (intro exI[of _ st']) (auto simp: addr_def)
    next
      case (Node l a r)
      obtain pl pr where p: "st a = Some (pl, pr)" "rep st pl l" "rep st pr r"
        using less.prems(1) Cons Node by (auto simp: addr_def)
      from p(2,3) obtain q1 q2 t1 t2 where q: "change always (pl, pr) = (q1, q2)" "rep st q1 t1" "rep st q2 t2"
        "turn always (Node l a r) = Node (turn always t1) a (turn always t2)"
        "t1 = l \<and> t2 = r \<or> t1 = r \<and> t2 = l"
        by (rule change_rep)
      let ?ts = "t2 # t1 # ts'" and ?st = "st(a \<mapsto> (q1, q2))"
      have new: "a \<notin> set_tree l" "a \<notin> set_tree r" "\<forall>t\<in>set ts'. a \<notin> set_tree t"
        using less.prems(2) Cons Node by auto
      have reps: "rep ?st q1 t1" "rep ?st q2 t2" using q(2,3,5) new by auto
      have "\<forall>t\<in>set ?ts. rep ?st (addr t) t"
        using reps rep_addr[OF reps(1)] rep_addr[OF reps(2)] less.prems(1) Cons new(3) by auto
      moreover have "distinct (concat (map inorder ?ts))"
        using less.prems(2) Cons Node q(5) by auto
      moreover have "sum_list (map (\<lambda>t. Suc (2 * size t)) ?ts) < sum_list (map (\<lambda>t. Suc (2 * size t)) ts)"
        using Cons Node q(5) by auto
      ultimately obtain st' where st': "mirror_loop (change always) ?st (map value (stack_of ?ts)) = Some (Ok st')"
        "\<forall>t\<in>set ?ts. rep st' (addr t) (turn always t)" "\<forall>b. b \<notin> set (concat (map inorder ?ts)) \<longrightarrow> st' b = ?st b"
        using less.hyps[of ?ts ?st] by blast
      have "map value (stack_of ts) = a # map value (stack_of ts')" using Cons Node by (simp add: stack_of_def)
      then have "mirror_loop (change always) st (map value (stack_of ts)) =
          mirror_loop (change always) ?st (push_ptr q2 (push_ptr q1 (map value (stack_of ts'))))"
        using p(1) q(1) by (simp add: mirror_loop.simps[of _ _ "_ # _"])
      also have "push_ptr q2 (push_ptr q1 (map value (stack_of ts'))) = map value (stack_of ?ts)"
        by (simp only: push_ptr_stack[OF q(2)] push_ptr_stack[OF q(3)])
      finally have "mirror_loop (change always) st (map value (stack_of ts)) = Some (Ok st')"
        by (simp only: st'(1))
      moreover have "rep st' (addr t) (turn always t)"
      proof -
        have "a \<notin> set (concat (map inorder ?ts))" using new q(5) by auto
        then have "st' a = Some (q1, q2)" using st'(3) by simp
        moreover have "rep st' q1 (turn always t1)" "rep st' q2 (turn always t2)"
          using st'(2) rep_addr[OF q(2)] rep_addr[OF q(3)] by auto
        ultimately show ?thesis using q(4) Node by (simp add: addr_def)
      qed
      moreover have "st' b = st b" if b: "b \<notin> set (concat (map inorder ts))" for b
      proof -
        have "b \<notin> set (concat (map inorder ?ts))" "b \<noteq> a" using b Cons Node q(5) by auto
        then show ?thesis using st'(3) by simp
      qed
      ultimately show ?thesis using st'(2) Cons by (intro exI[of _ st']) auto
    qed
  qed
qed


section \<open>Properties\<close>

text \<open>
  C37. The recursive walk and the loop with a stack print the nodes of every tree in order, and
  \<open>max_depth\<close> is its height. The loop in preorder prints the nodes in preorder and then pops its
  empty stack, because \<open>p\<close> still points to the node printed last. The loop in postorder returns
  on the empty tree only: it goes down to the left again from every node it has printed.
\<close>
theorem tree_walks_equivalence:
  "trace_in_order t = Ok (trace_tree_v1 t) \<and> trace_tree_v1 t = inorder t \<and>
   max_depth t = Ok (int (height t)) \<and>
   trace_pre_order t = (preorder t, Some (if t = Leaf then Null_Deref else Stack_Underflow)) \<and>
   (\<exists>out. trace_post_order t = Some (Ok out)) = (t = Leaf)"
proof (intro conjI)
  show "trace_tree_v1 t = inorder t" by (rule trace_tree_v1_inorder)
  then show "trace_in_order t = Ok (trace_tree_v1 t)"
    by (simp add: trace_in_order_def in_loop_tree[of "[]" t] in_loop.simps[of "[]" Leaf])
  show "max_depth t = Ok (int (height t))"
    by (cases t) (simp_all add: max_depth_def depth_loop_max)
  show "trace_pre_order t = (preorder t, Some (if t = Leaf then Null_Deref else Stack_Underflow))"
    by (cases t) (simp_all add: trace_pre_order_def pre_loop_all pre_loop.simps[of "[Leaf]"])
  show "(\<exists>out. trace_post_order t = Some (Ok out)) = (t = Leaf)"
    using post_loop_no_end[of "[]" t None "[]" "Inr _"]
    by (auto simp: trace_post_order_def post_loop.simps[of _ Leaf])
qed

text \<open>
  On a store that holds a tree with distinct nodes both mirroring functions return, and they
  write to its nodes only. \<open>print_note\<close> leaves the mirror image. \<open>mirror_tree\<close> leaves the tree
  turned at the nodes with two children: a node with one child keeps it on its side.
\<close>
theorem tree_mirror:
  assumes "rep st p t" and "distinct (inorder t)"
  shows "\<exists>st1 st2. print_note st p = Some (Ok st1) \<and> rep st1 p (mirror t) \<and>
    mirror_tree st p = Some (Ok st2) \<and> rep st2 p (turn False t) \<and>
    {a. st1 a \<noteq> st a} \<union> {a. st2 a \<noteq> st a} \<subseteq> set_tree t"
proof -
  have p: "p = addr t" using assms(1) by (rule rep_addr)
  have run: "\<exists>st'. mirror_loop (change always) st (push_ptr p []) = Some (Ok st') \<and>
      rep st' p (turn always t) \<and> {a. st' a \<noteq> st a} \<subseteq> set_tree t" for always
  proof -
    have "push_ptr p [] = map value (stack_of [t])"
      using push_ptr_stack[OF assms(1), of "[]"] by (simp add: stack_of_def)
    then show ?thesis using mirror_loop_ok[of "[t]" st always] assms p by auto
  qed
  have "print_note st p = mirror_loop (change True) st (push_ptr p [])"
    and "mirror_tree st p = mirror_loop (change False) st (push_ptr p [])"
    by (auto simp: print_note_def mirror_tree_def change_def push_ptr_def mirror_loop.simps[of _ _ "[]"] split: option.splits)
  with run[of True] run[of False] show ?thesis by (auto simp: turn_mirror)
qed

text \<open>A node with a left child only: \<open>mirror_tree\<close> leaves it, \<open>print_note\<close> moves the child.\<close>

lemma tree_mirror_witness:
  "\<exists>st1 st2. print_note [0 \<mapsto> (Some 1, None), 1 \<mapsto> (None, None)] (Some 0) = Some (Ok st1) \<and>
     rep st1 (Some 0) (Node Leaf 0 (Node Leaf 1 Leaf)) \<and>
     mirror_tree [0 \<mapsto> (Some 1, None), 1 \<mapsto> (None, None)] (Some 0) = Some (Ok st2) \<and>
     rep st2 (Some 0) (Node (Node Leaf 1 Leaf) 0 Leaf)"
  using tree_mirror[of "[0 \<mapsto> (Some 1, None), 1 \<mapsto> (None, None)]" "Some 0" "Node (Node Leaf 1 Leaf) 0 Leaf"] by auto

text \<open>
  The test for a search tree looks at the children of a node only, so it accepts a tree whose
  order is broken one level further down; and it follows a null root.
\<close>

lemma is_bst_sorted:
  assumes "t \<noteq> Leaf" and "sorted_wrt (<) (inorder t)" and "\<forall>x\<in>set_tree t. lo < x \<and> x < hi"
  shows "is_bst lo hi t = Ok True"
  using assms
proof (induction t)
  case (Node l a r)
  have "value l < a" if "l \<noteq> Leaf" using that Node.prems by (cases l) (auto simp: sorted_wrt_append)
  moreover have "a < value r" if "r \<noteq> Leaf" using that Node.prems by (cases r) (auto simp: sorted_wrt_append)
  moreover have "l \<noteq> Leaf \<Longrightarrow> is_bst lo hi l = Ok True" "r \<noteq> Leaf \<Longrightarrow> is_bst lo hi r = Ok True"
    using Node by (auto simp: sorted_wrt_append)
  ultimately show ?case using Node.prems by auto
qed simp

lemma is_bst_too_weak:
  "is_bst lo hi Leaf = Fault Null_Deref"
  "is_bst (- 10) 10 (Node (Node Leaf 1 (Node Leaf 7 Leaf)) 5 Leaf) = Ok True"
  "\<not> sorted_wrt (<) (inorder (Node (Node Leaf 1 (Node Leaf (7::int) Leaf)) 5 Leaf))"
  by simp_all

end
