(* ===== verification/Tree_Levels.thy ===== *)
theory Tree_Levels
  imports Tree_Walks
begin

text \<open>
  \<^verbatim>\<open>size\<close> and \<^verbatim>\<open>print_node\<close> of \<^verbatim>\<open>algorithm/tree.h\<close>. Both use one name for two things. In
  \<^verbatim>\<open>size\<close> the name \<^verbatim>\<open>s\<close> is the stack and, in \<^verbatim>\<open>s ++\<close> and \<^verbatim>\<open>return s\<close>, a number, which is read as a
  counter of its own; the test \<^verbatim>\<open>NULL == s\<close> before the stack is declared is read as that of the
  parameter. In \<^verbatim>\<open>print_node\<close> the name is an array of stacks, one for each level; a push on the
  array itself is read as one on the stack of the next level.
\<close>

section \<open>The number of nodes\<close>

function size_loop :: "'a tree list \<Rightarrow> int \<Rightarrow> int result" where
  "size_loop s n =
     (case s of
        [] \<Rightarrow> Ok n
      | p # s' \<Rightarrow>
          (case p of
             Leaf \<Rightarrow> Fault Null_Deref
           | Node l a r \<Rightarrow>
               size_loop ((if r \<noteq> Leaf then [r] else []) @ (if l \<noteq> Leaf then [l] else []) @ s') (n + 1)))"
  by pat_completeness auto
termination by (relation "measure (\<lambda>(s, n). sum_list (map size s))") auto

declare size_loop.simps [simp del]

definition tree_size :: "'a tree \<Rightarrow> int result" where
  "tree_size n = (if n = Leaf then Ok 0 else size_loop [n] 0)"

lemma size_loop_sum: "Leaf \<notin> set s \<Longrightarrow> size_loop s n = Ok (n + int (sum_list (map size s)))"
proof (induction s n rule: size_loop.induct)
  case (1 s n)
  show ?case
  proof (cases s)
    case (Cons p s')
    then obtain l a r where "p = Node l a r" using "1.prems" by (cases p) auto
    then show ?thesis using 1 Cons by (subst size_loop.simps) auto
  qed (simp add: size_loop.simps)
qed

lemma tree_size_size: "tree_size t = Ok (int (size t))"
  by (simp add: tree_size_def size_loop_sum)

section \<open>The walk by levels\<close>

text \<open>An entry of a stack is a node with its level.\<close>

type_synonym 'a level_stack = "('a tree \<times> int) list"

definition push_level :: "nat \<Rightarrow> int \<Rightarrow> 'a tree \<Rightarrow> 'a level_stack list \<Rightarrow> 'a level_stack list result" where
  "push_level i level t S =
     (if t = Leaf then Ok S else andthen (rd S i) (\<lambda>s. wr S i ((t, level) # s)))"

definition push_children ::
  "nat \<Rightarrow> int \<Rightarrow> 'a tree \<Rightarrow> 'a tree \<Rightarrow> 'a level_stack list \<Rightarrow> 'a level_stack list result" where
  "push_children gl level l r S =
     (if level mod 2 = 0
      then andthen (push_level (gl + 1) (level + 1) l S) (push_level (gl + 1) (level + 1) r)
      else andthen (push_level (gl + 1) (level + 1) r S) (push_level (gl + 1) (level + 1) l))"

definition weight :: "'a level_stack list \<Rightarrow> nat" where
  "weight S = sum_list (map (\<lambda>s. sum_list (map (\<lambda>(t, level). size t) s)) S)"

lemma weight_set: "i < length S \<Longrightarrow>
    weight (S[i := s]) + sum_list (map (\<lambda>(t, level). size t) (S ! i)) =
    weight S + sum_list (map (\<lambda>(t, level). size t) s)"
proof (induction S arbitrary: i)
  case (Cons s' S)
  then show ?case by (cases i) (auto simp: weight_def)
qed simp

lemma weight_push: "push_level i level t S = Ok S' \<Longrightarrow> weight S' = weight S + size t"
  using weight_set[of i S "(t, level) # S ! i"]
  by (auto simp: push_level_def rd_def wr_def split: if_splits)

lemma weight_children: "push_children gl level l r S = Ok S' \<Longrightarrow> weight S' = weight S + size l + size r"
  by (auto simp: push_children_def dest!: weight_push split: if_splits)

lemma weight_round:
  assumes "rd S gl = Ok ((Node l a r, level) # s')" and "push_children gl level l r (S[gl := s']) = Ok S'"
  shows "weight S' < weight S"
proof -
  have S: "gl < length S" "S ! gl = (Node l a r, level) # s'"
    using assms(1) by (auto simp: rd_def split: if_splits)
  have "weight (S[gl := s']) + (size l + size r + 1) = weight S" using weight_set[OF S(1), of s'] S(2) by simp
  then show ?thesis using weight_children[OF assms(2)] by simp
qed

text \<open>
  The loop, with what it has printed. The test of the \<^verbatim>\<open>for\<close> looks into the array before it
  compares the index.
\<close>

function level_loop :: "'a level_stack list \<Rightarrow> nat \<Rightarrow> 'a list \<Rightarrow> 'a list \<times> int result" where
  "level_loop S gl out =
     (case rd S gl of
        Inl f \<Rightarrow> (out, Fault f)
      | Inr s \<Rightarrow>
          (case s of
             [] \<Rightarrow> (out, Ok 0)
           | nl # s' \<Rightarrow>
               if gl \<le> 128
               then (case nl of
                       (Leaf, level) \<Rightarrow> (out, Fault Null_Deref)
                     | (Node l a r, level) \<Rightarrow>
                         (case push_children gl level l r (S[gl := s']) of
                            Inl f \<Rightarrow> (out @ [a], Fault f)
                          | Inr S \<Rightarrow> level_loop S (if S ! gl = [] then gl + 1 else gl) (out @ [a])))
               else (out, Ok 0)))"
  by pat_completeness auto
termination
  by (relation "measure (\<lambda>(S, gl, out). weight S)") (auto dest!: weight_round)

declare level_loop.simps [simp del]

definition print_node :: "'a tree \<Rightarrow> 'a list \<times> int result" where
  "print_node n =
     (if n = Leaf then ([], Ok (- 1))
      else level_loop ((replicate 128 [])[1 := [(n, 1)]]) 1 [])"

text \<open>The subtrees at a depth, from left to right.\<close>

fun at_depth :: "nat \<Rightarrow> 'a tree \<Rightarrow> 'a tree list" where
  "at_depth k Leaf = []"
| "at_depth 0 t = [t]"
| "at_depth (Suc k) (Node l a r) = at_depth k l @ at_depth k r"

definition below :: "'a tree \<Rightarrow> 'a tree list" where
  "below t = filter (\<lambda>t. t \<noteq> Leaf) [left t, right t]"

lemma at_depth_Suc: "at_depth (Suc k) t = concat (map below (at_depth k t))"
proof (induction k t rule: at_depth.induct)
  case (2 l a r)
  then show ?case by (cases l; cases r) (simp_all add: below_def)
qed simp_all

lemma at_depth_Leaf: "Leaf \<notin> set (at_depth k t)"
  by (induction k t rule: at_depth.induct) auto

lemma at_depth_empty: "at_depth k t = [] \<longleftrightarrow> height t \<le> k"
  by (induction k t rule: at_depth.induct) auto

text \<open>The order on the level \<open>i\<close>, counted from 1: forwards when \<open>i\<close> is even.\<close>

definition turned :: "nat \<Rightarrow> 'a list \<Rightarrow> 'a list" where
  "turned i xs = (if even i then xs else rev xs)"

lemma turned_simps [simp]:
  "turned i [] = []" "turned i xs = [] \<longleftrightarrow> xs = []" "set (turned i xs) = set xs"
  by (auto simp: turned_def)

lemma rev_concat_rev: "rev (concat (map (\<lambda>x. rev (f x)) (rev xs))) = concat (map f xs)"
  by (induction xs) auto

lemma turned_next:
  "rev (concat (map (\<lambda>t. turned i (below t)) (turned i (at_depth k t)))) = turned (Suc i) (at_depth (Suc k) t)"
  by (simp add: turned_def at_depth_Suc rev_concat_rev)

abbreviation on_level :: "nat \<Rightarrow> 'a tree list \<Rightarrow> 'a level_stack" where
  "on_level i \<equiv> map (\<lambda>t. (t, int i))"

lemma push_children_ok:
  assumes "gl + 1 < length S"
  shows "push_children gl (int gl) l r S =
    Ok (S[gl + 1 := on_level (gl + 1) (rev (turned gl (below (Node l a r)))) @ S ! (gl + 1)])"
proof -
  have "int gl mod 2 = 0 \<longleftrightarrow> even gl" by presburger
  then show ?thesis using assms
    by (simp add: push_children_def push_level_def turned_def below_def add.commute[of "int gl"])
qed

text \<open>One level: its nodes are printed and the next level is on its stack in the other direction.\<close>

lemma level_round:
  assumes "ts \<noteq> []" and "Leaf \<notin> set ts" and "length S = 128" and "gl + 1 < 128" and "S ! gl = on_level gl ts"
  shows "level_loop S gl out = level_loop
    (S[gl := [], gl + 1 := on_level (gl + 1) (rev (concat (map (\<lambda>t. turned gl (below t)) ts))) @ S ! (gl + 1)])
    (gl + 1) (out @ map value ts)"
  using assms
proof (induction ts arbitrary: S out)
  case (Cons t ts)
  obtain l a r where t: "t = Node l a r" using Cons.prems(2) by (cases t) auto
  let ?S = "S[gl := on_level gl ts, gl + 1 := on_level (gl + 1) (rev (turned gl (below t))) @ S ! (gl + 1)]"
  have "rd S gl = Ok ((t, int gl) # on_level gl ts)" using Cons.prems by simp
  moreover have "push_children gl (int gl) l r (S[gl := on_level gl ts]) = Ok ?S"
    using push_children_ok[of gl "S[gl := on_level gl ts]" l r a] Cons.prems t by simp
  ultimately have step: "level_loop S gl out =
      level_loop ?S (if ?S ! gl = [] then gl + 1 else gl) (out @ [a])"
    using Cons.prems(4) t by (subst level_loop.simps) simp
  have gl: "?S ! gl = on_level gl ts" using Cons.prems by simp
  show ?case
  proof (cases "ts = []")
    case True
    then show ?thesis using step t Cons.prems by simp
  next
    case False
    have "level_loop ?S gl (out @ [a]) = level_loop
      (?S[gl := [], gl + 1 := on_level (gl + 1) (rev (concat (map (\<lambda>t. turned gl (below t)) ts))) @ ?S ! (gl + 1)])
      (gl + 1) ((out @ [a]) @ map value ts)"
      by (rule Cons.IH[OF False]) (use Cons.prems gl in simp_all)
    moreover have "?S ! (gl + 1) = on_level (gl + 1) (rev (turned gl (below t))) @ S ! (gl + 1)"
      using Cons.prems by simp
    moreover have "?S[gl := [], gl + 1 := x] = S[gl := [], gl + 1 := x]" for x
      by (simp add: list_update_swap[of "Suc gl" gl])
    ultimately show ?thesis using step False gl t by simp
  qed
qed simp

text \<open>The array when the level \<open>i\<close> begins.\<close>

definition at_level :: "nat \<Rightarrow> 'a tree list \<Rightarrow> 'a level_stack list" where
  "at_level i ts = (replicate 128 [])[i := on_level i ts]"

lemma at_level_next:
  assumes "k + 2 < 128" and "k < height t"
  shows "level_loop (at_level (k + 1) (turned (k + 1) (at_depth k t))) (k + 1) out =
    level_loop (at_level (k + 2) (turned (k + 2) (at_depth (k + 1) t))) (k + 2)
      (out @ map value (turned (k + 1) (at_depth k t)))"
proof -
  let ?ts = "turned (k + 1) (at_depth k t)" and ?ts' = "turned (k + 2) (at_depth (k + 1) t)"
  let ?S = "at_level (k + 1) ?ts"
  have "level_loop ?S (k + 1) out = level_loop
    (?S[k + 1 := [], k + 1 + 1 := on_level (k + 1 + 1)
       (rev (concat (map (\<lambda>t. turned (k + 1) (below t)) ?ts))) @ ?S ! (k + 1 + 1)])
    (k + 1 + 1) (out @ map value ?ts)"
    by (rule level_round) (use assms at_depth_Leaf[of k t] in \<open>simp_all add: at_level_def at_depth_empty not_le\<close>)
  moreover have "rev (concat (map (\<lambda>t. turned (k + 1) (below t)) ?ts)) = ?ts'"
    using turned_next[of "k + 1" k t] by simp
  moreover have "?S[k + 1 := [], k + 1 + 1 := x] = (replicate 128 [])[k + 2 := x]" for x
  proof -
    have "?S[k + 1 := []] = replicate 128 []" using assms(1) by (simp add: at_level_def list_update_same_conv)
    then show ?thesis by (simp only:) simp
  qed
  moreover have "?S ! (k + 1 + 1) = []" using assms(1) by (simp add: at_level_def)
  ultimately show ?thesis by (simp add: at_level_def)
qed

text \<open>The levels from \<open>k\<close> up to \<open>n\<close>, every other one backwards.\<close>

definition zigzag :: "'a tree \<Rightarrow> nat \<Rightarrow> nat \<Rightarrow> 'a list" where
  "zigzag t k n = concat (map (\<lambda>k. map value (turned (k + 1) (at_depth k t))) [k..<n])"

lemma levels_from:
  assumes "k \<le> n" and "n \<le> height t" and "n + 1 < 128"
  shows "level_loop (at_level (k + 1) (turned (k + 1) (at_depth k t))) (k + 1) out =
    level_loop (at_level (n + 1) (turned (n + 1) (at_depth n t))) (n + 1) (out @ zigzag t k n)"
  using assms(1)
proof (induction k arbitrary: out rule: inc_induct)
  case base
  then show ?case by (simp add: zigzag_def)
next
  case (step k)
  have "zigzag t k n = map value (turned (k + 1) (at_depth k t)) @ zigzag t (Suc k) n"
    using step(2) by (simp add: zigzag_def upt_conv_Cons)
  then show ?case using at_level_next[of k t out] step assms by simp
qed

lemma print_node_start: "t \<noteq> Leaf \<Longrightarrow>
    print_node t = level_loop (at_level (0 + 1) (turned (0 + 1) (at_depth 0 t))) (0 + 1) []"
  by (cases t) (simp_all add: print_node_def at_level_def turned_def)

text \<open>A tree of up to 126 levels is printed in zigzag.\<close>

lemma print_node_zigzag:
  assumes "t \<noteq> Leaf" and "height t \<le> 126"
  shows "print_node t = (zigzag t 0 (height t), Ok 0)"
proof -
  have "at_depth (height t) t = []" by (simp add: at_depth_empty)
  then have "level_loop (at_level (height t + 1) (turned (height t + 1) (at_depth (height t) t))) (height t + 1) out =
      (out, Ok 0)" for out
    using assms(2) by (subst level_loop.simps) (simp add: at_level_def)
  then show ?thesis
    using print_node_start[OF assms(1)] levels_from[of 0 "height t" t "[]"] assms(2) by simp
qed

text \<open>The last stack of the array cannot be emptied.\<close>

lemma last_level_faults:
  assumes "ts \<noteq> []" and "Leaf \<notin> set ts" and "length S = 128" and "S ! 127 = on_level 127 ts"
  shows "\<exists>out'. level_loop S 127 out = (out', Fault Out_Of_Bounds)"
  using assms
proof (induction ts arbitrary: S out)
  case (Cons t ts)
  obtain l a r where t: "t = Node l a r" using Cons.prems(2) by (cases t) auto
  have rd: "rd S 127 = Ok ((t, int 127) # on_level 127 ts)" using Cons.prems by simp
  show ?case
  proof (cases "l = Leaf \<and> r = Leaf")
    case False
    then have "push_children 127 127 l r (S[127 := on_level 127 ts]) = Fault Out_Of_Bounds"
      using Cons.prems(3) by (auto simp: push_children_def push_level_def)
    then show ?thesis using rd t by (subst level_loop.simps) simp
  next
    case True
    let ?S = "S[127 := on_level 127 ts]"
    have "push_children 127 127 l r ?S = Ok ?S" using True by (simp add: push_children_def push_level_def)
    then have step: "level_loop S 127 out = level_loop ?S (if ts = [] then 128 else 127) (out @ [a])"
      using rd t Cons.prems(3) by (subst level_loop.simps) simp
    show ?thesis
    proof (cases "ts = []")
      case True
      then show ?thesis using step Cons.prems(3) level_loop.simps[of ?S 128] by simp
    next
      case False
      then show ?thesis using step Cons.IH[OF False, of ?S "out @ [a]"] Cons.prems by simp
    qed
  qed
qed simp

lemma print_node_deep:
  assumes "127 \<le> height t"
  shows "\<exists>out. print_node t = (out, Fault Out_Of_Bounds)"
proof -
  have "t \<noteq> Leaf" using assms by auto
  then have "print_node t = level_loop (at_level 127 (turned 127 (at_depth 126 t))) 127 (zigzag t 0 126)"
    using print_node_start[of t] levels_from[of 0 126 t "[]"] assms by simp
  moreover have "at_depth 126 t \<noteq> []" using assms by (simp add: at_depth_empty)
  ultimately show ?thesis
    using last_level_faults[of "turned 127 (at_depth 126 t)" "at_level 127 (turned 127 (at_depth 126 t))"]
      at_depth_Leaf[of 126 t] by (simp add: at_level_def)
qed

lemma mset_levels:
  "height t \<le> n \<Longrightarrow> (\<Sum>k\<leftarrow>[0..<n]. mset (map value (at_depth k t))) = mset (inorder t)"
proof (induction t arbitrary: n)
  case (Node l a r)
  obtain n' where n: "n = Suc n'" using Node.prems by (cases n) auto
  have "(\<Sum>k\<leftarrow>[0..<n]. mset (map value (at_depth k (Node l a r)))) =
      mset (map value (at_depth 0 (Node l a r))) + (\<Sum>k\<leftarrow>[0..<n']. mset (map value (at_depth (Suc k) (Node l a r))))"
    unfolding n by (simp only: upt_conv_Cons[OF zero_less_Suc] map_Suc_upt[symmetric] list.map map_map comp_def sum_list.Cons)
  also have "\<dots> = {#a#} + ((\<Sum>k\<leftarrow>[0..<n']. mset (map value (at_depth k l))) +
      (\<Sum>k\<leftarrow>[0..<n']. mset (map value (at_depth k r))))"
    by (simp add: sum_list_addf)
  also have "\<dots> = mset (inorder (Node l a r))" using Node n by simp
  finally show ?case .
qed (induction n; simp)

lemma mset_zigzag: "mset (zigzag t 0 (height t)) = mset (inorder t)"
proof -
  have "mset (map value (turned i xs)) = mset (map value xs)" for i and xs :: "'a tree list"
    by (simp add: turned_def)
  then have "mset (zigzag t 0 (height t)) = (\<Sum>k\<leftarrow>[0..<height t]. mset (map value (at_depth k t)))"
    by (simp add: zigzag_def mset_concat comp_def del: mset_map)
  then show ?thesis using mset_levels[of t "height t"] by simp
qed

section \<open>The property\<close>



end
