(* ===== verification/Programs.thy ===== *)
theory Programs
  imports Algo_Sort Heap_Sort Qsort Kmp Reverse_Words Circle_Cache
begin

text \<open>
  The \<^verbatim>\<open>main\<close> functions of \<^verbatim>\<open>algorithm/\<close>, its tests and the test of the cache: what each program
  prints and how it ends.
\<close>

section \<open>Programs that print\<close>

text \<open>A piece of output: the text of a format, or an argument of \<^verbatim>\<open>%d\<close>, \<^verbatim>\<open>%c\<close>, \<^verbatim>\<open>%s\<close> or \<^verbatim>\<open>%lu\<close>.\<close>

datatype piece = Text string | Number int | Character char

text \<open>
  What a program has printed and how it ends: with an exit code, with a fault, or (\<open>None\<close>)
  never.
\<close>

type_synonym outcome = "piece list \<times> int result option"

definition prints :: "piece list \<Rightarrow> outcome \<Rightarrow> outcome" where
  "prints out k = (case k of (out', e) \<Rightarrow> (out @ out', e))"

definition calls :: "'a result option \<Rightarrow> ('a \<Rightarrow> outcome) \<Rightarrow> outcome" where
  "calls m k =
     (case m of None \<Rightarrow> ([], None) | Some (Inl f) \<Rightarrow> ([], Some (Inl f)) | Some (Inr x) \<Rightarrow> k x)"

definition exits :: "int \<Rightarrow> outcome" where
  "exits c = ([], Some (Ok c))"

lemma prints_simps [simp]: "prints out (out', e) = (out @ out', e)"
  by (simp add: prints_def)

lemma calls_simps [simp]:
  "calls None k = ([], None)"
  "calls (Some (Inl f)) k = ([], Some (Inl f))"
  "calls (Some (Inr x)) k = k x"
  by (simp_all add: calls_def)

definition newline :: piece where
  "newline = Text [CHR 0x0A]"

text \<open>\<^verbatim>\<open>printf("%d ", a[i])\<close> for each element in turn.\<close>

definition show_all :: "int list \<Rightarrow> piece list" where
  "show_all xs = concat (map (\<lambda>x. [Number x, Text '' '']) xs)"

section \<open>The tests of the sorting functions\<close>

text \<open>
  The loop that fills the array: \<open>rnd i\<close> is what the call number \<open>i\<close> of \<^verbatim>\<open>rand\<close> returns, which
  is not negative. The cells behind the first \<open>n\<close> are never used.
\<close>

definition random_numbers :: "(nat \<Rightarrow> nat) \<Rightarrow> nat \<Rightarrow> nat \<Rightarrow> int list" where
  "random_numbers rnd m n = map (\<lambda>i. int (rnd i mod m)) [0..<n]"

definition insert_sort_main :: "(nat \<Rightarrow> nat) \<Rightarrow> outcome" where
  "insert_sort_main rnd =
     (let a = random_numbers rnd 20 10
      in prints (show_all a)
           (calls (Some (insert_sort a)) (\<lambda>a. prints (newline # show_all a) (exits 0))))"

text \<open>The numbers are below 500: as words of 32 bits they compare the same signed or unsigned.\<close>

definition merge_sort_main :: "(nat \<Rightarrow> nat) \<Rightarrow> outcome" where
  "merge_sort_main rnd =
     (let a = random_numbers rnd 500 10
      in prints (show_all a)
           (calls (Some (merge_sort (map word_of_int a :: u32 list))) (\<lambda>a.
              prints (newline # show_all (map sint a)) (exits 0))))"

definition quick_sort_main :: "(nat \<Rightarrow> nat) \<Rightarrow> outcome" where
  "quick_sort_main rnd =
     (let a = random_numbers rnd 20 10
      in prints (show_all a)
           (calls (quick_sort_v2 a 0 10) (\<lambda>a. prints (newline # show_all a) (exits 0))))"

text \<open>At the end of \<^verbatim>\<open>main\<close> the tree is destroyed.\<close>

definition heap_sort_main :: "(nat \<Rightarrow> bool) \<Rightarrow> (nat \<Rightarrow> nat) \<Rightarrow> outcome" where
  "heap_sort_main mem rnd =
     (let a = random_numbers rnd 20 20
      in prints (show_all a)
           (calls (Some (hs_build mem a)) (\<lambda>hs. prints [newline]
             (calls (Some (hs_max hs)) (\<lambda>(hs, v).
              calls (Some (case v of None \<Rightarrow> Fault Null_Deref | Some x \<Rightarrow> Ok x)) (\<lambda>x.
              prints [Text ''max is:'', Number x, newline]
             (calls (Some (hs_min hs)) (\<lambda>(hs, v).
              calls (Some (case v of None \<Rightarrow> Fault Null_Deref | Some x \<Rightarrow> Ok x)) (\<lambda>x.
              prints [Text ''min is:'', Number x, newline]
             (calls (Some (h_destroy hs)) (\<lambda>_. exits 0)))))))))))"

lemma length_random [simp]: "length (random_numbers rnd m n) = n"
  by (simp add: random_numbers_def)

lemma random_bounds:
  assumes "x \<in> set (random_numbers rnd m n)" and "0 < m"
  shows "0 \<le> x" and "x < int m"
  using assms by (auto simp: random_numbers_def simp flip: of_nat_mod)

lemma insert_sort_main_sorts:
  "insert_sort_main rnd =
     (let a = random_numbers rnd 20 10 in (show_all a @ newline # show_all (sort a), Some (Ok 0)))"
  by (simp add: insert_sort_main_def ins.srt_is_sort exits_def Let_def)

text \<open>Sorting words below \<open>2 ^ 31\<close> sorts the numbers they stand for.\<close>

lemma sort_small_words:
  fixes ws :: "u32 list"
  assumes "\<forall>x\<in>set xs. 0 \<le> x \<and> x < 2 ^ 31" and "sorted ws" and "mset ws = mset (map word_of_int xs)"
  shows "sort xs = map sint ws"
proof (rule properties_for_sort)
  have again: "sint (word_of_int x :: u32) = x" if "x \<in> set xs" for x
  proof -
    have x: "0 \<le> x" "x < 2 ^ 31" using assms(1) that by auto
    then have "take_bit 32 x = x" by (intro take_bit_int_eq_self) auto
    moreover have "signed_take_bit 31 x = x" using x by (intro signed_take_bit_int_eq_self) auto
    moreover have "sint (word_of_int x :: u32) = signed_take_bit 31 (take_bit 32 x)"
      by (simp add: sint_uint unsigned_of_int)
    ultimately show ?thesis by (simp only:)
  qed
  have "mset (map sint ws) = image_mset sint (mset (map word_of_int xs :: u32 list))"
    using assms(3) by (metis mset_map)
  also have "\<dots> = mset (map (\<lambda>x. sint (word_of_int x :: u32)) xs)" by (simp add: comp_def multiset.map_comp)
  also have "\<dots> = mset xs" using again by (simp cong: map_cong)
  finally show "mset (map sint ws) = mset xs" .
  have "set ws = word_of_int ` set xs" using assms(3) by (metis set_map set_mset_mset)
  then have small: "sint w = uint w" if "w \<in> set ws" for w :: u32
    using assms(1) that again by (auto simp: unsigned_of_int take_bit_int_eq_self)
  have "map sint ws = map uint ws" using small by simp
  moreover have "sorted (map uint ws)" using assms(2) by (auto simp: sorted_map word_le_def elim: sorted_wrt_mono_rel[rotated])
  ultimately show "sorted (map sint ws)" by (simp only:)
qed

lemma merge_sort_main_sorts:
  "merge_sort_main rnd =
     (let a = random_numbers rnd 500 10 in (show_all a @ newline # show_all (sort a), Some (Ok 0)))"
proof -
  let ?a = "random_numbers rnd 500 10" let ?ws = "map word_of_int ?a :: u32 list"
  have "\<forall>x\<in>set ?a. 0 \<le> x \<and> x < 2 ^ 31"
    using random_bounds[of _ rnd 500 10] by fastforce
  then have "sort ?a = map sint (sort ?ws)" by (rule sort_small_words) simp_all
  then show ?thesis by (simp add: merge_sort_main_def mrg.srt_is_sort exits_def Let_def)
qed

text \<open>The program for the second quicksort prints its numbers and no result: it faults or goes on forever.\<close>

lemma quick_sort_main_no_result:
  "\<exists>e. quick_sort_main rnd = (show_all (random_numbers rnd 20 10), e) \<and> (\<forall>c. e \<noteq> Some (Ok c))"
proof -
  let ?r = "quick_sort_v2 (random_numbers rnd 20 10) 0 10"
  have "?r = None \<or> (\<exists>f. ?r = Some (Inl f))"
    using quick_sort_v2_no_result[of "random_numbers rnd 20 10" 0 10] by (cases ?r) auto
  then show ?thesis by (auto simp: quick_sort_main_def Let_def)
qed

text \<open>The heap program faults at the first maximum.\<close>

lemma heap_sort_main_faults:
  "heap_sort_main (\<lambda>_. True) rnd = (show_all (random_numbers rnd 20 20) @ [newline], Some (Fault Uninitialised))"
proof -
  have "random_numbers rnd 20 20 \<noteq> []" using length_random[of rnd 20 20] by fastforce
  from heap_build_uninitialised[OF this] obtain t
    where "hs_build (\<lambda>_. True) (random_numbers rnd 20 20) = Ok t" "hs_max t = Fault Uninitialised" by blast
  then show ?thesis by (simp add: heap_sort_main_def Let_def)
qed

section \<open>The examples\<close>

text \<open>\<^verbatim>\<open>kmp.cpp\<close>; what the arrays hold before they are written is an argument.\<close>

definition kmp_main :: "(nat \<Rightarrow> char) \<Rightarrow> (nat \<Rightarrow> int) \<Rightarrow> outcome" where
  "kmp_main c0 s0 =
     (let s = ''ABACABABE'';
          pt = \<lparr>pt_pattern = s @ CHR 0x00 # map c0 [length s + 1..<128], pt_skip = map s0 [0..<128],
            pt_len = int (length s)\<rparr>
      in calls (make_skip (Some pt)) (\<lambda>(p, _). case p of
           None \<Rightarrow> exits 0
         | Some pt \<Rightarrow>
             prints (concat (map (\<lambda>i. [Character (pt_pattern pt ! i), Text '' '', Number (pt_skip pt ! i), newline])
                 [0..<nat (pt_len pt)]))
               (exits 0)))"

definition qsort_main :: outcome where
  "qsort_main =
     calls (qsort (Some [38, 8, 16, 6, 79, 57, 24, 56, 2, 58, 4, 70, 45]) 0 12) (\<lambda>(a, _).
       prints (concat (map (\<lambda>x. [Text ''ret:'', Number x, newline]) (case a of None \<Rightarrow> [] | Some xs \<Rightarrow> xs)))
         (exits 0))"

definition pro_main :: outcome where
  "pro_main =
     calls (Some (reverse_string ''i am a cat'')) (\<lambda>(p, _).
       prints [Text ''ret is:'', Text p, newline] (exits 0))"

text \<open>
  \<^verbatim>\<open>circle_cache_main.cpp\<close>; a value is one of the variables of \<^verbatim>\<open>main\<close>. The default for the raw
  key is the empty string.
\<close>

datatype var = V1 | V2 | V3

fun var_val :: "var \<Rightarrow> int" where
  "var_val V1 = 5"
| "var_val V2 = 99"
| "var_val V3 = 100"

definition var_at :: "var option \<Rightarrow> int result" where
  "var_at p = (case p of None \<Rightarrow> Fault Null_Deref | Some x \<Rightarrow> Ok (var_val x))"

fun puts :: "(u64 \<times> var option) list \<Rightarrow> var lru \<Rightarrow> var lru result" where
  "puts [] lc = Ok lc"
| "puts ((k, v) # kvs) lc = andthen (lru_put lc k v '''' True) (\<lambda>(lc, _). puts kvs lc)"

definition circle_cache_main :: "var lru \<Rightarrow> bool \<Rightarrow> bool \<Rightarrow> outcome" where
  "circle_cache_main lc mem_hash mem_list =
     calls (Some (lru_init lc mem_hash mem_list 10 50)) (\<lambda>(lc, _).
     calls (Some (puts [(9, Some V1), (8, None), (7, None)] lc)) (\<lambda>lc.
     calls (Some (lru_get lc 9 '''')) (\<lambda>(lc, ret1).
     calls (Some (var_at ret1)) (\<lambda>x. prints [Text ''get value1:'', Number x, newline]
    (calls (Some (puts [(6, Some V1), (11, None), (20, Some V2), (22, None), (93, None)] lc)) (\<lambda>lc.
     calls (Some (lru_get lc 20 '''')) (\<lambda>(lc, ret2).
     calls (Some (var_at ret2)) (\<lambda>x. prints [Text ''get value1:'', Number x, newline]
    (calls (Some (puts [(97, None), (98, None), (6, Some V3)] lc)) (\<lambda>lc.
     calls (debug_print lc) (\<lambda>(keys, _).
       prints (concat (map (\<lambda>k. [Text ''value is:'', Number (uint k), newline]) keys)) (exits 0))))))))))))"

lemma pro_main_result: "pro_main = ([Text ''ret is:'', Text ''cat a am i'', newline], Some (Ok 0))"
  by code_simp

lemma qsort_main_result:
  "qsort_main = (concat (map (\<lambda>x. [Text ''ret:'', Number x, newline])
     [2, 4, 8, 6, 16, 24, 38, 45, 56, 57, 58, 70, 79]), Some (Ok 0))"
  by code_simp

lemma kmp_main_result:
  "kmp_main c0 s0 = (concat (map (\<lambda>(c, k). [Character c, Text '' '', Number k, newline])
     (zip ''ABACABABE'' [- 1, 0, 0, 1, 0, 1, 2, 3, 2])), Some (Ok 0))"
  by code_simp

text \<open>The members of a cache have any value before \<^verbatim>\<open>init\<close>.\<close>

lemma circle_cache_main_result:
  "circle_cache_main \<lparr>lr_hash = hs, lr_list = ls, lr_head = a, lr_tail = b, lr_hash_size = c,
     lr_capacity = d, lr_max_probing = e\<rparr> True True =
   ([Text ''get value1:'', Number 5, newline, Text ''get value1:'', Number 99, newline] @
      concat (map (\<lambda>k. [Text ''value is:'', Number k, newline]) [7, 9, 11, 22, 93, 20, 97, 98, 6]),
    Some (Ok 0))"
  by code_simp

end
