(* ===== verification/Spec2Isabelle.thy ===== *)
theory Spec2Isabelle
  imports PChain_Concurrent Lifo_Progress Singleton Cpu_Load Qsort Auto_Release Pool_Threads P_Queue
    Circle_Cache_Probing Sequence_Recorder Hash_Fun Algo_Sort Kmp Reverse_Words Dict_Access Dict_Types
    Heap_Sort Tree_Levels Programs
begin

text \<open>
  A verification library for \<^verbatim>\<open>selib\<close>, a C++ header library of containers, lock-free utilities and
  small services for server programs.

  \<^bold>\<open>The program and its parts.\<close> The bottom layer, \<^verbatim>\<open>util/\<close>, has the bit array and the spin locks
  kept in its bits, the lock-free stack \<^verbatim>\<open>Lifo\<close>, singletons, a timer, hashes, paths and a file
  watcher. On it stand the containers of \<^verbatim>\<open>container/\<close>: a chained hash map and its locked form
  (bit array, array lock, map), a pool of resources made of two \<^verbatim>\<open>Lifo\<close> stacks, a queue for
  readers and writers in different threads, an LRU cache in two arrays, a ring of recorded
  values, and a dictionary that is loaded again when its file changes (path, file watcher). The
  top layer, \<^verbatim>\<open>framework/\<close>, has a pool of worker threads between two resource stacks and a manager
  of dictionaries by key; \<^verbatim>\<open>monitor/\<close> measures how late threads wake up (timer, singleton). The
  files of \<^verbatim>\<open>algorithm/\<close> stand alone.

  \<^bold>\<open>Which theory models which file.\<close> Definitions have the names of the functions they model, with a
  prefix for the class (\<open>ba_\<close>, \<open>al_\<close>, \<open>ch_\<close>, \<open>pm_\<close>, \<open>lf_\<close>, \<open>rs_\<close>, \<open>sp_\<close>, \<open>pq_\<close>, \<open>lru_\<close>, \<open>sr_\<close>, \<open>fw_\<close>, \<open>dc_\<close>,
  \<open>dm_\<close>, \<open>ps_\<close>, \<open>ts_\<close>, \<open>tm_\<close>, \<open>cl_\<close>, \<open>hs_\<close>); a record has the members of its class.

  \<^item> \<open>Selib_Prelude\<close>: machine types, faults, results, guarded array access, nodes in a store;
    \<open>Transitions\<close>: reachable states and invariants; \<open>Linearize\<close>: runs of threads, sequential objects, and when a run is explained by one;
    \<open>Atomic_Ops\<close>: \<^verbatim>\<open>util/lock_free_atomic_ops.h\<close>.
  \<^item> \<open>Bit_Array\<close>, \<open>Array_Lock\<close>: \<^verbatim>\<open>util/bit_array.h\<close>, \<^verbatim>\<open>util/array_lock.h\<close>.
  \<^item> \<open>Chain_Hash\<close>, \<open>PChain_Map\<close>, \<open>PChain_Concurrent\<close>: \<^verbatim>\<open>container/chain_hash.h\<close>,
    \<^verbatim>\<open>container/pchain_map.h\<close>; the last has the threads, one step for each access to the chains.
  \<^item> \<open>Lifo\<close>, \<open>Lifo_Progress\<close>: \<^verbatim>\<open>util/lifo.h\<close>, \<^verbatim>\<open>util/lifo.hpp\<close>.
  \<^item> \<open>Resource_Stack\<close>, \<open>Resource_Concurrent\<close>: \<^verbatim>\<open>container/resource_stack.h\<close>, used by one thread and by many.
  \<^item> \<open>Shining_Pool\<close>, \<open>Pool_Threads\<close>: \<^verbatim>\<open>framework/shining_pool.h\<close>; the first takes a call on a stack as
    one step, the second cuts the workers and the client at every access to a stack.
  \<^item> \<open>P_Queue\<close>: \<^verbatim>\<open>container/pqueue.h\<close>.
  \<^item> \<open>Circle_Cache\<close>, \<open>Circle_Cache_Props\<close>, \<open>Circle_Cache_Probing\<close>: \<^verbatim>\<open>container/circle_cache.h\<close>,
    the last with the sequence of buckets that a search visits.
  \<^item> \<open>Sequence_Recorder\<close>, \<open>Hash_Fun\<close>: \<^verbatim>\<open>container/sequence_recorder.h\<close>, \<^verbatim>\<open>util/hash_fun.h\<close>.
  \<^item> \<open>Path\<close>, \<open>File_Watcher\<close>, \<open>Dict_Container\<close>: \<^verbatim>\<open>util/path.h\<close>, \<^verbatim>\<open>util/file_watcher.h\<close>,
    \<^verbatim>\<open>container/dict_container.h\<close>.
  \<^item> \<open>Dict_Manager\<close>, \<open>Dict_Types\<close>, \<open>Dict_Access\<close>: \<^verbatim>\<open>framework/dict_manager.h\<close> and \<^verbatim>\<open>.cpp\<close>, alone, with the
    type parameter of its member templates, and with the containers.
  \<^item> \<open>Singleton\<close>: \<^verbatim>\<open>util/singleton.h\<close> and \<^verbatim>\<open>util/autolock.h\<close>; \<open>Auto_Release\<close>: \<^verbatim>\<open>util/auto_release.h\<close>.
  \<^item> \<open>Timer\<close>, \<open>Cpu_Load\<close>: \<^verbatim>\<open>util/timer.h\<close>, \<^verbatim>\<open>monitor/cpu_switch_monitor.h\<close>.
  \<^item> \<open>Algo_Sort\<close>, \<open>Qsort\<close>, \<open>Heap_Sort\<close>, \<open>Tree_Walks\<close>, \<open>Tree_Levels\<close>, \<open>Kmp\<close>, \<open>Reverse_Words\<close>: \<^verbatim>\<open>algorithm/algo_sort.h\<close>,
    \<^verbatim>\<open>qsort.cpp\<close>, \<^verbatim>\<open>heap_sort.h\<close>, \<^verbatim>\<open>tree.h\<close>, \<^verbatim>\<open>kmp.cpp\<close>, \<^verbatim>\<open>pro.cpp\<close>; \<open>Programs\<close>: the \<^verbatim>\<open>main\<close>
    functions of these files and of the tests, with what they print.
\<close>

text \<open>
  \<^bold>\<open>How the code is modelled.\<close> Unsigned integers are words of their width and wrap; a signed
  integer is an \<open>int\<close>, and where its range matters leaving it is a fault. Objects that the code
  allocates, links and deletes are in an explicit store, so following a pointer to a deleted
  object is the fault \<open>Use_After_Free\<close> and the order of deletions shows; an array is a list that is
  read and written by \<open>rd\<close> and \<open>wr\<close>, which fault out of range. A function returns \<open>Ok\<close> with the new
  state or \<open>Fault\<close>; code that may spin or recurse for ever is a \<open>partial_function (option)\<close>, and the
  theorems on it say that it returns. No fuel is used: the other loops are recursive functions
  with a termination proof, except \<open>part_loop\<close> (a \<open>for\<close> loop of \<open>len - 1\<close> rounds, counted as in the
  code). Failure of \<^verbatim>\<open>new (std::nothrow)\<close> is a flag of the call. Threads are step relations (array
  lock, locked map, lock-free stack, resource stack, queue, worker pool) or a fold over a schedule (singleton) with a program
  counter for each thread, one step for each access to shared memory; memory is sequentially
  consistent. Where a component runs on another's concurrent operations, its steps are the
  accesses of the lower one where that matters (the locked map contains the steps of the array
  lock), and whole operations where the lower one has been shown to be linearizable (the
  resource stack takes an operation on one lock-free stack as a step; the worker pool takes the
  accesses of the resource stack).

  \<^bold>\<open>What the lemmas show.\<close> In every theory a relation or invariant (\<open>ba_ok\<close>, \<open>al_inv\<close>, \<open>ch_rel\<close>,
  \<open>cm_inv\<close>, \<open>lf_inv\<close>, \<open>rs_rel\<close>, \<open>rc_inv\<close>, \<open>pool_inv\<close>, \<open>pt_shape\<close>, \<open>well_typed\<close>, \<open>pq_rel\<close>, \<open>pq_good\<close>, \<open>lru_good\<close>, \<open>lru_rel\<close>, \<open>sr_rel\<close>, \<open>dm_wf\<close>, \<open>ps_inv\<close>,
  \<open>smp_rel\<close>) connects the state with what it stands for, each operation keeps it and answers as
  the abstract operation does, and the properties follow for whole sequences of calls or for
  every interleaving. The interfaces between components are locales: \<open>bit_store\<close> (bit array),
  \<open>lock_array\<close> (array lock), \<open>kv_base\<close> and \<open>kv_store\<close> (chained map), \<open>locked_store\<close> (locked map),
  \<open>node_stack\<close> (lock-free stack, used by the resource stack), \<open>lag_queue\<close> (the queue, whose reader
  never takes the last element) and \<open>sorter\<close> (three sorting functions); \<open>step_invariant\<close> gives the
  invariant of all states reached from laws on a first state and a single step (array lock,
  lock-free stack, queue, both models of the worker pool), \<open>stepwise_explained\<close>, which is one, and
  its extension \<open>linearizable\<close> give the theorem on all runs of a system of threads (\<open>runs_to\<close>) from
  laws on its single steps, for the locked map and the resource stack. Each is interpreted on
  the model of the code that provides it. What the code takes from outside the repository is an
  argument: what the file system, the clock and the allocator answer, the rounding of floats
  (exact on integers of 24 bits and their 128th parts), the double pointer of the dictionary
  container (\<open>flips\<close>), and the virtual functions of derived classes.

  \<^bold>\<open>Bounds.\<close> The lock-free stack is correct while no thread sleeps through \<open>2 ^ w\<close> swaps between
  reading the version tag and its own swap (\<open>timely\<close>; \<open>w\<close> is 64 on x86-64 and 32 on i386). Maps have
  at least one and fewer than \<open>2 ^ 31\<close> buckets, because a bucket number is an \<^verbatim>\<open>int\<close>. The recorder
  is used for fewer than \<open>2 ^ 31\<close> appends between two calls of \<open>clear\<close>. The LRU cache has a
  capacity of at least 2 and \<^verbatim>\<open>max_probing\<close> up to 92682, where the offsets still fit into 32 bits;
  with \<^verbatim>\<open>max_probing\<close> at least the capacity no \<^verbatim>\<open>put\<close> is refused. The timer measures up to
  292 years. A worker pool has one client thread and \<open>0 \<le> pool_size < 2 ^ 31\<close>; a thread inside a
  bucket's lock takes at most \<open>3 n + 5\<close> moves of its own for \<open>n\<close> keys in the bucket, and a worker
  twelve from \<^verbatim>\<open>stop\<close> to its end.

  \<^bold>\<open>Faults that the proofs found.\<close> Several functions do not do what they mean to; their theorems
  state what they do: \<open>quick_sort_v2\<close> never returns, \<open>qsort\<close> leaves neighbours unsorted, a miss of
  \<open>bin_find\<close> looks like a hit, the walk in postorder does not end, \<open>HeapSort::build\<close> leaves links
  unwritten, the destructor of the queue loses nodes, key 0 breaks the cache, the first push into
  the queue races with a reader, a map that was destroyed explicitly is destroyed again, a worker pool
  that still contains an element cannot be destroyed, and a dictionary that failed to load is not tried again until its file changes once more.

  \<^bold>\<open>Not modelled.\<close> Logging; the test of the CPU load monitor, an
  endless loop that prints what \<^verbatim>\<open>get_cpu_load\<close> returns; the register constraints and the alignment assertions
  around the inline assembly of \<^verbatim>\<open>lifo.hpp\<close>; \<^verbatim>\<open>ml_util/data_explore.py\<close>, a
  Python script. Weakly ordered memory is not modelled: \<^verbatim>\<open>Lifo\<close> and \<^verbatim>\<open>ArrayLock\<close> use locked
  instructions and fences, but the double-checked lock of \<^verbatim>\<open>ProcessSingleton\<close> uses neither.
\<close>

end
